(* ===== verification/Prelude.thy ===== *)
theory Prelude
  imports Main "HOL-Library.Word"
begin

text \<open>
  The vocabulary every component shares: fixed-width integers, the ways in which a call of the
  C program can fail to return (\<open>stop\<close>), the sequencing of calls (\<open>bindR\<close>), and byte buffers
  with bounds-checked access.  A C pointer into a buffer is the buffer together with an integer
  offset; an access outside the buffer is the value \<open>Inl Fault\<close>, never an unspecified byte.
\<close>

unbundle bit_operations_syntax

type_synonym u8 = "8 word"
type_synonym u16 = "16 word"
type_synonym u32 = "32 word"
type_synonym u64 = "64 word"

text \<open>
  The collections used by the component proofs: \<open>seq\<close> evaluates sequenced calls, \<open>mem\<close> evaluates
  buffer accesses whose bounds are known, \<open>sizes\<close> moves between C ints and \<open>size_t\<close>.
\<close>

named_theorems seq "evaluation of sequenced calls"
named_theorems mem "evaluation of in-range buffer accesses"
named_theorems sizes "comparisons of C ints with size_t values"

lemma ex_bool [simp]: "\<exists>b. b" "\<exists>b. \<not> b"
  by blast+

section \<open>Calls that may not return\<close>

text \<open>
  \<open>Hang\<close> is an endless \<open>while (1)\<close> of the source; \<open>Fault\<close> is an access outside an object (or
  through a null pointer) or a division by zero, after which C promises nothing.
\<close>

datatype stop = Hang | Fault

type_synonym 'a result = "stop + 'a"

definition bindR :: "'a result \<Rightarrow> ('a \<Rightarrow> 'b result) \<Rightarrow> 'b result" where
  "bindR m f = (case m of Inl e \<Rightarrow> Inl e | Inr x \<Rightarrow> f x)"

lemma bindR_Inl [simp, seq]: "bindR (Inl e) f = Inl e"
  by (simp add: bindR_def)

lemma bindR_Inr [simp, seq]: "bindR (Inr x) f = f x"
  by (simp add: bindR_def)

lemma bindR_assoc [seq]: "bindR (bindR m f) g = bindR m (\<lambda>x. bindR (f x) g)"
  by (cases m) simp_all

lemma bindR_eq_Inr_iff: "bindR m f = Inr y \<longleftrightarrow> (\<exists>x. m = Inr x \<and> f x = Inr y)"
  by (cases m) simp_all

lemma bindR_InrE:
  assumes "bindR m f = Inr y"
  obtains x where "m = Inr x" and "f x = Inr y"
  using assms by (auto simp: bindR_eq_Inr_iff)

lemma bindR_cong [fundef_cong]:
  "m = m' \<Longrightarrow> (\<And>x. m' = Inr x \<Longrightarrow> f x = f' x) \<Longrightarrow> bindR m f = bindR m' f'"
  by (cases m') simp_all

lemma bindR_if: "bindR (if b then m else m') f = (if b then bindR m f else bindR m' f)"
  by simp

text \<open>\<open>returns m Q\<close>: the call returns, and its result satisfies \<open>Q\<close> (total correctness).\<close>

definition returns :: "'a result \<Rightarrow> ('a \<Rightarrow> bool) \<Rightarrow> bool" where
  "returns m Q \<longleftrightarrow> (case m of Inl _ \<Rightarrow> False | Inr x \<Rightarrow> Q x)"

lemma returns_Inl [simp]: "returns (Inl e) Q \<longleftrightarrow> False"
  by (simp add: returns_def)

lemma returns_Inr [simp]: "returns (Inr x) Q \<longleftrightarrow> Q x"
  by (simp add: returns_def)

lemma returns_iff: "returns m Q \<longleftrightarrow> (\<exists>x. m = Inr x \<and> Q x)"
  by (cases m) auto

lemma returns_bindR [simp]: "returns (bindR m f) Q \<longleftrightarrow> returns m (\<lambda>x. returns (f x) Q)"
  by (cases m) auto

lemma returns_mono: "returns m P \<Longrightarrow> (\<And>x. m = Inr x \<Longrightarrow> P x \<Longrightarrow> Q x) \<Longrightarrow> returns m Q"
  by (cases m) auto

text \<open>
  \<open>safe m Q\<close>: the call does not fault, and if it returns, its result satisfies \<open>Q\<close>; it may hang.
\<close>

definition safe :: "'a result \<Rightarrow> ('a \<Rightarrow> bool) \<Rightarrow> bool" where
  "safe m Q \<longleftrightarrow> (case m of Inl e \<Rightarrow> e = Hang | Inr x \<Rightarrow> Q x)"

lemma safe_Inl [simp]: "safe (Inl e) Q \<longleftrightarrow> e = Hang"
  by (simp add: safe_def)

lemma safe_Inr [simp]: "safe (Inr x) Q \<longleftrightarrow> Q x"
  by (simp add: safe_def)

lemma safe_bindR [simp]: "safe (bindR m f) Q \<longleftrightarrow> safe m (\<lambda>x. safe (f x) Q)"
  by (cases m) auto

lemma safe_mono: "safe m P \<Longrightarrow> (\<And>x. m = Inr x \<Longrightarrow> P x \<Longrightarrow> Q x) \<Longrightarrow> safe m Q"
  by (cases m) auto

lemma safe_iff: "safe m Q \<longleftrightarrow> m \<noteq> Inl Fault \<and> (\<forall>x. m = Inr x \<longrightarrow> Q x)"
proof (cases m)
  case (Inl e)
  then show ?thesis by (cases e) auto
qed simp

lemma safeD: "safe m Q \<Longrightarrow> m = Inr x \<Longrightarrow> Q x"
  by simp

lemma safe_no_fault: "safe m Q \<Longrightarrow> m \<noteq> Inl Fault"
  by (auto simp: safe_iff)

lemma safe_conj: "safe m P \<Longrightarrow> safe m Q \<Longrightarrow> safe m (\<lambda>x. P x \<and> Q x)"
  by (cases m) auto

lemma returns_safe: "returns m Q \<Longrightarrow> safe m Q"
  by (cases m) auto

section \<open>C integer conversions\<close>

text \<open>
  An \<open>int\<close> of the source is modelled by \<open>int\<close>.  Where C compares an \<open>int\<close> with a \<open>sizeof\<close>
  expression it first converts the \<open>int\<close> to the 32-bit \<open>size_t\<close> of the target.
\<close>

definition size_t :: "int \<Rightarrow> u32" where
  "size_t i = word_of_int i"

lemma uint_size_t: "0 \<le> i \<Longrightarrow> i < 2 ^ 32 \<Longrightarrow> uint (size_t i) = i"
  by (simp add: size_t_def uint_word_of_int_eq take_bit_int_eq_self)

lemma size_t_le [sizes]:
  "0 \<le> i \<Longrightarrow> i < 2 ^ 31 \<Longrightarrow> size_t i \<le> c \<longleftrightarrow> i \<le> uint c"
  by (simp add: word_le_def uint_size_t)

lemma size_t_less [sizes]:
  "0 \<le> i \<Longrightarrow> i < 2 ^ 31 \<Longrightarrow> size_t i < c \<longleftrightarrow> i < uint c"
  by (simp add: word_less_def uint_size_t)

lemma le_size_t [sizes]:
  "0 \<le> i \<Longrightarrow> i < 2 ^ 31 \<Longrightarrow> c \<le> size_t i \<longleftrightarrow> uint c \<le> i"
  by (simp add: word_le_def uint_size_t)

lemma unat_bound: "unat (v :: 'a::len word) < 2 ^ LENGTH('a)"
  by (rule unsigned_less)

lemma unat_drop_bit: "unat (drop_bit n (v :: 'a::len word)) = unat v div 2 ^ n"
  by (subst unat_drop_bit_eq) (rule drop_bit_eq_div)

lemma unat_resize: "unat (ucast (v :: 'a::len word) :: 'b::len word) = unat v mod 2 ^ LENGTH('b)"
  by (simp add: unsigned_ucast_eq take_bit_eq_mod)

section \<open>Byte buffers\<close>

text \<open>The pure view of a buffer: a chunk of it, and its update by a run of bytes.\<close>

definition chunk :: "nat \<Rightarrow> nat \<Rightarrow> 'a list \<Rightarrow> 'a list" where
  "chunk off n d = take n (drop off d)"

definition upd :: "nat \<Rightarrow> 'a list \<Rightarrow> 'a list \<Rightarrow> 'a list" where
  "upd off bs d = take off d @ bs @ drop (off + length bs) d"

lemma length_chunk [simp]: "length (chunk off n d) = min n (length d - off)"
  by (simp add: chunk_def)

lemma length_upd [simp]: "off + length bs \<le> length d \<Longrightarrow> length (upd off bs d) = length d"
  by (simp add: upd_def)

lemma upd_Nil [simp]: "upd off [] d = d"
  by (simp add: upd_def)

lemma chunk_upd_same:
  "off + length bs \<le> length d \<Longrightarrow> n = length bs \<Longrightarrow> chunk off n (upd off bs d) = bs"
  by (simp add: chunk_def upd_def min_def)

lemma chunk_upd_before:
  "off + n \<le> off' \<Longrightarrow> off' \<le> length d \<Longrightarrow> chunk off n (upd off' bs d) = chunk off n d"
  by (auto simp: chunk_def upd_def min_def drop_take)

lemma chunk_upd_after:
  assumes "off' + length bs \<le> off" and "off' + length bs \<le> length d"
  shows "chunk off n (upd off' bs d) = chunk off n d"
proof -
  have "drop off (upd off' bs d) = drop off d"
    using assms by (simp add: upd_def min_def)
  then show ?thesis by (simp add: chunk_def)
qed

lemma chunk_upd_inside:
  assumes "off' \<le> off" and "off + n \<le> off' + length bs" and "off' + length bs \<le> length d"
  shows "chunk off n (upd off' bs d) = chunk (off - off') n bs"
  using assms by (simp add: chunk_def upd_def min_def)

lemma upd_append:
  assumes "off' = off + length as" and "off' + length bs \<le> length d"
  shows "upd off' bs (upd off as d) = upd off (as @ bs) d"
proof -
  from assms have "off \<le> length d" by simp
  with assms show ?thesis by (simp add: upd_def min_absorb2 ac_simps)
qed

lemma upd_prepend:
  assumes "off' = off + length as" and "off' + length bs \<le> length d"
  shows "upd off as (upd off' bs d) = upd off (as @ bs) d"
proof -
  from assms have "off \<le> length d" by simp
  with assms show ?thesis by (simp add: upd_def min_absorb2 ac_simps)
qed

lemma upd_overwrite:
  assumes "length as = length bs" and "off + length bs \<le> length d"
  shows "upd off as (upd off bs d) = upd off as d"
  using assms by (simp add: upd_def)

lemma nth_upd:
  assumes "off + length bs \<le> length d" and "i < length d"
  shows "upd off bs d ! i = (if off \<le> i \<and> i < off + length bs then bs ! (i - off) else d ! i)"
  using assms by (auto simp: upd_def nth_append)

lemma nth_chunk: "i < n \<Longrightarrow> off + n \<le> length d \<Longrightarrow> chunk off n d ! i = d ! (off + i)"
  by (simp add: chunk_def)

lemma chunk_append_chunk: "chunk off m d @ chunk (off + m) n d = chunk off (m + n) d"
  by (simp add: chunk_def take_add drop_drop add.commute)

lemma chunk_chunk: "i + m \<le> n \<Longrightarrow> chunk i m (chunk off n d) = chunk (off + i) m d"
  by (simp add: chunk_def drop_take min_def add.commute)

lemma chunk_full [simp]: "chunk 0 (length d) d = d"
  by (simp add: chunk_def)

text \<open>
  A header is written into a window of the buffer: the window is taken out, every field is written
  at its offset in it, and the whole run is put back.
\<close>

lemma upd_self: "off + n \<le> length d \<Longrightarrow> upd off (chunk off n d) d = d"
  by (rule nth_equalityI) (auto simp: nth_upd nth_chunk)

lemma upd_window:
  assumes "0 \<le> off" and "0 \<le> i" and "nat i + length bs \<le> length B" and "nat off + length B \<le> length d"
  shows "upd (nat (off + i)) bs (upd (nat off) B d) = upd (nat off) (upd (nat i) bs B) d"
proof (rule nth_equalityI)
  have n: "nat (off + i) = nat off + nat i" using assms by simp
  show "length (upd (nat (off + i)) bs (upd (nat off) B d)) = length (upd (nat off) (upd (nat i) bs B) d)"
    using assms by (simp add: n)
  fix j assume "j < length (upd (nat (off + i)) bs (upd (nat off) B d))"
  then have j: "j < length d" using assms by (simp add: n)
  have l: "length (upd (nat i) bs B) = length B" "length (upd (nat off) B d) = length d" using assms by simp_all
  show "upd (nat (off + i)) bs (upd (nat off) B d) ! j = upd (nat off) (upd (nat i) bs B) d ! j"
    using assms j l by (auto simp: nth_upd n)
qed

lemma upd_window_start:
  "0 \<le> off \<Longrightarrow> length bs \<le> length B \<Longrightarrow> nat off + length B \<le> length d \<Longrightarrow>
   upd (nat off) bs (upd (nat off) B d) = upd (nat off) (upd 0 bs B) d"
  using upd_window [of off 0 bs B d] by simp

lemma upd_window_nat:
  "i + length bs \<le> length B \<Longrightarrow> off + length B \<le> length d \<Longrightarrow>
   upd (off + i) bs (upd off B d) = upd off (upd i bs B) d"
  using upd_window [of "int off" "int i" bs B d] by (simp add: nat_add_distrib)

lemmas window = upd_window upd_window_start

lemma nth_upd_window:
  "0 \<le> off \<Longrightarrow> 0 \<le> i \<Longrightarrow> nat i < length B \<Longrightarrow> nat off + length B \<le> length d \<Longrightarrow>
   upd (nat off) B d ! nat (off + i) = B ! nat i"
  by (subst nth_upd) (simp_all add: nat_add_distrib)

text \<open>
  A window as the concatenation of its fields, so that a write to one field replaces one segment.
\<close>

lemma segments: "sum_list ns = length B \<Longrightarrow> \<exists>ss. B = concat ss \<and> map length ss = ns"
proof (induction ns arbitrary: B)
  case Nil
  then show ?case by (auto intro: exI [of _ "[]"])
next
  case (Cons n ns)
  then obtain ss where "drop n B = concat ss" "map length ss = ns"
    by (metis add_diff_cancel_left' length_drop sum_list.Cons)
  then have "B = concat (take n B # ss)" "map length (take n B # ss) = n # ns"
    using Cons.prems by (simp_all add: min_def) (metis append_take_drop_id)
  then show ?case by (intro exI [where x = "take n B # ss"] conjI)
qed

lemma upd_skip_Cons: "0 < n \<Longrightarrow> upd n bs (x # ys) = x # upd (n - 1) bs ys"
  by (simp add: upd_def take_Cons' drop_Cons')

lemma upd_skip: "length xs \<le> n \<Longrightarrow> upd n bs (xs @ ys) = xs @ upd (n - length xs) bs ys"
  by (simp add: upd_def)

lemma upd_hit: "length bs = length xs \<Longrightarrow> upd 0 bs (xs @ ys) = bs @ ys"
  by (simp add: upd_def)

lemma upd_all: "length bs = length xs \<Longrightarrow> upd 0 bs xs = bs"
  by (simp add: upd_def)

lemma upd_hit_Cons: "upd 0 [b] (x # ys) = b # ys"
  by (simp add: upd_def)

lemmas fields = upd_skip upd_skip_Cons upd_hit_Cons upd_hit upd_all

text \<open>The checked accesses: \<open>p[i]\<close> read and \<open>p[i] = b\<close>, at an integer offset.\<close>

definition in_range :: "'a list \<Rightarrow> int \<Rightarrow> bool" where
  "in_range d i \<longleftrightarrow> 0 \<le> i \<and> i < int (length d)"

definition get_byte :: "u8 list \<Rightarrow> int \<Rightarrow> u8 result" where
  "get_byte d i = (if in_range d i then Inr (d ! nat i) else Inl Fault)"

definition put_byte :: "u8 \<Rightarrow> u8 list \<Rightarrow> int \<Rightarrow> (u8 list) result" where
  "put_byte b d i = (if in_range d i then Inr (d[nat i := b]) else Inl Fault)"

lemma get_byte_ok [mem]: "0 \<le> i \<Longrightarrow> i < int (length d) \<Longrightarrow> get_byte d i = Inr (d ! nat i)"
  by (simp add: get_byte_def in_range_def)

lemma list_update_upd: "i < length d \<Longrightarrow> d[i := b] = upd i [b] d"
  by (simp add: upd_def upd_conv_take_nth_drop)

lemma put_byte_ok [mem]:
  "0 \<le> i \<Longrightarrow> i < int (length d) \<Longrightarrow> put_byte b d i = Inr (upd (nat i) [b] d)"
  by (simp add: put_byte_def in_range_def list_update_upd)

lemma put_byte_fault [mem]: "i < 0 \<or> int (length d) \<le> i \<Longrightarrow> put_byte b d i = Inl Fault"
  by (auto simp: put_byte_def in_range_def)

lemma get_byte_fault [mem]: "i < 0 \<or> int (length d) \<le> i \<Longrightarrow> get_byte d i = Inl Fault"
  by (auto simp: get_byte_def in_range_def)

lemma get_byte_within: "get_byte d i = Inr c \<Longrightarrow> 0 \<le> i \<and> i < int (length d)"
  by (auto simp: get_byte_def in_range_def split: if_splits)

section \<open>Reading ahead\<close>

text \<open>The bytes of \<open>d\<close> from \<open>off\<close> on, for parsers that walk over a buffer.\<close>

definition ahead :: "u8 list \<Rightarrow> int \<Rightarrow> u8 list \<Rightarrow> bool" where
  "ahead d off cs \<longleftrightarrow> 0 \<le> off \<and> drop (nat off) d = cs"

lemma ahead_get [simp]: "ahead d off (c # cs) \<Longrightarrow> get_byte d off = Inr c"
proof -
  assume a: "ahead d off (c # cs)"
  then have d: "drop (nat off) d = c # cs" and n: "0 \<le> off" by (simp_all add: ahead_def)
  then have "nat off < length d" by (metis drop_eq_Nil leI list.distinct(1))
  with n d show ?thesis by (simp add: get_byte_ok nth_via_drop)
qed

lemma ahead_next: "ahead d off (c # cs) \<Longrightarrow> ahead d (off + 1) cs"
  by (auto simp: ahead_def nat_add_distrib drop_Suc drop_tl)

lemma ahead_skip: "ahead d off (as @ cs) \<Longrightarrow> ahead d (off + int (length as)) cs"
proof (induction as arbitrary: off)
  case (Cons a as)
  from Cons.IH [OF ahead_next [of d off a "as @ cs"]] Cons.prems show ?case by (simp add: algebra_simps)
qed simp

end
