(* ===== verification/Libraries.thy ===== *)
theory Libraries
  imports Prelude "HOL-Library.Signed_Division"
begin

text \<open>
  The code the stack calls but does not contain: the intrusive lists of \<open>list.h\<close>, the clock of
  \<open>time.h\<close>, \<open>random.h\<close>, and the registers of the Ethernet controller that the hardware drives.
  None of it is defined here.  It is the record \<open>libs\<close>, an argument of every definition that
  calls it; what the proofs use of the lists is the locale \<open>intrusive_list\<close>.

  A \<open>ListNode\<close> is named by the index of the structure that contains it, so
  \<open>get_struct_containing_list_node\<close> is the identity; the nodes of packets, of ARP entries and of
  UDP connections live in three separate list memories of type \<open>'h\<close>.  The type \<open>'e\<close> is the state
  of everything outside the CPU and its memory: the clock, the random source and the controller.
\<close>

text \<open>The list heads of the program.\<close>

datatype list_head =
    Free_packets
  | Entry_queue nat       \<comment> \<open>\<open>arp_entries[i].packet_queue\<close>\<close>
  | Connection_queue nat  \<comment> \<open>\<open>connections[i].packet_queue\<close>\<close>
  | Free_entries
  | Used_entries
  | Free_connections
  | Used_connections

record ('e, 'h) libs =
  list_init :: "list_head \<Rightarrow> 'h \<Rightarrow> 'h"
  list_add_first :: "nat \<Rightarrow> list_head \<Rightarrow> 'h \<Rightarrow> 'h"
  list_add_last :: "nat \<Rightarrow> list_head \<Rightarrow> 'h \<Rightarrow> 'h"
  list_remove_first :: "list_head \<Rightarrow> 'h \<Rightarrow> nat option \<times> 'h"
  list_remove :: "nat \<Rightarrow> 'h \<Rightarrow> 'h"
  list_get_first :: "list_head \<Rightarrow> 'h \<Rightarrow> nat option"
  list_elements :: "list_head \<Rightarrow> 'h \<Rightarrow> nat list"  \<comment> \<open>the nodes \<open>list_iterate\<close> visits\<close>
  time_signed :: bool  \<comment> \<open>whether the type \<open>Time\<close> of \<open>time.h\<close> is signed\<close>
  get_time :: "'e \<Rightarrow> u32 \<times> 'e"
  get_elapsed :: "u32 \<Rightarrow> u32 \<Rightarrow> u32"
  random_word :: "'e \<Rightarrow> u32 \<times> 'e"
  read_TSR :: "'e \<Rightarrow> u32 \<times> 'e"
  read_NSR :: "'e \<Rightarrow> u32 \<times> 'e"
  read_MAN :: "'e \<Rightarrow> u32 \<times> 'e"
  write_MAN :: "u32 \<Rightarrow> 'e \<Rightarrow> 'e"
  set_gpio_function :: "nat \<Rightarrow> 'e \<Rightarrow> 'e"
  enable_peripheral_clock :: "nat \<Rightarrow> 'e \<Rightarrow> 'e"

text \<open>The part of the state that is outside the program's memory.\<close>

record 'e machine =
  env :: 'e

definition now :: "('e, 'h) libs \<Rightarrow> ('e, 'z) machine_scheme \<Rightarrow> u32 \<times> ('e, 'z) machine_scheme" where
  "now X w = (case get_time X (env w) of (t, e) \<Rightarrow> (t, w\<lparr>env := e\<rparr>))"

definition draw_random :: "('e, 'h) libs \<Rightarrow> ('e, 'z) machine_scheme \<Rightarrow> u32 \<times> ('e, 'z) machine_scheme" where
  "draw_random X w = (case random_word X (env w) of (r, e) \<Rightarrow> (r, w\<lparr>env := e\<rparr>))"

text \<open>
  \<open>Time\<close> is a 32-bit number; the repository does not say whether it has a sign.  Sums and products
  wrap to the same bits either way; comparing, dividing and taking remainders depend on it.
\<close>

definition time_value :: "('e, 'h) libs \<Rightarrow> u32 \<Rightarrow> int" where
  "time_value X t = (if time_signed X then sint t else uint t)"

definition time_less :: "('e, 'h) libs \<Rightarrow> u32 \<Rightarrow> u32 \<Rightarrow> bool" where
  "time_less X s t \<longleftrightarrow> time_value X s < time_value X t"

definition time_div :: "('e, 'h) libs \<Rightarrow> u32 \<Rightarrow> u32 \<Rightarrow> u32" where
  "time_div X s t = word_of_int (time_value X s sdiv time_value X t)"

definition time_mod :: "('e, 'h) libs \<Rightarrow> u32 \<Rightarrow> u32 \<Rightarrow> u32" where
  "time_mod X s t = word_of_int (time_value X s smod time_value X t)"

lemma time_value_small: "uint t < 2 ^ 31 \<Longrightarrow> time_value X t = uint t"
  using uint_ge_0 [of t] by (auto simp: time_value_def sint_uint intro!: signed_take_bit_int_eq_self order_trans [OF _ uint_ge_0])

section \<open>The contract of the lists\<close>

text \<open>
  \<open>ok S h\<close>: in the memory \<open>h\<close> the lists of \<open>S\<close> have been initialised and are well linked.  Adding
  a node asks that it is in none of them; what a call does to a node that is already linked is
  not promised.
\<close>

locale intrusive_list =
  fixes X :: "('e, 'h) libs"
    and ok :: "list_head set \<Rightarrow> 'h \<Rightarrow> bool"
  assumes ok_empty: "ok {} h"
    and init_ok: "ok S h \<Longrightarrow> ok (insert l S) (list_init X l h)"
    and init_elements: "ok S h \<Longrightarrow> k \<in> insert l S \<Longrightarrow>
      list_elements X k (list_init X l h) = (if k = l then [] else list_elements X k h)"
    and add_first_ok: "ok S h \<Longrightarrow> l \<in> S \<Longrightarrow> \<forall>k\<in>S. n \<notin> set (list_elements X k h) \<Longrightarrow>
      ok S (list_add_first X n l h)"
    and add_first_elements: "ok S h \<Longrightarrow> l \<in> S \<Longrightarrow> \<forall>k\<in>S. n \<notin> set (list_elements X k h) \<Longrightarrow> k \<in> S \<Longrightarrow>
      list_elements X k (list_add_first X n l h) =
        (if k = l then n # list_elements X l h else list_elements X k h)"
    and add_last_ok: "ok S h \<Longrightarrow> l \<in> S \<Longrightarrow> \<forall>k\<in>S. n \<notin> set (list_elements X k h) \<Longrightarrow>
      ok S (list_add_last X n l h)"
    and add_last_elements: "ok S h \<Longrightarrow> l \<in> S \<Longrightarrow> \<forall>k\<in>S. n \<notin> set (list_elements X k h) \<Longrightarrow> k \<in> S \<Longrightarrow>
      list_elements X k (list_add_last X n l h) =
        (if k = l then list_elements X l h @ [n] else list_elements X k h)"
    and remove_first_empty: "ok S h \<Longrightarrow> l \<in> S \<Longrightarrow> list_elements X l h = [] \<Longrightarrow>
      list_remove_first X l h = (None, h)"
    and remove_first_node: "ok S h \<Longrightarrow> l \<in> S \<Longrightarrow> list_elements X l h = n # ns \<Longrightarrow>
      fst (list_remove_first X l h) = Some n"
    and remove_first_ok: "ok S h \<Longrightarrow> l \<in> S \<Longrightarrow> ok S (snd (list_remove_first X l h))"
    and remove_first_elements: "ok S h \<Longrightarrow> l \<in> S \<Longrightarrow> k \<in> S \<Longrightarrow>
      list_elements X k (snd (list_remove_first X l h)) =
        (if k = l then tl (list_elements X l h) else list_elements X k h)"
    and remove_ok: "ok S h \<Longrightarrow> l \<in> S \<Longrightarrow> n \<in> set (list_elements X l h) \<Longrightarrow> ok S (list_remove X n h)"
    and remove_elements: "ok S h \<Longrightarrow> l \<in> S \<Longrightarrow> n \<in> set (list_elements X l h) \<Longrightarrow> k \<in> S \<Longrightarrow>
      list_elements X k (list_remove X n h) = remove1 n (list_elements X k h)"
    and get_first_node: "ok S h \<Longrightarrow> l \<in> S \<Longrightarrow>
      list_get_first X l h = (case list_elements X l h of [] \<Rightarrow> None | n # _ \<Rightarrow> Some n)"
begin

lemma remove_first_Some:
  assumes "ok S h" and "l \<in> S" and "list_elements X l h = n # ns"
  shows "list_remove_first X l h = (Some n, snd (list_remove_first X l h))"
  using remove_first_node [OF assms] by (metis prod.collapse)

lemma remove_first_cases:
  assumes "ok S h" and "l \<in> S"
  obtains (empty) "list_elements X l h = []" and "list_remove_first X l h = (None, h)"
  | (node) n h' where "list_elements X l h = n # list_elements X l h'"
      and "list_remove_first X l h = (Some n, h')" and "ok S h'"
      and "\<And>k. k \<in> S \<Longrightarrow> k \<noteq> l \<Longrightarrow> list_elements X k h' = list_elements X k h"
proof (cases "list_elements X l h")
  case Nil
  then show thesis using assms remove_first_empty that(1) by blast
next
  case (Cons n ns)
  let ?h = "snd (list_remove_first X l h)"
  have "list_elements X l ?h = ns"
    using assms Cons by (simp add: remove_first_elements)
  moreover have "ok S ?h" using assms by (rule remove_first_ok)
  moreover have "list_elements X k ?h = list_elements X k h" if "k \<in> S" "k \<noteq> l" for k
    using assms that by (simp add: remove_first_elements)
  ultimately show thesis
    using Cons remove_first_Some [OF assms Cons] by (intro that(2) [of n ?h]) simp_all
qed

lemma remove_first_nonempty:
  assumes "ok S h" and "l \<in> S" and "list_elements X l h \<noteq> []"
  obtains n h' where "list_remove_first X l h = (Some n, h')"
    and "list_elements X l h = n # list_elements X l h'" and "ok S h'"
    and "\<And>k. k \<in> S \<Longrightarrow> k \<noteq> l \<Longrightarrow> list_elements X k h' = list_elements X k h"
proof (rule remove_first_cases [OF assms(1,2)])
  assume "list_elements X l h = []"
  with assms(3) show thesis by contradiction
next
  fix n h'
  assume "list_elements X l h = n # list_elements X l h'" and "list_remove_first X l h = (Some n, h')"
    and "ok S h'" and "\<And>k. k \<in> S \<Longrightarrow> k \<noteq> l \<Longrightarrow> list_elements X k h' = list_elements X k h"
  then show thesis by (intro that [of n h'])
qed

end

section \<open>A list library that keeps the contract\<close>

text \<open>
  The contract can be met: lists held as sequences per list head, a clock and a random source that
  return a stored value, and a controller that reports no error.  The witnesses run on it.
\<close>

record ref_env =
  clock :: u32
  seed :: u32
  status :: u32

definition ref_libs :: "(ref_env, list_head \<Rightarrow> nat list) libs" where
  "ref_libs = \<lparr>
     list_init = (\<lambda>l h. h(l := [])),
     list_add_first = (\<lambda>n l h. h(l := n # h l)),
     list_add_last = (\<lambda>n l h. h(l := h l @ [n])),
     list_remove_first = (\<lambda>l h. case h l of [] \<Rightarrow> (None, h) | n # ns \<Rightarrow> (Some n, h(l := ns))),
     list_remove = (\<lambda>n h l. remove1 n (h l)),
     list_get_first = (\<lambda>l h. case h l of [] \<Rightarrow> None | n # _ \<Rightarrow> Some n),
     list_elements = (\<lambda>l h. h l),
     time_signed = False,
     get_time = (\<lambda>e. (clock e, e)),
     get_elapsed = (\<lambda>a b. b - a),
     random_word = (\<lambda>e. (seed e, e\<lparr>seed := 1664525 * seed e + 1013904223\<rparr>)),
     read_TSR = (\<lambda>e. (status e, e)),
     read_NSR = (\<lambda>e. (4, e)),
     read_MAN = (\<lambda>e. (0, e)),
     write_MAN = (\<lambda>_ e. e),
     set_gpio_function = (\<lambda>_ e. e),
     enable_peripheral_clock = (\<lambda>_ e. e)\<rparr>"

definition ref_ok :: "list_head set \<Rightarrow> (list_head \<Rightarrow> nat list) \<Rightarrow> bool" where
  "ref_ok S h \<longleftrightarrow> True"

interpretation ref: intrusive_list ref_libs ref_ok
  by unfold_locales (auto simp: ref_libs_def ref_ok_def split: list.splits)

end
