(* ===== verification/Utilities.thy ===== *)
theory Utilities
  imports Prelude "HOL-Library.Signed_Division"
begin

text \<open>
  The memory and byte-order helpers of \<open>utilities.h\<close>.  A pointer argument is a buffer and an
  integer offset into it.  Each loop is the loop of the source, with its index; the lemmas give
  the run of bytes it reads or writes when that run lies inside the buffer.
\<close>

section \<open>memory_copy, memory_fill, memory_compare, memory_move\<close>

function copy_up :: "int \<Rightarrow> u8 list \<Rightarrow> int \<Rightarrow> u8 list \<Rightarrow> int \<Rightarrow> int \<Rightarrow> (u8 list) result" where
  "copy_up i source start dest to n =
     (if i < n
      then bindR (get_byte source (start + i)) (\<lambda>b.
           bindR (put_byte b dest (to + i)) (\<lambda>dest.
           copy_up (i + 1) source start dest to n))
      else Inr dest)"
  by pat_completeness auto
termination by (relation "measure (\<lambda>(i, _, _, _, _, n). nat (n - i))") auto

declare copy_up.simps [simp del]

definition memory_copy :: "u8 list \<Rightarrow> int \<Rightarrow> u8 list \<Rightarrow> int \<Rightarrow> int \<Rightarrow> (u8 list) result" where
  "memory_copy source start dest to n = copy_up 0 source start dest to n"

function fill_up :: "int \<Rightarrow> u8 list \<Rightarrow> int \<Rightarrow> u8 \<Rightarrow> int \<Rightarrow> (u8 list) result" where
  "fill_up i dest to b n =
     (if i < n
      then bindR (put_byte b dest (to + i)) (\<lambda>dest. fill_up (i + 1) dest to b n)
      else Inr dest)"
  by pat_completeness auto
termination by (relation "measure (\<lambda>(i, _, _, _, n). nat (n - i))") auto

declare fill_up.simps [simp del]

definition memory_fill :: "u8 list \<Rightarrow> int \<Rightarrow> u8 \<Rightarrow> int \<Rightarrow> (u8 list) result" where
  "memory_fill dest to fill n = fill_up 0 dest to fill n"

function compare_up :: "int \<Rightarrow> u8 list \<Rightarrow> int \<Rightarrow> u8 list \<Rightarrow> int \<Rightarrow> int \<Rightarrow> bool result" where
  "compare_up i source1 start1 source2 start2 n =
     (if i < n
      then bindR (get_byte source1 (start1 + i)) (\<lambda>a.
           bindR (get_byte source2 (start2 + i)) (\<lambda>b.
           if a \<noteq> b then Inr False
           else compare_up (i + 1) source1 start1 source2 start2 n))
      else Inr True)"
  by pat_completeness auto
termination by (relation "measure (\<lambda>(i, _, _, _, _, n). nat (n - i))") auto

declare compare_up.simps [simp del]

definition memory_compare :: "u8 list \<Rightarrow> int \<Rightarrow> u8 list \<Rightarrow> int \<Rightarrow> int \<Rightarrow> bool result" where
  "memory_compare source1 start1 source2 start2 n =
     compare_up 0 source1 start1 source2 start2 n"

text \<open>\<open>memory_move\<close> works within one buffer, because its two pointers may overlap.\<close>

function move_up :: "int \<Rightarrow> u8 list \<Rightarrow> int \<Rightarrow> int \<Rightarrow> int \<Rightarrow> (u8 list) result" where
  "move_up i d start to n =
     (if i < n
      then bindR (get_byte d (start + i)) (\<lambda>b.
           bindR (put_byte b d (to + i)) (\<lambda>d. move_up (i + 1) d start to n))
      else Inr d)"
  by pat_completeness auto
termination by (relation "measure (\<lambda>(i, _, _, _, n). nat (n - i))") auto

function move_down :: "int \<Rightarrow> u8 list \<Rightarrow> int \<Rightarrow> int \<Rightarrow> (u8 list) result" where
  "move_down i d start to =
     (if i \<ge> 0
      then bindR (get_byte d (start + i)) (\<lambda>b.
           bindR (put_byte b d (to + i)) (\<lambda>d. move_down (i - 1) d start to))
      else Inr d)"
  by pat_completeness auto
termination by (relation "measure (\<lambda>(i, _, _, _). nat (i + 1))") auto

declare move_up.simps [simp del] move_down.simps [simp del]

definition memory_move :: "u8 list \<Rightarrow> int \<Rightarrow> int \<Rightarrow> int \<Rightarrow> (u8 list) result" where
  "memory_move d start to n =
     (if to = start then Inr d
      else if to > start then move_down n d start to
      else move_up 0 d start to n)"

section \<open>Big-endian reads and writes\<close>

definition read_be16 :: "u8 list \<Rightarrow> int \<Rightarrow> u16 result" where
  "read_be16 d off =
     bindR (get_byte d off) (\<lambda>b0. bindR (get_byte d (off + 1)) (\<lambda>b1.
     Inr (push_bit 8 (ucast b0) OR ucast b1)))"

definition read_be32 :: "u8 list \<Rightarrow> int \<Rightarrow> u32 result" where
  "read_be32 d off =
     bindR (get_byte d off) (\<lambda>b0. bindR (get_byte d (off + 1)) (\<lambda>b1.
     bindR (get_byte d (off + 2)) (\<lambda>b2. bindR (get_byte d (off + 3)) (\<lambda>b3.
     Inr (push_bit 24 (ucast b0) OR push_bit 16 (ucast b1) OR push_bit 8 (ucast b2) OR ucast b3)))))"

definition write_be16 :: "u16 \<Rightarrow> u8 list \<Rightarrow> int \<Rightarrow> (u8 list) result" where
  "write_be16 v d off =
     bindR (put_byte (ucast (drop_bit 8 v AND 0xFF)) d off) (\<lambda>d.
     put_byte (ucast (drop_bit 0 v AND 0xFF)) d (off + 1))"

definition write_be32 :: "u32 \<Rightarrow> u8 list \<Rightarrow> int \<Rightarrow> (u8 list) result" where
  "write_be32 v d off =
     bindR (put_byte (ucast (drop_bit 24 v AND 0xFF)) d off) (\<lambda>d.
     bindR (put_byte (ucast (drop_bit 16 v AND 0xFF)) d (off + 1)) (\<lambda>d.
     bindR (put_byte (ucast (drop_bit 8 v AND 0xFF)) d (off + 2)) (\<lambda>d.
     put_byte (ucast (drop_bit 0 v AND 0xFF)) d (off + 3))))"

definition write_be64 :: "u64 \<Rightarrow> u8 list \<Rightarrow> int \<Rightarrow> (u8 list) result" where
  "write_be64 v d off =
     bindR (put_byte (ucast (drop_bit 56 v AND 0xFF)) d off) (\<lambda>d.
     bindR (put_byte (ucast (drop_bit 48 v AND 0xFF)) d (off + 1)) (\<lambda>d.
     bindR (put_byte (ucast (drop_bit 40 v AND 0xFF)) d (off + 2)) (\<lambda>d.
     bindR (put_byte (ucast (drop_bit 32 v AND 0xFF)) d (off + 3)) (\<lambda>d.
     bindR (put_byte (ucast (drop_bit 24 v AND 0xFF)) d (off + 4)) (\<lambda>d.
     bindR (put_byte (ucast (drop_bit 16 v AND 0xFF)) d (off + 5)) (\<lambda>d.
     bindR (put_byte (ucast (drop_bit 8 v AND 0xFF)) d (off + 6)) (\<lambda>d.
     put_byte (ucast (drop_bit 0 v AND 0xFF)) d (off + 7))))))))"

definition align_up :: "int \<Rightarrow> int \<Rightarrow> int result" where
  "align_up value alignment =
     (if alignment = 0 then Inl Fault
      else Inr ((value + alignment - 1) sdiv alignment * alignment))"

section \<open>The loops as updates of a run of bytes\<close>

lemma copy_up_upd:
  assumes "0 \<le> i" and "i \<le> n" and "0 \<le> start" and "start + n \<le> int (length source)"
    and "0 \<le> to" and "to + n \<le> int (length dest)"
  shows "copy_up i source start dest to n =
    Inr (upd (nat (to + i)) (chunk (nat (start + i)) (nat (n - i)) source) dest)"
  using assms
proof (induction i source start dest to n rule: copy_up.induct)
  case (1 i source start dest to n)
  show ?case
  proof (cases "i < n")
    case False
    with "1.prems" show ?thesis by (subst copy_up.simps) (simp add: chunk_def)
  next
    case True
    let ?b = "source ! nat (start + i)"
    let ?d = "upd (nat (to + i)) [?b] dest"
    from True "1.prems" have len: "length ?d = length dest" by simp
    from True "1.prems" have get: "get_byte source (start + i) = Inr ?b"
      and put: "put_byte ?b dest (to + i) = Inr ?d"
      by (simp_all add: mem)
    have ih: "copy_up (i + 1) source start ?d to n =
        Inr (upd (nat (to + (i + 1))) (chunk (nat (start + (i + 1))) (nat (n - (i + 1))) source) ?d)"
      using True "1.prems" len by (intro "1.IH" [OF True get put]) simp_all
    have split: "chunk (nat (start + i)) (nat (n - i)) source =
        [?b] @ chunk (nat (start + (i + 1))) (nat (n - (i + 1))) source"
    proof -
      have lt: "nat (start + i) < length source" using True "1.prems" by simp
      have "nat (n - i) = Suc (nat (n - (i + 1)))" using True by simp
      moreover have "nat (start + (i + 1)) = Suc (nat (start + i))" using "1.prems" by simp
      ultimately show ?thesis
        using lt by (simp add: chunk_def Cons_nth_drop_Suc [symmetric])
    qed
    have merge: "upd (nat (to + (i + 1))) (chunk (nat (start + (i + 1))) (nat (n - (i + 1))) source) ?d =
        upd (nat (to + i)) (chunk (nat (start + i)) (nat (n - i)) source) dest"
      unfolding split using True "1.prems" by (intro upd_append) auto
    show ?thesis
      using True get put ih merge by (simp add: copy_up.simps [of i])
  qed
qed

lemma memory_copy_ok [mem]:
  assumes "0 \<le> n" and "0 \<le> start" and "start + n \<le> int (length source)"
    and "0 \<le> to" and "to + n \<le> int (length dest)"
  shows "memory_copy source start dest to n =
    Inr (upd (nat to) (chunk (nat start) (nat n) source) dest)"
  using copy_up_upd [where i = 0] assms by (simp add: memory_copy_def)

lemma read_be16_ok [mem]:
  "0 \<le> off \<Longrightarrow> off + 1 < int (length d) \<Longrightarrow>
   read_be16 d off = Inr (push_bit 8 (ucast (d ! nat off)) OR ucast (d ! nat (off + 1)))"
  by (simp add: read_be16_def mem)

lemma read_be32_ok [mem]:
  "0 \<le> off \<Longrightarrow> off + 3 < int (length d) \<Longrightarrow>
   read_be32 d off = Inr (push_bit 24 (ucast (d ! nat off)) OR push_bit 16 (ucast (d ! nat (off + 1)))
     OR push_bit 8 (ucast (d ! nat (off + 2))) OR ucast (d ! nat (off + 3)))"
  by (simp add: read_be32_def mem)

text \<open>The bytes of a big-endian field.\<close>

definition be16_bytes :: "u16 \<Rightarrow> u8 list" where
  "be16_bytes v = [ucast (drop_bit 8 v), ucast v]"

definition be32_bytes :: "u32 \<Rightarrow> u8 list" where
  "be32_bytes v = [ucast (drop_bit 24 v), ucast (drop_bit 16 v), ucast (drop_bit 8 v), ucast v]"

lemma length_be_bytes [simp]: "length (be16_bytes v) = 2" "length (be32_bytes w) = 4"
  by (simp_all add: be16_bytes_def be32_bytes_def)

lemma ucast_mask_byte [simp]:
  "(ucast (v AND 0xFF) :: u8) = ucast (v :: 'a::len word)"
  by (rule bit_word_eqI) (auto simp: bit_simps numeral_eq_Suc less_Suc_eq dest: bit_imp_le_length)

lemma write_be16_ok [mem]:
  assumes "0 \<le> off" and "off + 2 \<le> int (length d)"
  shows "write_be16 v d off = Inr (upd (nat off) (be16_bytes v) d)"
proof -
  have "upd (nat (off + 1)) [ucast v] (upd (nat off) [ucast (drop_bit 8 v)] d) =
      upd (nat off) ([ucast (drop_bit 8 v)] @ [ucast v]) d"
    using assms by (intro upd_append) auto
  then show ?thesis
    using assms by (simp add: write_be16_def mem be16_bytes_def)
qed


lemma chunk_byte: "i < length d \<Longrightarrow> chunk i 1 d = [d ! i]"
  by (simp add: chunk_def take_Suc_conv_app_nth)

lemma upd_next_byte:
  "off' = off + length as \<Longrightarrow> off' < length d \<Longrightarrow> upd off' [b] (upd off as d) = upd off (as @ [b]) d"
  by (rule upd_append) simp_all

lemma put_next_byte [mem]:
  "0 \<le> i \<Longrightarrow> nat i = off + length as \<Longrightarrow> nat i < length d \<Longrightarrow>
   put_byte b (upd off as d) i = Inr (upd off (as @ [b]) d)"
  by (simp add: put_byte_ok upd_next_byte)

lemma write_be32_ok [mem]:
  assumes "0 \<le> off" and "off + 4 \<le> int (length d)"
  shows "write_be32 v d off = Inr (upd (nat off) (be32_bytes v) d)"
proof -
  have n: "nat (off + 1) = nat off + 1" "nat (off + 2) = nat off + 2" "nat (off + 3) = nat off + 3"
    using assms by simp_all
  show ?thesis
    using assms by (simp add: write_be32_def mem be32_bytes_def n upd_next_byte)
qed

lemma write_next_be32 [mem]:
  assumes "0 \<le> i" and "nat i = off + length as" and "nat i + 4 \<le> length d"
  shows "write_be32 v (upd off as d) i = Inr (upd off (as @ be32_bytes v) d)"
proof -
  have "write_be32 v (upd off as d) i = Inr (upd (nat i) (be32_bytes v) (upd off as d))"
    using assms by (intro write_be32_ok) auto
  then show ?thesis using assms by (simp add: upd_append)
qed

lemma be16_of_bytes:
  "push_bit 8 (ucast (be16_bytes v ! 0)) OR ucast (be16_bytes v ! 1) = v"
  by (rule bit_word_eqI) (auto simp: be16_bytes_def bit_simps)

lemma be32_of_bytes:
  "push_bit 24 (ucast (be32_bytes v ! 0)) OR push_bit 16 (ucast (be32_bytes v ! 1))
     OR push_bit 8 (ucast (be32_bytes v ! 2)) OR ucast (be32_bytes v ! 3) = v" (is "?word = v")
proof (rule bit_word_eqI)
  fix n
  assume "n < LENGTH(32)"
  then show "bit ?word n = bit v n"
    by (cases "n < 8"; cases "n < 16"; cases "n < 24") (auto simp: be32_bytes_def bit_simps)
qed

lemma upd_prev_byte:
  "off' = off + length as \<Longrightarrow> off' < length d \<Longrightarrow> upd off as (upd off' [b] d) = upd off (as @ [b]) d"
  by (rule upd_prepend) simp_all

lemma chunk_snoc:
  "off + n < length d \<Longrightarrow> chunk off (Suc n) d = chunk off n d @ [d ! (off + n)]"
  by (simp add: chunk_def take_Suc_conv_app_nth)

lemma chunk_Cons:
  "off < length d \<Longrightarrow> chunk off (Suc n) d = d ! off # chunk (Suc off) n d"
  by (simp add: chunk_def Cons_nth_drop_Suc [symmetric])

lemma fill_up_upd:
  assumes "0 \<le> i" and "i \<le> n" and "0 \<le> to" and "to + n \<le> int (length dest)"
  shows "fill_up i dest to b n = Inr (upd (nat (to + i)) (replicate (nat (n - i)) b) dest)"
  using assms
proof (induction i dest to b n rule: fill_up.induct)
  case (1 i dest to b n)
  show ?case
  proof (cases "i < n")
    case False
    with "1.prems" show ?thesis by (subst fill_up.simps) simp
  next
    case True
    let ?d = "upd (nat (to + i)) [b] dest"
    from True "1.prems" have put: "put_byte b dest (to + i) = Inr ?d" and len: "length ?d = length dest"
      by (simp_all add: mem)
    have ih: "fill_up (i + 1) ?d to b n =
        Inr (upd (nat (to + (i + 1))) (replicate (nat (n - (i + 1))) b) ?d)"
      using True "1.prems" len by (intro "1.IH" [OF True put]) simp_all
    have "upd (nat (to + (i + 1))) (replicate (nat (n - (i + 1))) b) ?d =
        upd (nat (to + i)) ([b] @ replicate (nat (n - (i + 1))) b) dest"
      using True "1.prems" by (intro upd_append) auto
    moreover have "nat (n - i) = Suc (nat (n - (i + 1)))"
      using True by simp
    ultimately show ?thesis
      using True put ih by (subst fill_up.simps) simp
  qed
qed

lemma memory_fill_ok [mem]:
  assumes "0 \<le> n" and "0 \<le> to" and "to + n \<le> int (length dest)"
  shows "memory_fill dest to b n = Inr (upd (nat to) (replicate (nat n) b) dest)"
  using fill_up_upd [where i = 0] assms by (simp add: memory_fill_def)

lemma compare_up_chunk:
  assumes "0 \<le> i" and "i \<le> n" and "0 \<le> start1" and "start1 + n \<le> int (length source1)"
    and "0 \<le> start2" and "start2 + n \<le> int (length source2)"
  shows "compare_up i source1 start1 source2 start2 n =
    Inr (chunk (nat (start1 + i)) (nat (n - i)) source1 = chunk (nat (start2 + i)) (nat (n - i)) source2)"
  using assms
proof (induction i source1 start1 source2 start2 n rule: compare_up.induct)
  case (1 i source1 start1 source2 start2 n)
  show ?case
  proof (cases "i < n")
    case False
    with "1.prems" show ?thesis by (subst compare_up.simps) (simp add: chunk_def)
  next
    case True
    let ?a = "source1 ! nat (start1 + i)" and ?b = "source2 ! nat (start2 + i)"
    from True "1.prems" have get: "get_byte source1 (start1 + i) = Inr ?a"
      "get_byte source2 (start2 + i) = Inr ?b"
      by (simp_all add: mem)
    have step: "nat (n - i) = Suc (nat (n - (i + 1)))" "nat (start1 + (i + 1)) = Suc (nat (start1 + i))"
      "nat (start2 + (i + 1)) = Suc (nat (start2 + i))"
      using True "1.prems" by simp_all
    have lt: "nat (start1 + i) < length source1" "nat (start2 + i) < length source2"
      using True "1.prems" by simp_all
    show ?thesis
    proof (cases "?a = ?b")
      case False
      with True get step lt show ?thesis by (subst compare_up.simps) (simp add: chunk_Cons)
    next
      case eq: True
      have "compare_up (i + 1) source1 start1 source2 start2 n =
          Inr (chunk (nat (start1 + (i + 1))) (nat (n - (i + 1))) source1
             = chunk (nat (start2 + (i + 1))) (nat (n - (i + 1))) source2)"
        using True "1.prems" eq by (intro "1.IH" [OF True get]) simp_all
      with True get step lt eq show ?thesis by (subst compare_up.simps) (simp add: chunk_Cons)
    qed
  qed
qed

lemma memory_compare_ok [mem]:
  assumes "0 \<le> n" and "0 \<le> start1" and "start1 + n \<le> int (length source1)"
    and "0 \<le> start2" and "start2 + n \<le> int (length source2)"
  shows "memory_compare source1 start1 source2 start2 n =
    Inr (chunk (nat start1) (nat n) source1 = chunk (nat start2) (nat n) source2)"
  using compare_up_chunk [where i = 0] assms by (simp add: memory_compare_def)

lemma move_up_upd:
  assumes "0 \<le> i" and "i \<le> n" and "0 \<le> to" and "to < start" and "start + n \<le> int (length d)"
  shows "move_up i d start to n = Inr (upd (nat (to + i)) (chunk (nat (start + i)) (nat (n - i)) d) d)"
  using assms
proof (induction i d start to n rule: move_up.induct)
  case (1 i d start to n)
  show ?case
  proof (cases "i < n")
    case False
    with "1.prems" show ?thesis by (subst move_up.simps) (simp add: chunk_def)
  next
    case True
    let ?b = "d ! nat (start + i)"
    let ?d = "upd (nat (to + i)) [?b] d"
    let ?rest = "chunk (nat (start + (i + 1))) (nat (n - (i + 1))) d"
    from True "1.prems" have get: "get_byte d (start + i) = Inr ?b"
      and put: "put_byte ?b d (to + i) = Inr ?d" and len: "length ?d = length d"
      by (simp_all add: mem)
    have step: "nat (n - i) = Suc (nat (n - (i + 1)))" "nat (start + (i + 1)) = Suc (nat (start + i))"
      using True "1.prems" by simp_all
    have "chunk (nat (start + (i + 1))) (nat (n - (i + 1))) ?d = ?rest"
      using True "1.prems" by (intro chunk_upd_after) auto
    with "1.IH" [OF True get put] True "1.prems" len
    have ih: "move_up (i + 1) ?d start to n = Inr (upd (nat (to + (i + 1))) ?rest ?d)"
      by simp
    have "upd (nat (to + (i + 1))) ?rest ?d = upd (nat (to + i)) ([?b] @ ?rest) d"
      using True "1.prems" by (intro upd_append) auto
    moreover have "chunk (nat (start + i)) (nat (n - i)) d = [?b] @ ?rest"
      using True "1.prems" step by (simp add: chunk_Cons)
    ultimately show ?thesis
      using True get put ih by (subst move_up.simps) simp
  qed
qed

lemma move_down_upd:
  assumes "-1 \<le> i" and "0 \<le> start" and "start < to" and "to + i < int (length d)"
  shows "move_down i d start to = Inr (upd (nat to) (chunk (nat start) (nat (i + 1)) d) d)"
  using assms
proof (induction i d start to rule: move_down.induct)
  case (1 i d start to)
  show ?case
  proof (cases "i \<ge> 0")
    case False
    with "1.prems" show ?thesis by (subst move_down.simps) (simp add: chunk_def)
  next
    case True
    let ?b = "d ! nat (start + i)"
    let ?d = "upd (nat (to + i)) [?b] d"
    from True "1.prems" have get: "get_byte d (start + i) = Inr ?b"
      and put: "put_byte ?b d (to + i) = Inr ?d" and len: "length ?d = length d"
      by (simp_all add: mem)
    have same: "chunk (nat start) (nat i) ?d = chunk (nat start) (nat i) d"
      using True "1.prems" by (intro chunk_upd_before) auto
    have "move_down (i - 1) ?d start to = Inr (upd (nat to) (chunk (nat start) (nat (i - 1 + 1)) ?d) ?d)"
      using True "1.prems" len by (intro "1.IH" [OF True get put]) simp_all
    then have ih: "move_down (i - 1) ?d start to = Inr (upd (nat to) (chunk (nat start) (nat i) d) ?d)"
      by (simp add: same)
    have "upd (nat to) (chunk (nat start) (nat i) d) ?d = upd (nat to) (chunk (nat start) (nat i) d @ [?b]) d"
      using True "1.prems" by (intro upd_prev_byte) auto
    moreover have "chunk (nat start) (nat (i + 1)) d = chunk (nat start) (nat i) d @ [?b]"
    proof -
      have "nat (i + 1) = Suc (nat i)" "nat (start + i) = nat start + nat i"
        using True "1.prems" by simp_all
      then show ?thesis using True "1.prems" by (simp add: chunk_snoc)
    qed
    ultimately show ?thesis
      using True get put ih by (subst move_down.simps) simp
  qed
qed

section \<open>Big-endian fields as a codec\<close>

text \<open>
  What the header code relies on: a field write lays down the bytes \<open>enc v\<close> when the field lies
  in the buffer and faults when it does not, and a read returns \<open>v\<close> exactly when those bytes are
  there.  The two widths with both operations are instances.
\<close>

locale be_field =
  fixes wr :: "'v \<Rightarrow> u8 list \<Rightarrow> int \<Rightarrow> (u8 list) result"
    and rd :: "u8 list \<Rightarrow> int \<Rightarrow> 'v result"
    and enc :: "'v \<Rightarrow> u8 list"
    and width :: nat
  assumes enc_width: "length (enc v) = width"
    and wr_ok: "0 \<le> off \<Longrightarrow> off + int width \<le> int (length d) \<Longrightarrow> wr v d off = Inr (upd (nat off) (enc v) d)"
    and wr_out: "off < 0 \<or> int (length d) < off + int width \<Longrightarrow> wr v d off = Inl Fault"
    and rd_enc: "0 \<le> off \<Longrightarrow> off + int width \<le> int (length d) \<Longrightarrow>
      rd d off = Inr v \<longleftrightarrow> chunk (nat off) width d = enc v"
    and rd_in: "0 \<le> off \<Longrightarrow> off + int width \<le> int (length d) \<Longrightarrow> \<exists>v. rd d off = Inr v"
    and rd_out: "off < 0 \<or> int (length d) < off + int width \<Longrightarrow> rd d off = Inl Fault"
begin

lemma field_rw:
  assumes "0 \<le> off" and "off + int width \<le> int (length d)"
  shows "bindR (wr v d off) (\<lambda>d. rd d off) = Inr v"
proof -
  let ?d = "upd (nat off) (enc v) d"
  have "length ?d = length d" and "chunk (nat off) width ?d = enc v"
    using assms by (simp_all add: enc_width chunk_upd_same)
  then have "rd ?d off = Inr v" using assms by (simp add: rd_enc)
  then show ?thesis using assms by (simp add: wr_ok)
qed

lemma field_in_run:
  assumes "off' \<le> nat off" and "0 \<le> off" and "nat off + width \<le> off' + length bs"
    and "off' + length bs \<le> length d" and "chunk (nat off - off') width bs = enc v"
  shows "rd (upd off' bs d) off = Inr v"
proof -
  from assms have "chunk (nat off) width (upd off' bs d) = enc v"
    by (simp add: chunk_upd_inside)
  then show ?thesis using assms by (subst rd_enc) auto
qed

lemma field_outside_run:
  assumes "0 \<le> off" and "nat off + width \<le> off' \<or> off' + length bs \<le> nat off"
    and "off' + length bs \<le> length d" and "nat off + width \<le> length d"
  shows "rd (upd off' bs d) off = rd d off"
proof -
  have "chunk (nat off) width (upd off' bs d) = chunk (nat off) width d"
    using assms by (auto simp: chunk_upd_before chunk_upd_after)
  moreover have "length (upd off' bs d) = length d" using assms by simp
  ultimately have "rd (upd off' bs d) off = Inr v \<longleftrightarrow> rd d off = Inr v" for v
    using assms by (simp add: rd_enc)
  moreover have "off + int width \<le> int (length d)" using assms by linarith
  then obtain v where "rd d off = Inr v"
    using rd_in assms(1) by blast
  ultimately show ?thesis by simp
qed

lemma field_value_unique:
  "rd d off = Inr v \<Longrightarrow> rd d' off = Inr v' \<Longrightarrow>
   chunk (nat off) width d = chunk (nat off) width d' \<Longrightarrow> enc v = enc v'"
  by (metis rd_enc rd_out Inl_Inr_False linorder_not_less)

end

lemma chunk_2: "i + 1 < length d \<Longrightarrow> chunk i 2 d = [d ! i, d ! (i + 1)]"
  by (simp add: numeral_eq_Suc chunk_Cons) (simp add: chunk_def)

lemma chunk_4:
  "i + 3 < length d \<Longrightarrow> chunk i 4 d = [d ! i, d ! (i + 1), d ! (i + 2), d ! (i + 3)]"
  by (simp add: numeral_eq_Suc chunk_Cons) (simp add: chunk_def)

lemma be16_bytes_of: "be16_bytes (push_bit 8 (ucast b0) OR ucast b1) = [b0, b1]"
  unfolding be16_bytes_def list.inject
  by (intro conjI refl; rule bit_word_eqI) (auto simp: bit_simps dest: bit_imp_le_length)

lemma be16_bytes_iff:
  "push_bit 8 (ucast b0) OR ucast b1 = v \<longleftrightarrow> [b0, b1] = be16_bytes v"
  using be16_bytes_of [of b0 b1] be16_of_bytes [of v]
  by (auto simp: be16_bytes_def)

lemma be32_bytes_of:
  "be32_bytes (push_bit 24 (ucast b0) OR push_bit 16 (ucast b1) OR push_bit 8 (ucast b2) OR ucast b3)
     = [b0, b1, b2, b3]"
  unfolding be32_bytes_def list.inject
  by (intro conjI refl; rule bit_word_eqI) (auto simp: bit_simps dest: bit_imp_le_length)

lemma be32_bytes_iff:
  "push_bit 24 (ucast b0) OR push_bit 16 (ucast b1) OR push_bit 8 (ucast b2) OR ucast b3 = v \<longleftrightarrow>
   [b0, b1, b2, b3] = be32_bytes v"
  using be32_bytes_of [of b0 b1 b2 b3] be32_of_bytes [of v]
  by (auto simp: be32_bytes_def)

lemma write_be16_out: "off < 0 \<or> int (length d) < off + 2 \<Longrightarrow> write_be16 v d off = Inl Fault"
  by (cases "off < 0 \<or> int (length d) \<le> off") (auto simp: write_be16_def mem put_byte_def in_range_def)

lemma read_be16_out: "off < 0 \<or> int (length d) < off + 2 \<Longrightarrow> read_be16 d off = Inl Fault"
  by (cases "off < 0 \<or> int (length d) \<le> off") (auto simp: read_be16_def mem get_byte_def in_range_def)

lemma write_be32_out: "off < 0 \<or> int (length d) < off + 4 \<Longrightarrow> write_be32 v d off = Inl Fault"
  by (auto simp: write_be32_def put_byte_def in_range_def)

lemma read_be32_out: "off < 0 \<or> int (length d) < off + 4 \<Longrightarrow> read_be32 d off = Inl Fault"
  by (auto simp: read_be32_def get_byte_def in_range_def)

lemma be_bytes_exist: "\<exists>v. [b0, b1] = be16_bytes v" "\<exists>v. [b0, b1, b2, b3] = be32_bytes v"
  using be16_bytes_of be32_bytes_of by metis+

interpretation be16: be_field write_be16 read_be16 be16_bytes 2
  by unfold_locales
    (simp_all add: write_be16_ok write_be16_out read_be16_out read_be16_ok be16_bytes_iff chunk_2 nat_add_distrib be_bytes_exist)

interpretation be32: be_field write_be32 read_be32 be32_bytes 4
  by unfold_locales
    (simp_all add: write_be32_ok write_be32_out read_be32_out read_be32_ok be32_bytes_iff chunk_4 nat_add_distrib be_bytes_exist)

section \<open>Writes keep the size of the buffer\<close>

definition keeps_length :: "(u8 list \<Rightarrow> (u8 list) result) \<Rightarrow> bool" where
  "keeps_length f \<longleftrightarrow> (\<forall>d d'. f d = Inr d' \<longrightarrow> length d' = length d)"

lemma keeps_lengthD: "keeps_length f \<Longrightarrow> f d = Inr d' \<Longrightarrow> length d' = length d"
  by (simp add: keeps_length_def)

lemma keeps_length_put [intro, simp]: "keeps_length (\<lambda>d. put_byte b d i)"
  by (simp add: keeps_length_def put_byte_def)

lemma keeps_length_return [intro, simp]: "keeps_length Inr"
  by (simp add: keeps_length_def)

lemma keeps_length_bind [intro]:
  "keeps_length f \<Longrightarrow> keeps_length g \<Longrightarrow> keeps_length (\<lambda>d. bindR (f d) g)"
  by (fastforce simp: keeps_length_def bindR_eq_Inr_iff)

lemma keeps_length_read [intro]:
  "(\<And>x. keeps_length (g x)) \<Longrightarrow> keeps_length (\<lambda>d. bindR (f d) (\<lambda>x. g x d))"
  by (fastforce simp: keeps_length_def bindR_eq_Inr_iff)

lemma keeps_length_be16 [intro, simp]: "keeps_length (\<lambda>d. write_be16 v d i)"
  unfolding write_be16_def by (intro keeps_length_bind keeps_length_put)

lemma keeps_length_be32 [intro, simp]: "keeps_length (\<lambda>d. write_be32 v d i)"
  unfolding write_be32_def by (intro keeps_length_bind keeps_length_put)

lemma copy_up_length: "copy_up i source start dest to n = Inr dest' \<Longrightarrow> length dest' = length dest"
proof (induction i source start dest to n rule: copy_up.induct)
  case (1 i source start dest to n)
  show ?case
  proof (cases "i < n")
    case False
    with "1.prems" show ?thesis by (simp add: copy_up.simps [of i])
  next
    case True
    with "1.prems" obtain b d where get: "get_byte source (start + i) = Inr b"
      and put: "put_byte b dest (to + i) = Inr d" and rec: "copy_up (i + 1) source start d to n = Inr dest'"
      by (subst (asm) copy_up.simps) (auto simp: bindR_eq_Inr_iff)
    from "1.IH" [OF True get put rec] show ?thesis
      using put keeps_lengthD [OF keeps_length_put] by simp
  qed
qed

lemma keeps_length_copy [intro, simp]: "keeps_length (\<lambda>d. memory_copy source start d to n)"
  by (simp add: keeps_length_def memory_copy_def copy_up_length)

lemma memory_copy_out:
  assumes "0 < n" and "0 \<le> start" and "start < int (length source)" and "to < 0 \<or> int (length dest) \<le> to"
  shows "memory_copy source start dest to n = Inl Fault"
  using assms unfolding memory_copy_def by (subst copy_up.simps) (simp add: mem)

section \<open>Reads that cannot fault\<close>

lemma safe_get_byte:
  "0 \<le> off \<Longrightarrow> off < int (length d) \<Longrightarrow> (\<And>b. get_byte d off = Inr b \<Longrightarrow> safe (f b) Q) \<Longrightarrow>
   safe (bindR (get_byte d off) f) Q"
  by (simp add: mem)

lemma safe_read_be16:
  assumes "0 \<le> off" and "off + 2 \<le> int (length d)" and "\<And>v. read_be16 d off = Inr v \<Longrightarrow> safe (f v) Q"
  shows "safe (bindR (read_be16 d off) f) Q"
  using be16.rd_in [OF assms(1)] assms(2,3) by force

lemma safe_read_be32:
  assumes "0 \<le> off" and "off + 4 \<le> int (length d)" and "\<And>v. read_be32 d off = Inr v \<Longrightarrow> safe (f v) Q"
  shows "safe (bindR (read_be32 d off) f) Q"
  using be32.rd_in [OF assms(1)] assms(2,3) by force

lemmas safe_reads = safe_get_byte safe_read_be16 safe_read_be32

end
