(* ===== verification/Network.thy ===== *)
theory Network
  imports Libraries Utilities "HOL-Library.Multiset"
begin

text \<open>
  \<open>network.h\<close> and the packet pool of \<open>network.c\<close>: the packet structure, the pool of 96 packets,
  allocation and release, and the global addresses.  A \<open>NetworkPacket*\<close> is the index of the packet
  in \<open>network_packets\<close>.  (\<open>network_init\<close>, \<open>network_task\<close> and \<open>set_our_mac\<close> call the other
  components and are in theory \<open>Stack\<close>.)
\<close>

section \<open>Data\<close>

abbreviation NETWORK_PACKET_SIZE :: int where "NETWORK_PACKET_SIZE \<equiv> 1024"
abbreviation NETWORK_PACKET_HEADER_SIZE :: int where "NETWORK_PACKET_HEADER_SIZE \<equiv> 144"
abbreviation NETWORK_PACKET_USER_SIZE :: int where
  "NETWORK_PACKET_USER_SIZE \<equiv> NETWORK_PACKET_SIZE - NETWORK_PACKET_HEADER_SIZE"
abbreviation NETWORK_PACKET_COUNT :: nat where "NETWORK_PACKET_COUNT \<equiv> 96"

type_synonym mac = "u8 list"

record packet =
  data :: "u8 list"
  index :: int
  plength :: int
  broadcast :: bool
  senders_ip :: u32
  target_ip :: u32
  source_port :: u16

record ('e, 'h) net_state = "'e machine" +
  packets :: "nat \<Rightarrow> packet"
  packet_lists :: 'h
  our_mac :: mac
  our_ip :: u32
  our_netmask :: u32

text \<open>Assignment through a packet pointer, and a buffer write that can fault.\<close>

definition set_packet ::
  "nat \<Rightarrow> (packet \<Rightarrow> packet) \<Rightarrow> ('e, 'h, 'z) net_state_scheme \<Rightarrow> ('e, 'h, 'z) net_state_scheme" where
  "set_packet p f w = w\<lparr>packets := (packets w)(p := f (packets w p))\<rparr>"

definition with_data ::
  "nat \<Rightarrow> (u8 list \<Rightarrow> (u8 list) result) \<Rightarrow> ('e, 'h, 'z) net_state_scheme \<Rightarrow>
   (('e, 'h, 'z) net_state_scheme) result" where
  "with_data p f w = bindR (f (data (packets w p))) (\<lambda>d. Inr (set_packet p (\<lambda>k. k\<lparr>data := d\<rparr>) w))"

section \<open>Operations\<close>

text \<open>The pool part of \<open>network_init\<close>: an empty list, then every packet added at its front.\<close>

definition init_packet_pool ::
  "('e, 'h) libs \<Rightarrow> ('e, 'h, 'z) net_state_scheme \<Rightarrow> ('e, 'h, 'z) net_state_scheme" where
  "init_packet_pool X w = w\<lparr>packet_lists :=
     fold (\<lambda>i. list_add_first X i Free_packets) [0..<NETWORK_PACKET_COUNT]
       (list_init X Free_packets (packet_lists w))\<rparr>"

definition allocate_network_packet ::
  "('e, 'h) libs \<Rightarrow> ('e, 'h, 'z) net_state_scheme \<Rightarrow> (nat \<times> ('e, 'h, 'z) net_state_scheme) result" where
  "allocate_network_packet X w =
     (case list_remove_first X Free_packets (packet_lists w) of
        (None, h) \<Rightarrow> Inl Hang
      | (Some p, h) \<Rightarrow>
          Inr (p, set_packet p (\<lambda>k. k\<lparr>plength := 0, index := NETWORK_PACKET_HEADER_SIZE\<rparr>)
                    (w\<lparr>packet_lists := h\<rparr>)))"

definition free_network_packet ::
  "('e, 'h) libs \<Rightarrow> nat \<Rightarrow> ('e, 'h, 'z) net_state_scheme \<Rightarrow> ('e, 'h, 'z) net_state_scheme" where
  "free_network_packet X p w = w\<lparr>packet_lists := list_add_first X p Free_packets (packet_lists w)\<rparr>"

definition set_our_ip :: "u32 \<Rightarrow> ('e, 'h, 'z) net_state_scheme \<Rightarrow> ('e, 'h, 'z) net_state_scheme" where
  "set_our_ip ip w = w\<lparr>our_ip := ip\<rparr>"

definition get_our_ip :: "('e, 'h, 'z) net_state_scheme \<Rightarrow> u32" where
  "get_our_ip w = our_ip w"

definition set_our_netmask :: "u32 \<Rightarrow> ('e, 'h, 'z) net_state_scheme \<Rightarrow> ('e, 'h, 'z) net_state_scheme" where
  "set_our_netmask netmask w = w\<lparr>our_netmask := netmask\<rparr>"

definition get_our_netmask :: "('e, 'h, 'z) net_state_scheme \<Rightarrow> u32" where
  "get_our_netmask w = our_netmask w"

definition get_our_mac :: "('e, 'h, 'z) net_state_scheme \<Rightarrow> mac" where
  "get_our_mac w = our_mac w"

text \<open>
  The loop that empties a packet queue and hands each packet to \<open>body\<close>, which \<open>arp.c\<close> has twice.
  Whether it ends depends on the list library, so it is a partial function; \<open>loop\<close> reads a run
  that does not end as \<open>Hang\<close>.
\<close>

partial_function (option) drain ::
  "('e, 'h) libs \<Rightarrow> list_head \<Rightarrow>
   (nat \<Rightarrow> ('e, 'h, 'z) net_state_scheme \<Rightarrow> (('e, 'h, 'z) net_state_scheme) result) \<Rightarrow>
   ('e, 'h, 'z) net_state_scheme \<Rightarrow> (('e, 'h, 'z) net_state_scheme) result option" where
  "drain X l body w =
     (case list_remove_first X l (packet_lists w) of
        (None, h) \<Rightarrow> Some (Inr (w\<lparr>packet_lists := h\<rparr>))
      | (Some p, h) \<Rightarrow>
          (case body p (w\<lparr>packet_lists := h\<rparr>) of
             Inl e \<Rightarrow> Some (Inl e)
           | Inr w' \<Rightarrow> drain X l body w'))"

definition loop :: "'a result option \<Rightarrow> 'a result" where
  "loop r = (case r of None \<Rightarrow> Inl Hang | Some m \<Rightarrow> m)"

lemma loop_simps [simp]: "loop None = Inl Hang" "loop (Some m) = m"
  by (simp_all add: loop_def)

section \<open>Frame facts\<close>

lemma set_packet_frame [simp]:
  "packet_lists (set_packet p f w) = packet_lists w"
  "our_mac (set_packet p f w) = our_mac w"
  "our_ip (set_packet p f w) = our_ip w"
  "our_netmask (set_packet p f w) = our_netmask w"
  "env (set_packet p f w) = env w"
  by (simp_all add: set_packet_def)

lemma packets_set_packet [simp]:
  "packets (set_packet p f w) q = (if q = p then f (packets w p) else packets w q)"
  by (simp add: set_packet_def)

lemma with_data_Inr:
  "f (data (packets w p)) = Inr d \<Longrightarrow> with_data p f w = Inr (set_packet p (\<lambda>k. k\<lparr>data := d\<rparr>) w)"
  by (simp add: with_data_def)

section \<open>The pool\<close>

text \<open>
  Where a packet can be linked: the free list, the queue of an ARP entry or the queue of a UDP
  connection.  \<open>pool X ok H h\<close> says that the lists of the memory \<open>h\<close> are well linked and that the
  packets in them together with the packets \<open>H\<close> (held by code or by the driver's rings) are the
  96 packets of the program, each exactly once.
\<close>

definition packet_heads :: "list_head set" where
  "packet_heads = insert Free_packets (Entry_queue ` {..<8} \<union> Connection_queue ` {..<16})"

definition listed :: "('e, 'h) libs \<Rightarrow> 'h \<Rightarrow> nat multiset" where
  "listed X h = (\<Sum>l\<in>packet_heads. mset (list_elements X l h))"

definition all_packets :: "nat multiset" where
  "all_packets = mset_set {..<NETWORK_PACKET_COUNT}"

definition pool :: "('e, 'h) libs \<Rightarrow> (list_head set \<Rightarrow> 'h \<Rightarrow> bool) \<Rightarrow> nat multiset \<Rightarrow> 'h \<Rightarrow> bool" where
  "pool X ok H h \<longleftrightarrow> ok packet_heads h \<and> listed X h + H = all_packets"

lemma finite_packet_heads [simp, intro]: "finite packet_heads"
  by (simp add: packet_heads_def)

lemma in_packet_heads [simp, intro]:
  "Free_packets \<in> packet_heads" "i < 8 \<Longrightarrow> Entry_queue i \<in> packet_heads"
  "i < 16 \<Longrightarrow> Connection_queue i \<in> packet_heads"
  by (auto simp: packet_heads_def)

lemma listed_split:
  "l \<in> packet_heads \<Longrightarrow>
   listed X h = mset (list_elements X l h) + (\<Sum>k\<in>packet_heads - {l}. mset (list_elements X k h))"
  by (simp add: listed_def sum.remove)

lemma listed_change:
  assumes "l \<in> packet_heads"
    and "\<And>k. k \<in> packet_heads \<Longrightarrow> k \<noteq> l \<Longrightarrow> list_elements X k h' = list_elements X k h"
  shows "listed X h' + mset (list_elements X l h) = listed X h + mset (list_elements X l h')"
proof -
  have "(\<Sum>k\<in>packet_heads - {l}. mset (list_elements X k h')) =
        (\<Sum>k\<in>packet_heads - {l}. mset (list_elements X k h))"
    using assms(2) by (intro sum.cong) auto
  then show ?thesis by (simp add: listed_split [OF assms(1)])
qed

lemma listed_member: "l \<in> packet_heads \<Longrightarrow> p \<in> set (list_elements X l h) \<Longrightarrow> p \<in># listed X h"
  by (simp add: listed_split)

lemma count_all_packets: "count all_packets p = (if p < NETWORK_PACKET_COUNT then 1 else 0)"
  by (simp add: all_packets_def)

lemma pool_fresh:
  assumes "pool X ok (add_mset p H) h" and "l \<in> packet_heads"
  shows "p \<notin> set (list_elements X l h)"
proof
  assume "p \<in> set (list_elements X l h)"
  with assms(2) have "p \<in># listed X h" by (rule listed_member)
  then have "1 \<le> count (listed X h) p" by (simp add: Suc_leI)
  moreover have "count (listed X h + add_mset p H) p = count all_packets p"
    using assms(1) by (simp add: pool_def)
  ultimately show False by (simp add: count_all_packets count_eq_zero_iff split: if_splits)
qed

lemma pool_bound: "pool X ok (add_mset p H) h \<Longrightarrow> p < NETWORK_PACKET_COUNT"
proof -
  assume "pool X ok (add_mset p H) h"
  then have "count (listed X h + add_mset p H) p = count all_packets p"
    by (simp add: pool_def)
  then show ?thesis by (simp add: count_all_packets split: if_splits)
qed

lemma pool_fresh_held:
  assumes "pool X ok (add_mset p H) h"
  shows "p \<notin># H"
proof -
  have "count (listed X h + add_mset p H) p = count all_packets p"
    using assms by (simp add: pool_def)
  then have "count H p = 0" by (simp add: count_all_packets split: if_splits)
  then show ?thesis by (simp add: count_eq_zero_iff)
qed

context intrusive_list
begin

lemma pool_lists: "pool X ok H h \<Longrightarrow> ok packet_heads h"
  by (simp add: pool_def)

lemma pool_add_first:
  assumes "pool X ok (add_mset p H) h" and "l \<in> packet_heads"
  shows "pool X ok H (list_add_first X p l h)"
proof -
  have fresh: "\<forall>k\<in>packet_heads. p \<notin> set (list_elements X k h)"
    using pool_fresh [OF assms(1)] by blast
  have ok: "ok packet_heads h" using assms(1) by (rule pool_lists)
  have "listed X (list_add_first X p l h) + mset (list_elements X l h) =
      listed X h + mset (list_elements X l (list_add_first X p l h))"
    by (rule listed_change) (use ok fresh assms(2) in \<open>simp_all add: add_first_elements\<close>)
  then have "listed X (list_add_first X p l h) = add_mset p (listed X h)"
    using ok fresh assms(2) by (simp add: add_first_elements)
  then show ?thesis
    using assms ok fresh by (simp add: pool_def add_first_ok)
qed

lemma pool_add_last:
  assumes "pool X ok (add_mset p H) h" and "l \<in> packet_heads"
  shows "pool X ok H (list_add_last X p l h)"
proof -
  have fresh: "\<forall>k\<in>packet_heads. p \<notin> set (list_elements X k h)"
    using pool_fresh [OF assms(1)] by blast
  have ok: "ok packet_heads h" using assms(1) by (rule pool_lists)
  have "listed X (list_add_last X p l h) + mset (list_elements X l h) =
      listed X h + mset (list_elements X l (list_add_last X p l h))"
    by (rule listed_change) (use ok fresh assms(2) in \<open>simp_all add: add_last_elements\<close>)
  then have "listed X (list_add_last X p l h) = add_mset p (listed X h)"
    using ok fresh assms(2) by (simp add: add_last_elements)
  then show ?thesis
    using assms ok fresh by (simp add: pool_def add_last_ok)
qed

lemma pool_add_elements:
  assumes "pool X ok (add_mset p H) h" and "l \<in> packet_heads" and "k \<in> packet_heads"
  shows "list_elements X k (list_add_first X p l h) =
      (if k = l then p # list_elements X l h else list_elements X k h)"
    and "list_elements X k (list_add_last X p l h) =
      (if k = l then list_elements X l h @ [p] else list_elements X k h)"
proof -
  have "\<forall>k\<in>packet_heads. p \<notin> set (list_elements X k h)"
    using pool_fresh [OF assms(1)] by blast
  then show "list_elements X k (list_add_first X p l h) =
      (if k = l then p # list_elements X l h else list_elements X k h)"
    and "list_elements X k (list_add_last X p l h) =
      (if k = l then list_elements X l h @ [p] else list_elements X k h)"
    using assms pool_lists [OF assms(1)] by (simp_all add: add_first_elements add_last_elements)
qed

lemma pool_remove_first:
  assumes "pool X ok H h" and "l \<in> packet_heads" and "list_remove_first X l h = (Some p, h')"
  shows "pool X ok (add_mset p H) h'" and "list_elements X l h = p # list_elements X l h'"
    and "\<And>k. k \<in> packet_heads \<Longrightarrow> k \<noteq> l \<Longrightarrow> list_elements X k h' = list_elements X k h"
proof -
  have ok: "ok packet_heads h" using assms(1) by (rule pool_lists)
  show els: "list_elements X l h = p # list_elements X l h'"
    and other: "\<And>k. k \<in> packet_heads \<Longrightarrow> k \<noteq> l \<Longrightarrow> list_elements X k h' = list_elements X k h"
    using remove_first_cases [OF ok assms(2)] assms(3) by auto
  have "ok packet_heads h'"
    using remove_first_ok [OF ok assms(2)] assms(3) by simp
  moreover have "listed X h' + mset (list_elements X l h) = listed X h + mset (list_elements X l h')"
    using assms(2) other by (rule listed_change)
  ultimately show "pool X ok (add_mset p H) h'"
    using assms(1) els by (simp add: pool_def) (metis union_mset_add_mset_left)
qed

lemma pool_remove_none:
  assumes "pool X ok H h" and "l \<in> packet_heads" and "list_remove_first X l h = (None, h')"
  shows "h' = h" and "list_elements X l h = []"
  using remove_first_cases [OF pool_lists [OF assms(1)] assms(2)] assms(3) by auto

end

section \<open>Allocation and release\<close>

text \<open>The contract the driver and the protocols rely on when they allocate and release packets.\<close>

locale packet_pool =
  fixes alloc :: "'s \<Rightarrow> (nat \<times> 's) result"
    and release :: "nat \<Rightarrow> 's \<Rightarrow> 's"
    and held :: "nat multiset \<Rightarrow> 's \<Rightarrow> bool"
    and avail :: "'s \<Rightarrow> nat"
  assumes alloc_some: "held H s \<Longrightarrow> 0 < avail s \<Longrightarrow>
      \<exists>p s'. alloc s = Inr (p, s') \<and> held (add_mset p H) s' \<and> avail s = Suc (avail s')"
    and alloc_none: "held H s \<Longrightarrow> avail s = 0 \<Longrightarrow> alloc s = Inl Hang"
    and release_held: "held (add_mset p H) s \<Longrightarrow> held H (release p s)"
    and release_avail: "held (add_mset p H) s \<Longrightarrow> avail (release p s) = Suc (avail s)"
    and capacity: "held H s \<Longrightarrow> avail s + size H \<le> NETWORK_PACKET_COUNT"
begin

lemma alloc_held: "held H s \<Longrightarrow> alloc s = Inr (p, s') \<Longrightarrow> held (add_mset p H) s' \<and> avail s = Suc (avail s')"
  using alloc_some alloc_none by (cases "avail s") fastforce+

lemma alloc_returns_iff: "held H s \<Longrightarrow> (\<exists>r. alloc s = Inr r) \<longleftrightarrow> 0 < avail s"
  using alloc_some alloc_none by (cases "avail s") fastforce+

lemma alloc_never_faults: "held H s \<Longrightarrow> alloc s \<noteq> Inl Fault"
  using alloc_some alloc_none by (cases "avail s") fastforce+

lemma alloc_release: "held H s \<Longrightarrow> alloc s = Inr (p, s') \<Longrightarrow>
   held H (release p s') \<and> avail (release p s') = avail s"
  using alloc_held release_held release_avail by fastforce

lemma alloc_fresh: "held H s \<Longrightarrow> alloc s = Inr (p, s') \<Longrightarrow> size H < NETWORK_PACKET_COUNT"
  using alloc_held capacity by fastforce

end

definition available :: "('e, 'h) libs \<Rightarrow> ('e, 'h, 'z) net_state_scheme \<Rightarrow> nat" where
  "available X w = length (list_elements X Free_packets (packet_lists w))"

definition pool_inv ::
  "('e, 'h) libs \<Rightarrow> (list_head set \<Rightarrow> 'h \<Rightarrow> bool) \<Rightarrow> nat multiset \<Rightarrow> ('e, 'h, 'z) net_state_scheme \<Rightarrow> bool" where
  "pool_inv X ok H w \<longleftrightarrow> pool X ok H (packet_lists w)"

lemma pool_size: "pool X ok H h \<Longrightarrow> size (listed X h) + size H = NETWORK_PACKET_COUNT"
  by (metis all_packets_def card_lessThan pool_def size_mset_set size_union)

lemma length_le_listed: "l \<in> packet_heads \<Longrightarrow> length (list_elements X l h) \<le> size (listed X h)"
  by (simp add: listed_split)

context intrusive_list
begin

lemma allocate_Inr:
  assumes "pool X ok H (packet_lists w)" and "allocate_network_packet X w = Inr (p, w')"
  shows "pool X ok (add_mset p H) (packet_lists w')"
    and "list_elements X Free_packets (packet_lists w) = p # list_elements X Free_packets (packet_lists w')"
    and "\<And>k. k \<in> packet_heads \<Longrightarrow> k \<noteq> Free_packets \<Longrightarrow>
      list_elements X k (packet_lists w') = list_elements X k (packet_lists w)"
    and "w' = w\<lparr>packet_lists := packet_lists w',
      packets := (packets w)(p := (packets w p)\<lparr>plength := 0, index := NETWORK_PACKET_HEADER_SIZE\<rparr>)\<rparr>"
  using assms pool_remove_first [OF assms(1) in_packet_heads(1)]
  by (auto simp: allocate_network_packet_def set_packet_def split: option.splits prod.splits)

lemma allocate_Hang:
  assumes "pool X ok H (packet_lists w)"
  shows "list_elements X Free_packets (packet_lists w) = [] \<longleftrightarrow> allocate_network_packet X w = Inl Hang"
  using assms pool_remove_first [OF assms in_packet_heads(1)] pool_remove_none [OF assms in_packet_heads(1)]
  by (auto simp: allocate_network_packet_def split: option.splits prod.splits)

lemma allocate_cases:
  assumes "pool X ok H (packet_lists w)"
  obtains (none) "list_elements X Free_packets (packet_lists w) = []" and "allocate_network_packet X w = Inl Hang"
  | (packet) p w' where "allocate_network_packet X w = Inr (p, w')"
proof (cases "allocate_network_packet X w")
  case (Inl e)
  then have "e = Hang"
    by (auto simp: allocate_network_packet_def split: option.splits prod.splits)
  with Inl show thesis using allocate_Hang [OF assms] none by blast
next
  case (Inr r)
  then show thesis using packet by (cases r) simp
qed

lemma free_pool:
  assumes "pool X ok (add_mset p H) (packet_lists w)"
  shows "pool X ok H (packet_lists (free_network_packet X p w))"
    and "\<And>k. k \<in> packet_heads \<Longrightarrow> list_elements X k (packet_lists (free_network_packet X p w)) =
      (if k = Free_packets then p # list_elements X k (packet_lists w) else list_elements X k (packet_lists w))"
  using pool_add_first [OF assms in_packet_heads(1)] pool_add_elements [OF assms in_packet_heads(1)]
  by (simp_all add: free_network_packet_def)

end

sublocale intrusive_list \<subseteq> pool: packet_pool "allocate_network_packet X" "free_network_packet X"
    "pool_inv X ok" "available X"
proof (unfold_locales, goal_cases)
  case (1 H s)
  then show ?case
    using allocate_cases [of H s] allocate_Inr [of H s] by (fastforce simp: pool_inv_def available_def)
next
  case (2 H s)
  then show ?case using allocate_Hang [of H s] by (simp add: pool_inv_def available_def)
next
  case (3 p H s)
  then show ?case using free_pool(1) by (simp add: pool_inv_def)
next
  case (4 p H s)
  then show ?case using free_pool(2) [of p H s Free_packets] by (simp add: pool_inv_def available_def)
next
  case (5 H s)
  then have "pool X ok H (packet_lists s)" by (simp add: pool_inv_def)
  from pool_size [OF this] show ?case
    using length_le_listed [of Free_packets X "packet_lists s"] by (simp add: available_def)
qed

section \<open>What a call leaves alone\<close>

text \<open>
  \<open>untouched X L w w'\<close>: the packet queues other than those of \<open>L\<close> hold the same packets in the same
  order, and these packets have not been written to.
\<close>

definition untouched ::
  "('e, 'h) libs \<Rightarrow> list_head set \<Rightarrow> ('e, 'h, 'z) net_state_scheme \<Rightarrow> ('e, 'h, 'z) net_state_scheme \<Rightarrow> bool" where
  "untouched X L w w' \<longleftrightarrow> (\<forall>k\<in>packet_heads. k \<noteq> Free_packets \<longrightarrow> k \<notin> L \<longrightarrow>
     list_elements X k (packet_lists w') = list_elements X k (packet_lists w) \<and>
     (\<forall>p\<in>set (list_elements X k (packet_lists w)). packets w' p = packets w p))"

lemma untouched_refl [simp]: "untouched X L w w"
  by (simp add: untouched_def)

lemma untouched_trans: "untouched X L w w' \<Longrightarrow> untouched X L w' w'' \<Longrightarrow> untouched X L w w''"
  by (simp add: untouched_def)

lemma untouched_mono: "untouched X L w w' \<Longrightarrow> L \<subseteq> M \<Longrightarrow> untouched X M w w'"
  by (auto simp: untouched_def)

lemma untouched_trans_mono:
  "untouched X L w w' \<Longrightarrow> untouched X M w' w'' \<Longrightarrow> L \<subseteq> N \<Longrightarrow> M \<subseteq> N \<Longrightarrow> untouched X N w w''"
  by (blast intro: untouched_trans untouched_mono)

lemma untouched_queue:
  "untouched X L w w' \<Longrightarrow> k \<in> packet_heads \<Longrightarrow> k \<noteq> Free_packets \<Longrightarrow> k \<notin> L \<Longrightarrow>
   list_elements X k (packet_lists w') = list_elements X k (packet_lists w)"
  by (simp add: untouched_def)

lemma untouched_packet:
  "untouched X L w w' \<Longrightarrow> k \<in> packet_heads \<Longrightarrow> k \<noteq> Free_packets \<Longrightarrow> k \<notin> L \<Longrightarrow>
   p \<in> set (list_elements X k (packet_lists w)) \<Longrightarrow> packets w' p = packets w p"
  by (simp add: untouched_def)

lemma untouched_lists:
  "(\<And>k. k \<in> packet_heads \<Longrightarrow> k \<noteq> Free_packets \<Longrightarrow> k \<notin> L \<Longrightarrow>
     list_elements X k (packet_lists w') = list_elements X k (packet_lists w)) \<Longrightarrow>
   packets w' = packets w \<Longrightarrow> untouched X L w w'"
  by (simp add: untouched_def)

lemma untouched_same_lists:
  assumes "pool X ok (add_mset p H) (packet_lists w)" and "packet_lists w' = packet_lists w"
    and "\<And>q. q \<noteq> p \<Longrightarrow> packets w' q = packets w q"
  shows "untouched X L w w'"
  using assms pool_fresh [OF assms(1)] by (auto simp: untouched_def) metis

lemma queue_heads [simp]:
  "Entry_queue i \<noteq> Free_packets" "Connection_queue i \<noteq> Free_packets"
  "Free_packets \<noteq> Entry_queue i" "Free_packets \<noteq> Connection_queue i"
  by simp_all

section \<open>Draining a queue into a sink\<close>

text \<open>
  Several operations take over a packet from their caller: release it, hand it to the driver, send
  it.  The contract they share: under an invariant \<open>J H\<close> in which the packets \<open>H\<close> are held, \<open>sink p\<close>
  for a \<open>good\<close> packet does not fault, gives up \<open>p\<close> and leaves the packet queues alone.  The drain
  loop over such an operation ends, with the queue empty and every packet of it given up.
\<close>

locale packet_sink = intrusive_list X ok for X :: "('e, 'h) libs" and ok +
  fixes sink :: "nat \<Rightarrow> ('e, 'h, 'z) net_state_scheme \<Rightarrow> (('e, 'h, 'z) net_state_scheme) result"
    and J :: "nat multiset \<Rightarrow> ('e, 'h, 'z) net_state_scheme \<Rightarrow> bool"
    and good :: "packet \<Rightarrow> bool"
  assumes sink_safe: "J (add_mset p H) w \<Longrightarrow> good (packets w p) \<Longrightarrow>
      safe (sink p w) (\<lambda>w'. J H w' \<and> untouched X {} w w')"
    and take_lists: "J H w \<Longrightarrow> ok packet_heads (packet_lists w)"
    and take_inv: "J H w \<Longrightarrow> k \<in> packet_heads \<Longrightarrow> k \<noteq> Free_packets \<Longrightarrow>
      list_remove_first X k (packet_lists w) = (Some p, h) \<Longrightarrow> J (add_mset p H) (w\<lparr>packet_lists := h\<rparr>)"
begin

lemma drain_safe:
  assumes "J H w" and "l \<in> packet_heads" and "l \<noteq> Free_packets"
    and "\<forall>p\<in>set (list_elements X l (packet_lists w)). good (packets w p)"
  shows "\<exists>r. drain X l sink w = Some r \<and>
    safe r (\<lambda>w'. J H w' \<and> list_elements X l (packet_lists w') = [] \<and> untouched X {l} w w')"
  using assms
proof (induction "length (list_elements X l (packet_lists w))" arbitrary: w)
  case 0
  then have "list_remove_first X l (packet_lists w) = (None, packet_lists w)"
    by (auto intro: remove_first_empty take_lists)
  with 0 show ?case by (subst drain.simps) simp
next
  case (Suc n)
  obtain p h where rm: "list_remove_first X l (packet_lists w) = (Some p, h)"
    and els: "list_elements X l (packet_lists w) = p # list_elements X l h"
    and other: "\<And>k. k \<in> packet_heads \<Longrightarrow> k \<noteq> l \<Longrightarrow> list_elements X k h = list_elements X k (packet_lists w)"
    using remove_first_nonempty [OF take_lists [OF Suc.prems(1)] Suc.prems(2)] Suc.hyps(2)
    by (metis Zero_not_Suc list.size(3))
  let ?w = "w\<lparr>packet_lists := h\<rparr>"
  have inv: "J (add_mset p H) ?w" using Suc.prems rm by (blast intro: take_inv)
  have u1: "untouched X {l} w ?w" by (rule untouched_lists) (use other in auto)
  have "good (packets ?w p)" using Suc.prems(4) els by simp
  note s = sink_safe [OF inv this]
  show ?case
  proof (cases "sink p ?w")
    case (Inl e)
    with rm s show ?thesis by (subst drain.simps) simp
  next
    case (Inr w1)
    from safeD [OF s Inr] have J1: "J H w1" and u2: "untouched X {} ?w w1" by simp_all
    have q1: "list_elements X l (packet_lists w1) = list_elements X l h"
      using untouched_queue [OF u2 Suc.prems(2,3)] by simp
    have "\<forall>q\<in>set (list_elements X l (packet_lists w1)). good (packets w1 q)"
      using Suc.prems(4) els q1 untouched_packet [OF u2 Suc.prems(2,3)] by simp
    moreover have "n = length (list_elements X l (packet_lists w1))"
      using Suc.hyps(2) els q1 by simp
    ultimately obtain r where r: "drain X l sink w1 = Some r"
      and r': "safe r (\<lambda>w'. J H w' \<and> list_elements X l (packet_lists w') = [] \<and> untouched X {l} w1 w')"
      using Suc.hyps(1) [OF _ J1 Suc.prems(2,3)] by blast
    have u3: "untouched X {l} w w1" using u1 untouched_mono [OF u2] by (blast intro: untouched_trans)
    have "drain X l sink w = Some r" using rm Inr r by (subst drain.simps) simp
    moreover have "safe r (\<lambda>w'. J H w' \<and> list_elements X l (packet_lists w') = [] \<and> untouched X {l} w w')"
      using r' by (rule safe_mono) (blast intro: untouched_trans [OF u3])
    ultimately show ?thesis by blast
  qed
qed

lemma loop_drain_safe:
  assumes "J H w" and "l \<in> packet_heads" and "l \<noteq> Free_packets"
    and "\<forall>p\<in>set (list_elements X l (packet_lists w)). good (packets w p)"
  shows "safe (loop (drain X l sink w))
    (\<lambda>w'. J H w' \<and> list_elements X l (packet_lists w') = [] \<and> untouched X {l} w w')"
  using drain_safe [OF assms] by auto

text \<open>When no single call hangs, neither does the loop.\<close>

lemma loop_drain_returns:
  assumes "J H w" and "l \<in> packet_heads" and "l \<noteq> Free_packets"
    and "\<forall>p\<in>set (list_elements X l (packet_lists w)). good (packets w p)"
    and "\<And>p H w. J (add_mset p H) w \<Longrightarrow> good (packets w p) \<Longrightarrow> sink p w \<noteq> Inl Hang"
  shows "returns (loop (drain X l sink w))
    (\<lambda>w'. J H w' \<and> list_elements X l (packet_lists w') = [] \<and> untouched X {l} w w')"
proof -
  have "loop (drain X l sink w) \<noteq> Inl Hang"
    using assms(1,4)
  proof (induction "length (list_elements X l (packet_lists w))" arbitrary: w)
    case 0
    then have "list_remove_first X l (packet_lists w) = (None, packet_lists w)"
      using assms(2) by (auto intro: remove_first_empty take_lists)
    then show ?case by (subst drain.simps) simp
  next
    case (Suc n)
    obtain p h where rm: "list_remove_first X l (packet_lists w) = (Some p, h)"
      and els: "list_elements X l (packet_lists w) = p # list_elements X l h"
      using remove_first_nonempty [OF take_lists [OF Suc.prems(1)] assms(2)] Suc.hyps(2)
      by (metis Zero_not_Suc list.size(3))
    let ?w = "w\<lparr>packet_lists := h\<rparr>"
    have inv: "J (add_mset p H) ?w" using Suc.prems rm assms(2,3) by (blast intro: take_inv)
    have gd: "good (packets ?w p)" using Suc.prems(2) els by simp
    note s = sink_safe [OF inv gd]
    have "sink p ?w \<noteq> Inl Hang" "sink p ?w \<noteq> Inl Fault" using inv gd assms(5) safe_no_fault [OF s] by blast+
    then obtain w1 where w1: "sink p ?w = Inr w1" by (metis (full_types) stop.exhaust sum.exhaust)
    from safeD [OF s w1] have J1: "J H w1" and u2: "untouched X {} ?w w1" by simp_all
    have q1: "list_elements X l (packet_lists w1) = list_elements X l h"
      using untouched_queue [OF u2 assms(2,3)] by simp
    have "\<forall>q\<in>set (list_elements X l (packet_lists w1)). good (packets w1 q)"
      using Suc.prems(2) els q1 untouched_packet [OF u2 assms(2,3)] by simp
    then have "loop (drain X l sink w1) \<noteq> Inl Hang"
      using Suc.hyps els q1 J1 by simp
    moreover have "drain X l sink w = drain X l sink w1" using rm w1 by (subst drain.simps) simp
    ultimately show ?case by simp
  qed
  then show ?thesis
    using loop_drain_safe [OF assms(1-4)] by (cases "loop (drain X l sink w)") (auto)
qed

end

end
