(* ===== verification/Gmac.thy ===== *)
theory Gmac
  imports Network
begin

text \<open>
  The Ethernet driver \<open>driver/gmac.c\<close>: the transmit and receive descriptor rings shared with the
  DMA engine, the packets linked into them, and the control registers.  The bit-fields of a
  descriptor that the driver uses are fields of a record of the same width; a DMA address is the
  packet it points into (and, for transmission, the offset in its buffer).  Status registers, which
  the hardware writes, are read from the environment.
\<close>

section \<open>Data\<close>

abbreviation RECEIVE_DESCRIPTOR_COUNT :: nat where "RECEIVE_DESCRIPTOR_COUNT \<equiv> 32"
abbreviation TRANSMIT_DESCRIPTOR_COUNT :: nat where "TRANSMIT_DESCRIPTOR_COUNT \<equiv> 8"

abbreviation PHY_REGISTER_BASIC_STATUS :: u8 where "PHY_REGISTER_BASIC_STATUS \<equiv> 1"
abbreviation PHY_REGISTER_AUTO_NEGOTIATION_LINK_PARTNER_ABILITY :: u8 where
  "PHY_REGISTER_AUTO_NEGOTIATION_LINK_PARTNER_ABILITY \<equiv> 5"

datatype owner = OWNER_GMAC | OWNER_CPU

record rx_descriptor =
  rx_owner :: owner
  rx_wrap :: bool
  rx_address :: "nat option"
  rx_length :: "13 word"
  fcs_status :: bool
  start_of_frame :: bool
  end_of_frame :: bool
  cfi :: bool
  vlan_priority :: "3 word"
  priority_tag :: bool
  vlan_detected :: bool
  checksum_status :: "2 word"
  snap_status :: bool
  address_match_status :: "2 word"
  address_match :: bool
  rx_reserved0 :: bool
  unicast_hash_match :: bool
  multicast_hash_match :: bool
  broadcast_detected :: bool

record tx_descriptor =
  tx_address :: "(nat \<times> int) option"
  tx_length :: "14 word"
  tx_reserved0 :: bool
  last_buffer :: bool
  ignore_crc :: bool
  tx_reserved1 :: "3 word"
  crc_errors :: "3 word"
  tx_reserved2 :: "3 word"
  late_collision :: bool
  ahb_error :: bool
  underrun :: bool
  retry_limit_exceeded :: bool
  tx_wrap :: bool
  tx_owner :: owner

datatype ring = Tx_ring | Rx_ring

record gmac_registers =
  NCR :: u32
  NCFGR :: u32
  UR :: u32
  DCFGR :: u32
  SA_BOTTOM :: u32
  SA_TOP :: u32
  TBQB :: "ring option"
  RBQB :: "ring option"

record ('e, 'h) gmac_state = "('e, 'h) net_state" +
  tx_descriptors :: "tx_descriptor list"
  rx_descriptors :: "rx_descriptor list"
  tx_packets :: "nat list"
  rx_packets :: "nat list"
  tx_index :: nat
  rx_index :: nat
  regs :: gmac_registers

section \<open>The PHY\<close>

text \<open>The polling loop \<open>while ((GMAC->NSR & (1 << 2)) == 0)\<close>; it ends only if the hardware says so.\<close>

partial_function (option) wait_mdio :: "('e, 'h) libs \<Rightarrow> 'e \<Rightarrow> ('e result) option" where
  "wait_mdio X e =
     (case read_NSR X e of (nsr, e) \<Rightarrow>
        if nsr AND push_bit 2 1 = 0 then wait_mdio X e else Some (Inr e))"

definition phy_write_register ::
  "('e, 'h) libs \<Rightarrow> u8 \<Rightarrow> u16 \<Rightarrow> ('e, 'h, 'z) gmac_state_scheme \<Rightarrow> (('e, 'h, 'z) gmac_state_scheme) result" where
  "phy_write_register X address v w =
     bindR (loop (wait_mdio X (write_MAN X (push_bit 30 1 OR push_bit 28 1 OR push_bit 18 (ucast address)
                     OR push_bit 17 1 OR ucast v) (env w)))) (\<lambda>e.
     Inr (w\<lparr>env := e\<rparr>))"

definition phy_read_register ::
  "('e, 'h) libs \<Rightarrow> u8 \<Rightarrow> ('e, 'h, 'z) gmac_state_scheme \<Rightarrow> (u16 \<times> ('e, 'h, 'z) gmac_state_scheme) result" where
  "phy_read_register X address w =
     bindR (loop (wait_mdio X (write_MAN X (push_bit 30 1 OR push_bit 29 1 OR push_bit 18 (ucast address)
                     OR push_bit 17 1) (env w)))) (\<lambda>e.
     case read_MAN X e of (man, e) \<Rightarrow> Inr (ucast man, w\<lparr>env := e\<rparr>))"

definition update_phy_settings ::
  "('e, 'h) libs \<Rightarrow> ('e, 'h, 'z) gmac_state_scheme \<Rightarrow> (('e, 'h, 'z) gmac_state_scheme) result" where
  "update_phy_settings X w =
     bindR (phy_read_register X PHY_REGISTER_BASIC_STATUS w) (\<lambda>(status, w).
     if status AND push_bit 5 1 = 0 then Inr w
     else
       bindR (phy_read_register X PHY_REGISTER_AUTO_NEGOTIATION_LINK_PARTNER_ABILITY w) (\<lambda>(status, w).
       let (full_speed, full_duplex) =
         (if status AND (push_bit 7 1 OR push_bit 8 1) \<noteq> 0 then (True, status AND push_bit 8 1 \<noteq> 0)
          else if status AND push_bit 6 1 \<noteq> 0 then (False, True)
          else (False, False));
         r = regs w;
         r = r\<lparr>NCR := NCR r AND NOT (push_bit 2 1 OR push_bit 3 1)\<rparr>;
         r = r\<lparr>NCFGR := (NCFGR r AND NOT 3) OR push_bit 1 (of_bool full_duplex) OR of_bool full_speed\<rparr>;
         r = r\<lparr>NCR := NCR r OR (push_bit 2 1 OR push_bit 3 1)\<rparr>
       in Inr (w\<lparr>regs := r\<rparr>)))"

section \<open>Initialisation\<close>

fun init_tx_ring ::
  "('e, 'h) libs \<Rightarrow> nat list \<Rightarrow> ('e, 'h, 'z) gmac_state_scheme \<Rightarrow> (('e, 'h, 'z) gmac_state_scheme) result" where
  "init_tx_ring X [] w = Inr w"
| "init_tx_ring X (i # is) w =
     bindR (allocate_network_packet X w) (\<lambda>(p, w).
     init_tx_ring X is (w\<lparr>tx_packets := (tx_packets w)[i := p],
       tx_descriptors := (tx_descriptors w)[i := (tx_descriptors w ! i)\<lparr>tx_owner := OWNER_CPU\<rparr>]\<rparr>))"

fun init_rx_ring ::
  "('e, 'h) libs \<Rightarrow> nat list \<Rightarrow> ('e, 'h, 'z) gmac_state_scheme \<Rightarrow> (('e, 'h, 'z) gmac_state_scheme) result" where
  "init_rx_ring X [] w = Inr w"
| "init_rx_ring X (i # is) w =
     bindR (allocate_network_packet X w) (\<lambda>(p, w).
     init_rx_ring X is (w\<lparr>rx_packets := (rx_packets w)[i := p],
       rx_descriptors := (rx_descriptors w)[i := (rx_descriptors w ! i)\<lparr>rx_address := Some p\<rparr>]\<rparr>))"

definition gmac_init ::
  "('e, 'h) libs \<Rightarrow> ('e, 'h, 'z) gmac_state_scheme \<Rightarrow> (('e, 'h, 'z) gmac_state_scheme) result" where
  "gmac_init X w =
     (let w = w\<lparr>env := enable_peripheral_clock X 44 (fold (set_gpio_function X) [0..<17] (env w))\<rparr> in
     bindR (init_tx_ring X [0..<TRANSMIT_DESCRIPTOR_COUNT] w) (\<lambda>w.
     bindR (init_rx_ring X [0..<RECEIVE_DESCRIPTOR_COUNT] w) (\<lambda>w.
     let w = w\<lparr>tx_descriptors := (tx_descriptors w)
                [TRANSMIT_DESCRIPTOR_COUNT - 1 := (tx_descriptors w ! (TRANSMIT_DESCRIPTOR_COUNT - 1))\<lparr>tx_wrap := True\<rparr>],
               rx_descriptors := (rx_descriptors w)
                [RECEIVE_DESCRIPTOR_COUNT - 1 := (rx_descriptors w ! (RECEIVE_DESCRIPTOR_COUNT - 1))\<lparr>rx_wrap := True\<rparr>],
               tx_index := 0, rx_index := 0,
               regs := (regs w)\<lparr>TBQB := Some Tx_ring, RBQB := Some Rx_ring, UR := push_bit 0 1,
                 DCFGR := push_bit 0 4 OR push_bit 16 (word_of_int (NETWORK_PACKET_SIZE div 64)),
                 NCFGR := push_bit 17 1 OR push_bit 18 4 OR push_bit 23 1 OR push_bit 24 1,
                 NCR := push_bit 2 1 OR push_bit 3 1 OR push_bit 4 1\<rparr>\<rparr>
     in update_phy_settings X w)))"

definition gmac_deinit :: "('e, 'h, 'z) gmac_state_scheme \<Rightarrow> ('e, 'h, 'z) gmac_state_scheme" where
  "gmac_deinit w = w\<lparr>regs := (regs w)\<lparr>NCR := 0\<rparr>\<rparr>"

definition gmac_set_mac_address :: "mac \<Rightarrow> ('e, 'h, 'z) gmac_state_scheme \<Rightarrow> ('e, 'h, 'z) gmac_state_scheme" where
  "gmac_set_mac_address mac w = w\<lparr>regs := (regs w)\<lparr>
     SA_BOTTOM := push_bit 24 (ucast (mac ! 3)) OR push_bit 16 (ucast (mac ! 2)) OR push_bit 8 (ucast (mac ! 1))
       OR ucast (mac ! 0),
     SA_TOP := push_bit 8 (ucast (mac ! 5)) OR ucast (mac ! 4)\<rparr>\<rparr>"

section \<open>Transmission and reception\<close>

definition gmac_send ::
  "('e, 'h) libs \<Rightarrow> nat \<Rightarrow> ('e, 'h, 'z) gmac_state_scheme \<Rightarrow> (('e, 'h, 'z) gmac_state_scheme) result" where
  "gmac_send X p w =
     (if \<not> tx_index w < TRANSMIT_DESCRIPTOR_COUNT then Inl Fault
      else case read_TSR X (env w) of (tsr, e) \<Rightarrow>
        let w = w\<lparr>env := e\<rparr>; i = tx_index w in
        if tsr AND (push_bit 8 1 OR push_bit 4 1 OR push_bit 2 1) \<noteq> 0 then Inl Hang
        else if tx_owner (tx_descriptors w ! i) = OWNER_GMAC then Inr (free_network_packet X p w)
        else
          let w = free_network_packet X (tx_packets w ! i) w;
              w = w\<lparr>tx_packets := (tx_packets w)[i := p]\<rparr>;
              w = w\<lparr>tx_descriptors := (tx_descriptors w)[i := (tx_descriptors w ! i)\<lparr>
                     tx_address := Some (p, index (packets w p)),
                     tx_length := word_of_int (plength (packets w p)),
                     last_buffer := True, ignore_crc := False, tx_owner := OWNER_GMAC\<rparr>]\<rparr>;
              w = w\<lparr>tx_index := (if Suc i = TRANSMIT_DESCRIPTOR_COUNT then 0 else Suc i)\<rparr>
          in Inr (w\<lparr>regs := (regs w)\<lparr>NCR := NCR (regs w) OR push_bit 9 1\<rparr>\<rparr>))"

definition gmac_receive ::
  "('e, 'h) libs \<Rightarrow> ('e, 'h, 'z) gmac_state_scheme \<Rightarrow>
   (nat option \<times> ('e, 'h, 'z) gmac_state_scheme) result" where
  "gmac_receive X w =
     (if \<not> rx_index w < RECEIVE_DESCRIPTOR_COUNT then Inl Fault
      else
        let i = rx_index w; descriptor = rx_descriptors w ! i in
        if rx_owner descriptor = OWNER_GMAC then Inr (None, w)
        else if \<not> start_of_frame descriptor \<or> \<not> end_of_frame descriptor then
          Inr (None, w\<lparr>rx_descriptors := (rx_descriptors w)[i := descriptor\<lparr>rx_owner := OWNER_GMAC\<rparr>]\<rparr>)
        else
          let p = rx_packets w ! i;
              w = set_packet p (\<lambda>k. k\<lparr>plength := uint (rx_length descriptor), index := 0,
                                       broadcast := broadcast_detected descriptor\<rparr>) w
          in bindR (allocate_network_packet X w) (\<lambda>(q, w).
             Inr (Some p, w\<lparr>rx_packets := (rx_packets w)[i := q],
               rx_descriptors := (rx_descriptors w)[i := descriptor\<lparr>rx_address := Some q, rx_owner := OWNER_GMAC\<rparr>],
               rx_index := (if Suc i = RECEIVE_DESCRIPTOR_COUNT then 0 else Suc i)\<rparr>)))"

section \<open>The driver invariant\<close>

text \<open>
  The packets linked into the two rings are held by the driver; together with the listed packets
  and the packets \<open>H\<close> that running code holds they are all packets of the pool.  Every buffer has
  its 1024 bytes, the ring positions are in range, the receive descriptors point at the packets the
  driver linked, and so do the transmit descriptors the DMA engine owns.  No receive descriptor
  reports more than the 1024 bytes the engine is configured for.
\<close>

definition rings :: "('e, 'h, 'z) gmac_state_scheme \<Rightarrow> nat multiset" where
  "rings w = mset (tx_packets w) + mset (rx_packets w)"

definition buffers_ok :: "('e, 'h, 'z) net_state_scheme \<Rightarrow> bool" where
  "buffers_ok w \<longleftrightarrow> (\<forall>p. length (data (packets w p)) = 1024) \<and> length (our_mac w) = 6"

definition rings_ok :: "('e, 'h, 'z) gmac_state_scheme \<Rightarrow> bool" where
  "rings_ok w \<longleftrightarrow>
     length (tx_descriptors w) = TRANSMIT_DESCRIPTOR_COUNT \<and> length (tx_packets w) = TRANSMIT_DESCRIPTOR_COUNT \<and>
     length (rx_descriptors w) = RECEIVE_DESCRIPTOR_COUNT \<and> length (rx_packets w) = RECEIVE_DESCRIPTOR_COUNT \<and>
     tx_index w < TRANSMIT_DESCRIPTOR_COUNT \<and> rx_index w < RECEIVE_DESCRIPTOR_COUNT \<and>
     (\<forall>i<TRANSMIT_DESCRIPTOR_COUNT. tx_owner (tx_descriptors w ! i) = OWNER_GMAC \<longrightarrow>
        (\<exists>k. tx_address (tx_descriptors w ! i) = Some (tx_packets w ! i, k))) \<and>
     (\<forall>i<RECEIVE_DESCRIPTOR_COUNT. rx_address (rx_descriptors w ! i) = Some (rx_packets w ! i) \<and>
        uint (rx_length (rx_descriptors w ! i)) \<le> NETWORK_PACKET_SIZE)"

definition gmac_inv ::
  "('e, 'h) libs \<Rightarrow> (list_head set \<Rightarrow> 'h \<Rightarrow> bool) \<Rightarrow> nat multiset \<Rightarrow> ('e, 'h, 'z) gmac_state_scheme \<Rightarrow> bool" where
  "gmac_inv X ok H w \<longleftrightarrow> pool X ok (H + rings w) (packet_lists w) \<and> buffers_ok w \<and> rings_ok w"

lemma mset_list_update:
  "i < length xs \<Longrightarrow> add_mset (xs ! i) (mset (xs[i := x])) = add_mset x (mset xs)"
  by (simp add: mset_update add_mset_remove_trivial_eq)

lemma gmac_invD:
  assumes "gmac_inv X ok H w"
  shows "pool X ok (H + rings w) (packet_lists w)" and "buffers_ok w" and "rings_ok w"
  using assms by (simp_all add: gmac_inv_def)

lemma buffer_length: "gmac_inv X ok H w \<Longrightarrow> length (data (packets w p)) = 1024"
  by (simp add: gmac_inv_def buffers_ok_def)

lemma our_mac_length: "gmac_inv X ok H w \<Longrightarrow> length (our_mac w) = 6"
  by (simp add: gmac_inv_def buffers_ok_def)

text \<open>The fields a call of the driver can change; every other field of the state keeps its value.\<close>

lemma gmac_send_shape:
  "gmac_send X p w = Inr w' \<Longrightarrow>
   w' = w\<lparr>env := env w', packet_lists := packet_lists w', tx_descriptors := tx_descriptors w',
     tx_packets := tx_packets w', tx_index := tx_index w', regs := regs w'\<rparr>"
  by (auto simp: gmac_send_def Let_def free_network_packet_def split: if_splits prod.splits)

lemma gmac_receive_shape:
  assumes "gmac_receive X w = Inr (r, w')"
  shows "w' = w\<lparr>packets := packets w', packet_lists := packet_lists w', rx_descriptors := rx_descriptors w',
     rx_packets := rx_packets w', rx_index := rx_index w'\<rparr>"
  using assms
  by (auto simp: gmac_receive_def Let_def set_packet_def allocate_network_packet_def bindR_eq_Inr_iff
      split: if_splits prod.splits option.splits)

lemma gmac_send_never_faults: "tx_index w < TRANSMIT_DESCRIPTOR_COUNT \<Longrightarrow> gmac_send X p w \<noteq> Inl Fault"
  by (simp add: gmac_send_def Let_def split: prod.splits)

definition tx_error :: "('e, 'h) libs \<Rightarrow> ('e, 'z) machine_scheme \<Rightarrow> bool" where
  "tx_error X w \<longleftrightarrow> fst (read_TSR X (env w)) AND (push_bit 8 1 OR push_bit 4 1 OR push_bit 2 1) \<noteq> 0"

lemma gmac_send_returns_iff:
  "tx_index w < TRANSMIT_DESCRIPTOR_COUNT \<Longrightarrow> (\<exists>w'. gmac_send X p w = Inr w') \<longleftrightarrow> \<not> tx_error X w"
  by (auto simp: gmac_send_def tx_error_def Let_def split: prod.splits)

lemma gmac_inv_env: "gmac_inv X ok H (w\<lparr>env := e\<rparr>) \<longleftrightarrow> gmac_inv X ok H w"
  by (simp add: gmac_inv_def rings_def buffers_ok_def rings_ok_def)

context intrusive_list
begin

lemma gmac_send_dropped:
  assumes "gmac_inv X ok (add_mset p H) w" and "\<not> tx_error X w"
    and "tx_owner (tx_descriptors w ! tx_index w) = OWNER_GMAC"
  shows "gmac_send X p w = Inr (free_network_packet X p (w\<lparr>env := snd (read_TSR X (env w))\<rparr>))"
  using assms by (auto simp: gmac_send_def tx_error_def gmac_inv_def rings_ok_def Let_def split: prod.splits)

lemma gmac_inv_free:
  assumes "gmac_inv X ok (add_mset p H) w"
  shows "gmac_inv X ok H (free_network_packet X p w)"
    and "\<And>k. k \<in> packet_heads \<Longrightarrow> k \<noteq> Free_packets \<Longrightarrow>
      list_elements X k (packet_lists (free_network_packet X p w)) = list_elements X k (packet_lists w)"
proof -
  have "pool X ok (add_mset p (H + rings w)) (packet_lists w)"
    using assms by (simp add: gmac_inv_def)
  note free_pool [OF this]
  then show "gmac_inv X ok H (free_network_packet X p w)"
    and "\<And>k. k \<in> packet_heads \<Longrightarrow> k \<noteq> Free_packets \<Longrightarrow>
      list_elements X k (packet_lists (free_network_packet X p w)) = list_elements X k (packet_lists w)"
    using assms
    by (simp_all add: gmac_inv_def free_network_packet_def rings_def buffers_ok_def rings_ok_def)
qed

lemma wrap_index: "i < n \<Longrightarrow> (if Suc i = n then 0 else Suc i) = Suc i mod n"
  by (simp add: mod_Suc)

lemma gmac_send_linked:
  assumes "gmac_inv X ok (add_mset p H) w" and "gmac_send X p w = Inr w'"
    and "tx_owner (tx_descriptors w ! tx_index w) \<noteq> OWNER_GMAC"
  shows "packet_lists w' = list_add_first X (tx_packets w ! tx_index w) Free_packets (packet_lists w)"
    and "tx_packets w' = (tx_packets w)[tx_index w := p]"
    and "tx_descriptors w' = (tx_descriptors w)[tx_index w := (tx_descriptors w ! tx_index w)\<lparr>
           tx_address := Some (p, index (packets w p)), tx_length := word_of_int (plength (packets w p)),
           last_buffer := True, ignore_crc := False, tx_owner := OWNER_GMAC\<rparr>]"
    and "tx_index w' = Suc (tx_index w) mod TRANSMIT_DESCRIPTOR_COUNT"
  using assms
  by (auto simp: gmac_send_def gmac_inv_def rings_ok_def free_network_packet_def Let_def wrap_index [symmetric]
      split: prod.splits if_split_asm)

lemma rings_ok_link:
  assumes "rings_ok w" and "i < TRANSMIT_DESCRIPTOR_COUNT"
    and "tx_address d = Some (p, k)"
  shows "rings_ok (w\<lparr>tx_packets := (tx_packets w)[i := p], tx_descriptors := (tx_descriptors w)[i := d],
    tx_index := Suc i mod TRANSMIT_DESCRIPTOR_COUNT\<rparr>)"
  using assms by (auto simp: rings_ok_def nth_list_update)

lemma gmac_send_cases:
  assumes "gmac_inv X ok (add_mset p H) w" and "gmac_send X p w = Inr w'"
  obtains (dropped) "tx_owner (tx_descriptors w ! tx_index w) = OWNER_GMAC"
      and "w' = free_network_packet X p (w\<lparr>env := snd (read_TSR X (env w))\<rparr>)"
  | (linked) "packet_lists w' = list_add_first X (tx_packets w ! tx_index w) Free_packets (packet_lists w)"
      and "tx_packets w' = (tx_packets w)[tx_index w := p]"
      and "tx_descriptors w' = (tx_descriptors w)[tx_index w := (tx_descriptors w ! tx_index w)\<lparr>
           tx_address := Some (p, index (packets w p)), tx_length := word_of_int (plength (packets w p)),
           last_buffer := True, ignore_crc := False, tx_owner := OWNER_GMAC\<rparr>]"
      and "tx_index w' = Suc (tx_index w) mod TRANSMIT_DESCRIPTOR_COUNT"
proof (cases "tx_owner (tx_descriptors w ! tx_index w) = OWNER_GMAC")
  case True
  have "\<not> tx_error X w"
    using assms gmac_send_returns_iff [of w X p] by (auto simp: gmac_inv_def rings_ok_def)
  from gmac_send_dropped [OF assms(1) this True] show thesis
    using assms(2) True dropped by simp
next
  case False
  from gmac_send_linked [OF assms False] show thesis by (rule linked)
qed

lemma gmac_send_inv:
  assumes "gmac_inv X ok (add_mset p H) w" and "gmac_send X p w = Inr w'"
  shows "gmac_inv X ok H w'"
    and "\<And>k. k \<in> packet_heads \<Longrightarrow> k \<noteq> Free_packets \<Longrightarrow>
      list_elements X k (packet_lists w') = list_elements X k (packet_lists w)"
proof -
  let ?queues = "\<forall>k\<in>packet_heads. k \<noteq> Free_packets \<longrightarrow>
      list_elements X k (packet_lists w') = list_elements X k (packet_lists w)"
  from assms have "gmac_inv X ok H w' \<and> ?queues"
  proof (cases rule: gmac_send_cases)
    case dropped
    have "gmac_inv X ok (add_mset p H) (w\<lparr>env := snd (read_TSR X (env w))\<rparr>)"
      using assms(1) by (simp add: gmac_inv_env)
    from gmac_inv_free [OF this] dropped show ?thesis by simp
  next
    case linked
    let ?i = "tx_index w"
    let ?old = "tx_packets w ! ?i"
    let ?rings = "mset ((tx_packets w)[?i := p]) + mset (rx_packets w)"
    have i: "?i < length (tx_packets w)" and ro: "rings_ok w" and bo: "buffers_ok w"
      using assms(1) by (simp_all add: gmac_inv_def rings_ok_def)
    have "add_mset ?old (mset ((tx_packets w)[?i := p])) = add_mset p (mset (tx_packets w))"
      using i by (rule mset_list_update)
    then have held: "add_mset p H + rings w = add_mset ?old (H + ?rings)"
      by (simp add: rings_def)
    have pool: "pool X ok (add_mset ?old (H + ?rings)) (packet_lists w)"
      using gmac_invD(1) [OF assms(1)] unfolding held .
    then have "pool X ok (H + ?rings) (packet_lists w')"
      unfolding linked(1) by (rule pool_add_first) simp
    moreover have ?queues
      unfolding linked(1) using pool_add_elements(1) [OF pool] by simp
    moreover have shape: "w' = w\<lparr>env := env w', packet_lists := packet_lists w',
        tx_descriptors := tx_descriptors w', tx_packets := tx_packets w', tx_index := tx_index w', regs := regs w'\<rparr>"
      using assms(2) by (rule gmac_send_shape)
    have "rings_ok w'" and "buffers_ok w'" and "rings w' = ?rings"
      using ro bo i linked by (subst shape; auto simp: rings_ok_def rings_def buffers_ok_def nth_list_update)+
    ultimately show ?thesis by (simp add: gmac_inv_def)
  qed
  then show "gmac_inv X ok H w'"
    and "\<And>k. k \<in> packet_heads \<Longrightarrow> k \<noteq> Free_packets \<Longrightarrow>
      list_elements X k (packet_lists w') = list_elements X k (packet_lists w)"
    by simp_all
qed

lemma gmac_receive_None:
  assumes "gmac_inv X ok H w" and "gmac_receive X w = Inr (None, w')"
  shows "gmac_inv X ok H w'" and "packet_lists w' = packet_lists w"
  using assms
  by (auto simp: gmac_receive_def gmac_inv_def rings_ok_def rings_def buffers_ok_def Let_def nth_list_update
      bindR_eq_Inr_iff split: if_splits prod.splits)

lemma gmac_receive_Some:
  assumes "gmac_inv X ok H w" and "gmac_receive X w = Inr (Some p, w')"
  shows "gmac_inv X ok (add_mset p H) w'" and "p = rx_packets w ! rx_index w"
    and "rx_index w' = Suc (rx_index w) mod RECEIVE_DESCRIPTOR_COUNT"
    and "index (packets w' p) = 0" and "plength (packets w' p) = uint (rx_length (rx_descriptors w ! rx_index w))"
    and "data (packets w' p) = data (packets w p)"
    and "\<And>k. k \<in> packet_heads \<Longrightarrow> k \<noteq> Free_packets \<Longrightarrow>
      list_elements X k (packet_lists w') = list_elements X k (packet_lists w)"
proof -
  let ?i = "rx_index w" and ?p = "rx_packets w ! rx_index w"
  let ?w = "set_packet ?p (\<lambda>k. k\<lparr>plength := uint (rx_length (rx_descriptors w ! ?i)), index := 0,
      broadcast := broadcast_detected (rx_descriptors w ! ?i)\<rparr>) w"
  have i: "?i < length (rx_packets w)" and ro: "rings_ok w" and bo: "buffers_ok w"
    using assms(1) by (simp_all add: gmac_inv_def rings_ok_def)
  obtain q w1 where alloc: "allocate_network_packet X ?w = Inr (q, w1)" and p: "p = ?p"
    and w': "w' = w1\<lparr>rx_packets := (rx_packets w1)[?i := q],
        rx_descriptors := (rx_descriptors w1)[?i := (rx_descriptors w ! ?i)\<lparr>rx_address := Some q, rx_owner := OWNER_GMAC\<rparr>],
        rx_index := Suc ?i mod RECEIVE_DESCRIPTOR_COUNT\<rparr>"
  proof -
    have "?i < RECEIVE_DESCRIPTOR_COUNT" using ro by (simp add: rings_ok_def)
    with assms(2) have "bindR (allocate_network_packet X ?w) (\<lambda>(q, w1). Inr (Some ?p,
        w1\<lparr>rx_packets := (rx_packets w1)[?i := q],
          rx_descriptors := (rx_descriptors w1)[?i := (rx_descriptors w ! ?i)\<lparr>rx_address := Some q, rx_owner := OWNER_GMAC\<rparr>],
          rx_index := Suc ?i mod RECEIVE_DESCRIPTOR_COUNT\<rparr>)) = Inr (Some p, w')"
      by (simp add: gmac_receive_def Let_def wrap_index split: if_split_asm)
    then show thesis
      by (rule bindR_InrE) (use that in \<open>force split: prod.splits\<close>)
  qed
  have pool: "pool X ok (H + rings w) (packet_lists ?w)"
    using assms(1) by (simp add: gmac_inv_def)
  note al = allocate_Inr [OF pool alloc]
  have "add_mset ?p (mset ((rx_packets w)[?i := q])) = add_mset q (mset (rx_packets w))"
    using i by (rule mset_list_update)
  then have rearrange: "add_mset q (H + rings w) = add_mset p H + (mset (tx_packets w) + mset ((rx_packets w)[?i := q]))"
    by (simp add: rings_def p)
  have "?p \<in># H + rings w" using i by (simp add: rings_def)
  then have q: "q \<noteq> ?p" using pool_fresh_held [OF al(1)] by metis
  have pk: "packets w1 = (packets ?w)(q := (packets ?w q)\<lparr>plength := 0, index := NETWORK_PACKET_HEADER_SIZE\<rparr>)"
    by (subst al(4)) simp
  show "p = ?p" by (rule p)
  show "rx_index w' = Suc (rx_index w) mod RECEIVE_DESCRIPTOR_COUNT" by (simp add: w')
  show "index (packets w' p) = 0" "plength (packets w' p) = uint (rx_length (rx_descriptors w ! rx_index w))"
    "data (packets w' p) = data (packets w p)"
    using q by (simp_all add: w' p pk)
  show "list_elements X k (packet_lists w') = list_elements X k (packet_lists w)"
    if "k \<in> packet_heads" "k \<noteq> Free_packets" for k
    using al(3) [OF that] by (simp add: w')
  have same: "rx_packets w1 = rx_packets w" "tx_packets w1 = tx_packets w" "rx_descriptors w1 = rx_descriptors w"
    "tx_descriptors w1 = tx_descriptors w" "tx_index w1 = tx_index w" "our_mac w1 = our_mac w"
    by (subst al(4); simp add: set_packet_def)+
  have "rings_ok w'" "buffers_ok w'"
    using ro bo i by (auto simp: w' rings_ok_def buffers_ok_def same nth_list_update pk)
  moreover have "pool X ok (add_mset p H + (mset (tx_packets w) + mset ((rx_packets w)[?i := q]))) (packet_lists w1)"
    using al(1) unfolding rearrange .
  ultimately show "gmac_inv X ok (add_mset p H) w'"
    by (simp add: gmac_inv_def w' rings_def same)
qed

text \<open>Filling the rings: position \<open>k\<close> onwards gets freshly allocated packets.\<close>

lemma list_update_take_append:
  assumes "k < length xs"
  shows "take (Suc k) (xs[k := x]) @ ys = take k xs @ x # ys"
  using assms by (simp add: take_Suc_conv_app_nth)

lemma init_tx_ring_fills:
  assumes "pool X ok H (packet_lists w)" and "k \<le> n" and "n - k \<le> available X w"
    and "length (tx_packets w) = n" and "length (tx_descriptors w) = n"
  shows "\<exists>w' ps. init_tx_ring X [k..<n] w = Inr w' \<and> length ps = n - k \<and>
    pool X ok (H + mset ps) (packet_lists w') \<and> available X w' + (n - k) = available X w \<and>
    (\<forall>p. length (data (packets w' p)) = length (data (packets w p))) \<and>
    w' = w\<lparr>packets := packets w', packet_lists := packet_lists w',
      tx_packets := take k (tx_packets w) @ ps,
      tx_descriptors := take k (tx_descriptors w) @ map (\<lambda>d. d\<lparr>tx_owner := OWNER_CPU\<rparr>) (drop k (tx_descriptors w))\<rparr>"
  using assms
proof (induction "n - k" arbitrary: k w H)
  case 0
  then show ?case by (auto intro!: exI [where x = "[]"])
next
  case (Suc m)
  then have k: "k < n" by simp
  have "0 < available X w" using Suc.prems(3) Suc.hyps(2) by simp
  then obtain p w1 where al: "allocate_network_packet X w = Inr (p, w1)"
    using pool.alloc_returns_iff [of H w] Suc.prems(1) by (auto simp: pool_inv_def)
  note a = allocate_Inr [OF Suc.prems(1) al]
  let ?w = "w1\<lparr>tx_packets := (tx_packets w1)[k := p],
    tx_descriptors := (tx_descriptors w1)[k := (tx_descriptors w1 ! k)\<lparr>tx_owner := OWNER_CPU\<rparr>]\<rparr>"
  have same: "tx_packets w1 = tx_packets w" "tx_descriptors w1 = tx_descriptors w"
    by (subst a(4); simp)+
  have av: "available X w = Suc (available X w1)"
    using a(2) by (simp add: available_def)
  have "\<exists>w' ps. init_tx_ring X [Suc k..<n] ?w = Inr w' \<and> length ps = n - Suc k \<and>
    pool X ok (add_mset p H + mset ps) (packet_lists w') \<and> available X w' + (n - Suc k) = available X ?w \<and>
    (\<forall>q. length (data (packets w' q)) = length (data (packets ?w q))) \<and>
    w' = ?w\<lparr>packets := packets w', packet_lists := packet_lists w',
      tx_packets := take (Suc k) (tx_packets ?w) @ ps,
      tx_descriptors := take (Suc k) (tx_descriptors ?w) @ map (\<lambda>d. d\<lparr>tx_owner := OWNER_CPU\<rparr>) (drop (Suc k) (tx_descriptors ?w))\<rparr>"
    using Suc.prems Suc.hyps(2) a(1) av by (intro Suc.hyps(1)) (auto simp: available_def same)
  then obtain w' ps where ih: "init_tx_ring X [Suc k..<n] ?w = Inr w'" "length ps = n - Suc k"
    "pool X ok (add_mset p H + mset ps) (packet_lists w')" "available X w' + (n - Suc k) = available X ?w"
    "\<forall>q. length (data (packets w' q)) = length (data (packets ?w q))"
    "w' = ?w\<lparr>packets := packets w', packet_lists := packet_lists w',
      tx_packets := take (Suc k) (tx_packets ?w) @ ps,
      tx_descriptors := take (Suc k) (tx_descriptors ?w) @ map (\<lambda>d. d\<lparr>tx_owner := OWNER_CPU\<rparr>) (drop (Suc k) (tx_descriptors ?w))\<rparr>"
    by blast
  have "init_tx_ring X [k..<n] w = Inr w'"
    using ih(1) al k by (simp add: upt_conv_Cons)
  moreover have "length (p # ps) = n - k" using ih(2) k by simp
  moreover have "pool X ok (H + mset (p # ps)) (packet_lists w')" using ih(3) by simp
  moreover have "available X w' + (n - k) = available X w"
    using ih(4) av k by (simp add: available_def)
  moreover have "\<forall>q. length (data (packets w' q)) = length (data (packets w q))"
    using ih(5) by (subst (asm) a(4)) simp
  moreover have "w' = w\<lparr>packets := packets w', packet_lists := packet_lists w',
      tx_packets := take k (tx_packets w) @ p # ps,
      tx_descriptors := take k (tx_descriptors w) @ map (\<lambda>d. d\<lparr>tx_owner := OWNER_CPU\<rparr>) (drop k (tx_descriptors w))\<rparr>"
  proof -
    have d: "drop k (tx_descriptors w) = tx_descriptors w ! k # drop (Suc k) (tx_descriptors w)"
      using k Suc.prems(5) by (simp add: Cons_nth_drop_Suc)
    show ?thesis
      by (subst ih(6), subst a(4))
        (use k Suc.prems(4,5) in \<open>simp add: list_update_take_append same d\<close>)
  qed
  ultimately show ?case by blast
qed

lemma init_rx_ring_fills:
  assumes "pool X ok H (packet_lists w)" and "k \<le> n" and "n - k \<le> available X w"
    and "length (rx_packets w) = n" and "length (rx_descriptors w) = n"
  shows "\<exists>w' ps. init_rx_ring X [k..<n] w = Inr w' \<and> length ps = n - k \<and>
    pool X ok (H + mset ps) (packet_lists w') \<and> available X w' + (n - k) = available X w \<and>
    (\<forall>p. length (data (packets w' p)) = length (data (packets w p))) \<and>
    w' = w\<lparr>packets := packets w', packet_lists := packet_lists w',
      rx_packets := take k (rx_packets w) @ ps,
      rx_descriptors := take k (rx_descriptors w) @ map2 (\<lambda>d p. d\<lparr>rx_address := Some p\<rparr>) (drop k (rx_descriptors w)) ps\<rparr>"
  using assms
proof (induction "n - k" arbitrary: k w H)
  case 0
  then show ?case by (auto intro!: exI [where x = "[]"])
next
  case (Suc m)
  then have k: "k < n" by simp
  have "0 < available X w" using Suc.prems(3) Suc.hyps(2) by simp
  then obtain p w1 where al: "allocate_network_packet X w = Inr (p, w1)"
    using pool.alloc_returns_iff [of H w] Suc.prems(1) by (auto simp: pool_inv_def)
  note a = allocate_Inr [OF Suc.prems(1) al]
  let ?w = "w1\<lparr>rx_packets := (rx_packets w1)[k := p],
    rx_descriptors := (rx_descriptors w1)[k := (rx_descriptors w1 ! k)\<lparr>rx_address := Some p\<rparr>]\<rparr>"
  have same: "rx_packets w1 = rx_packets w" "rx_descriptors w1 = rx_descriptors w"
    by (subst a(4); simp)+
  have av: "available X w = Suc (available X w1)"
    using a(2) by (simp add: available_def)
  have "\<exists>w' ps. init_rx_ring X [Suc k..<n] ?w = Inr w' \<and> length ps = n - Suc k \<and>
    pool X ok (add_mset p H + mset ps) (packet_lists w') \<and> available X w' + (n - Suc k) = available X ?w \<and>
    (\<forall>q. length (data (packets w' q)) = length (data (packets ?w q))) \<and>
    w' = ?w\<lparr>packets := packets w', packet_lists := packet_lists w',
      rx_packets := take (Suc k) (rx_packets ?w) @ ps,
      rx_descriptors := take (Suc k) (rx_descriptors ?w) @ map2 (\<lambda>d p. d\<lparr>rx_address := Some p\<rparr>) (drop (Suc k) (rx_descriptors ?w)) ps\<rparr>"
    using Suc.prems Suc.hyps(2) a(1) av by (intro Suc.hyps(1)) (auto simp: available_def same)
  then obtain w' ps where ih: "init_rx_ring X [Suc k..<n] ?w = Inr w'" "length ps = n - Suc k"
    "pool X ok (add_mset p H + mset ps) (packet_lists w')" "available X w' + (n - Suc k) = available X ?w"
    "\<forall>q. length (data (packets w' q)) = length (data (packets ?w q))"
    "w' = ?w\<lparr>packets := packets w', packet_lists := packet_lists w',
      rx_packets := take (Suc k) (rx_packets ?w) @ ps,
      rx_descriptors := take (Suc k) (rx_descriptors ?w) @ map2 (\<lambda>d p. d\<lparr>rx_address := Some p\<rparr>) (drop (Suc k) (rx_descriptors ?w)) ps\<rparr>"
    by blast
  have "init_rx_ring X [k..<n] w = Inr w'"
    using ih(1) al k by (simp add: upt_conv_Cons)
  moreover have "length (p # ps) = n - k" using ih(2) k by simp
  moreover have "pool X ok (H + mset (p # ps)) (packet_lists w')" using ih(3) by simp
  moreover have "available X w' + (n - k) = available X w"
    using ih(4) av k by (simp add: available_def)
  moreover have "\<forall>q. length (data (packets w' q)) = length (data (packets w q))"
    using ih(5) by (subst (asm) a(4)) simp
  moreover have "w' = w\<lparr>packets := packets w', packet_lists := packet_lists w',
      rx_packets := take k (rx_packets w) @ p # ps,
      rx_descriptors := take k (rx_descriptors w) @ map2 (\<lambda>d p. d\<lparr>rx_address := Some p\<rparr>) (drop k (rx_descriptors w)) (p # ps)\<rparr>"
  proof -
    have d: "drop k (rx_descriptors w) = rx_descriptors w ! k # drop (Suc k) (rx_descriptors w)"
      using k Suc.prems(5) by (simp add: Cons_nth_drop_Suc)
    show ?thesis
      by (subst ih(6), subst a(4))
        (use k Suc.prems(4,5) in \<open>simp add: list_update_take_append same d\<close>)
  qed
  ultimately show ?case by blast
qed

end

text \<open>The PHY answers: the polling loop ends in every state of the hardware.\<close>

definition phy_ready :: "('e, 'h) libs \<Rightarrow> bool" where
  "phy_ready X \<longleftrightarrow> (\<forall>e. \<exists>e'. wait_mdio X e = Some (Inr e'))"

lemma phy_read_returns:
  assumes "phy_ready X"
  shows "\<exists>v e. phy_read_register X address w = Inr (v, w\<lparr>env := e\<rparr>)"
proof -
  let ?e = "write_MAN X (push_bit 30 1 OR push_bit 29 1 OR push_bit 18 (ucast address) OR push_bit 17 1) (env w)"
  obtain e' where "wait_mdio X ?e = Some (Inr e')" using assms by (auto simp: phy_ready_def)
  then show ?thesis
    by (cases "read_MAN X e'") (auto simp: phy_read_register_def)
qed

lemma update_phy_returns:
  assumes "phy_ready X"
  shows "\<exists>e r. update_phy_settings X w = Inr (w\<lparr>env := e, regs := r\<rparr>)"
proof -
  obtain v1 e1 where r1: "phy_read_register X PHY_REGISTER_BASIC_STATUS w = Inr (v1, w\<lparr>env := e1\<rparr>)"
    using phy_read_returns [OF assms] by blast
  obtain v2 e2 where r2: "phy_read_register X PHY_REGISTER_AUTO_NEGOTIATION_LINK_PARTNER_ABILITY (w\<lparr>env := e1\<rparr>) =
      Inr (v2, w\<lparr>env := e1\<rparr>\<lparr>env := e2\<rparr>)"
    using phy_read_returns [OF assms] by blast
  show ?thesis
  proof (cases "v1 AND push_bit 5 1 = 0")
    case True
    then have "update_phy_settings X w = Inr (w\<lparr>env := e1, regs := regs w\<rparr>)"
      by (simp add: update_phy_settings_def r1)
    then show ?thesis by blast
  next
    case False
    then have "\<exists>r. update_phy_settings X w = Inr (w\<lparr>env := e1\<rparr>\<lparr>env := e2\<rparr>\<lparr>regs := r\<rparr>)"
      by (simp add: update_phy_settings_def r1 r2 Let_def case_prod_beta) blast
    then obtain r where "update_phy_settings X w = Inr (w\<lparr>env := e2, regs := r\<rparr>)" by auto
    then show ?thesis by blast
  qed
qed

context intrusive_list
begin

lemma gmac_init_inv:
  assumes "phy_ready X" and "pool X ok H (packet_lists w)" and "40 \<le> available X w" and "buffers_ok w"
    and "length (tx_packets w) = TRANSMIT_DESCRIPTOR_COUNT" and "length (tx_descriptors w) = TRANSMIT_DESCRIPTOR_COUNT"
    and "length (rx_packets w) = RECEIVE_DESCRIPTOR_COUNT" and "length (rx_descriptors w) = RECEIVE_DESCRIPTOR_COUNT"
    and "\<forall>i<RECEIVE_DESCRIPTOR_COUNT. uint (rx_length (rx_descriptors w ! i)) \<le> NETWORK_PACKET_SIZE"
  shows "\<exists>w'. gmac_init X w = Inr w' \<and> gmac_inv X ok H w' \<and> available X w' + 40 = available X w \<and>
    w' = w\<lparr>env := env w', packets := packets w', packet_lists := packet_lists w',
      tx_descriptors := tx_descriptors w', rx_descriptors := rx_descriptors w', tx_packets := tx_packets w',
      rx_packets := rx_packets w', tx_index := 0, rx_index := 0, regs := regs w'\<rparr>"
proof -
  let ?w0 = "w\<lparr>env := enable_peripheral_clock X 44 (fold (set_gpio_function X) [0..<17] (env w))\<rparr>"
  have "\<exists>w' ps. init_tx_ring X [0..<TRANSMIT_DESCRIPTOR_COUNT] ?w0 = Inr w' \<and> length ps = TRANSMIT_DESCRIPTOR_COUNT - 0 \<and>
    pool X ok (H + mset ps) (packet_lists w') \<and> available X w' + (TRANSMIT_DESCRIPTOR_COUNT - 0) = available X ?w0 \<and>
    (\<forall>p. length (data (packets w' p)) = length (data (packets ?w0 p))) \<and>
    w' = ?w0\<lparr>packets := packets w', packet_lists := packet_lists w',
      tx_packets := take 0 (tx_packets ?w0) @ ps,
      tx_descriptors := take 0 (tx_descriptors ?w0) @ map (\<lambda>d. d\<lparr>tx_owner := OWNER_CPU\<rparr>) (drop 0 (tx_descriptors ?w0))\<rparr>"
    using assms by (intro init_tx_ring_fills) (simp_all add: available_def)
  then obtain w1 ps where w1: "init_tx_ring X [0..<TRANSMIT_DESCRIPTOR_COUNT] ?w0 = Inr w1" "length ps = TRANSMIT_DESCRIPTOR_COUNT"
    "pool X ok (H + mset ps) (packet_lists w1)" "available X w1 + TRANSMIT_DESCRIPTOR_COUNT = available X w"
    "\<forall>p. length (data (packets w1 p)) = length (data (packets w p))"
    "w1 = ?w0\<lparr>packets := packets w1, packet_lists := packet_lists w1, tx_packets := ps,
      tx_descriptors := map (\<lambda>d. d\<lparr>tx_owner := OWNER_CPU\<rparr>) (tx_descriptors w)\<rparr>"
    by (auto simp: available_def)
  have same: "rx_packets w1 = rx_packets w" "rx_descriptors w1 = rx_descriptors w" "tx_packets w1 = ps"
    "tx_descriptors w1 = map (\<lambda>d. d\<lparr>tx_owner := OWNER_CPU\<rparr>) (tx_descriptors w)" "our_mac w1 = our_mac w"
    by (subst w1(6); simp)+
  have "\<exists>w' qs. init_rx_ring X [0..<RECEIVE_DESCRIPTOR_COUNT] w1 = Inr w' \<and> length qs = RECEIVE_DESCRIPTOR_COUNT - 0 \<and>
    pool X ok ((H + mset ps) + mset qs) (packet_lists w') \<and> available X w' + (RECEIVE_DESCRIPTOR_COUNT - 0) = available X w1 \<and>
    (\<forall>p. length (data (packets w' p)) = length (data (packets w1 p))) \<and>
    w' = w1\<lparr>packets := packets w', packet_lists := packet_lists w',
      rx_packets := take 0 (rx_packets w1) @ qs,
      rx_descriptors := take 0 (rx_descriptors w1) @ map2 (\<lambda>d p. d\<lparr>rx_address := Some p\<rparr>) (drop 0 (rx_descriptors w1)) qs\<rparr>"
    using assms w1 by (intro init_rx_ring_fills) (simp_all add: same)
  then obtain w2 qs where w2: "init_rx_ring X [0..<RECEIVE_DESCRIPTOR_COUNT] w1 = Inr w2" "length qs = RECEIVE_DESCRIPTOR_COUNT"
    "pool X ok ((H + mset ps) + mset qs) (packet_lists w2)" "available X w2 + RECEIVE_DESCRIPTOR_COUNT = available X w1"
    "\<forall>p. length (data (packets w2 p)) = length (data (packets w1 p))"
    "w2 = w1\<lparr>packets := packets w2, packet_lists := packet_lists w2, rx_packets := qs,
      rx_descriptors := map2 (\<lambda>d p. d\<lparr>rx_address := Some p\<rparr>) (rx_descriptors w1) qs\<rparr>"
    by auto
  have same2: "rx_packets w2 = qs" "rx_descriptors w2 = map2 (\<lambda>d p. d\<lparr>rx_address := Some p\<rparr>) (rx_descriptors w) qs"
    "tx_packets w2 = ps" "tx_descriptors w2 = map (\<lambda>d. d\<lparr>tx_owner := OWNER_CPU\<rparr>) (tx_descriptors w)" "our_mac w2 = our_mac w"
    by (subst w2(6); simp add: same)+
  obtain td rd r0 where init: "gmac_init X w = update_phy_settings X
      (w2\<lparr>tx_descriptors := td, rx_descriptors := rd, tx_index := 0, rx_index := 0, regs := r0\<rparr>)"
    and td: "td = (tx_descriptors w2)[TRANSMIT_DESCRIPTOR_COUNT - 1 :=
        (tx_descriptors w2 ! (TRANSMIT_DESCRIPTOR_COUNT - 1))\<lparr>tx_wrap := True\<rparr>]"
    and rd: "rd = (rx_descriptors w2)[RECEIVE_DESCRIPTOR_COUNT - 1 :=
        (rx_descriptors w2 ! (RECEIVE_DESCRIPTOR_COUNT - 1))\<lparr>rx_wrap := True\<rparr>]"
    by (simp add: gmac_init_def Let_def w1(1) w2(1))
  let ?w3 = "w2\<lparr>tx_descriptors := td, rx_descriptors := rd, tx_index := 0, rx_index := 0, regs := r0\<rparr>"
  obtain e r where phy: "update_phy_settings X ?w3 = Inr (?w3\<lparr>env := e, regs := r\<rparr>)"
    using update_phy_returns [OF assms(1)] by blast
  let ?w' = "?w3\<lparr>env := e, regs := r\<rparr>"
  have "rings_ok ?w'"
    using assms w1(2) w2(2) by (auto simp: rings_ok_def td rd same2 nth_list_update)
  moreover have "buffers_ok ?w'"
    using assms(4) w1(5) w2(5) by (simp add: buffers_ok_def same2)
  moreover have "pool X ok (H + rings ?w') (packet_lists ?w')"
    using w2(3) by (simp add: rings_def same2 add.assoc)
  moreover have "available X ?w' + 40 = available X w"
    using w1(4) w2(4) by (simp add: available_def)
  moreover have "?w' = w\<lparr>env := env ?w', packets := packets ?w', packet_lists := packet_lists ?w',
      tx_descriptors := tx_descriptors ?w', rx_descriptors := rx_descriptors ?w', tx_packets := tx_packets ?w',
      rx_packets := rx_packets ?w', tx_index := 0, rx_index := 0, regs := regs ?w'\<rparr>"
    by (subst w2(6), subst w1(6)) (simp add: same2 same)
  ultimately show ?thesis
    using init phy unfolding gmac_inv_def by metis
qed

end

section \<open>Held packets\<close>

text \<open>The bytes of a packet from its index on; the bytes the DMA engine reads for a descriptor.\<close>

definition frame_of :: "packet \<Rightarrow> u8 list" where
  "frame_of k = chunk (nat (index k)) (nat (plength k)) (data k)"

definition packet_ok :: "packet \<Rightarrow> bool" where
  "packet_ok k \<longleftrightarrow> length (data k) = 1024 \<and> 0 \<le> index k \<and> 0 \<le> plength k \<and> index k + plength k \<le> 1024"

definition tx_frame :: "('e, 'h, 'z) gmac_state_scheme \<Rightarrow> nat \<Rightarrow> u8 list" where
  "tx_frame w i = (case tx_address (tx_descriptors w ! i) of
      None \<Rightarrow> [] | Some (p, k) \<Rightarrow> chunk (nat k) (unat (tx_length (tx_descriptors w ! i))) (data (packets w p)))"

lemma length_frame_of: "packet_ok k \<Longrightarrow> length (frame_of k) = nat (plength k)"
  by (auto simp: frame_of_def packet_ok_def min_def)

lemma gmac_inv_set_packet:
  "length (data (f (packets w p))) = length (data (packets w p)) \<Longrightarrow>
   gmac_inv X ok H (set_packet p f w) \<longleftrightarrow> gmac_inv X ok H w"
  by (auto simp: gmac_inv_def rings_def buffers_ok_def rings_ok_def set_packet_def)

lemma with_data_inv:
  assumes "keeps_length f" and "with_data p f w = Inr w'"
  shows "gmac_inv X ok H w' \<longleftrightarrow> gmac_inv X ok H w" and "packet_lists w' = packet_lists w"
    and "w' = w\<lparr>packets := packets w'\<rparr>"
proof -
  from assms(2) obtain d where d: "f (data (packets w p)) = Inr d"
    and w': "w' = set_packet p (\<lambda>k. k\<lparr>data := d\<rparr>) w"
    by (auto simp: with_data_def bindR_eq_Inr_iff)
  show "gmac_inv X ok H w' \<longleftrightarrow> gmac_inv X ok H w"
    unfolding w' by (rule gmac_inv_set_packet) (use keeps_lengthD [OF assms(1) d] in simp)
  show "packet_lists w' = packet_lists w" by (simp add: w')
  show "w' = w\<lparr>packets := packets w'\<rparr>" by (simp add: w' set_packet_def)
qed

text \<open>Prepending a header: the index moves down by its length.\<close>

lemma frame_of_prepend:
  assumes "packet_ok k" and "int (length hdr) \<le> index k"
    and "index k' = index k - int (length hdr)" and "plength k' = plength k + int (length hdr)"
    and "data k' = upd (nat (index k')) hdr (data k)"
  shows "frame_of k' = hdr @ frame_of k" and "packet_ok k'"
proof -
  have i: "nat (index k) = nat (index k') + length hdr" and n: "nat (plength k') = length hdr + nat (plength k)"
    and le: "nat (index k') + length hdr \<le> length (data k)"
    using assms unfolding packet_ok_def by linarith+
  have "frame_of k' = chunk (nat (index k')) (length hdr) (data k') @
      chunk (nat (index k') + length hdr) (nat (plength k)) (data k')"
    by (simp add: frame_of_def n chunk_append_chunk)
  also have "chunk (nat (index k')) (length hdr) (data k') = hdr"
    using le by (simp add: assms(5) chunk_upd_same)
  also have "chunk (nat (index k') + length hdr) (nat (plength k)) (data k') = frame_of k"
    using le by (simp add: assms(5) chunk_upd_after frame_of_def i)
  finally show "frame_of k' = hdr @ frame_of k" .
  show "packet_ok k'" using assms le by (simp add: packet_ok_def)
qed

section \<open>What the driver's clients rely on\<close>

text \<open>The addresses of the host; no call below the configuration functions changes them.\<close>

definition same_config :: "('e, 'h, 'z) net_state_scheme \<Rightarrow> ('e, 'h, 'z) net_state_scheme \<Rightarrow> bool" where
  "same_config w w' \<longleftrightarrow> our_mac w' = our_mac w \<and> our_ip w' = our_ip w \<and> our_netmask w' = our_netmask w"

lemma same_config_refl [simp]: "same_config w w"
  by (simp add: same_config_def)

lemma same_config_trans: "same_config w w' \<Longrightarrow> same_config w' w'' \<Longrightarrow> same_config w w''"
  by (simp add: same_config_def)

lemma more_set_packet [simp]: "gmac_state.more (set_packet p f w) = gmac_state.more w"
  by (simp add: set_packet_def)

lemma same_config_set_packet [simp]: "same_config w (set_packet p f w)"
  by (simp add: same_config_def)

context intrusive_list
begin

lemma gmac_untouched_set_packet:
  "gmac_inv X ok (add_mset p H) w \<Longrightarrow> untouched X L w (set_packet p f w)"
  by (rule untouched_same_lists [where p = p and H = "H + rings w" and ok = ok]) (auto simp: gmac_inv_def)

lemma gmac_allocate:
  assumes "gmac_inv X ok H w"
  shows "safe (allocate_network_packet X w) (\<lambda>(p, w'). gmac_inv X ok (add_mset p H) w' \<and> untouched X {} w w' \<and>
    gmac_state.more w' = gmac_state.more w \<and> same_config w w' \<and> env w' = env w \<and>
    packets w' p = (packets w p)\<lparr>plength := 0, index := NETWORK_PACKET_HEADER_SIZE\<rparr>)"
proof -
  have pool: "pool X ok (H + rings w) (packet_lists w)" using assms by (rule gmac_invD)
  from pool show ?thesis
  proof (cases rule: allocate_cases)
    case none
    then show ?thesis by simp
  next
    case (packet p w')
    note a = allocate_Inr [OF pool packet]
    have pk: "packets w' = (packets w)(p := (packets w p)\<lparr>plength := 0, index := NETWORK_PACKET_HEADER_SIZE\<rparr>)"
      by (subst a(4)) simp
    have same: "rings w' = rings w" "rings_ok w' = rings_ok w" "gmac_state.more w' = gmac_state.more w"
      "same_config w w'" "env w' = env w" "our_mac w' = our_mac w"
      by (subst a(4); simp add: rings_def rings_ok_def same_config_def)+
    have "buffers_ok w'"
      using assms by (auto simp: gmac_inv_def buffers_ok_def pk same)
    then have inv: "gmac_inv X ok (add_mset p H) w'"
      using assms a(1) by (simp add: gmac_inv_def same)
    have "untouched X {} w w'"
      unfolding untouched_def
    proof (intro ballI impI conjI)
      fix k assume k: "k \<in> packet_heads" "k \<noteq> Free_packets"
      then show els: "list_elements X k (packet_lists w') = list_elements X k (packet_lists w)" by (rule a(3))
      fix q assume "q \<in> set (list_elements X k (packet_lists w))"
      then have "q \<noteq> p" using pool_fresh [OF a(1) k(1)] els by auto
      then show "packets w' q = packets w q" by (simp add: pk)
    qed
    with inv same show ?thesis by (simp add: packet pk)
  qed
qed

lemma gmac_untouched_free:
  "gmac_inv X ok (add_mset p H) w \<Longrightarrow> untouched X {} w (free_network_packet X p w)"
  using gmac_inv_free(2) by (intro untouched_lists) (auto simp: free_network_packet_def)

end

lemma free_packet_frame [simp]:
  "gmac_state.more (free_network_packet X p w) = gmac_state.more w"
  "same_config w (free_network_packet X p w)" "packets (free_network_packet X p w) = packets w"
  "env (free_network_packet X p w) = env w"
  by (simp_all add: free_network_packet_def same_config_def)

lemma set_packet_set_packet: "set_packet p f (set_packet p g w) = set_packet p (\<lambda>k. f (g k)) w"
  by (simp add: set_packet_def)

text \<open>A header put in front of the bytes of a packet.\<close>

definition prepend :: "u8 list \<Rightarrow> packet \<Rightarrow> packet" where
  "prepend hdr k = k\<lparr>index := index k - int (length hdr), plength := plength k + int (length hdr),
     data := upd (nat (index k - int (length hdr))) hdr (data k)\<rparr>"

lemma prepend_frame:
  assumes "packet_ok k" and "int (length hdr) \<le> index k"
  shows "frame_of (prepend hdr k) = hdr @ frame_of k" and "packet_ok (prepend hdr k)"
    and "index (prepend hdr k) = index k - int (length hdr)" and "length (data (prepend hdr k)) = length (data k)"
proof -
  have l: "nat (index k - int (length hdr)) + length hdr \<le> length (data k)"
    using assms unfolding packet_ok_def by linarith
  show "frame_of (prepend hdr k) = hdr @ frame_of k" and "packet_ok (prepend hdr k)"
    using frame_of_prepend [OF assms, of "prepend hdr k"] by (simp_all add: prepend_def)
  show "index (prepend hdr k) = index k - int (length hdr)" and "length (data (prepend hdr k)) = length (data k)"
    using l by (simp_all add: prepend_def)
qed

lemma set_packet_cong: "f (packets w p) = g (packets w p) \<Longrightarrow> set_packet p f w = set_packet p g w"
  by (simp add: set_packet_def)

text \<open>Reception, in the form the receive loop uses.\<close>

lemma gmac_receive_writes:
  assumes "gmac_receive X w = Inr (Some p, w')" and "rx_index w < length (rx_packets w)"
    and "packets w' x \<noteq> packets w x"
  shows "x \<in> {p, rx_packets w' ! rx_index w}"
  using assms by (auto simp: gmac_receive_def Let_def set_packet_def allocate_network_packet_def bindR_eq_Inr_iff
      split: if_splits prod.splits option.splits)

context intrusive_list
begin

lemma gmac_receive_safe:
  assumes "gmac_inv X ok H w"
  shows "safe (gmac_receive X w) (\<lambda>(r, w'). untouched X {} w w' \<and> gmac_state.more w' = gmac_state.more w \<and>
    same_config w w' \<and> (case r of
      None \<Rightarrow> gmac_inv X ok H w'
    | Some p \<Rightarrow> gmac_inv X ok (add_mset p H) w' \<and> packet_ok (packets w' p) \<and> index (packets w' p) = 0))"
proof (cases "gmac_receive X w")
  case (Inl e)
  have "pool X ok (H + rings w) (packet_lists w)" using assms by (rule gmac_invD)
  have "e = Hang"
    using Inl assms by (auto simp: gmac_receive_def gmac_inv_def rings_ok_def Let_def allocate_network_packet_def
        split: if_splits option.splits prod.splits)
  then show ?thesis by (simp add: Inl)
next
  case (Inr r)
  obtain q w' where r: "r = (q, w')" by (cases r)
  note rcv = Inr [unfolded r]
  note shape = gmac_receive_shape [OF rcv]
  have frame: "gmac_state.more w' = gmac_state.more w" "same_config w w'"
    by (subst shape; simp add: same_config_def)+
  show ?thesis
  proof (cases q)
    case None
    note n = gmac_receive_None [OF assms rcv [unfolded None]]
    have "packets w' = packets w"
      using rcv unfolding None by (auto simp: gmac_receive_def Let_def bindR_eq_Inr_iff split: if_splits)
    then have "untouched X {} w w'" using n(2) by (intro untouched_lists) auto
    then show ?thesis using n(1) frame by (simp add: Inr r None)
  next
    case (Some p)
    note s = gmac_receive_Some [OF assms rcv [unfolded Some]]
    have i: "rx_index w < 32" and len: "uint (rx_length (rx_descriptors w ! rx_index w)) \<le> 1024"
      using assms by (auto simp: gmac_inv_def rings_ok_def)
    then have pk: "packet_ok (packets w' p)"
      using s(4,5) buffer_length [OF s(1)] by (simp add: packet_ok_def)
    have same: "packets w' x = packets w x" if "x \<in> set (list_elements X k (packet_lists w))"
      "k \<in> packet_heads" "k \<noteq> Free_packets" for x k
    proof -
      have x: "x \<in> set (list_elements X k (packet_lists w'))" using s(7) that by simp
      have "rx_index w < length (rx_packets w')" using s(1) i by (simp add: gmac_inv_def rings_ok_def)
      then have "rx_packets w' ! rx_index w \<in># rings w'" by (simp add: rings_def)
      then obtain R where R: "rings w' = add_mset (rx_packets w' ! rx_index w) R" by (blast dest: multi_member_split)
      have "pool X ok (add_mset p (H + rings w')) (packet_lists w')" using s(1) by (simp add: gmac_inv_def)
      moreover from this have "pool X ok (add_mset (rx_packets w' ! rx_index w) (add_mset p (H + R))) (packet_lists w')"
        by (simp add: R add_mset_commute)
      ultimately have "x \<notin> {p, rx_packets w' ! rx_index w}" using x pool_fresh that(2) by fast
      then show ?thesis
        using gmac_receive_writes [OF rcv [unfolded Some]] assms i by (auto simp: gmac_inv_def rings_ok_def)
    qed
    then have "untouched X {} w w'" using s(7) by (simp add: untouched_def)
    then show ?thesis using s(1,4) pk frame by (simp add: Inr r Some)
  qed
qed

end

end
