(* ===== verification/Mac.thy ===== *)
theory Mac
  imports Gmac
begin

text \<open>
  \<open>mac.c\<close> up to the hand-over to the driver: the textual form of MAC addresses, the Ethernet
  header and \<open>mac_send\<close>.  A C string is the bytes of its buffer, the terminating zero included; a
  \<open>char\<close> is a byte.  (\<open>handle_mac\<close> dispatches to ARP and IP and is in theory \<open>Receive\<close>,
  \<open>mac_send_to_ip\<close> in theory \<open>Ip\<close>.)
\<close>

abbreviation ETHER_TYPE_IPV4 :: u16 where "ETHER_TYPE_IPV4 \<equiv> 0x0800"
abbreviation ETHER_TYPE_ARP :: u16 where "ETHER_TYPE_ARP \<equiv> 0x0806"

text \<open>\<open>MacHeader\<close>: target at 0, sender at 6, ether type at 12.\<close>

abbreviation MAC_HEADER_SIZE :: int where "MAC_HEADER_SIZE \<equiv> 14"

section \<open>MAC addresses as text\<close>

definition char_to_hex :: "u8 \<Rightarrow> u8" where
  "char_to_hex c =
     (if 0x30 \<le> c \<and> c \<le> 0x39 then c - 0x30
      else let c = c OR push_bit 5 1 in if 0x61 \<le> c \<and> c \<le> 0x66 then c - 0x61 + 10 else 0)"

text \<open>
  The loop of \<open>string_to_mac\<close> over \<open>i\<close>; the first argument of \<open>string_to_mac\<close> is the contents of
  the uninitialised local \<open>mac\<close>, which an early end of the string leaves in the result.
\<close>

fun string_to_mac_loop :: "nat list \<Rightarrow> u8 list \<Rightarrow> int \<Rightarrow> mac \<Rightarrow> mac result" where
  "string_to_mac_loop [] string off mac = Inr mac"
| "string_to_mac_loop (i # is) string off mac =
     bindR (get_byte string off) (\<lambda>c0.
     if c0 = 0 then Inr mac else
     bindR (get_byte string (off + 1)) (\<lambda>c1.
     if c1 = 0 then Inr mac else
     bindR (get_byte string (off + 2)) (\<lambda>c.
     string_to_mac_loop is string (if c = 0x3A then off + 3 else off + 2)
       (mac[i := char_to_hex c1 OR push_bit 4 (char_to_hex c0)]))))"

definition string_to_mac :: "mac \<Rightarrow> u8 list \<Rightarrow> mac result" where
  "string_to_mac mac string = string_to_mac_loop [0..<6] string 0 mac"

definition hex_table :: "u8 list" where
  "hex_table = [0x30, 0x31, 0x32, 0x33, 0x34, 0x35, 0x36, 0x37, 0x38, 0x39, 0x41, 0x42, 0x43, 0x44, 0x45, 0x46]"

fun mac_to_string_loop :: "nat list \<Rightarrow> mac \<Rightarrow> u8 list \<Rightarrow> int \<Rightarrow> u8 \<Rightarrow> (u8 list \<times> int) result" where
  "mac_to_string_loop [] mac string off case_transform = Inr (string, off)"
| "mac_to_string_loop (i # is) mac string off case_transform =
     bindR (put_byte (hex_table ! unat (drop_bit 4 (mac ! i) AND 0xF) OR case_transform) string off) (\<lambda>string.
     bindR (put_byte (hex_table ! unat (drop_bit 0 (mac ! i) AND 0xF) OR case_transform) string (off + 1)) (\<lambda>string.
     if i \<noteq> 5 then
       bindR (put_byte 0x3A string (off + 2)) (\<lambda>string.
       mac_to_string_loop is mac string (off + 3) case_transform)
     else mac_to_string_loop is mac string (off + 2) case_transform))"

definition mac_to_string :: "mac \<Rightarrow> u8 list \<Rightarrow> bool \<Rightarrow> (u8 list) result" where
  "mac_to_string mac string lowercase =
     bindR (mac_to_string_loop [0..<6] mac string 0 (if lowercase then push_bit 5 1 else 0)) (\<lambda>(string, off).
     put_byte 0 string off)"

section \<open>Sending\<close>

definition write_mac_header :: "mac \<Rightarrow> mac \<Rightarrow> u16 \<Rightarrow> int \<Rightarrow> u8 list \<Rightarrow> (u8 list) result" where
  "write_mac_header target senders ether_type off d =
     bindR (memory_copy target 0 d off 6) (\<lambda>d.
     bindR (memory_copy senders 0 d (off + 6) 6) (\<lambda>d.
     write_be16 ether_type d (off + 12)))"

definition mac_send ::
  "('e, 'h) libs \<Rightarrow> nat \<Rightarrow> mac \<Rightarrow> u16 \<Rightarrow> ('e, 'h, 'z) gmac_state_scheme \<Rightarrow> (('e, 'h, 'z) gmac_state_scheme) result" where
  "mac_send X p mac ether_type w =
     (let w = set_packet p (\<lambda>k. k\<lparr>plength := plength k + MAC_HEADER_SIZE, index := index k - MAC_HEADER_SIZE\<rparr>) w in
     bindR (with_data p (write_mac_header mac (get_our_mac w) ether_type (index (packets w p))) w) (\<lambda>w.
     gmac_send X p w))"

definition mac_broadcast ::
  "('e, 'h) libs \<Rightarrow> nat \<Rightarrow> u16 \<Rightarrow> ('e, 'h, 'z) gmac_state_scheme \<Rightarrow> (('e, 'h, 'z) gmac_state_scheme) result" where
  "mac_broadcast X p ether_type w = mac_send X p [0xFF, 0xFF, 0xFF, 0xFF, 0xFF, 0xFF] ether_type w"

section \<open>The round trip of the textual form\<close>

lemma nibble_cases:
  fixes n :: u8
  assumes "unat n < 16"
  shows "n \<in> {0, 1, 2, 3, 4, 5, 6, 7, 8, 9, 10, 11, 12, 13, 14, 15}"
proof -
  define k where "k = unat n"
  have "n = of_nat k" by (simp add: k_def)
  moreover have "k \<in> {0, 1, 2, 3, 4, 5, 6, 7, 8, 9, 10, 11, 12, 13, 14, 15}"
    using assms unfolding k_def [symmetric] by (simp, arith)
  ultimately show ?thesis by auto
qed

lemma unat_nibble: "unat ((b :: u8) AND 0xF) < 16"
proof -
  have "b AND 0xF \<le> 0xF" by (rule word_and_le1)
  then show ?thesis by (simp add: word_le_nat_alt)
qed

lemma hex_digit:
  assumes "unat n < 16" and "t = 0 \<or> t = 0x20"
  shows "char_to_hex (hex_table ! unat n OR t) = n" and "hex_table ! unat n OR t \<noteq> 0"
    and "hex_table ! unat n OR t \<noteq> 0x3A"
  using nibble_cases [OF assms(1)] assms(2) by (auto simp: char_to_hex_def hex_table_def)

lemma nibbles: "(drop_bit 0 b AND 0xF) OR push_bit 4 (drop_bit 4 b AND 0xF) = (b :: u8)"
proof (rule bit_word_eqI)
  fix n assume "n < LENGTH(8)"
  then have "n \<in> {0, 1, 2, 3, 4, 5, 6, 7}" by auto
  then show "bit ((drop_bit 0 b AND 0xF) OR push_bit 4 (drop_bit 4 b AND 0xF)) n = bit b n"
    by (auto simp: bit_simps)
qed

definition mac_text :: "u8 \<Rightarrow> mac \<Rightarrow> u8 list" where
  "mac_text t mac =
     concat (map (\<lambda>i. [hex_table ! unat (drop_bit 4 (mac ! i) AND 0xF) OR t, hex_table ! unat (drop_bit 0 (mac ! i) AND 0xF) OR t]
                     @ (if i \<noteq> 5 then [0x3A] else [])) [0..<6])"

lemma upt_6: "[0..<6] = [0, 1, 2, 3, 4, 5]"
  by (simp add: upt_rec)

lemma length_mac_text [simp]: "length (mac_text t mac) = 17"
  by (simp add: mac_text_def upt_6)

lemma mac_to_string_text:
  assumes "18 \<le> length string"
  shows "mac_to_string mac string lowercase =
    Inr (upd 0 (mac_text (if lowercase then 0x20 else 0) mac @ [0]) string)"
proof -
  define t :: u8 where "t = (if lowercase then push_bit 5 1 else 0)"
  have "string \<noteq> []" using assms by auto
  with assms have "mac_to_string_loop [0..<6] mac string 0 t = Inr (upd 0 (mac_text t mac) string, 17)"
    by (simp add: upt_6 mac_text_def mem upd_next_byte)
  moreover have "put_byte 0 (upd 0 (mac_text t mac) string) 17 = Inr (upd 0 (mac_text t mac @ [0]) string)"
    using assms by (simp add: mem upd_next_byte)
  moreover have "t = (if lowercase then 0x20 else 0)" by (simp add: t_def)
  ultimately show ?thesis by (simp add: mac_to_string_def t_def)
qed

lemma get_byte_upd [mem]:
  assumes "0 \<le> i" and "nat i < length bs" and "length bs \<le> length d"
  shows "get_byte (upd 0 bs d) i = Inr (bs ! nat i)"
proof -
  have "length (upd 0 bs d) = length d" using assms by simp
  moreover have "nat i < length d" using assms by simp
  then have "upd 0 bs d ! nat i = bs ! nat i"
    using assms by (subst nth_upd) auto
  ultimately show ?thesis using assms by (simp add: get_byte_def in_range_def)
qed

lemma string_to_mac_step:
  assumes "get_byte s off = Inr (hex_table ! unat (drop_bit 4 b AND 0xF) OR t)"
    and "get_byte s (off + 1) = Inr (hex_table ! unat (drop_bit 0 b AND 0xF) OR t)"
    and "get_byte s (off + 2) = Inr c" and "t = 0 \<or> t = 0x20"
  shows "string_to_mac_loop (i # is) s off mac =
    string_to_mac_loop is s (if c = 0x3A then off + 3 else off + 2) (mac[i := b])"
  using assms hex_digit [OF unat_nibble assms(4)] nibbles [of b] by simp

lemma string_to_mac_text:
  assumes "length mac = 6" and "length junk = 6" and "18 \<le> length string" and "t = 0 \<or> t = 0x20"
  shows "string_to_mac junk (upd 0 (mac_text t mac @ [0]) string) = Inr mac"
proof -
  let ?s = "upd 0 (mac_text t mac @ [0]) string"
  have get: "get_byte ?s (int j) = Inr ((mac_text t mac @ [0]) ! j)" if "j < 18" for j
    using that assms(3) by (subst get_byte_upd) simp_all
  have chars: "(mac_text t mac @ [0]) ! (3 * k) = hex_table ! unat (drop_bit 4 (mac ! k) AND 0xF) OR t"
      "(mac_text t mac @ [0]) ! (3 * k + 1) = hex_table ! unat (drop_bit 0 (mac ! k) AND 0xF) OR t"
      "(mac_text t mac @ [0]) ! (3 * k + 2) = (if k = 5 then 0 else 0x3A)"
    if "k < 6" for k
  proof -
    from that have "k \<in> {0, 1, 2, 3, 4, 5}" by auto
    then show "(mac_text t mac @ [0]) ! (3 * k) = hex_table ! unat (drop_bit 4 (mac ! k) AND 0xF) OR t"
      "(mac_text t mac @ [0]) ! (3 * k + 1) = hex_table ! unat (drop_bit 0 (mac ! k) AND 0xF) OR t"
      "(mac_text t mac @ [0]) ! (3 * k + 2) = (if k = 5 then 0 else 0x3A)"
      by (auto simp: mac_text_def upt_6)
  qed
  have hi: "get_byte ?s (3 * int k) = Inr (hex_table ! unat (drop_bit 4 (mac ! k) AND 0xF) OR t)"
    and lo: "get_byte ?s (3 * int k + 1) = Inr (hex_table ! unat (drop_bit 0 (mac ! k) AND 0xF) OR t)"
    and sep: "get_byte ?s (3 * int k + 2) = Inr (if k = 5 then 0 else 0x3A)"
    if k: "k < 6" for k
    using get [of "3 * k"] get [of "3 * k + 1"] get [of "3 * k + 2"] chars [OF k] k
    by (simp_all add: add.commute)
  have step: "string_to_mac_loop (k # js) ?s (3 * int k) m =
      string_to_mac_loop js ?s (if k = 5 then 17 else 3 * int k + 3) (m[k := mac ! k])"
    if "k < 6" for k m js
    using string_to_mac_step [OF hi [OF that] lo [OF that] sep [OF that] assms(4), of k js m]
    by (cases "k = 5") (simp_all del: string_to_mac_loop.simps)
  have "string_to_mac_loop [0, 1, 2, 3, 4, 5] ?s 0 junk =
      Inr (junk[0 := mac ! 0, 1 := mac ! 1, 2 := mac ! 2, 3 := mac ! 3, 4 := mac ! 4, 5 := mac ! 5])"
    using step [of 0] step [of 1] step [of 2] step [of 3] step [of 4] step [of 5]
    by (simp del: string_to_mac_loop.simps(2))
  also have "junk[0 := mac ! 0, 1 := mac ! 1, 2 := mac ! 2, 3 := mac ! 3, 4 := mac ! 4, 5 := mac ! 5] = mac"
    using assms(1,2) by (intro nth_equalityI) (auto simp: nth_list_update less_Suc_eq numeral_eq_Suc)
  finally show ?thesis by (simp add: string_to_mac_def upt_6)
qed

section \<open>What mac_send does\<close>

definition mac_header :: "mac \<Rightarrow> mac \<Rightarrow> u16 \<Rightarrow> u8 list" where
  "mac_header target senders ether_type = target @ senders @ be16_bytes ether_type"

lemma length_mac_header: "length target = 6 \<Longrightarrow> length senders = 6 \<Longrightarrow> length (mac_header target senders e) = 14"
  by (simp add: mac_header_def)

lemma keeps_length_mac_header [intro, simp]: "keeps_length (write_mac_header target senders e off)"
  unfolding write_mac_header_def by (intro keeps_length_bind keeps_length_copy keeps_length_be16)

lemma write_mac_header_ok:
  assumes "length target = 6" and "length senders = 6" and "0 \<le> off" and "off + 14 \<le> int (length d)"
  shows "write_mac_header target senders e off d = Inr (upd (nat off) (mac_header target senders e) d)"
proof -
  have n: "nat (off + 6) = nat off + 6" "nat (off + 12) = nat off + 12" using assms by simp_all
  have c: "chunk 0 6 target = target" "chunk 0 6 senders = senders"
    using assms chunk_full [of target] chunk_full [of senders] by simp_all
  have "upd (nat off + 12) (be16_bytes e) (upd (nat off + 6) senders (upd (nat off) target d)) =
      upd (nat off + 12) (be16_bytes e) (upd (nat off) (target @ senders) d)"
    using assms by (subst upd_append) auto
  also have "\<dots> = upd (nat off) ((target @ senders) @ be16_bytes e) d"
    using assms by (intro upd_append) auto
  finally show ?thesis
    using assms by (simp add: write_mac_header_def mem c n mac_header_def)
qed

lemma write_mac_header_out:
  assumes "length target = 6" and "off < 0"
  shows "write_mac_header target senders e off d = Inl Fault"
  using assms by (simp add: write_mac_header_def memory_copy_out)

lemma mac_send_cases:
  assumes "mac_send X p mac e w = Inr w'"
  obtains w1 where "with_data p (write_mac_header mac (our_mac w) e (index (packets w p) - 14))
      (set_packet p (\<lambda>k. k\<lparr>plength := plength k + 14, index := index k - 14\<rparr>) w) = Inr w1"
    and "gmac_send X p w1 = Inr w'"
  using assms by (auto simp: mac_send_def get_our_mac_def Let_def bindR_eq_Inr_iff)

lemma mac_send_shape:
  assumes "mac_send X p mac e w = Inr w'"
  shows "w' = w\<lparr>env := env w', packets := packets w', packet_lists := packet_lists w',
      tx_descriptors := tx_descriptors w', tx_packets := tx_packets w', tx_index := tx_index w', regs := regs w'\<rparr>"
  using assms
proof (rule mac_send_cases)
  fix w1
  assume d: "with_data p (write_mac_header mac (our_mac w) e (index (packets w p) - 14))
      (set_packet p (\<lambda>k. k\<lparr>plength := plength k + 14, index := index k - 14\<rparr>) w) = Inr w1"
    and s: "gmac_send X p w1 = Inr w'"
  have "w1 = w\<lparr>packets := packets w1\<rparr>"
    by (subst with_data_inv(3) [OF keeps_length_mac_header d]) (simp add: set_packet_def)
  then obtain pk where w1: "w1 = w\<lparr>packets := pk\<rparr>" by blast
  obtain v h td tp ti r where "w' = w1\<lparr>env := v, packet_lists := h, tx_descriptors := td,
      tx_packets := tp, tx_index := ti, regs := r\<rparr>"
    using gmac_send_shape [OF s] by blast
  then show ?thesis by (simp add: w1)
qed

text \<open>In a packet with room for the header, the driver gets the frame with the header in front.\<close>

definition mac_framed :: "mac \<Rightarrow> mac \<Rightarrow> u16 \<Rightarrow> packet \<Rightarrow> packet" where
  "mac_framed target senders e k = k\<lparr>plength := plength k + 14, index := index k - 14,
     data := upd (nat (index k - 14)) (mac_header target senders e) (data k)\<rparr>"

lemma mac_send_eq:
  assumes "length mac = 6" and "length (our_mac w) = 6" and "packet_ok (packets w p)" and "14 \<le> index (packets w p)"
  shows "mac_send X p mac e w = gmac_send X p (set_packet p (mac_framed mac (our_mac w) e) w)"
proof -
  let ?w = "set_packet p (\<lambda>k. k\<lparr>plength := plength k + 14, index := index k - 14\<rparr>) w"
  have "write_mac_header mac (our_mac w) e (index (packets w p) - 14) (data (packets w p)) =
      Inr (upd (nat (index (packets w p) - 14)) (mac_header mac (our_mac w) e) (data (packets w p)))"
    using assms by (intro write_mac_header_ok) (auto simp: packet_ok_def)
  then have "with_data p (write_mac_header mac (our_mac w) e (index (packets w p) - 14)) ?w =
      Inr (set_packet p (mac_framed mac (our_mac w) e) w)"
    by (subst with_data_Inr) (simp_all add: set_packet_def mac_framed_def)
  then show ?thesis by (simp add: mac_send_def get_our_mac_def Let_def)
qed

lemma mac_framed_frame:
  assumes "packet_ok k" and "14 \<le> index k" and "length target = 6" and "length senders = 6"
  shows "frame_of (mac_framed target senders e k) = mac_header target senders e @ frame_of k"
    and "packet_ok (mac_framed target senders e k)"
  using assms frame_of_prepend [of k "mac_header target senders e" "mac_framed target senders e k"]
  by (simp_all add: mac_framed_def length_mac_header)

lemma mac_send_out_of_room:
  assumes "length mac = 6" and "index (packets w p) < 14"
  shows "mac_send X p mac e w = Inl Fault"
  using assms by (simp add: mac_send_def Let_def with_data_def write_mac_header_out)

context intrusive_list
begin

lemma mac_send_inv:
  assumes "gmac_inv X ok (add_mset p H) w" and "mac_send X p mac e w = Inr w'"
  shows "gmac_inv X ok H w'"
    and "\<And>k. k \<in> packet_heads \<Longrightarrow> k \<noteq> Free_packets \<Longrightarrow>
      list_elements X k (packet_lists w') = list_elements X k (packet_lists w)"
proof -
  from assms(2) obtain w1 where d: "with_data p (write_mac_header mac (our_mac w) e (index (packets w p) - 14))
      (set_packet p (\<lambda>k. k\<lparr>plength := plength k + 14, index := index k - 14\<rparr>) w) = Inr w1"
    and s: "gmac_send X p w1 = Inr w'"
    by (rule mac_send_cases)
  have "gmac_inv X ok (add_mset p H) w1"
    using assms(1) by (simp add: with_data_inv(1) [OF keeps_length_mac_header d] gmac_inv_set_packet)
  note inv = gmac_send_inv [OF this s]
  then show "gmac_inv X ok H w'" by simp
  show "list_elements X k (packet_lists w') = list_elements X k (packet_lists w)"
    if "k \<in> packet_heads" "k \<noteq> Free_packets" for k
    using inv(2) [OF that] by (simp add: with_data_inv(2) [OF keeps_length_mac_header d])
qed

lemma mac_send_returns:
  assumes "gmac_inv X ok (add_mset p H) w" and "length mac = 6" and "packet_ok (packets w p)"
    and "14 \<le> index (packets w p)" and "\<not> tx_error X w"
  shows "\<exists>w'. mac_send X p mac e w = Inr w'"
proof -
  have "tx_index w < TRANSMIT_DESCRIPTOR_COUNT" using assms(1) by (simp add: gmac_inv_def rings_ok_def)
  then show ?thesis
    using assms our_mac_length [OF assms(1)]
      gmac_send_returns_iff [of "set_packet p (mac_framed mac (our_mac w) e) w" X p]
    by (simp add: mac_send_eq) (simp add: set_packet_def tx_error_def)
qed

lemma mac_send_safe:
  assumes "gmac_inv X ok (add_mset p H) w" and "length mac = 6" and "packet_ok (packets w p)"
    and "14 \<le> index (packets w p)"
  shows "safe (mac_send X p mac e w) (\<lambda>w'. gmac_inv X ok H w' \<and> untouched X {} w w' \<and>
    gmac_state.more w' = gmac_state.more w \<and> same_config w w')"
proof -
  let ?w = "set_packet p (mac_framed mac (our_mac w) e) w"
  have eq: "mac_send X p mac e w = gmac_send X p ?w"
    using assms our_mac_length [OF assms(1)] by (intro mac_send_eq) auto
  have "tx_index ?w < TRANSMIT_DESCRIPTOR_COUNT"
    using assms(1) by (simp add: gmac_inv_def rings_ok_def set_packet_def)
  then have nf: "mac_send X p mac e w \<noteq> Inl Fault" unfolding eq by (rule gmac_send_never_faults)
  moreover have "gmac_inv X ok H w' \<and> untouched X {} w w' \<and> gmac_state.more w' = gmac_state.more w \<and> same_config w w'"
    if r: "mac_send X p mac e w = Inr w'" for w'
  proof -
    have "gmac_send X p ?w = Inr w'" using r eq by simp
    from gmac_send_shape [OF this] obtain v h td tp ti rg where w': "w' = ?w\<lparr>env := v, packet_lists := h,
        tx_descriptors := td, tx_packets := tp, tx_index := ti, regs := rg\<rparr>" by blast
    have "untouched X {} ?w w'"
      using mac_send_inv(2) [OF assms(1) r] by (intro untouched_lists) (simp_all add: w')
    then have "untouched X {} w w'"
      using gmac_untouched_set_packet [OF assms(1)] by (blast intro: untouched_trans)
    then show ?thesis
      using mac_send_inv(1) [OF assms(1) r] by (simp add: w' same_config_def)
  qed
  ultimately show ?thesis by (simp add: safe_iff)
qed

end

end
