(* ===== verification/Arp.thy ===== *)
theory Arp
  imports Mac
begin

text \<open>
  \<open>arp.c\<close>: the cache of eight entries with its free and used lists, the queue of packets that wait
  for an address to be resolved, ARP requests and replies, and the periodic task.  An \<open>ArpEntry*\<close>
  is the index of the entry in \<open>arp_entries\<close>.
\<close>

section \<open>Data\<close>

abbreviation ARP_ENTRY_COUNT :: nat where "ARP_ENTRY_COUNT \<equiv> 8"
abbreviation ARP_ENTRY_MAX_QUEUE_SIZE :: int where "ARP_ENTRY_MAX_QUEUE_SIZE \<equiv> 2"
abbreviation ARP_ENTRY_EXPIRATION_INTERVAL :: u32 where "ARP_ENTRY_EXPIRATION_INTERVAL \<equiv> 60000"
abbreviation ARP_RETRY_INTERVAL :: u32 where "ARP_RETRY_INTERVAL \<equiv> 1000"
abbreviation ARP_RETRY_MAX_COUNT :: int where "ARP_RETRY_MAX_COUNT \<equiv> 3"
abbreviation HARDWARE_TYPE_ETHERNET :: u16 where "HARDWARE_TYPE_ETHERNET \<equiv> 1"
abbreviation ARP_OPERATION_REQUEST :: u16 where "ARP_OPERATION_REQUEST \<equiv> 1"
abbreviation ARP_OPERATION_REPLY :: u16 where "ARP_OPERATION_REPLY \<equiv> 2"

datatype arp_type = ARP_TYPE_GRATUITOUS | ARP_TYPE_PROBE | ARP_TYPE_ANNOUNCEMENT | ARP_TYPE_REQUEST | ARP_TYPE_REPLY

text \<open>
  \<open>ArpHeader\<close>: hardware type at 0, protocol type at 2, hardware and protocol length at 4 and 5,
  operation at 6, sender's MAC at 8 and IP at 14, target's MAC at 18 and IP at 24.
\<close>

abbreviation ARP_HEADER_SIZE :: int where "ARP_HEADER_SIZE \<equiv> 28"

record arp_entry =
  entry_mac :: mac
  entry_ip :: u32
  contain_valid_mapping :: bool
  entry_time :: u32
  retry_count :: int
  packet_count :: int

record ('e, 'h) arp_state = "('e, 'h) gmac_state" +
  arp_entries :: "nat \<Rightarrow> arp_entry"
  entry_lists :: 'h

definition set_entry ::
  "nat \<Rightarrow> (arp_entry \<Rightarrow> arp_entry) \<Rightarrow> ('e, 'h, 'z) arp_state_scheme \<Rightarrow> ('e, 'h, 'z) arp_state_scheme" where
  "set_entry e f w = w\<lparr>arp_entries := (arp_entries w)(e := f (arp_entries w e))\<rparr>"

section \<open>Entries\<close>

definition arp_init :: "('e, 'h) libs \<Rightarrow> ('e, 'h, 'z) arp_state_scheme \<Rightarrow> ('e, 'h, 'z) arp_state_scheme" where
  "arp_init X w =
     (let w = w\<lparr>entry_lists := list_init X Used_entries (list_init X Free_entries (entry_lists w))\<rparr> in
      fold (\<lambda>i w. w\<lparr>packet_lists := list_init X (Entry_queue i) (packet_lists w),
                    entry_lists := list_add_first X i Free_entries (entry_lists w)\<rparr>)
        [0..<ARP_ENTRY_COUNT] w)"

definition free_entry ::
  "('e, 'h) libs \<Rightarrow> nat \<Rightarrow> ('e, 'h, 'z) arp_state_scheme \<Rightarrow> (('e, 'h, 'z) arp_state_scheme) result" where
  "free_entry X e w =
     bindR (loop (drain X (Entry_queue e)
       (\<lambda>p w. Inr (set_entry e (\<lambda>k. k\<lparr>packet_count := packet_count k - 1\<rparr>) (free_network_packet X p w))) w)) (\<lambda>w.
     Inr (w\<lparr>entry_lists := list_add_first X e Free_entries (list_remove X e (entry_lists w))\<rparr>))"

definition use_entry ::
  "('e, 'h) libs \<Rightarrow> nat \<Rightarrow> ('e, 'h, 'z) arp_state_scheme \<Rightarrow> ('e, 'h, 'z) arp_state_scheme" where
  "use_entry X e w =
     (let w = set_entry e (\<lambda>k. k\<lparr>contain_valid_mapping := False, retry_count := 0, packet_count := 0\<rparr>) w in
      w\<lparr>entry_lists := list_add_last X e Used_entries (entry_lists w)\<rparr>)"

definition allocate_entry ::
  "('e, 'h) libs \<Rightarrow> ('e, 'h, 'z) arp_state_scheme \<Rightarrow> (nat \<times> ('e, 'h, 'z) arp_state_scheme) result" where
  "allocate_entry X w =
     (case list_remove_first X Free_entries (entry_lists w) of
        (Some e, h) \<Rightarrow> Inr (e, use_entry X e (w\<lparr>entry_lists := h\<rparr>))
      | (None, h) \<Rightarrow>
          let w = w\<lparr>entry_lists := h\<rparr> in
          (case list_get_first X Used_entries (entry_lists w) of
             None \<Rightarrow> Inl Fault
           | Some e \<Rightarrow> bindR (free_entry X e w) (\<lambda>w. Inr (e, use_entry X e w))))"

definition find_arp_entry :: "('e, 'h) libs \<Rightarrow> u32 \<Rightarrow> ('e, 'h, 'z) arp_state_scheme \<Rightarrow> nat option" where
  "find_arp_entry X ip w = find (\<lambda>e. entry_ip (arp_entries w e) = ip) (list_elements X Used_entries (entry_lists w))"

definition add_to_arp_entry_queue ::
  "('e, 'h) libs \<Rightarrow> nat \<Rightarrow> nat \<Rightarrow> ('e, 'h, 'z) arp_state_scheme \<Rightarrow> (('e, 'h, 'z) arp_state_scheme) result" where
  "add_to_arp_entry_queue X p e w =
     bindR
       (if packet_count (arp_entries w e) = ARP_ENTRY_MAX_QUEUE_SIZE then
          (case list_remove_first X (Entry_queue e) (packet_lists w) of
             (None, h) \<Rightarrow> Inl Fault
           | (Some packet_to_delete, h) \<Rightarrow>
               Inr (set_entry e (\<lambda>k. k\<lparr>packet_count := packet_count k - 1\<rparr>)
                 (free_network_packet X packet_to_delete (w\<lparr>packet_lists := h\<rparr>))))
        else Inr w) (\<lambda>w.
     Inr (set_entry e (\<lambda>k. k\<lparr>packet_count := packet_count k + 1\<rparr>)
       (w\<lparr>packet_lists := list_add_last X p (Entry_queue e) (packet_lists w)\<rparr>)))"

section \<open>Sending\<close>

definition write_arp_header ::
  "mac \<Rightarrow> mac \<Rightarrow> u16 \<Rightarrow> u32 \<Rightarrow> u32 \<Rightarrow> int \<Rightarrow> u8 list \<Rightarrow> (u8 list) result" where
  "write_arp_header senders_mac target_mac operation sender target off d =
     bindR (memory_copy senders_mac 0 d (off + 8) 6) (\<lambda>d.
     bindR (memory_copy target_mac 0 d (off + 18) 6) (\<lambda>d.
     bindR (put_byte 6 d (off + 4)) (\<lambda>d.
     bindR (put_byte 4 d (off + 5)) (\<lambda>d.
     bindR (write_be16 HARDWARE_TYPE_ETHERNET d off) (\<lambda>d.
     bindR (write_be16 ETHER_TYPE_IPV4 d (off + 2)) (\<lambda>d.
     bindR (write_be16 operation d (off + 6)) (\<lambda>d.
     bindR (write_be32 sender d (off + 14)) (\<lambda>d.
     write_be32 target d (off + 24)))))))))"

text \<open>The pointer \<open>target_mac\<close> is read for \<open>ARP_TYPE_REPLY\<close> only; the null pointer of the other calls is \<open>[]\<close>.\<close>

definition send_arp_packet ::
  "('e, 'h) libs \<Rightarrow> mac \<Rightarrow> u32 \<Rightarrow> arp_type \<Rightarrow> ('e, 'h, 'z) arp_state_scheme \<Rightarrow>
   (('e, 'h, 'z) arp_state_scheme) result" where
  "send_arp_packet X target_mac target arp_type w =
     bindR (allocate_network_packet X w) (\<lambda>(p, w).
     let w = set_packet p (\<lambda>k. k\<lparr>plength := ARP_HEADER_SIZE\<rparr>) w;
         target_mac = (if arp_type \<noteq> ARP_TYPE_REPLY then [0, 0, 0, 0, 0, 0] else target_mac);
         target = (if arp_type = ARP_TYPE_ANNOUNCEMENT \<or> arp_type = ARP_TYPE_GRATUITOUS then get_our_ip w else target);
         sender = (if arp_type = ARP_TYPE_PROBE then 0 else get_our_ip w);
         operation = (if arp_type = ARP_TYPE_GRATUITOUS \<or> arp_type = ARP_TYPE_REPLY then ARP_OPERATION_REPLY
                      else ARP_OPERATION_REQUEST)
     in bindR (with_data p (write_arp_header (get_our_mac w) target_mac operation sender target
                              (index (packets w p))) w) (\<lambda>w.
        if arp_type = ARP_TYPE_REPLY then mac_send X p target_mac ETHER_TYPE_ARP w
        else mac_broadcast X p ETHER_TYPE_ARP w))"

definition arp_send ::
  "('e, 'h) libs \<Rightarrow> nat \<Rightarrow> u32 \<Rightarrow> ('e, 'h, 'z) arp_state_scheme \<Rightarrow> (('e, 'h, 'z) arp_state_scheme) result" where
  "arp_send X p ip w =
     (case find_arp_entry X ip w of
        Some e \<Rightarrow>
          if contain_valid_mapping (arp_entries w e) then mac_send X p (entry_mac (arp_entries w e)) ETHER_TYPE_IPV4 w
          else add_to_arp_entry_queue X p e w
      | None \<Rightarrow>
          bindR (allocate_entry X w) (\<lambda>(e, w).
          let w = set_entry e (\<lambda>k. k\<lparr>entry_ip := ip, contain_valid_mapping := False\<rparr>) w in
          case now X w of (t, w) \<Rightarrow>
          let w = set_entry e (\<lambda>k. k\<lparr>entry_time := t\<rparr>) w in
          bindR (add_to_arp_entry_queue X p e w) (\<lambda>w.
          send_arp_packet X [] ip ARP_TYPE_REQUEST w)))"

section \<open>Receiving\<close>

definition validate_arp_header :: "int \<Rightarrow> u8 list \<Rightarrow> bool result" where
  "validate_arp_header off d =
     bindR (read_be16 d off) (\<lambda>hardware_type.
     if hardware_type \<noteq> HARDWARE_TYPE_ETHERNET then Inr False else
     bindR (read_be16 d (off + 2)) (\<lambda>protocol_type.
     if protocol_type \<noteq> ETHER_TYPE_IPV4 then Inr False else
     bindR (get_byte d (off + 4)) (\<lambda>hardware_length.
     bindR (get_byte d (off + 5)) (\<lambda>protocol_length.
     if hardware_length \<noteq> 6 \<or> protocol_length \<noteq> 4 then Inr False else Inr True))))"

definition send_packets_on_entry ::
  "('e, 'h) libs \<Rightarrow> nat \<Rightarrow> ('e, 'h, 'z) arp_state_scheme \<Rightarrow> (('e, 'h, 'z) arp_state_scheme) result" where
  "send_packets_on_entry X e w =
     loop (drain X (Entry_queue e) (\<lambda>p w. mac_send X p (entry_mac (arp_entries w e)) ETHER_TYPE_IPV4 w) w)"

text \<open>The pointer to the sender's MAC is the offset \<open>off\<close> in the received buffer \<open>d\<close>.\<close>

definition update_arp_mapping ::
  "('e, 'h) libs \<Rightarrow> u32 \<Rightarrow> u8 list \<Rightarrow> int \<Rightarrow> bool \<Rightarrow> ('e, 'h, 'z) arp_state_scheme \<Rightarrow>
   (('e, 'h, 'z) arp_state_scheme) result" where
  "update_arp_mapping X ip d off update_only_if_not_valid w =
     (case find_arp_entry X ip w of
        None \<Rightarrow> Inr w
      | Some e \<Rightarrow>
          if update_only_if_not_valid \<and> contain_valid_mapping (arp_entries w e) then Inr w
          else
            bindR (memory_copy d off (entry_mac (arp_entries w e)) 0 6) (\<lambda>m.
            let w = set_entry e (\<lambda>k. k\<lparr>entry_mac := m, contain_valid_mapping := True\<rparr>) w in
            case now X w of (t, w) \<Rightarrow>
            send_packets_on_entry X e (set_entry e (\<lambda>k. k\<lparr>entry_time := t\<rparr>) w)))"

text \<open>
  \<open>header->senders_ip\<close> read as a field of the packed structure: a load in the byte order of the
  CPU, which is little-endian (the bit-fields of \<open>IpHeader\<close> assume it too).
\<close>

definition load_u32 :: "u8 list \<Rightarrow> int \<Rightarrow> u32 result" where
  "load_u32 d off =
     bindR (get_byte d off) (\<lambda>b0. bindR (get_byte d (off + 1)) (\<lambda>b1.
     bindR (get_byte d (off + 2)) (\<lambda>b2. bindR (get_byte d (off + 3)) (\<lambda>b3.
     Inr (ucast b0 OR push_bit 8 (ucast b1) OR push_bit 16 (ucast b2) OR push_bit 24 (ucast b3))))))"

definition load_mac :: "u8 list \<Rightarrow> int \<Rightarrow> mac result" where
  "load_mac d off = (if 0 \<le> off \<and> off + 6 \<le> int (length d) then Inr (chunk (nat off) 6 d) else Inl Fault)"

definition handle_arp ::
  "('e, 'h) libs \<Rightarrow> nat \<Rightarrow> ('e, 'h, 'z) arp_state_scheme \<Rightarrow> (('e, 'h, 'z) arp_state_scheme) result" where
  "handle_arp X p w =
     (let d = data (packets w p); off = index (packets w p) in
     if size_t (plength (packets w p)) < size_t ARP_HEADER_SIZE then Inr (free_network_packet X p w)
     else
     bindR (validate_arp_header off d) (\<lambda>valid.
     if \<not> valid then Inr (free_network_packet X p w)
     else
     bindR (read_be16 d (off + 6)) (\<lambda>operation.
     bindR (read_be32 d (off + 14)) (\<lambda>senders.
     bindR (read_be32 d (off + 24)) (\<lambda>target.
     bindR
       (if operation = ARP_OPERATION_REPLY then
          (if senders \<noteq> target \<and> target = get_our_ip w then update_arp_mapping X senders d (off + 8) True w
           else Inr w)
        else if operation = ARP_OPERATION_REQUEST then
          (if senders \<noteq> 0 \<and> senders \<noteq> target \<and> target = get_our_ip w then
             bindR (load_mac d (off + 8)) (\<lambda>senders_mac.
             bindR (load_u32 d (off + 14)) (\<lambda>ip.
             send_arp_packet X senders_mac ip ARP_TYPE_REPLY w))
           else Inr w)
        else Inr w) (\<lambda>w.
     Inr (free_network_packet X p w)))))))"

section \<open>The periodic task\<close>

definition arp_task_entry ::
  "('e, 'h) libs \<Rightarrow> nat \<Rightarrow> ('e, 'h, 'z) arp_state_scheme \<Rightarrow> (('e, 'h, 'z) arp_state_scheme) result" where
  "arp_task_entry X e w =
     (if contain_valid_mapping (arp_entries w e) then
        case now X w of (t, w) \<Rightarrow>
        if time_less X ARP_ENTRY_EXPIRATION_INTERVAL (get_elapsed X (entry_time (arp_entries w e)) t) then free_entry X e w
        else Inr w
      else
        case now X w of (t, w) \<Rightarrow>
        if time_less X ARP_RETRY_INTERVAL (get_elapsed X (entry_time (arp_entries w e)) t) then
          (if retry_count (arp_entries w e) < ARP_RETRY_MAX_COUNT then
             bindR (send_arp_packet X [] (entry_ip (arp_entries w e)) ARP_TYPE_REQUEST w) (\<lambda>w.
             let w = set_entry e (\<lambda>k. k\<lparr>retry_count := retry_count k + 1\<rparr>) w in
             case now X w of (t, w) \<Rightarrow> Inr (set_entry e (\<lambda>k. k\<lparr>entry_time := t\<rparr>) w))
           else free_entry X e w)
        else Inr w)"

text \<open>
  \<open>list_iterate_safe\<close> has the next node before it runs the body, and the body unlinks no node but
  its own, so the nodes visited are those of the used list at the start.
\<close>

fun arp_task_entries ::
  "('e, 'h) libs \<Rightarrow> nat list \<Rightarrow> ('e, 'h, 'z) arp_state_scheme \<Rightarrow> (('e, 'h, 'z) arp_state_scheme) result" where
  "arp_task_entries X [] w = Inr w"
| "arp_task_entries X (e # es) w = bindR (arp_task_entry X e w) (arp_task_entries X es)"

definition arp_task ::
  "('e, 'h) libs \<Rightarrow> ('e, 'h, 'z) arp_state_scheme \<Rightarrow> (('e, 'h, 'z) arp_state_scheme) result" where
  "arp_task X w = arp_task_entries X (list_elements X Used_entries (entry_lists w)) w"

section \<open>The invariant of the cache\<close>

text \<open>
  \<open>entries_inv\<close>: the eight entries are split between the free and the used list; a free entry has no
  packets; a used entry that is resolved has none either, and one that is not holds at most two, as
  many as it counts; every waiting packet has room for the Ethernet header; no two used entries are
  for the same address.
\<close>

abbreviation entry_heads :: "list_head set" where "entry_heads \<equiv> {Free_entries, Used_entries}"

definition queue_of :: "('e, 'h) libs \<Rightarrow> ('e, 'h, 'z) net_state_scheme \<Rightarrow> nat \<Rightarrow> nat list" where
  "queue_of X w e = list_elements X (Entry_queue e) (packet_lists w)"

definition free_list :: "('e, 'h) libs \<Rightarrow> ('e, 'h, 'z) arp_state_scheme \<Rightarrow> nat list" where
  "free_list X w = list_elements X Free_entries (entry_lists w)"

definition used_list :: "('e, 'h) libs \<Rightarrow> ('e, 'h, 'z) arp_state_scheme \<Rightarrow> nat list" where
  "used_list X w = list_elements X Used_entries (entry_lists w)"

definition ready :: "packet \<Rightarrow> bool" where
  "ready k \<longleftrightarrow> packet_ok k \<and> MAC_HEADER_SIZE \<le> index k"

definition entry_ok :: "('e, 'h) libs \<Rightarrow> ('e, 'h, 'z) arp_state_scheme \<Rightarrow> nat \<Rightarrow> bool" where
  "entry_ok X w e \<longleftrightarrow>
     (if contain_valid_mapping (arp_entries w e) then queue_of X w e = []
      else packet_count (arp_entries w e) = int (length (queue_of X w e)) \<and> length (queue_of X w e) \<le> 2)"

definition entries_inv ::
  "('e, 'h) libs \<Rightarrow> (list_head set \<Rightarrow> 'h \<Rightarrow> bool) \<Rightarrow> ('e, 'h, 'z) arp_state_scheme \<Rightarrow> bool" where
  "entries_inv X ok w \<longleftrightarrow>
     ok entry_heads (entry_lists w) \<and>
     mset (free_list X w) + mset (used_list X w) = mset_set {..<ARP_ENTRY_COUNT} \<and>
     (\<forall>e. length (entry_mac (arp_entries w e)) = 6) \<and>
     (\<forall>e\<in>set (free_list X w). queue_of X w e = []) \<and>
     (\<forall>e\<in>set (used_list X w). entry_ok X w e) \<and>
     (\<forall>e<ARP_ENTRY_COUNT. \<forall>p\<in>set (queue_of X w e). ready (packets w p)) \<and>
     distinct (map (\<lambda>e. entry_ip (arp_entries w e)) (used_list X w))"

definition arp_inv ::
  "('e, 'h) libs \<Rightarrow> (list_head set \<Rightarrow> 'h \<Rightarrow> bool) \<Rightarrow> nat multiset \<Rightarrow> ('e, 'h, 'z) arp_state_scheme \<Rightarrow> bool" where
  "arp_inv X ok H w \<longleftrightarrow> gmac_inv X ok H w \<and> entries_inv X ok w"

text \<open>What a call on the cache leaves alone, besides the packet queues of other components.\<close>

abbreviation arp_heads :: "list_head set" where "arp_heads \<equiv> Entry_queue ` {..<ARP_ENTRY_COUNT}"

definition arp_frame ::
  "('e, 'h) libs \<Rightarrow> ('e, 'h, 'z) arp_state_scheme \<Rightarrow> ('e, 'h, 'z) arp_state_scheme \<Rightarrow> bool" where
  "arp_frame X w w' \<longleftrightarrow> untouched X arp_heads w w' \<and> arp_state.more w' = arp_state.more w \<and> same_config w w'"

lemma arp_frame_refl [simp]: "arp_frame X w w"
  by (simp add: arp_frame_def)

lemma arp_frame_trans: "arp_frame X w w' \<Longrightarrow> arp_frame X w' w'' \<Longrightarrow> arp_frame X w w''"
  by (simp add: arp_frame_def) (blast intro: untouched_trans same_config_trans)

lemma arp_fields_of_more:
  fixes w w' :: "('e, 'h, 'z) arp_state_scheme"
  assumes "gmac_state.more w' = gmac_state.more w"
  shows "arp_entries w' = arp_entries w" and "entry_lists w' = entry_lists w"
    and "arp_state.more w' = arp_state.more w"
  using assms by (cases w; cases w'; simp)+

lemma arp_frame_of_gmac:
  "untouched X {} w w' \<Longrightarrow> gmac_state.more w' = gmac_state.more w \<Longrightarrow> same_config w w' \<Longrightarrow> arp_frame X w w'"
  by (auto simp: arp_frame_def dest: arp_fields_of_more intro: untouched_mono)

lemma entries_inv_member:
  assumes "entries_inv X ok w"
  shows "e \<in> set (free_list X w) \<or> e \<in> set (used_list X w) \<longleftrightarrow> e < ARP_ENTRY_COUNT"
    and "e \<in> set (free_list X w) \<Longrightarrow> e \<notin> set (used_list X w)"
    and "distinct (used_list X w)" and "distinct (free_list X w)"
proof -
  let ?f = "free_list X w" and ?u = "used_list X w"
  have m: "mset (?f @ ?u) = mset_set {..<ARP_ENTRY_COUNT}" using assms by (simp add: entries_inv_def)
  have "set_mset (mset (?f @ ?u)) = {..<ARP_ENTRY_COUNT}" unfolding m by simp
  then show "e \<in> set ?f \<or> e \<in> set ?u \<longleftrightarrow> e < ARP_ENTRY_COUNT" by auto
  have "size (mset (?f @ ?u)) = card {..<ARP_ENTRY_COUNT}" unfolding m by simp
  moreover have "set (?f @ ?u) = {..<ARP_ENTRY_COUNT}"
    using \<open>set_mset (mset (?f @ ?u)) = {..<ARP_ENTRY_COUNT}\<close> by (simp only: set_mset_mset)
  ultimately have "distinct (?f @ ?u)" by (metis card_distinct size_mset)
  then show "e \<in> set ?f \<Longrightarrow> e \<notin> set ?u" and "distinct ?u" and "distinct ?f" by auto
qed

lemma entries_inv_other_queues:
  assumes "entries_inv X ok w" and "arp_entries w' = arp_entries w" and "entry_lists w' = entry_lists w"
    and "untouched X L w w'" and "\<And>e. Entry_queue e \<notin> L"
  shows "entries_inv X ok w'"
proof -
  have q: "queue_of X w' e = queue_of X w e" if "e < ARP_ENTRY_COUNT" for e
    using untouched_queue [OF assms(4) in_packet_heads(2) [OF that] _ assms(5)] by (simp add: queue_of_def)
  have pk: "packets w' p = packets w p" if "e < ARP_ENTRY_COUNT" "p \<in> set (queue_of X w e)" for e p
    using untouched_packet [OF assms(4) in_packet_heads(2) [OF that(1)] _ assms(5)] that(2) by (simp add: queue_of_def)
  have l: "free_list X w' = free_list X w" "used_list X w' = used_list X w"
    by (simp_all add: free_list_def used_list_def assms(3))
  have m: "e < ARP_ENTRY_COUNT" if "e \<in> set (free_list X w) \<or> e \<in> set (used_list X w)" for e
    using that entries_inv_member(1) [OF assms(1)] by blast
  show ?thesis
    using assms(1) unfolding entries_inv_def l assms(2,3) entry_ok_def
    by (simp add: q pk m cong: ball_cong)
qed

lemma entries_inv_cong:
  "entries_inv X ok w \<Longrightarrow> arp_entries w' = arp_entries w \<Longrightarrow> entry_lists w' = entry_lists w \<Longrightarrow>
   untouched X {} w w' \<Longrightarrow> entries_inv X ok w'"
  by (erule entries_inv_other_queues [where L = "{}"]) simp_all

lemma entries_inv_env [simp]: "entries_inv X ok (w\<lparr>env := v\<rparr>) = entries_inv X ok w"
  by (simp add: entries_inv_def free_list_def used_list_def queue_of_def entry_ok_def)

text \<open>A change of a single entry.\<close>

lemma set_entry_frame [simp]:
  "packet_lists (set_entry e f w) = packet_lists w" "packets (set_entry e f w) = packets w"
  "entry_lists (set_entry e f w) = entry_lists w" "env (set_entry e f w) = env w"
  "arp_state.more (set_entry e f w) = arp_state.more w" "our_mac (set_entry e f w) = our_mac w"
  "our_ip (set_entry e f w) = our_ip w" "our_netmask (set_entry e f w) = our_netmask w"
  "queue_of X (set_entry e f w) i = queue_of X w i" "free_list X (set_entry e f w) = free_list X w"
  "used_list X (set_entry e f w) = used_list X w"
  by (simp_all add: set_entry_def queue_of_def free_list_def used_list_def)

lemma arp_entries_set_entry [simp]:
  "arp_entries (set_entry e f w) i = (if i = e then f (arp_entries w e) else arp_entries w i)"
  by (simp add: set_entry_def)

lemma gmac_inv_arp [simp]:
  "gmac_inv X ok H (set_entry e f w) = gmac_inv X ok H w"
  "gmac_inv X ok H (w\<lparr>entry_lists := h\<rparr>) = gmac_inv X ok H w"
  "gmac_inv X ok H (w\<lparr>arp_entries := a\<rparr>) = gmac_inv X ok H w"
  by (simp_all add: gmac_inv_def rings_def buffers_ok_def rings_ok_def set_entry_def)

lemma arp_frame_local [simp]:
  "arp_frame X w (set_entry e f w)" "arp_frame X w (w\<lparr>entry_lists := h\<rparr>)" "arp_frame X w (w\<lparr>env := v\<rparr>)"
  by (simp_all add: arp_frame_def untouched_def same_config_def)

lemma arp_frame_set_entry [simp]:
  "arp_frame X w (set_entry e f w') = arp_frame X w w'"
  "arp_frame X w (w'\<lparr>entry_lists := h\<rparr>) = arp_frame X w w'"
  "arp_frame X w (w'\<lparr>env := v\<rparr>) = arp_frame X w w'"
  by (simp_all add: arp_frame_def untouched_def same_config_def)

section \<open>The packets of the protocol\<close>

definition arp_message :: "mac \<Rightarrow> mac \<Rightarrow> u16 \<Rightarrow> u32 \<Rightarrow> u32 \<Rightarrow> u8 list" where
  "arp_message senders_mac target_mac operation sender target =
     be16_bytes 1 @ be16_bytes 0x800 @ [6, 4] @ be16_bytes operation @
     senders_mac @ be32_bytes sender @ target_mac @ be32_bytes target"

lemma length_arp_message:
  "length senders_mac = 6 \<Longrightarrow> length target_mac = 6 \<Longrightarrow> length (arp_message senders_mac target_mac op a b) = 28"
  by (simp add: arp_message_def)

lemma arp_fields:
  assumes "length senders_mac = 6" and "length target_mac = 6" and "length B = 28"
  shows "upd 24 (be32_bytes b) (upd 14 (be32_bytes a) (upd 6 (be16_bytes op) (upd 2 (be16_bytes 0x800)
      (upd 0 (be16_bytes 1) (upd 5 [4] (upd 4 [6] (upd 18 target_mac (upd 8 senders_mac B)))))))) =
    arp_message senders_mac target_mac op a b"
proof -
  have "sum_list [2, 2, 1, 1, 2, 6, 4, 6, 4] = length B" using assms by simp
  from segments [OF this] obtain f1 f2 f3 f4 f5 f6 f7 f8 f9
    where B: "B = f1 @ f2 @ f3 @ f4 @ f5 @ f6 @ f7 @ f8 @ f9"
      and l: "length f1 = 2" "length f2 = 2" "length f3 = 1" "length f4 = 1" "length f5 = 2" "length f6 = 6"
        "length f7 = 4" "length f8 = 6" "length f9 = 4"
    by (auto simp: map_eq_Cons_conv)
  show ?thesis unfolding B using assms l by (simp add: fields arp_message_def)
qed

lemma write_arp_header_ok:
  assumes "length senders_mac = 6" and "length target_mac = 6" and "0 \<le> off" and "off + 28 \<le> int (length d)"
  shows "write_arp_header senders_mac target_mac op a b off d =
    Inr (upd (nat off) (arp_message senders_mac target_mac op a b) d)"
proof -
  define B where "B = chunk (nat off) 28 d"
  have B: "length B = 28" and le: "nat off + 28 \<le> length d" using assms by (simp_all add: B_def)
  have d: "d = upd (nat off) B d" using le by (simp add: B_def upd_self)
  have c: "chunk 0 6 senders_mac = senders_mac" "chunk 0 6 target_mac = target_mac"
    using assms chunk_full [of senders_mac] chunk_full [of target_mac] by simp_all
  have "write_arp_header senders_mac target_mac op a b off (upd (nat off) B d) =
      Inr (upd (nat off) (arp_message senders_mac target_mac op a b) d)"
    using assms B le by (simp add: write_arp_header_def mem window c arp_fields)
  then show ?thesis using d by simp
qed

lemma keeps_length_arp_header [intro, simp]: "keeps_length (write_arp_header sm tm op a b off)"
  unfolding write_arp_header_def
  by (intro keeps_length_bind keeps_length_copy keeps_length_be16 keeps_length_be32 keeps_length_put)

text \<open>The message \<open>send_arp_packet\<close> builds, and where it sends it.\<close>

definition arp_target_mac :: "mac \<Rightarrow> arp_type \<Rightarrow> mac" where
  "arp_target_mac tm t = (if t = ARP_TYPE_REPLY then tm else [0, 0, 0, 0, 0, 0])"

definition arp_packet :: "mac \<Rightarrow> u32 \<Rightarrow> mac \<Rightarrow> u32 \<Rightarrow> arp_type \<Rightarrow> u8 list" where
  "arp_packet our ip tm target t =
     arp_message our (arp_target_mac tm t)
       (if t = ARP_TYPE_GRATUITOUS \<or> t = ARP_TYPE_REPLY then ARP_OPERATION_REPLY else ARP_OPERATION_REQUEST)
       (if t = ARP_TYPE_PROBE then 0 else ip)
       (if t = ARP_TYPE_ANNOUNCEMENT \<or> t = ARP_TYPE_GRATUITOUS then ip else target)"

definition arp_destination :: "mac \<Rightarrow> arp_type \<Rightarrow> mac" where
  "arp_destination tm t = (if t = ARP_TYPE_REPLY then tm else [0xFF, 0xFF, 0xFF, 0xFF, 0xFF, 0xFF])"

definition put_message :: "u8 list \<Rightarrow> packet \<Rightarrow> packet" where
  "put_message bs k = k\<lparr>plength := int (length bs), data := upd (nat (index k)) bs (data k)\<rparr>"

lemma put_message_frame:
  assumes "length (data k) = 1024" and "0 \<le> index k" and "index k + int (length bs) \<le> 1024"
  shows "frame_of (put_message bs k) = bs" and "packet_ok (put_message bs k)"
    and "index (put_message bs k) = index k"
proof -
  have "nat (index k) + length bs \<le> length (data k)" using assms by linarith
  then show "frame_of (put_message bs k) = bs" by (simp add: frame_of_def put_message_def chunk_upd_same)
  show "packet_ok (put_message bs k)" and "index (put_message bs k) = index k"
    using assms by (auto simp: packet_ok_def put_message_def)
qed

context intrusive_list
begin

lemma send_arp_packet_eq:
  assumes "gmac_inv X ok H w" and "t = ARP_TYPE_REPLY \<longrightarrow> length tm = 6"
  shows "send_arp_packet X tm target t w =
    bindR (allocate_network_packet X w) (\<lambda>(p, w').
      mac_send X p (arp_destination tm t) ETHER_TYPE_ARP
        (set_packet p (put_message (arp_packet (our_mac w) (our_ip w) tm target t)) w'))"
  unfolding send_arp_packet_def
proof (rule bindR_cong [OF refl], goal_cases)
  case (1 r)
  obtain p w1 where r: "r = (p, w1)" by (cases r)
  from safeD [OF gmac_allocate [OF assms(1)] 1] have a: "gmac_inv X ok (add_mset p H) w1" "same_config w w1"
    "packets w1 p = (packets w p)\<lparr>plength := 0, index := NETWORK_PACKET_HEADER_SIZE\<rparr>"
    by (simp_all add: r)
  have len: "length (data (packets w p)) = 1024" "length (our_mac w) = 6"
    using buffer_length [OF assms(1)] our_mac_length [OF assms(1)] by simp_all
  have hdr: "write_arp_header (our_mac w) m op sender dest 144 (data (packets w p)) =
      Inr (upd 144 (arp_message (our_mac w) m op sender dest) (data (packets w p)))"
    if "length m = 6" for m op sender dest
    using len that by (subst write_arp_header_ok) simp_all
  have put: "set_packet p (\<lambda>k. k\<lparr>data := upd 144 (arp_message (our_mac w) m op sender dest) (data (packets w p))\<rparr>)
      (set_packet p (\<lambda>k. k\<lparr>plength := 28\<rparr>) w1) =
      set_packet p (put_message (arp_message (our_mac w) m op sender dest)) w1"
    if "length m = 6" for m op sender dest
    using len that by (simp add: set_packet_def put_message_def a(3) length_arp_message)
  show ?case
    using a(2) assms(2)
    by (cases t) (simp_all add: r Let_def get_our_mac_def get_our_ip_def same_config_def with_data_def a(3)
        mac_broadcast_def arp_destination_def arp_packet_def arp_target_mac_def hdr put)
qed

lemma send_arp_packet_safe:
  assumes "gmac_inv X ok H w" and "t = ARP_TYPE_REPLY \<longrightarrow> length tm = 6"
  shows "safe (send_arp_packet X tm target t w) (\<lambda>w'. gmac_inv X ok H w' \<and> untouched X {} w w' \<and>
    gmac_state.more w' = gmac_state.more w \<and> same_config w w')"
proof -
  let ?msg = "arp_packet (our_mac w) (our_ip w) tm target t"
  have "length ?msg = 28"
    using our_mac_length [OF assms(1)] assms(2) by (simp add: arp_packet_def arp_target_mac_def length_arp_message)
  note len = this
  show ?thesis
    unfolding send_arp_packet_eq [OF assms] safe_bindR
  proof (rule safe_mono [OF gmac_allocate [OF assms(1)]], goal_cases)
    case (1 r)
    obtain p w1 where r: "r = (p, w1)" by (cases r)
    from 1 have a: "gmac_inv X ok (add_mset p H) w1" "untouched X {} w w1" "gmac_state.more w1 = gmac_state.more w"
      "same_config w w1" "index (packets w1 p) = 144"
      by (simp_all add: r)
    let ?w = "set_packet p (put_message ?msg) w1"
    have b: "length (data (packets w1 p)) = 1024" using a(1) by (rule buffer_length)
    have ok: "packet_ok (packets ?w p)" "index (packets ?w p) = 144"
      using put_message_frame [of "packets w1 p" ?msg] a(5) b len by simp_all
    have inv: "gmac_inv X ok (add_mset p H) ?w"
      using a(1,5) b len by (subst gmac_inv_set_packet) (simp_all add: put_message_def)
    have u: "untouched X {} w ?w"
      using a(2) gmac_untouched_set_packet [OF a(1)] by (rule untouched_trans)
    have m: "length (arp_destination tm t) = 6" using assms(2) by (simp add: arp_destination_def)
    show ?case
      unfolding r prod.case
      by (rule safe_mono [OF mac_send_safe [OF inv m ok(1)]])
        (use a(3,4) u ok(2) in \<open>auto intro: untouched_trans simp: same_config_def\<close>)
  qed
qed

lemma send_arp_packet_inv:
  assumes "arp_inv X ok H w" and "t = ARP_TYPE_REPLY \<longrightarrow> length tm = 6"
  shows "safe (send_arp_packet X tm target t w) (\<lambda>w'. arp_inv X ok H w' \<and> untouched X {} w w' \<and>
    gmac_state.more w' = gmac_state.more w \<and> same_config w w')"
proof -
  have "gmac_inv X ok H w" using assms(1) by (simp add: arp_inv_def)
  from send_arp_packet_safe [OF this assms(2)] show ?thesis
    by (rule safe_mono) (use assms(1) in \<open>auto simp: arp_inv_def intro: entries_inv_cong dest: arp_fields_of_more\<close>)
qed

end

section \<open>Releasing an entry\<close>

text \<open>The state while the queue of entry \<open>e\<close> is emptied, against the state \<open>w0\<close> at the start.\<close>

definition emptying ::
  "nat \<Rightarrow> ('e, 'h, 'z) arp_state_scheme \<Rightarrow> ('e, 'h, 'z) arp_state_scheme \<Rightarrow> bool" where
  "emptying e w0 w \<longleftrightarrow> packets w = packets w0 \<and> entry_lists w = entry_lists w0 \<and>
     arp_state.more w = arp_state.more w0 \<and> same_config w0 w \<and>
     (\<forall>i. i \<noteq> e \<longrightarrow> arp_entries w i = arp_entries w0 i) \<and>
     entry_mac (arp_entries w e) = entry_mac (arp_entries w0 e) \<and>
     entry_ip (arp_entries w e) = entry_ip (arp_entries w0 e)"

definition drop_packet ::
  "('e, 'h) libs \<Rightarrow> nat \<Rightarrow> nat \<Rightarrow> ('e, 'h, 'z) arp_state_scheme \<Rightarrow> (('e, 'h, 'z) arp_state_scheme) result" where
  "drop_packet X e = (\<lambda>p w. Inr (set_entry e (\<lambda>k. k\<lparr>packet_count := packet_count k - 1\<rparr>) (free_network_packet X p w)))"

lemma emptying_free [simp]: "emptying e w0 (free_network_packet X p w) = emptying e w0 w"
  by (simp add: emptying_def free_network_packet_def same_config_def)

lemma emptying_count [simp]:
  "emptying e w0 (set_entry e (\<lambda>k. k\<lparr>packet_count := f k\<rparr>) w) = emptying e w0 w"
  by (auto simp: emptying_def same_config_def)

lemma emptying_lists [simp]: "emptying e w0 (w\<lparr>packet_lists := h\<rparr>) = emptying e w0 w"
  by (simp add: emptying_def same_config_def)

context intrusive_list
begin

lemma gmac_take:
  assumes "gmac_inv X ok H w" and "k \<in> packet_heads" and "list_remove_first X k (packet_lists w) = (Some p, h)"
  shows "gmac_inv X ok (add_mset p H) (w\<lparr>packet_lists := h\<rparr>)"
  using assms pool_remove_first(1) [OF gmac_invD(1) [OF assms(1)] assms(2,3)]
  by (simp add: gmac_inv_def rings_def buffers_ok_def rings_ok_def)

lemma gmac_lists: "gmac_inv X ok H w \<Longrightarrow> ok packet_heads (packet_lists w)"
  by (blast dest: gmac_invD(1) pool_lists)

end

sublocale intrusive_list \<subseteq> dropping: packet_sink X ok "drop_packet X e"
    "\<lambda>H w. gmac_inv X ok H w \<and> emptying e w0 w" "\<lambda>k. True" for e w0
proof (unfold_locales, goal_cases)
  case (1 p H w)
  then have "untouched X {} w (set_entry e (\<lambda>k. k\<lparr>packet_count := packet_count k - 1\<rparr>) (free_network_packet X p w))"
    using gmac_untouched_free [of p H w] by (simp add: untouched_def)
  with 1 show ?case by (simp add: drop_packet_def gmac_inv_free)
next
  case (2 H w)
  then show ?case by (blast intro: gmac_lists)
next
  case (3 H w k p h)
  then show ?case by (simp add: gmac_take)
qed

context intrusive_list
begin

lemma used_entry_lists:
  assumes "entries_inv X ok w" and "e \<in> set (used_list X w)"
  defines "h \<equiv> list_add_first X e Free_entries (list_remove X e (entry_lists w))"
  shows "ok entry_heads h" and "list_elements X Free_entries h = e # free_list X w"
    and "list_elements X Used_entries h = remove1 e (used_list X w)"
proof -
  let ?h = "list_remove X e (entry_lists w)"
  have ok: "ok entry_heads (entry_lists w)" and u: "e \<in> set (list_elements X Used_entries (entry_lists w))"
    using assms(1,2) by (simp_all add: entries_inv_def used_list_def)
  have ok': "ok entry_heads ?h" by (rule remove_ok [OF ok _ u]) simp
  have el: "list_elements X k ?h = remove1 e (list_elements X k (entry_lists w))" if "k \<in> entry_heads" for k
    by (rule remove_elements [OF ok _ u that]) simp
  have nf: "e \<notin> set (free_list X w)" using entries_inv_member(2) [OF assms(1)] assms(2) by blast
  have fresh: "\<forall>k\<in>entry_heads. e \<notin> set (list_elements X k ?h)"
    using nf entries_inv_member(3) [OF assms(1)] by (auto simp: el used_list_def free_list_def notin_set_remove1)
  show "ok entry_heads h" unfolding h_def by (rule add_first_ok [OF ok' _ fresh]) simp
  show "list_elements X Free_entries h = e # free_list X w"
    using nf by (simp add: h_def add_first_elements [OF ok' _ fresh] el free_list_def remove1_idem)
  show "list_elements X Used_entries h = remove1 e (used_list X w)"
    by (simp add: h_def add_first_elements [OF ok' _ fresh] el used_list_def)
qed

lemma free_entry_returns:
  assumes "arp_inv X ok H w" and "e \<in> set (used_list X w)"
  shows "returns (free_entry X e w) (\<lambda>w'. arp_inv X ok H w' \<and>
    used_list X w' = remove1 e (used_list X w) \<and> free_list X w' = e # free_list X w \<and> queue_of X w' e = [] \<and>
    untouched X {Entry_queue e} w w' \<and> packets w' = packets w \<and> arp_state.more w' = arp_state.more w \<and>
    same_config w w' \<and> (\<forall>i. i \<noteq> e \<longrightarrow> arp_entries w' i = arp_entries w i))"
proof -
  have inv: "entries_inv X ok w" and g: "gmac_inv X ok H w" using assms(1) by (simp_all add: arp_inv_def)
  have e: "e < ARP_ENTRY_COUNT" using entries_inv_member(1) [OF inv] assms(2) by blast
  have q: "Entry_queue e \<in> packet_heads" using e by (rule in_packet_heads)
  let ?h = "list_add_first X e Free_entries (list_remove X e (entry_lists w))"
  note lists = used_entry_lists [OF inv assms(2)]
  have "returns (loop (drain X (Entry_queue e) (drop_packet X e) w)) (\<lambda>w'. (gmac_inv X ok H w' \<and> emptying e w w') \<and>
      list_elements X (Entry_queue e) (packet_lists w') = [] \<and> untouched X {Entry_queue e} w w')"
    using g q by (intro dropping.loop_drain_returns) (auto simp: emptying_def drop_packet_def)
  then show ?thesis
    unfolding free_entry_def returns_bindR drop_packet_def [symmetric]
  proof (rule returns_mono, goal_cases)
    case (1 w1)
    then have g1: "gmac_inv X ok H w1" and em: "emptying e w w1" and q1: "queue_of X w1 e = []"
      and u: "untouched X {Entry_queue e} w w1"
      by (simp_all add: queue_of_def)
    let ?w = "w1\<lparr>entry_lists := ?h\<rparr>"
    have eq: "arp_entries w1 i = arp_entries w i" if "i \<noteq> e" for i using em that by (simp add: emptying_def)
    have els: "entry_lists w1 = entry_lists w" and pk: "packets w1 = packets w"
      and mac: "entry_mac (arp_entries w1 i) = entry_mac (arp_entries w i)"
      and ip: "entry_ip (arp_entries w1 i) = entry_ip (arp_entries w i)" for i
      using em eq by (auto simp: emptying_def) metis+
    have fl: "free_list X ?w = e # free_list X w" and ul: "used_list X ?w = remove1 e (used_list X w)"
      using lists by (simp_all add: free_list_def used_list_def)
    have qu: "queue_of X ?w i = (if i = e then [] else queue_of X w i)" if "i < ARP_ENTRY_COUNT" for i
      using q1 untouched_queue [OF u in_packet_heads(2) [OF that]] by (simp add: queue_of_def)
    have d: "distinct (used_list X w)" using entries_inv_member(3) [OF inv] .
    have mem: "i < ARP_ENTRY_COUNT" if "i \<in> set (free_list X w) \<or> i \<in> set (used_list X w)" for i
      using entries_inv_member(1) [OF inv] that by blast
    have nf: "e \<notin> set (free_list X w)" using entries_inv_member(2) [OF inv] assms(2) by blast
    have "entries_inv X ok ?w"
      unfolding entries_inv_def fl ul
    proof (intro conjI)
      show "ok entry_heads (entry_lists ?w)" using lists by simp
      show "mset (e # free_list X w) + mset (remove1 e (used_list X w)) = mset_set {..<ARP_ENTRY_COUNT}"
      proof -
        have "mset (e # free_list X w) + mset (remove1 e (used_list X w)) =
            mset (free_list X w) + add_mset e (mset (remove1 e (used_list X w)))" by simp
        also have "add_mset e (mset (remove1 e (used_list X w))) = mset (used_list X w)" using assms(2) by simp
        also have "mset (free_list X w) + mset (used_list X w) = mset_set {..<ARP_ENTRY_COUNT}"
          using inv by (simp add: entries_inv_def)
        finally show ?thesis .
      qed
      show "\<forall>i. length (entry_mac (arp_entries ?w i)) = 6" using inv by (simp add: entries_inv_def mac)
      show "\<forall>i\<in>set (e # free_list X w). queue_of X ?w i = []"
        using inv mem e by (auto simp: entries_inv_def qu)
      show "\<forall>i\<in>set (remove1 e (used_list X w)). entry_ok X ?w i"
        using inv mem d by (auto simp: entries_inv_def qu entry_ok_def eq)
      show "\<forall>i<ARP_ENTRY_COUNT. \<forall>p\<in>set (queue_of X ?w i). ready (packets ?w p)"
        using inv by (simp add: entries_inv_def qu pk)
      show "distinct (map (\<lambda>i. entry_ip (arp_entries ?w i)) (remove1 e (used_list X w)))"
        using inv d by (auto simp: entries_inv_def distinct_map ip intro: inj_on_subset)
    qed
    with g1 em u q1 fl ul els show ?case
      by (auto simp: arp_inv_def emptying_def queue_of_def untouched_def same_config_def)
  qed
qed

end

section \<open>Taking an entry and queueing on it\<close>

lemma find_arp_entry_Some:
  "find_arp_entry X ip w = Some e \<Longrightarrow> e \<in> set (used_list X w) \<and> entry_ip (arp_entries w e) = ip"
  by (auto simp: find_arp_entry_def used_list_def find_Some_iff)

lemma find_arp_entry_None:
  "find_arp_entry X ip w = None \<longleftrightarrow> (\<forall>e\<in>set (used_list X w). entry_ip (arp_entries w e) \<noteq> ip)"
  by (auto simp: find_arp_entry_def used_list_def find_None_iff)

text \<open>The entry \<open>arp_send\<close> has set up for a new address when it queues the packet.\<close>

definition fresh_entry :: "u32 \<Rightarrow> u32 \<Rightarrow> arp_entry \<Rightarrow> arp_entry" where
  "fresh_entry ip t k = k\<lparr>retry_count := 0, packet_count := 0, entry_ip := ip,
     contain_valid_mapping := False, entry_time := t\<rparr>"

context intrusive_list
begin

lemma allocate_entry_free:
  assumes "entries_inv X ok w" and "free_list X w \<noteq> []"
  obtains e h where "allocate_entry X w = Inr (e, use_entry X e (w\<lparr>entry_lists := h\<rparr>))"
    and "e = hd (free_list X w)" and "e < ARP_ENTRY_COUNT" and "e \<notin> set (used_list X w)"
    and "free_list X (use_entry X e (w\<lparr>entry_lists := h\<rparr>)) = tl (free_list X w)"
    and "used_list X (use_entry X e (w\<lparr>entry_lists := h\<rparr>)) = used_list X w @ [e]"
    and "ok entry_heads (entry_lists (use_entry X e (w\<lparr>entry_lists := h\<rparr>)))"
proof -
  have ok: "ok entry_heads (entry_lists w)" using assms(1) by (simp add: entries_inv_def)
  have "list_elements X Free_entries (entry_lists w) \<noteq> []" using assms(2) by (simp add: free_list_def)
  then obtain e h where rm: "list_remove_first X Free_entries (entry_lists w) = (Some e, h)"
    and els: "list_elements X Free_entries (entry_lists w) = e # list_elements X Free_entries h"
    and ok': "ok entry_heads h"
    and other: "\<And>k. k \<in> entry_heads \<Longrightarrow> k \<noteq> Free_entries \<Longrightarrow> list_elements X k h = list_elements X k (entry_lists w)"
    using remove_first_nonempty [OF ok, of Free_entries] by blast
  have fl: "free_list X w = e # list_elements X Free_entries h" using els by (simp add: free_list_def)
  have u: "list_elements X Used_entries h = used_list X w" using other by (simp add: used_list_def)
  have e: "e < ARP_ENTRY_COUNT" "e \<notin> set (used_list X w)" "e \<notin> set (list_elements X Free_entries h)"
    using entries_inv_member(1,2) [OF assms(1), of e] entries_inv_member(4) [OF assms(1)] fl by auto
  have fresh: "\<forall>k\<in>entry_heads. e \<notin> set (list_elements X k h)" using e u by simp
  show thesis
  proof (rule that [of e h])
    show "allocate_entry X w = Inr (e, use_entry X e (w\<lparr>entry_lists := h\<rparr>))"
      by (simp add: allocate_entry_def rm)
    show "free_list X (use_entry X e (w\<lparr>entry_lists := h\<rparr>)) = tl (free_list X w)"
      and "used_list X (use_entry X e (w\<lparr>entry_lists := h\<rparr>)) = used_list X w @ [e]"
      and "ok entry_heads (entry_lists (use_entry X e (w\<lparr>entry_lists := h\<rparr>)))"
      using add_last_elements [OF ok' _ fresh] add_last_ok [OF ok' _ fresh] u
      by (simp_all add: use_entry_def Let_def free_list_def [of X "_\<lparr>entry_lists := _\<rparr>"]
          used_list_def [of X "_\<lparr>entry_lists := _\<rparr>"] fl)
  qed (use e fl in simp_all)
qed

lemma new_entry_inv:
  assumes "arp_inv X ok H w" and "find_arp_entry X ip w = None" and "e < ARP_ENTRY_COUNT" and "e \<in> set (free_list X w)"
    and "free_list X w' = remove1 e (free_list X w)" and "used_list X w' = used_list X w @ [e]"
    and "ok entry_heads (entry_lists w')" and "w' = w\<lparr>entry_lists := h, env := v, arp_entries := a\<rparr>"
    and "a = (arp_entries w)(e := fresh_entry ip t (arp_entries w e))"
  shows "arp_inv X ok H w'"
proof -
  have inv: "entries_inv X ok w" and g: "gmac_inv X ok H w" using assms(1) by (simp_all add: arp_inv_def)
  have q: "queue_of X w' i = queue_of X w i" and pk: "packets w' = packets w" and en: "arp_entries w' = a" for i
    by (simp_all add: assms(8) queue_of_def)
  have qe: "queue_of X w e = []" using inv assms(4) by (simp add: entries_inv_def)
  have nu: "e \<notin> set (used_list X w)" using entries_inv_member(2) [OF inv assms(4)] .
  have "entries_inv X ok w'"
    unfolding entries_inv_def
  proof (intro conjI)
    show "ok entry_heads (entry_lists w')" by (rule assms(7))
    show "mset (free_list X w') + mset (used_list X w') = mset_set {..<ARP_ENTRY_COUNT}"
    proof -
      have "mset (free_list X w') + mset (used_list X w') =
          add_mset e (mset (remove1 e (free_list X w))) + mset (used_list X w)"
        by (simp only: assms(5,6)) simp
      also have "add_mset e (mset (remove1 e (free_list X w))) = mset (free_list X w)" using assms(4) by simp
      also have "mset (free_list X w) + mset (used_list X w) = mset_set {..<ARP_ENTRY_COUNT}"
        using inv by (simp add: entries_inv_def)
      finally show ?thesis .
    qed
    show "\<forall>i. length (entry_mac (arp_entries w' i)) = 6"
      using inv by (simp add: entries_inv_def en assms(9) fresh_entry_def)
    show "\<forall>i\<in>set (free_list X w'). queue_of X w' i = []"
      using inv by (auto simp: entries_inv_def q assms(5) dest: notin_set_remove1 set_remove1_subset [THEN subsetD])
    show "\<forall>i\<in>set (used_list X w'). entry_ok X w' i"
      using inv nu by (auto simp: entries_inv_def entry_ok_def q en assms(6,9) fresh_entry_def qe)
    show "\<forall>i<ARP_ENTRY_COUNT. \<forall>p\<in>set (queue_of X w' i). ready (packets w' p)"
      using inv by (simp add: entries_inv_def q pk)
    have m: "map (\<lambda>i. entry_ip (arp_entries w' i)) (used_list X w') =
        map (\<lambda>i. entry_ip (arp_entries w i)) (used_list X w) @ [ip]"
      using nu by (auto simp: en assms(6,9) fresh_entry_def)
    have "distinct (map (\<lambda>i. entry_ip (arp_entries w i)) (used_list X w))"
      using inv by (simp add: entries_inv_def)
    moreover have "ip \<notin> set (map (\<lambda>i. entry_ip (arp_entries w i)) (used_list X w))"
      using assms(2) by (auto simp: find_arp_entry_None)
    ultimately show "distinct (map (\<lambda>i. entry_ip (arp_entries w' i)) (used_list X w'))"
      unfolding m by (simp only: distinct_append) simp
  qed
  moreover have "gmac_inv X ok H w'"
    using g by (simp add: assms(8) gmac_inv_def rings_def buffers_ok_def rings_ok_def)
  ultimately show ?thesis by (simp add: arp_inv_def)
qed

end

context intrusive_list
begin

text \<open>One used entry and its queue change, the rest stays.\<close>

lemma entries_inv_change:
  assumes "entries_inv X ok w" and "e \<in> set (used_list X w)" and "entry_lists w' = entry_lists w"
    and "\<And>i. i \<noteq> e \<Longrightarrow> arp_entries w' i = arp_entries w i"
    and "entry_ip (arp_entries w' e) = entry_ip (arp_entries w e)"
    and "length (entry_mac (arp_entries w' e)) = 6" and "entry_ok X w' e"
    and "untouched X {Entry_queue e} w w'" and "\<forall>p\<in>set (queue_of X w' e). ready (packets w' p)"
  shows "entries_inv X ok w'"
proof -
  have l: "free_list X w' = free_list X w" "used_list X w' = used_list X w"
    by (simp_all add: free_list_def used_list_def assms(3))
  have m: "i < ARP_ENTRY_COUNT" if "i \<in> set (free_list X w) \<or> i \<in> set (used_list X w)" for i
    using that entries_inv_member(1) [OF assms(1)] by blast
  have ne: "i \<noteq> e" if "i \<in> set (free_list X w)" for i
    using that assms(2) entries_inv_member(2) [OF assms(1)] by blast
  have ip: "entry_ip (arp_entries w' i) = entry_ip (arp_entries w i)" for i
    using assms(4,5) by (cases "i = e") simp_all
  have mac: "length (entry_mac (arp_entries w' i)) = 6" for i
    using assms(1,4,6) by (cases "i = e") (simp_all add: entries_inv_def)
  have q: "queue_of X w' i = queue_of X w i" if "i < ARP_ENTRY_COUNT" "i \<noteq> e" for i
    using untouched_queue [OF assms(8) in_packet_heads(2) [OF that(1)]] that(2) by (simp add: queue_of_def)
  have pk: "packets w' p = packets w p" if "i < ARP_ENTRY_COUNT" "i \<noteq> e" "p \<in> set (queue_of X w i)" for i p
    using untouched_packet [OF assms(8) in_packet_heads(2) [OF that(1)]] that(2,3) by (simp add: queue_of_def)
  show ?thesis
    unfolding entries_inv_def l assms(3) ip
  proof (intro conjI)
    show "\<forall>i\<in>set (free_list X w). queue_of X w' i = []"
      using assms(1) m ne q by (auto simp: entries_inv_def)
    show "\<forall>i\<in>set (used_list X w). entry_ok X w' i"
    proof
      fix i assume i: "i \<in> set (used_list X w)"
      show "entry_ok X w' i"
        using assms(1) i q [OF m, of i] assms(4) [of i] assms(7)
        by (cases "i = e") (simp_all add: entry_ok_def entries_inv_def)
    qed
    show "\<forall>i<ARP_ENTRY_COUNT. \<forall>p\<in>set (queue_of X w' i). ready (packets w' p)"
    proof (intro allI impI ballI)
      fix i p assume i: "i < ARP_ENTRY_COUNT" and p: "p \<in> set (queue_of X w' i)"
      show "ready (packets w' p)"
      proof (cases "i = e")
        case True
        then show ?thesis using assms(9) p by simp
      next
        case False
        then show ?thesis using assms(1) i p by (simp add: q pk entries_inv_def)
      qed
    qed
  qed (use assms(1) mac in \<open>simp_all add: entries_inv_def\<close>)
qed

text \<open>The queue keeps the last two packets: the oldest makes room for the new one.\<close>

lemma add_to_queue_shape:
  assumes "add_to_arp_entry_queue X p e w = Inr w'"
  shows "w' = w\<lparr>packet_lists := packet_lists w', arp_entries := arp_entries w'\<rparr>"
    and "i \<noteq> e \<Longrightarrow> arp_entries w' i = arp_entries w i" and "entry_ip (arp_entries w' e) = entry_ip (arp_entries w e)"
    and "contain_valid_mapping (arp_entries w' e) = contain_valid_mapping (arp_entries w e)"
  using assms
  by (auto simp: add_to_arp_entry_queue_def bindR_eq_Inr_iff free_network_packet_def set_entry_def
      split: if_splits option.splits prod.splits)

lemma add_to_queue_returns:
  assumes "arp_inv X ok (add_mset p H) w" and "e \<in> set (used_list X w)"
    and "\<not> contain_valid_mapping (arp_entries w e)" and "ready (packets w p)"
  shows "returns (add_to_arp_entry_queue X p e w) (\<lambda>w'. arp_inv X ok H w' \<and> arp_frame X w w' \<and> untouched X {Entry_queue e} w w' \<and>
    used_list X w' = used_list X w \<and> free_list X w' = free_list X w \<and> packets w' = packets w \<and> env w' = env w \<and>
    queue_of X w' e = (if length (queue_of X w e) = 2 then tl (queue_of X w e) else queue_of X w e) @ [p])"
proof -
  have inv: "entries_inv X ok w" and g: "gmac_inv X ok (add_mset p H) w" using assms(1) by (simp_all add: arp_inv_def)
  have e: "e < ARP_ENTRY_COUNT" using entries_inv_member(1) [OF inv] assms(2) by blast
  have qh: "Entry_queue e \<in> packet_heads" using e by (rule in_packet_heads)
  have eok: "packet_count (arp_entries w e) = int (length (queue_of X w e))" "length (queue_of X w e) \<le> 2"
    using inv assms(2,3) by (auto simp: entries_inv_def entry_ok_def)
  let ?q = "queue_of X w e"
  let ?full = "length ?q = 2"
  obtain w1 where w1: "(if packet_count (arp_entries w e) = ARP_ENTRY_MAX_QUEUE_SIZE then
          (case list_remove_first X (Entry_queue e) (packet_lists w) of
             (None, h) \<Rightarrow> Inl Fault
           | (Some packet_to_delete, h) \<Rightarrow>
               Inr (set_entry e (\<lambda>k. k\<lparr>packet_count := packet_count k - 1\<rparr>)
                 (free_network_packet X packet_to_delete (w\<lparr>packet_lists := h\<rparr>))))
        else Inr w) = Inr w1"
    and g1: "gmac_inv X ok (add_mset p H) w1"
    and q1: "queue_of X w1 e = (if ?full then tl ?q else ?q)"
    and o1: "\<And>k. k \<in> packet_heads \<Longrightarrow> k \<noteq> Free_packets \<Longrightarrow> k \<noteq> Entry_queue e \<Longrightarrow>
        list_elements X k (packet_lists w1) = list_elements X k (packet_lists w)"
    and s1: "w1 = w\<lparr>packet_lists := packet_lists w1, arp_entries := (arp_entries w)(e := (arp_entries w e)
        \<lparr>packet_count := int (length (if ?full then tl ?q else ?q))\<rparr>)\<rparr>"
  proof (cases ?full)
    case False
    then have "packet_count (arp_entries w e) \<noteq> 2" using eok(1) by simp
    moreover have "(arp_entries w e)\<lparr>packet_count := int (length ?q)\<rparr> = arp_entries w e" by (simp flip: eok(1))
    ultimately show thesis
      by (intro that [of w]) (use False g in simp_all)
  next
    case True
    then have "list_elements X (Entry_queue e) (packet_lists w) \<noteq> []" by (auto simp: queue_of_def)
    then obtain d h where rm: "list_remove_first X (Entry_queue e) (packet_lists w) = (Some d, h)"
      and els: "list_elements X (Entry_queue e) (packet_lists w) = d # list_elements X (Entry_queue e) h"
      and other: "\<And>k. k \<in> packet_heads \<Longrightarrow> k \<noteq> Entry_queue e \<Longrightarrow> list_elements X k h = list_elements X k (packet_lists w)"
      using remove_first_nonempty [OF gmac_lists [OF g] qh] by blast
    have t: "gmac_inv X ok (add_mset d (add_mset p H)) (w\<lparr>packet_lists := h\<rparr>)"
      using g qh rm by (rule gmac_take)
    note fr = gmac_inv_free [OF t]
    have tl: "tl ?q = list_elements X (Entry_queue e) h" by (simp add: queue_of_def els)
    let ?w1 = "set_entry e (\<lambda>k. k\<lparr>packet_count := packet_count k - 1\<rparr>) (free_network_packet X d (w\<lparr>packet_lists := h\<rparr>))"
    show thesis
    proof (rule that [of ?w1])
      show "queue_of X ?w1 e = (if ?full then tl ?q else ?q)"
        using True fr(2) [OF qh] by (simp add: queue_of_def [of X "free_network_packet _ _ _"] tl)
      show "list_elements X k (packet_lists ?w1) = list_elements X k (packet_lists w)"
        if "k \<in> packet_heads" "k \<noteq> Free_packets" "k \<noteq> Entry_queue e" for k
        using that other fr(2) by simp
      show "?w1 = w\<lparr>packet_lists := packet_lists ?w1, arp_entries := (arp_entries w)(e := (arp_entries w e)
          \<lparr>packet_count := int (length (if ?full then tl ?q else ?q))\<rparr>)\<rparr>"
        using True eok by (simp add: set_entry_def free_network_packet_def)
    qed (use True eok rm fr(1) in simp_all)
  qed
  let ?h = "list_add_last X p (Entry_queue e) (packet_lists w1)"
  let ?n = "length (if ?full then tl ?q else ?q)"
  let ?w = "set_entry e (\<lambda>k. k\<lparr>packet_count := packet_count k + 1\<rparr>) (w1\<lparr>packet_lists := ?h\<rparr>)"
  have pool1: "pool X ok (add_mset p (H + rings w1)) (packet_lists w1)"
    using gmac_invD(1) [OF g1] by simp
  have pool: "pool X ok (H + rings w1) ?h" using pool1 qh by (rule pool_add_last)
  note els = pool_add_elements(2) [OF pool1 qh]
  have q: "queue_of X ?w e = (if ?full then tl ?q else ?q) @ [p]"
    using els [OF qh] q1 by (simp add: queue_of_def)
  have o: "list_elements X k (packet_lists ?w) = list_elements X k (packet_lists w)"
    if "k \<in> packet_heads" "k \<noteq> Free_packets" "k \<noteq> Entry_queue e" for k
    using that els o1 by simp
  have s: "?w = w\<lparr>packet_lists := ?h, arp_entries := (arp_entries w)(e := (arp_entries w e)\<lparr>packet_count := 1 + int ?n\<rparr>)\<rparr>"
    by (subst s1) (simp add: set_entry_def add.commute)
  have fields: "packets ?w = packets w" "entry_lists ?w = entry_lists w" "env ?w = env w"
    "arp_state.more ?w = arp_state.more w" "same_config w ?w"
    "arp_entries ?w = (arp_entries w)(e := (arp_entries w e)\<lparr>packet_count := int (length (queue_of X ?w e))\<rparr>)"
    unfolding q by (simp_all add: s same_config_def)
  have un: "untouched X {Entry_queue e} w ?w"
    using o fields(1) by (intro untouched_lists) auto
  have "entries_inv X ok ?w"
  proof (rule entries_inv_change [OF inv assms(2) fields(2) _ _ _ _ un])
    show "entry_ok X ?w e"
    proof -
      have "length (queue_of X ?w e) \<le> 2" unfolding q using eok(2) by auto
      then show ?thesis using assms(3) by (simp add: entry_ok_def fields(6) del: arp_entries_set_entry)
    qed
    show "\<forall>p\<in>set (queue_of X ?w e). ready (packets ?w p)"
    proof -
      have "\<forall>p\<in>set ?q. ready (packets w p)" using inv e by (simp add: entries_inv_def)
      moreover have "set (tl ?q) \<subseteq> set ?q" by (cases ?q) auto
      ultimately show ?thesis unfolding q fields(1) using assms(4) by auto
    qed
  qed (use fields(6) inv in \<open>simp_all add: entries_inv_def del: arp_entries_set_entry\<close>)
  moreover have "gmac_inv X ok H ?w"
  proof -
    have "gmac_inv X ok H (w1\<lparr>packet_lists := ?h\<rparr>)"
      using pool g1 by (simp add: gmac_inv_def rings_def buffers_ok_def rings_ok_def)
    then show ?thesis by simp
  qed
  moreover have "arp_frame X w ?w"
    using o e fields by (auto simp: arp_frame_def untouched_def)
  moreover have "used_list X ?w = used_list X w" "free_list X ?w = free_list X w"
    using fields(2) by (simp_all add: used_list_def free_list_def)
  ultimately show ?thesis
    using q fields un by (simp add: add_to_arp_entry_queue_def w1 arp_inv_def)
qed

end

section \<open>arp_send\<close>

text \<open>A packet for \<open>ip\<close> can be taken: its entry exists, or an entry is free.\<close>

definition arp_room :: "('e, 'h) libs \<Rightarrow> u32 \<Rightarrow> ('e, 'h, 'z) arp_state_scheme \<Rightarrow> bool" where
  "arp_room X ip w \<longleftrightarrow> free_list X w \<noteq> [] \<or> find_arp_entry X ip w \<noteq> None"

text \<open>The state in which \<open>update_arp_mapping\<close> starts to send what waited.\<close>

definition resolved_entry :: "nat \<Rightarrow> mac \<Rightarrow> u32 \<Rightarrow> 'e \<Rightarrow> ('e, 'h, 'z) arp_state_scheme \<Rightarrow> ('e, 'h, 'z) arp_state_scheme" where
  "resolved_entry e m t v w = w\<lparr>arp_entries := (arp_entries w)(e := (arp_entries w e)
     \<lparr>entry_mac := m, contain_valid_mapping := True, entry_time := t\<rparr>), env := v\<rparr>"

sublocale intrusive_list \<subseteq> sending: packet_sink X ok
    "\<lambda>p w. mac_send X p (entry_mac (arp_entries w e)) ETHER_TYPE_IPV4 w"
    "\<lambda>H w. gmac_inv X ok H w \<and> gmac_state.more w = gmac_state.more w0 \<and> same_config w0 w \<and>
       length (entry_mac (arp_entries w0 e)) = 6" ready for e w0
proof (unfold_locales, goal_cases)
  case (1 p H w)
  then have "length (entry_mac (arp_entries w e)) = 6" using arp_fields_of_more(1) [of w w0] by simp
  with 1 have "safe (mac_send X p (entry_mac (arp_entries w e)) ETHER_TYPE_IPV4 w) (\<lambda>w'. gmac_inv X ok H w' \<and>
      untouched X {} w w' \<and> gmac_state.more w' = gmac_state.more w \<and> same_config w w')"
    by (intro mac_send_safe) (auto simp: ready_def)
  then show ?case by (rule safe_mono) (use 1 in \<open>auto intro: same_config_trans\<close>)
next
  case (2 H w)
  then show ?case by (blast intro: gmac_lists)
next
  case (3 H w k p h)
  then show ?case by (simp add: gmac_take same_config_def)
qed

context intrusive_list
begin

lemma mac_send_arp_inv:
  assumes "arp_inv X ok (add_mset p H) w" and "length mac = 6" and "ready (packets w p)"
  shows "safe (mac_send X p mac e w) (\<lambda>w'. arp_inv X ok H w' \<and> arp_frame X w w')"
proof -
  have "gmac_inv X ok (add_mset p H) w" using assms(1) by (simp add: arp_inv_def)
  then have "safe (mac_send X p mac e w) (\<lambda>w'. gmac_inv X ok H w' \<and> untouched X {} w w' \<and>
      gmac_state.more w' = gmac_state.more w \<and> same_config w w')"
    using assms(2,3) by (intro mac_send_safe) (auto simp: ready_def)
  then show ?thesis
    by (rule safe_mono)
      (use assms(1) in \<open>auto simp: arp_inv_def intro: entries_inv_cong arp_frame_of_gmac dest: arp_fields_of_more\<close>)
qed

lemma now_env: "now X w = (t, w') \<Longrightarrow> w' = w\<lparr>env := env w'\<rparr>"
  by (auto simp: now_def split: prod.splits)

lemma arp_send_new:
  assumes "arp_inv X ok (add_mset p H) w" and "ready (packets w p)" and "find_arp_entry X ip w = None"
    and "free_list X w \<noteq> []"
  shows "\<exists>w'. arp_send X p ip w = send_arp_packet X [] ip ARP_TYPE_REQUEST w' \<and> arp_inv X ok H w' \<and> arp_frame X w w' \<and>
    used_list X w' = used_list X w @ [hd (free_list X w)] \<and> free_list X w' = tl (free_list X w) \<and>
    queue_of X w' (hd (free_list X w)) = [p] \<and> entry_ip (arp_entries w' (hd (free_list X w))) = ip \<and>
    \<not> contain_valid_mapping (arp_entries w' (hd (free_list X w))) \<and>
    untouched X {Entry_queue (hd (free_list X w))} w w' \<and>
    (\<forall>i. i \<noteq> hd (free_list X w) \<longrightarrow> arp_entries w' i = arp_entries w i) \<and>
    w' = w\<lparr>packet_lists := packet_lists w', arp_entries := arp_entries w', entry_lists := entry_lists w', env := env w'\<rparr>"
proof -
  have inv: "entries_inv X ok w" using assms(1) by (simp add: arp_inv_def)
  obtain e h where al: "allocate_entry X w = Inr (e, use_entry X e (w\<lparr>entry_lists := h\<rparr>))"
    and e: "e = hd (free_list X w)" "e < ARP_ENTRY_COUNT" "e \<notin> set (used_list X w)"
    and l: "free_list X (use_entry X e (w\<lparr>entry_lists := h\<rparr>)) = tl (free_list X w)"
      "used_list X (use_entry X e (w\<lparr>entry_lists := h\<rparr>)) = used_list X w @ [e]"
      "ok entry_heads (entry_lists (use_entry X e (w\<lparr>entry_lists := h\<rparr>)))"
    using allocate_entry_free [OF inv assms(4)] by blast
  let ?w1 = "use_entry X e (w\<lparr>entry_lists := h\<rparr>)"
  let ?w2 = "set_entry e (\<lambda>k. k\<lparr>entry_ip := ip, contain_valid_mapping := False\<rparr>) ?w1"
  obtain t w3 where n: "now X ?w2 = (t, w3)" by fastforce
  let ?w4 = "set_entry e (\<lambda>k. k\<lparr>entry_time := t\<rparr>) w3"
  have w4: "?w4 = w\<lparr>entry_lists := entry_lists ?w1, env := env w3,
      arp_entries := (arp_entries w)(e := fresh_entry ip t (arp_entries w e))\<rparr>"
    by (subst now_env [OF n]) (simp add: set_entry_def use_entry_def Let_def fresh_entry_def)
  have l4: "free_list X ?w4 = tl (free_list X w)" "used_list X ?w4 = used_list X w @ [e]"
    "ok entry_heads (entry_lists ?w4)"
    using l by (simp_all add: w4 free_list_def used_list_def)
  have fe: "e \<in> set (free_list X w)" using assms(4) e(1) by simp
  have rm: "remove1 e (free_list X w) = tl (free_list X w)" using assms(4) e(1) by (cases "free_list X w") auto
  have inv4: "arp_inv X ok (add_mset p H) ?w4"
    by (rule new_entry_inv [OF assms(1,3) e(2) fe _ l4(2,3) w4 refl]) (simp only: l4 rm)
  have q4: "queue_of X ?w4 e = []"
    using inv fe by (simp add: w4 queue_of_def entries_inv_def)
  have en4: "arp_entries ?w4 e = fresh_entry ip t (arp_entries w e)" and pk4: "packets ?w4 = packets w"
    unfolding w4 by simp_all
  have "returns (add_to_arp_entry_queue X p e ?w4) (\<lambda>w'. arp_inv X ok H w' \<and> arp_frame X ?w4 w' \<and>
      untouched X {Entry_queue e} ?w4 w' \<and>
      used_list X w' = used_list X ?w4 \<and> free_list X w' = free_list X ?w4 \<and> packets w' = packets ?w4 \<and> env w' = env ?w4 \<and>
      queue_of X w' e = (if length (queue_of X ?w4 e) = 2 then tl (queue_of X ?w4 e) else queue_of X ?w4 e) @ [p])"
    using inv4 by (rule add_to_queue_returns) (use l4(2) assms(2) in \<open>simp_all add: en4 fresh_entry_def pk4 del: arp_entries_set_entry set_entry_frame\<close>)
  then obtain w5 where w5: "add_to_arp_entry_queue X p e ?w4 = Inr w5" and i5: "arp_inv X ok H w5"
    and f5: "arp_frame X ?w4 w5" and u5: "untouched X {Entry_queue e} ?w4 w5" and l5: "used_list X w5 = used_list X ?w4" "free_list X w5 = free_list X ?w4"
      "packets w5 = packets ?w4" "queue_of X w5 e = [p]"
    using q4 by (auto simp: returns_iff)
  have f4: "arp_frame X w ?w4" unfolding w4 by (simp add: arp_frame_def untouched_def same_config_def)
  note s5 = add_to_queue_shape [OF w5]
  have "entry_ip (arp_entries w5 e) = ip" "\<not> contain_valid_mapping (arp_entries w5 e)"
    unfolding s5(3,4) en4 by (simp_all add: fresh_entry_def)
  moreover have "w5 = w\<lparr>packet_lists := packet_lists w5, arp_entries := arp_entries w5, entry_lists := entry_lists w5, env := env w5\<rparr>"
  proof -
    have "entry_lists w5 = entry_lists ?w1" "env w5 = env w3" by (subst s5(1), subst w4, simp)+
    then show ?thesis by (subst s5(1), subst w4) simp
  qed
  moreover have "arp_send X p ip w = send_arp_packet X [] ip ARP_TYPE_REQUEST w5"
    using n w5 by (simp add: arp_send_def assms(3) al Let_def)
  moreover have "untouched X {Entry_queue e} w w5"
    using u5 unfolding w4 by (simp add: untouched_def)
  moreover have "\<forall>i. i \<noteq> e \<longrightarrow> arp_entries w5 i = arp_entries w i"
    using s5(2) unfolding w4 by simp
  ultimately show ?thesis
    using i5 arp_frame_trans [OF f4 f5] l5 l4 e(1) by (intro exI [of _ w5]) simp
qed

lemma arp_send_safe:
  assumes "arp_inv X ok (add_mset p H) w" and "ready (packets w p)" and "arp_room X ip w"
  shows "safe (arp_send X p ip w) (\<lambda>w'. arp_inv X ok H w' \<and> arp_frame X w w')"
proof (cases "find_arp_entry X ip w")
  case None
  then have "free_list X w \<noteq> []" using assms(3) by (simp add: arp_room_def)
  from arp_send_new [OF assms(1,2) None this] obtain w' where
    s: "arp_send X p ip w = send_arp_packet X [] ip ARP_TYPE_REQUEST w'" and i: "arp_inv X ok H w'" and f: "arp_frame X w w'"
    by blast
  have "safe (send_arp_packet X [] ip ARP_TYPE_REQUEST w') (\<lambda>w''. arp_inv X ok H w'' \<and> untouched X {} w' w'' \<and>
      gmac_state.more w'' = gmac_state.more w' \<and> same_config w' w'')"
    using i by (rule send_arp_packet_inv) simp
  then show ?thesis
    unfolding s by (rule safe_mono) (use f in \<open>auto intro: arp_frame_trans arp_frame_of_gmac\<close>)
next
  case (Some e)
  then have u: "e \<in> set (used_list X w)" using find_arp_entry_Some by blast
  have "length (entry_mac (arp_entries w e)) = 6" using assms(1) by (simp add: arp_inv_def entries_inv_def)
  then show ?thesis
    using mac_send_arp_inv [OF assms(1) _ assms(2)] returns_safe [OF add_to_queue_returns [OF assms(1) u _ assms(2)]]
    by (auto simp: arp_send_def Some elim: safe_mono)
qed

lemma update_mapping_eq:
  assumes "entries_inv X ok w" and "find_arp_entry X ip w = Some e" and "0 \<le> off" and "off + 6 \<le> int (length d)"
    and "\<not> (b \<and> contain_valid_mapping (arp_entries w e))"
  shows "\<exists>t v. update_arp_mapping X ip d off b w = send_packets_on_entry X e (resolved_entry e (chunk (nat off) 6 d) t v w)"
proof -
  have mac: "length (entry_mac (arp_entries w e)) = 6" using assms(1) by (simp add: entries_inv_def)
  let ?m = "chunk (nat off) 6 d"
  have lm: "length ?m = 6" using assms(3,4) by (simp add: min_def) linarith
  have "upd 0 ?m (entry_mac (arp_entries w e)) = ?m" by (rule upd_all) (simp only: lm mac)
  then have copy: "memory_copy d off (entry_mac (arp_entries w e)) 0 6 = Inr ?m"
    using assms(3,4) mac by (simp add: mem)
  let ?w1 = "set_entry e (\<lambda>k. k\<lparr>entry_mac := ?m, contain_valid_mapping := True\<rparr>) w"
  obtain t w2 where n: "now X ?w1 = (t, w2)" by fastforce
  have w3: "set_entry e (\<lambda>k. k\<lparr>entry_time := t\<rparr>) w2 = resolved_entry e ?m t (env w2) w"
    by (subst now_env [OF n]) (simp add: set_entry_def resolved_entry_def)
  have "update_arp_mapping X ip d off b w = send_packets_on_entry X e (set_entry e (\<lambda>k. k\<lparr>entry_time := t\<rparr>) w2)"
    using assms(5) n by (auto simp: update_arp_mapping_def assms(2) copy Let_def)
  then show ?thesis unfolding w3 by blast
qed

lemma update_mapping_flush:
  assumes "arp_inv X ok H w" and Some: "find_arp_entry X ip w = Some e" and "0 \<le> off" and "off + 6 \<le> int (length d)"
    and "\<not> (b \<and> contain_valid_mapping (arp_entries w e))"
  shows "safe (update_arp_mapping X ip d off b w) (\<lambda>w'. arp_inv X ok H w' \<and> arp_frame X w w' \<and>
    used_list X w' = used_list X w \<and> queue_of X w' e = [] \<and> contain_valid_mapping (arp_entries w' e) \<and>
    entry_mac (arp_entries w' e) = chunk (nat off) 6 d \<and> (\<forall>i. i \<noteq> e \<longrightarrow> arp_entries w' i = arp_entries w i) \<and>
    entry_ip (arp_entries w' e) = ip \<and> untouched X {Entry_queue e} w w')"
    (is "safe _ ?Q")
proof -
  have u: "e \<in> set (used_list X w)" and ip: "entry_ip (arp_entries w e) = ip" using Some find_arp_entry_Some by blast+
  have inv: "entries_inv X ok w" and g: "gmac_inv X ok H w" using assms(1) by (simp_all add: arp_inv_def)
  have e: "e < ARP_ENTRY_COUNT" using entries_inv_member(1) [OF inv] u by blast
  let ?m = "chunk (nat off) 6 d"
  have lm: "length ?m = 6" using assms(3,4) by (simp add: min_def) linarith
  obtain t v where eq: "update_arp_mapping X ip d off b w = send_packets_on_entry X e (resolved_entry e ?m t v w)"
    using update_mapping_eq [OF inv Some assms(3-5)] by blast
  let ?w3 = "resolved_entry e ?m t v w"
  have g3: "gmac_inv X ok H ?w3" using g by (simp add: gmac_inv_env resolved_entry_def)
  have f3: "arp_frame X w ?w3" by (simp add: arp_frame_def untouched_def same_config_def resolved_entry_def)
  have q3: "packet_lists ?w3 = packet_lists w" "packets ?w3 = packets w" "entry_lists ?w3 = entry_lists w"
    by (simp_all add: resolved_entry_def)
  have en3: "arp_entries ?w3 = (arp_entries w)(e := (arp_entries w e)
      \<lparr>entry_mac := ?m, contain_valid_mapping := True, entry_time := t\<rparr>)" by (simp add: resolved_entry_def)
  have rd: "\<forall>p\<in>set (list_elements X (Entry_queue e) (packet_lists ?w3)). ready (packets ?w3 p)"
    using inv e unfolding q3 by (simp add: entries_inv_def queue_of_def)
  have "safe (loop (drain X (Entry_queue e) (\<lambda>p w. mac_send X p (entry_mac (arp_entries w e)) ETHER_TYPE_IPV4 w) ?w3))
    (\<lambda>w'. (gmac_inv X ok H w' \<and> gmac_state.more w' = gmac_state.more ?w3 \<and> same_config ?w3 w' \<and>
       length (entry_mac (arp_entries ?w3 e)) = 6) \<and>
      list_elements X (Entry_queue e) (packet_lists w') = [] \<and> untouched X {Entry_queue e} ?w3 w')"
    using g3 lm e rd by (intro sending.loop_drain_safe) (auto simp: en3 simp del: arp_entries_set_entry)
  then show ?thesis
    unfolding eq send_packets_on_entry_def
  proof (rule safe_mono, goal_cases)
    case (1 w')
    then have g': "gmac_inv X ok H w'" and m': "gmac_state.more w' = gmac_state.more ?w3" and c': "same_config ?w3 w'"
      and q': "queue_of X w' e = []" and u': "untouched X {Entry_queue e} ?w3 w'"
      by (simp_all add: queue_of_def)
    note en' = arp_fields_of_more [OF m']
    have uw: "untouched X {Entry_queue e} w w'" using u' unfolding untouched_def q3 .
    have "entries_inv X ok w'"
      by (rule entries_inv_change [OF inv u _ _ _ _ _ uw])
        (simp_all only: en' en3 q3 q', simp_all add: lm entry_ok_def q' en'(1) en3 del: arp_entries_set_entry length_chunk)
    moreover have "arp_frame X ?w3 w'"
      using u' c' en'(3) e by (auto simp: arp_frame_def intro: untouched_mono)
    moreover have "used_list X w' = used_list X w" unfolding used_list_def en'(2) q3 ..
    ultimately show ?case
      using g' arp_frame_trans [OF f3] q' uw ip by (simp add: arp_inv_def en'(1) en3 del: arp_entries_set_entry)
  qed
qed

lemma update_mapping_safe:
  assumes "arp_inv X ok H w" and "0 \<le> off" and "off + 6 \<le> int (length d)"
  shows "safe (update_arp_mapping X ip d off b w) (\<lambda>w'. arp_inv X ok H w' \<and> arp_frame X w w')"
proof (cases "find_arp_entry X ip w")
  case None
  then show ?thesis using assms(1) by (simp add: update_arp_mapping_def)
next
  case (Some e)
  then show ?thesis
    using update_mapping_flush [OF assms(1) Some assms(2,3), of b] assms(1)
    by (cases "b \<and> contain_valid_mapping (arp_entries w e)") (auto simp: update_arp_mapping_def elim: safe_mono)
qed

lemma validate_arp_safe:
  assumes "0 \<le> off" and "off + 28 \<le> int (length d)"
  shows "safe (validate_arp_header off d) (\<lambda>_. True)"
  unfolding validate_arp_header_def
  using assms by (auto intro!: safe_reads simp del: safe_bindR)

lemma gmac_free_arp:
  assumes "arp_inv X ok (add_mset p H) w"
  shows "arp_inv X ok H (free_network_packet X p w)" and "arp_frame X w (free_network_packet X p w)"
proof -
  have g: "gmac_inv X ok (add_mset p H) w" and i: "entries_inv X ok w" using assms by (simp_all add: arp_inv_def)
  note u = gmac_untouched_free [OF g]
  have "entries_inv X ok (free_network_packet X p w)"
    by (rule entries_inv_cong [OF i _ _ u]) (simp_all add: free_network_packet_def)
  then show "arp_inv X ok H (free_network_packet X p w)" using gmac_inv_free(1) [OF g] by (simp add: arp_inv_def)
  show "arp_frame X w (free_network_packet X p w)" using u by (intro arp_frame_of_gmac) simp_all
qed

text \<open>Every frame: a received ARP packet of any content is handled without a fault and given up.\<close>

lemma handle_arp_safe:
  assumes "arp_inv X ok (add_mset p H) w" and "packet_ok (packets w p)"
  shows "safe (handle_arp X p w) (\<lambda>w'. arp_inv X ok H w' \<and> arp_frame X w w')"
proof -
  let ?d = "data (packets w p)" and ?off = "index (packets w p)"
  have free: "safe (Inr (free_network_packet X p w')) (\<lambda>w'. arp_inv X ok H w' \<and> arp_frame X w w')"
    if "arp_inv X ok (add_mset p H) w'" "arp_frame X w w'" for w'
    using gmac_free_arp [OF that(1)] that(2) by (auto intro: arp_frame_trans)
  show ?thesis
  proof (cases "size_t (plength (packets w p)) < size_t ARP_HEADER_SIZE")
    case True
    then show ?thesis using free [of w] assms(1) by (simp add: handle_arp_def)
  next
    case False
    have "plength (packets w p) \<le> 1024" "0 \<le> plength (packets w p)" using assms(2) by (auto simp: packet_ok_def)
    then have len: "28 \<le> plength (packets w p)" using False by (simp add: size_t_less uint_size_t)
    then have r: "0 \<le> ?off" "?off + 28 \<le> int (length ?d)" using assms(2) by (auto simp: packet_ok_def)
    have update: "safe (update_arp_mapping X ip ?d (?off + 8) b w) (\<lambda>w'. arp_inv X ok (add_mset p H) w' \<and> arp_frame X w w')"
      for ip b using assms(1) r by (intro update_mapping_safe) simp_all
    have reply: "safe (send_arp_packet X m ip ARP_TYPE_REPLY w) (\<lambda>w'. arp_inv X ok (add_mset p H) w' \<and> arp_frame X w w')"
      if "length m = 6" for m ip
      by (rule safe_mono [OF send_arp_packet_inv [OF assms(1)]]) (use that in \<open>auto intro: arp_frame_of_gmac\<close>)
    have lm: "load_mac ?d (?off + 8) = Inr (chunk (nat (?off + 8)) 6 ?d)" "length (chunk (nat (?off + 8)) 6 ?d) = 6"
      using r by (simp_all add: load_mac_def)
    have lu: "safe (bindR (load_u32 ?d (?off + 14)) f) Q" if "\<And>v. safe (f v) Q" for f :: "u32 \<Rightarrow> 'x result" and Q
      unfolding load_u32_def bindR_assoc using r that by (auto intro!: safe_reads simp del: safe_bindR)
    have body: "safe (if operation = ARP_OPERATION_REPLY then
          (if senders \<noteq> target \<and> target = get_our_ip w then update_arp_mapping X senders ?d (?off + 8) True w
           else Inr w)
        else if operation = ARP_OPERATION_REQUEST then
          (if senders \<noteq> 0 \<and> senders \<noteq> target \<and> target = get_our_ip w then
             bindR (load_mac ?d (?off + 8)) (\<lambda>senders_mac.
             bindR (load_u32 ?d (?off + 14)) (\<lambda>ip.
             send_arp_packet X senders_mac ip ARP_TYPE_REPLY w))
           else Inr w)
        else Inr w) (\<lambda>w'. arp_inv X ok (add_mset p H) w' \<and> arp_frame X w w')" for operation senders target
      using update reply lm assms(1) by (auto simp del: safe_bindR intro!: lu)
    have "safe (bindR (read_be16 ?d (?off + 6)) (\<lambda>operation.
        bindR (read_be32 ?d (?off + 14)) (\<lambda>senders.
        bindR (read_be32 ?d (?off + 24)) (\<lambda>target.
        bindR (if operation = ARP_OPERATION_REPLY then
              (if senders \<noteq> target \<and> target = get_our_ip w then update_arp_mapping X senders ?d (?off + 8) True w
               else Inr w)
            else if operation = ARP_OPERATION_REQUEST then
              (if senders \<noteq> 0 \<and> senders \<noteq> target \<and> target = get_our_ip w then
                 bindR (load_mac ?d (?off + 8)) (\<lambda>senders_mac.
                 bindR (load_u32 ?d (?off + 14)) (\<lambda>ip.
                 send_arp_packet X senders_mac ip ARP_TYPE_REPLY w))
               else Inr w)
            else Inr w) (\<lambda>w. Inr (free_network_packet X p w))))))
        (\<lambda>w'. arp_inv X ok H w' \<and> arp_frame X w w')"
      using r by (intro safe_read_be16 safe_read_be32 iffD2 [OF safe_bindR] safe_mono [OF body] free) auto
    then show ?thesis
      unfolding handle_arp_def Let_def
      using False free [OF assms(1)] r
      by (auto simp: safe_bindR [of "validate_arp_header _ _"] simp del: safe_bindR
          intro!: safe_mono [OF validate_arp_safe])
  qed
qed

end

section \<open>arp_task\<close>

text \<open>A change of the timer or the retry counter is invisible to the invariant.\<close>

lemma entries_inv_timer:
  assumes "\<And>k. entry_mac (f k) = entry_mac k \<and> entry_ip (f k) = entry_ip k \<and> packet_count (f k) = packet_count k \<and>
    contain_valid_mapping (f k) = contain_valid_mapping k"
  shows "entries_inv X ok (set_entry e f w) = entries_inv X ok w"
proof -
  have f: "entry_mac (arp_entries (set_entry e f w) i) = entry_mac (arp_entries w i)"
    "entry_ip (arp_entries (set_entry e f w) i) = entry_ip (arp_entries w i)"
    "packet_count (arp_entries (set_entry e f w) i) = packet_count (arp_entries w i)"
    "contain_valid_mapping (arp_entries (set_entry e f w) i) = contain_valid_mapping (arp_entries w i)" for i
    using assms by simp_all
  show ?thesis
    unfolding entries_inv_def entry_ok_def f by simp
qed

lemma arp_inv_env [simp]: "arp_inv X ok H (w\<lparr>env := v\<rparr>) = arp_inv X ok H w"
  by (simp add: arp_inv_def gmac_inv_env)

lemma lists_env [simp]:
  "used_list X (w\<lparr>env := v\<rparr>) = used_list X w" "free_list X (w\<lparr>env := v\<rparr>) = free_list X w"
  "queue_of X (w\<lparr>env := v\<rparr>) e = queue_of X w e"
  by (simp_all add: used_list_def free_list_def queue_of_def)

lemma lists_of_more:
  "gmac_state.more w' = gmac_state.more w \<Longrightarrow> used_list X w' = used_list X w \<and> free_list X w' = free_list X w"
  using arp_fields_of_more(2) [of w' w] by (simp add: used_list_def free_list_def)

context intrusive_list
begin

lemma arp_task_entry_safe:
  assumes "arp_inv X ok H w" and "e \<in> set (used_list X w)"
  shows "safe (arp_task_entry X e w) (\<lambda>w'. arp_inv X ok H w' \<and> arp_frame X w w' \<and>
    set (used_list X w) - {e} \<subseteq> set (used_list X w'))"
proof -
  obtain t w1 where n: "now X w = (t, w1)" by fastforce
  have w1: "w1 = w\<lparr>env := env w1\<rparr>" using n by (rule now_env)
  have inv1: "arp_inv X ok H w1" and u1: "used_list X w1 = used_list X w" and f1: "arp_frame X w w1"
    and en1: "arp_entries w1 = arp_entries w"
    using assms(1) by (subst w1; simp)+
  have e: "e < ARP_ENTRY_COUNT" using assms by (auto simp: arp_inv_def dest: entries_inv_member(1))
  have d: "distinct (used_list X w)" using assms(1) by (auto simp: arp_inv_def dest: entries_inv_member(3))
  have free: "safe (free_entry X e w1) (\<lambda>w'. arp_inv X ok H w' \<and> arp_frame X w w' \<and>
      set (used_list X w) - {e} \<subseteq> set (used_list X w'))"
  proof (rule safe_mono [OF returns_safe [OF free_entry_returns [OF inv1]]], goal_cases)
    case 1
    show ?case using assms(2) u1 by simp
  next
    case (2 w')
    then have "arp_frame X w1 w'" using e by (auto simp: arp_frame_def intro: untouched_mono)
    then show ?case using 2 d u1 arp_frame_trans [OF f1] by simp
  qed
  have retry: "safe (bindR (send_arp_packet X [] (entry_ip (arp_entries w1 e)) ARP_TYPE_REQUEST w1) (\<lambda>w.
      let w = set_entry e (\<lambda>k. k\<lparr>retry_count := retry_count k + 1\<rparr>) w in
      case now X w of (t, w) \<Rightarrow> Inr (set_entry e (\<lambda>k. k\<lparr>entry_time := t\<rparr>) w)))
      (\<lambda>w'. arp_inv X ok H w' \<and> arp_frame X w w' \<and> set (used_list X w) - {e} \<subseteq> set (used_list X w'))"
    unfolding safe_bindR
  proof (rule safe_mono [OF send_arp_packet_inv [OF inv1]], goal_cases)
    case 1
    show ?case by simp
  next
    case (2 w2)
    let ?w3 = "set_entry e (\<lambda>k. k\<lparr>retry_count := retry_count k + 1\<rparr>) w2"
    obtain t' w4 where n4: "now X ?w3 = (t', w4)" by fastforce
    have w4: "w4 = ?w3\<lparr>env := env w4\<rparr>" using n4 by (rule now_env)
    have i3: "arp_inv X ok H ?w3" using 2 by (simp add: arp_inv_def entries_inv_timer)
    then have "arp_inv X ok H w4" by (subst w4) simp
    then have "arp_inv X ok H (set_entry e (\<lambda>k. k\<lparr>entry_time := t'\<rparr>) w4)"
      by (simp add: arp_inv_def entries_inv_timer)
    moreover have "used_list X w4 = used_list X w" using 2 u1 lists_of_more [of w2 w1 X] by (subst w4) simp
    moreover have "arp_frame X w1 w2" using 2 by (intro arp_frame_of_gmac) simp_all
    then have "arp_frame X w w4" using arp_frame_trans [OF f1] by (subst w4) simp
    ultimately show ?case by (simp add: Let_def n4)
  qed
  have keep: "safe (Inr w1) (\<lambda>w'. arp_inv X ok H w' \<and> arp_frame X w w' \<and>
      set (used_list X w) - {e} \<subseteq> set (used_list X w'))"
    using inv1 f1 u1 by auto
  show ?thesis
    unfolding arp_task_entry_def n prod.case using free retry keep by (simp del: safe_bindR safe_Inr)
qed

lemma arp_task_entries_safe:
  assumes "arp_inv X ok H w" and "set es \<subseteq> set (used_list X w)" and "distinct es"
  shows "safe (arp_task_entries X es w) (\<lambda>w'. arp_inv X ok H w' \<and> arp_frame X w w')"
  using assms
proof (induction es arbitrary: w)
  case Nil
  then show ?case by simp
next
  case (Cons e es)
  then have "safe (arp_task_entry X e w) (\<lambda>w'. arp_inv X ok H w' \<and> arp_frame X w w' \<and>
      set (used_list X w) - {e} \<subseteq> set (used_list X w'))"
    by (intro arp_task_entry_safe) simp_all
  then show ?case
    unfolding arp_task_entries.simps safe_bindR
  proof (rule safe_mono, goal_cases)
    case (1 w')
    have "set es \<subseteq> set (used_list X w')" using 1 Cons.prems by auto
    then have "safe (arp_task_entries X es w') (\<lambda>w''. arp_inv X ok H w'' \<and> arp_frame X w' w'')"
      using 1 Cons.prems(3) by (intro Cons.IH) simp_all
    then show ?case by (rule safe_mono) (use 1 in \<open>auto intro: arp_frame_trans\<close>)
  qed
qed

lemma arp_task_safe:
  assumes "arp_inv X ok H w"
  shows "safe (arp_task X w) (\<lambda>w'. arp_inv X ok H w' \<and> arp_frame X w w')"
  unfolding arp_task_def used_list_def [symmetric]
  using assms entries_inv_member(3) by (intro arp_task_entries_safe) (auto simp: arp_inv_def)

lemma arp_inv_set_packet:
  assumes "arp_inv X ok (add_mset p H) w" and "length (data (f (packets w p))) = length (data (packets w p))"
  shows "arp_inv X ok (add_mset p H) (set_packet p f w)" and "arp_frame X w (set_packet p f w)"
proof -
  have g: "gmac_inv X ok (add_mset p H) w" and i: "entries_inv X ok w" using assms(1) by (simp_all add: arp_inv_def)
  have u: "untouched X {} w (set_packet p f w)" using g by (rule gmac_untouched_set_packet)
  have "entries_inv X ok (set_packet p f w)"
    by (rule entries_inv_cong [OF i _ _ u]) (simp_all add: set_packet_def)
  then show "arp_inv X ok (add_mset p H) (set_packet p f w)"
    using g assms(2) by (simp add: arp_inv_def gmac_inv_set_packet)
  show "arp_frame X w (set_packet p f w)" using u by (intro arp_frame_of_gmac) simp_all
qed

end

end
