(* ===== verification/Checksum.thy ===== *)
theory Checksum
  imports Utilities
begin

text \<open>
  The Internet checksum, which \<open>ip.c\<close>, \<open>icmp.c\<close> and \<open>udp.c\<close> each compute with the same two loops:
  the sum of the big-endian 16-bit words of a buffer in a \<open>u32\<close>, and the folding of the carries.
  The lemmas relate them to the sum of the words as a number modulo 65535, from which the check a
  receiver makes follows.
\<close>

section \<open>The loops\<close>

text \<open>\<open>while (size > 1) { sum += read_be16(pointer); pointer += 2; size -= 2; }\<close>\<close>

function sum_words :: "u8 list \<Rightarrow> int \<Rightarrow> int \<Rightarrow> u32 \<Rightarrow> (u32 \<times> int \<times> int) result" where
  "sum_words d off n acc =
     (if n > 1 then bindR (read_be16 d off) (\<lambda>v. sum_words d (off + 2) (n - 2) (acc + ucast v))
      else Inr (acc, off, n))"
  by pat_completeness auto
termination by (relation "measure (\<lambda>(_, _, n, _). nat n)") auto

declare sum_words.simps [simp del]

text \<open>\<open>if (size) { sum += *(u8 *)pointer << 8; }\<close>\<close>

definition sum_last_byte :: "u8 list \<Rightarrow> int \<Rightarrow> int \<Rightarrow> u32 \<Rightarrow> u32 result" where
  "sum_last_byte d off n acc =
     (if n \<noteq> 0 then bindR (get_byte d off) (\<lambda>b. Inr (acc + push_bit 8 (ucast b))) else Inr acc)"

text \<open>\<open>while (sum >> 16) { sum = (sum & 0xffff) + (sum >> 16); }\<close>\<close>

lemma fold_carry_step:
  fixes s :: u32
  assumes "drop_bit 16 s \<noteq> 0"
  shows "unat ((s AND 0xFFFF) + drop_bit 16 s) = unat s mod 65536 + unat s div 65536"
    and "unat s mod 65536 + unat s div 65536 < unat s" and "65536 \<le> unat s"
proof -
  have m: "unat (s AND 0xFFFF) = unat s mod 65536"
  proof -
    have "unat s AND mask 16 = unat s mod 2 ^ 16"
      by (simp only: take_bit_eq_mask [symmetric] take_bit_eq_mod)
    then show ?thesis by (simp add: unsigned_and_eq mask_eq_exp_minus_1)
  qed
  have q: "unat (drop_bit 16 s) = unat s div 65536"
    by (simp add: unat_drop_bit)
  have lt: "unat s < 4294967296" using unat_bound [of s] by simp
  show big: "65536 \<le> unat s"
  proof (rule ccontr)
    assume "\<not> 65536 \<le> unat s"
    then have "unat (drop_bit 16 s) = 0" by (simp add: q)
    with assms show False by (simp add: unat_eq_zero)
  qed
  have "unat s mod 65536 + unat s div 65536 < 4294967296"
  proof -
    have "unat s div 65536 < 65536" using lt by (simp add: div_less_iff_less_mult)
    moreover have "unat s mod 65536 < 65536" by simp
    ultimately show ?thesis by linarith
  qed
  then show "unat ((s AND 0xFFFF) + drop_bit 16 s) = unat s mod 65536 + unat s div 65536"
    by (simp add: unat_word_ariths m q)
  have "unat s = 65536 * (unat s div 65536) + unat s mod 65536" by simp
  moreover have "1 \<le> unat s div 65536" using big by (simp add: Suc_le_eq div_greater_zero_iff)
  ultimately show "unat s mod 65536 + unat s div 65536 < unat s" by linarith
qed

function fold_carry :: "u32 \<Rightarrow> u32" where
  "fold_carry acc =
     (if drop_bit 16 acc \<noteq> 0 then fold_carry ((acc AND 0xFFFF) + drop_bit 16 acc) else acc)"
  by pat_completeness auto
termination
  by (relation "measure unat") (simp_all only: wf_measure in_measure fold_carry_step not_False_eq_True)

declare fold_carry.simps [simp del]

lemma fold_carry_bound: "unat (fold_carry s) < 65536"
proof (induction s rule: fold_carry.induct)
  case (1 s)
  show ?case
  proof (cases "drop_bit 16 s = 0")
    case True
    then have "unat (drop_bit 16 s) = 0" by simp
    then have "unat s div 65536 = 0" by (simp add: unat_drop_bit)
    then have "unat s < 65536" by (simp add: div_eq_0_iff)
    then show ?thesis using True by (simp add: fold_carry.simps [of s])
  next
    case False
    then show ?thesis using 1 by (simp add: fold_carry.simps [of s])
  qed
qed

lemma mod_65535_fold: "(n mod 65536 + n div 65536) mod 65535 = n mod (65535::nat)"
proof -
  have "n = n mod 65536 + n div 65536 + 65535 * (n div 65536)"
    using mod_mult_div_eq [of n 65536] by linarith
  then show ?thesis by (metis mod_mult_self2)
qed

lemma fold_carry_mod: "unat (fold_carry s) mod 65535 = unat s mod 65535"
proof (induction s rule: fold_carry.induct)
  case (1 s)
  show ?case
  proof (cases "drop_bit 16 s = 0")
    case True
    then show ?thesis by (simp add: fold_carry.simps [of s])
  next
    case False
    then show ?thesis
      using 1 fold_carry_step(1) [OF False] mod_65535_fold by (simp add: fold_carry.simps [of s])
  qed
qed

lemma fold_carry_zero: "fold_carry s = 0 \<longleftrightarrow> s = 0"
proof (induction s rule: fold_carry.induct)
  case (1 s)
  show ?case
  proof (cases "drop_bit 16 s = 0")
    case True
    then show ?thesis by (simp add: fold_carry.simps [of s])
  next
    case False
    have "s \<noteq> 0" using False by auto
    have "unat ((s AND 0xFFFF) + drop_bit 16 s) \<noteq> 0"
    proof -
      have "1 \<le> unat s div 65536"
        using fold_carry_step(3) [OF False] by (simp add: Suc_le_eq div_greater_zero_iff)
      then show ?thesis unfolding fold_carry_step(1) [OF False] by linarith
    qed
    then have "(s AND 0xFFFF) + drop_bit 16 s \<noteq> 0" by (metis unat_0)
    then show ?thesis using 1 [OF False] False \<open>s \<noteq> 0\<close> by (simp add: fold_carry.simps [of s])
  qed
qed

section \<open>The sum of the words\<close>

fun word_sum :: "u8 list \<Rightarrow> nat" where
  "word_sum [] = 0"
| "word_sum [a] = 256 * unat a"
| "word_sum (a # b # bs) = 256 * unat a + unat b + word_sum bs"

lemma word_sum_append: "even (length as) \<Longrightarrow> word_sum (as @ bs) = word_sum as + word_sum bs"
  by (induction as rule: word_sum.induct) simp_all

lemma word_sum_be16 [simp]: "word_sum (be16_bytes v) = unat v"
proof -
  have "unat (ucast (drop_bit 8 v) :: u8) = unat v div 256"
  proof -
    have "unat v < 65536" using unat_bound [of v] by simp
    then have "unat v div 256 < 256" by (simp add: div_less_iff_less_mult)
    then show ?thesis
      by (simp add: unat_resize unat_drop_bit)
  qed
  moreover have "unat (ucast v :: u8) = unat v mod 256"
    by (simp add: unat_resize)
  ultimately show ?thesis by (simp add: be16_bytes_def)
qed

lemma word_sum_bound_pairs: "2 * word_sum bs \<le> 65535 * (length bs + 1)"
proof (induction bs rule: word_sum.induct)
  case (2 a)
  then show ?case using unat_bound [of a] by simp
next
  case (3 a b bs)
  then show ?case using unat_bound [of a] unat_bound [of b] by simp
qed simp

lemma word_sum_bound: "word_sum bs \<le> 65535 * length bs"
proof (induction bs rule: word_sum.induct)
  case (2 a)
  then show ?case using unat_bound [of a] by simp
next
  case (3 a b bs)
  then show ?case using unat_bound [of a] unat_bound [of b] by simp
qed simp

lemma sum_words_spec:
  assumes "0 \<le> off" and "0 \<le> n" and "off + n \<le> int (length d)"
  shows "\<exists>m. sum_words d off n acc = Inr (acc + of_nat (word_sum (chunk (nat off) (nat (n - m)) d)), off + (n - m), m) \<and>
    m = n mod 2"
  using assms
proof (induction d off n acc rule: sum_words.induct)
  case (1 d off n acc)
  show ?case
  proof (cases "n > 1")
    case False
    with "1.prems" have "n = 0 \<or> n = 1" by auto
    then show ?thesis by (auto simp: sum_words.simps [of d off n] chunk_def)
  next
    case True
    let ?a = "d ! nat off" and ?b = "d ! nat (off + 1)"
    let ?v = "push_bit 8 (ucast ?a) OR ucast ?b :: u16"
    let ?m = "n mod 2"
    have r: "read_be16 d off = Inr ?v" using True "1.prems" by (simp add: mem)
    have ih: "sum_words d (off + 2) (n - 2) (acc + ucast ?v) =
        Inr (acc + ucast ?v + of_nat (word_sum (chunk (nat (off + 2)) (nat (n - 2 - ?m)) d)), off + 2 + (n - 2 - ?m), ?m)"
      using "1.IH" [OF True r] True "1.prems" by simp
    have le: "?m \<le> n - 2" using True by presburger
    have "[?a, ?b] = be16_bytes ?v" using be16_bytes_of [of ?a ?b] by simp
    then have v: "256 * unat ?a + unat ?b = unat ?v"
      using word_sum_be16 [of ?v] by (metis (no_types) word_sum.simps(1,3) add.right_neutral)
    have "chunk (nat off) (nat (n - ?m)) d = [?a, ?b] @ chunk (nat (off + 2)) (nat (n - 2 - ?m)) d"
    proof -
      have "nat (n - ?m) = 2 + nat (n - 2 - ?m)" "nat (off + 2) = nat off + 2" "nat (off + 1) = nat off + 1"
        using le "1.prems" by linarith+
      moreover have "nat off + 1 < length d" using True "1.prems" by linarith
      ultimately show ?thesis
        by (simp only: chunk_append_chunk [symmetric]) (simp add: chunk_2)
    qed
    then have "word_sum (chunk (nat off) (nat (n - ?m)) d) =
        unat ?v + word_sum (chunk (nat (off + 2)) (nat (n - 2 - ?m)) d)"
      by (simp add: v [symmetric])
    moreover have "of_nat (unat ?v) = (ucast ?v :: u32)" by simp
    ultimately show ?thesis
      using True r ih by (simp add: sum_words.simps [of d off n])
  qed
qed

text \<open>Both loops together: the words, and the odd last byte.\<close>

lemma sum_all_bytes:
  assumes "0 \<le> off" and "0 \<le> n" and "off + n \<le> int (length d)"
  shows "bindR (sum_words d off n acc) (\<lambda>(acc, off, n). sum_last_byte d off n acc) =
    Inr (acc + of_nat (word_sum (chunk (nat off) (nat n) d)))"
proof -
  obtain m where s: "sum_words d off n acc =
      Inr (acc + of_nat (word_sum (chunk (nat off) (nat (n - m)) d)), off + (n - m), m)" and m: "m = n mod 2"
    using sum_words_spec [OF assms] by blast
  show ?thesis
  proof (cases "m = 0")
    case True
    with s show ?thesis by (simp add: sum_last_byte_def)
  next
    case False
    then have m1: "m = 1" using m by presburger
    have n: "1 \<le> n" using m m1 assms(2) by presburger
    let ?b = "d ! nat (off + (n - 1))"
    have g: "get_byte d (off + (n - 1)) = Inr ?b" using assms n by (simp add: mem)
    have len: "length (chunk (nat off) (nat (n - 1)) d) = nat (n - 1)"
      using assms n by (simp add: min_def) linarith
    have "even (nat (n - 1))" using m m1 n by (simp add: even_nat_iff) presburger
    moreover have "chunk (nat off) (nat n) d = chunk (nat off) (nat (n - 1)) d @ [?b]"
    proof -
      have "nat n = Suc (nat (n - 1))" "nat (off + (n - 1)) = nat off + nat (n - 1)" using n assms by simp_all
      moreover have "nat off + nat (n - 1) < length d" using assms n by linarith
      ultimately show ?thesis by (simp only: chunk_snoc)
    qed
    ultimately have "word_sum (chunk (nat off) (nat n) d) =
        word_sum (chunk (nat off) (nat (n - 1)) d) + 256 * unat ?b"
      using len by (simp add: word_sum_append)
    moreover have "push_bit 8 (ucast ?b) = (of_nat (256 * unat ?b) :: u32)"
      by (simp add: push_bit_eq_mult)
    ultimately show ?thesis
      using s m1 g by (simp add: sum_last_byte_def add.assoc)
  qed
qed

section \<open>What a receiver checks\<close>

text \<open>
  The sum \<open>s\<close> of the other words together with the checksum \<open>NOT (fold_carry s)\<close> folds to all
  ones, whose complement is zero.
\<close>

lemma unat_not_checksum:
  assumes "unat s < 65536"
  shows "unat (ucast (NOT s :: u32) :: u16) = 65535 - unat s"
proof -
  have "(ucast (NOT s) :: u16) = NOT (ucast s)"
    by (rule bit_word_eqI) (auto simp: bit_simps)
  moreover have "unat (ucast s :: u16) = unat s"
    using assms by (simp add: unat_resize)
  moreover have "unat (NOT v) = 65535 - unat v" for v :: u16
  proof -
    have "NOT v = - v - 1" by (simp add: not_eq_complement)
    also have "\<dots> = (- 1) - v" by simp
    finally have "NOT v = (- 1) - v" .
    moreover have "unat (- 1 :: u16) = 65535" by (simp add: unsigned_minus_1_eq_mask mask_eq_exp_minus_1)
    moreover have "v \<le> - 1" by (rule word_n1_ge)
    ultimately show ?thesis by (metis unat_sub)
  qed
  ultimately show ?thesis by simp
qed

lemma checksum_verifies:
  fixes s :: nat
  assumes "s + 65535 < 2 ^ 32"
  shows "(ucast (NOT (fold_carry (of_nat (s + unat (ucast (NOT (fold_carry (of_nat s))) :: u16))))) :: u16) = 0"
proof -
  define f :: u32 where "f = fold_carry (of_nat s)"
  define c where "c = unat (ucast (NOT f) :: u16)"
  define g :: u32 where "g = fold_carry (of_nat (s + c))"
  have us: "unat (of_nat s :: u32) = s" using assms by (simp add: unat_of_nat take_bit_eq_mod)
  have fb: "unat f < 65536" and gb: "unat g < 65536" by (simp_all only: f_def g_def fold_carry_bound)
  then have fc: "unat f + c = 65535" by (simp add: c_def unat_not_checksum)
  then have ut: "unat (of_nat (s + c) :: u32) = s + c"
    using assms by (simp only: unat_of_nat take_bit_eq_mod) simp
  have "unat f mod 65535 = s mod 65535" using fold_carry_mod [of "of_nat s"] us by (simp add: f_def)
  then have "(s + c) mod 65535 = (unat f + c) mod 65535" by (metis mod_add_left_eq)
  then have gm: "unat g mod 65535 = 0"
    using fold_carry_mod [of "of_nat (s + c)"] ut fc unfolding g_def by simp
  have "unat g \<noteq> 0"
  proof
    assume "unat g = 0"
    then have "(of_nat (s + c) :: u32) = 0" by (simp add: unat_eq_zero g_def fold_carry_zero)
    then have "s + c = 0" using ut by (metis unat_0)
    then have "s = 0" and "c = 0" by simp_all
    then have "f = 0" and "unat f = 65535" using fc by (simp_all add: f_def fold_carry_zero)
    then show False by simp
  qed
  moreover obtain k where k: "unat g = 65535 * k" using gm by auto
  moreover have "k < 2" using gb k by simp
  ultimately have "unat g = 65535" by (cases k) auto
  then have "unat (ucast (NOT g) :: u16) = 0" by (simp add: unat_not_checksum)
  then show ?thesis unfolding g_def c_def f_def by (simp only: unat_eq_zero)
qed

definition internet_checksum :: "nat \<Rightarrow> u16" where
  "internet_checksum s = ucast (NOT (fold_carry (of_nat s)))"

lemma internet_checksum_verifies:
  "s + 65535 < 2 ^ 32 \<Longrightarrow> internet_checksum (s + unat (internet_checksum s)) = 0"
  unfolding internet_checksum_def by (rule checksum_verifies)

lemma word_sum_be32:
  "word_sum (be32_bytes v) = unat v div 65536 + unat v mod 65536"
proof -
  have s: "be32_bytes v = be16_bytes (ucast (drop_bit 16 v)) @ be16_bytes (ucast v)"
    unfolding be32_bytes_def be16_bytes_def append.simps list.inject
    by (intro conjI refl; rule bit_word_eqI) (auto simp: bit_simps)
  have "unat v < 4294967296" using unat_bound [of v] by simp
  then have "unat v div 65536 < 65536" by (simp add: div_less_iff_less_mult)
  then have "unat (ucast (drop_bit 16 v) :: u16) = unat v div 65536"
    by (simp only: unat_resize unat_drop_bit) simp
  moreover have "unat (ucast v :: u16) = unat v mod 65536" by (simp add: unat_resize)
  ultimately show ?thesis unfolding s by (simp add: word_sum_append)
qed

lemma half_words:
  fixes v :: u32
  shows "drop_bit 16 v AND 0xFFFF = of_nat (unat v div 65536)" and "drop_bit 0 v AND 0xFFFF = of_nat (unat v mod 65536)"
proof -
  have m: "v AND 0xFFFF = take_bit 16 v" for v :: u32
    by (simp add: take_bit_eq_mask mask_eq_exp_minus_1)
  have "unat v < 4294967296" using unat_bound [of v] by simp
  then have lt: "unat v div 65536 < 65536" by (simp add: div_less_iff_less_mult)
  have "unat (drop_bit 16 v AND 0xFFFF) = unat v div 65536"
    unfolding m unsigned_take_bit_eq by (subst unat_drop_bit) (use lt in \<open>simp add: take_bit_eq_mod\<close>)
  then show "drop_bit 16 v AND 0xFFFF = of_nat (unat v div 65536)" by (metis of_nat_unat ucast_id)
  have "unat (drop_bit 0 v AND 0xFFFF) = unat v mod 65536"
    unfolding m unsigned_take_bit_eq by (subst unat_drop_bit) (simp add: take_bit_eq_mod)
  then show "drop_bit 0 v AND 0xFFFF = of_nat (unat v mod 65536)" by (metis of_nat_unat ucast_id)
qed

end
