(* ===== verification/Ip.thy ===== *)
theory Ip
  imports Arp Checksum
begin

text \<open>
  \<open>ip.c\<close>: the textual form of addresses, the header checksum, sending, and the checks on received
  headers.  (\<open>handle_ip\<close> dispatches to UDP and ICMP and is in theory \<open>Receive\<close>.)  Also
  \<open>mac_send_to_ip\<close> of \<open>mac.c\<close>.
\<close>

abbreviation IP_FLAG_DONT_FRAGMENT :: u16 where "IP_FLAG_DONT_FRAGMENT \<equiv> push_bit 14 1"
abbreviation IP_FLAG_MORE_FRAGMENTS :: u16 where "IP_FLAG_MORE_FRAGMENTS \<equiv> push_bit 15 1"
abbreviation IP_PROTOCOL_UDP :: int where "IP_PROTOCOL_UDP \<equiv> 17"
abbreviation IP_PROTOCOL_ICMP :: int where "IP_PROTOCOL_ICMP \<equiv> 1"

text \<open>
  \<open>IpHeader\<close>: header length (low half) and version (high half) at 0, congestion notification (low
  two bits) and service code point at 1, length at 2, id at 4, fragment offset at 6, time to live at
  8, protocol at 9, checksum at 10, sender's address at 12 and target's at 16.
\<close>

abbreviation IP_HEADER_SIZE :: int where "IP_HEADER_SIZE \<equiv> 20"

section \<open>Addresses as text\<close>

text \<open>\<open>while ('0' <= *string && *string <= '9')\<close>, with the \<open>u8\<close> that collects the number.\<close>

function read_digits :: "u8 list \<Rightarrow> int \<Rightarrow> u8 \<Rightarrow> (u8 \<times> int) result" where
  "read_digits string off number =
     bindR (get_byte string off) (\<lambda>c.
     if 0x30 \<le> c \<and> c \<le> 0x39 then read_digits string (off + 1) (number * 10 + c - 0x30)
     else Inr (number, off))"
  by pat_completeness auto
termination
  by (relation "measure (\<lambda>(string, off, _). nat (int (length string) - off))")
    (auto simp: get_byte_def in_range_def split: if_splits)

declare read_digits.simps [simp del]

fun string_to_ip_loop :: "nat list \<Rightarrow> u8 list \<Rightarrow> int \<Rightarrow> u32 \<Rightarrow> u32 result" where
  "string_to_ip_loop [] string off ip = Inr ip"
| "string_to_ip_loop (i # is) string off ip =
     bindR (read_digits string off 0) (\<lambda>(number, off).
     let ip = ip OR push_bit ((3 - i) * 8) (ucast number) in
     bindR (get_byte string off) (\<lambda>c.
     string_to_ip_loop is string (if c = 0x2E then off + 1 else off) ip))"

definition string_to_ip :: "u8 list \<Rightarrow> u32 result" where
  "string_to_ip string = string_to_ip_loop [0..<4] string 0 0"

text \<open>
  The local \<open>buffer\<close> of three characters is uninitialised in the source and read only where it has
  been written; here it starts as zeros.
\<close>

function fragment_digits :: "nat \<Rightarrow> u8 \<Rightarrow> u8 list \<Rightarrow> u8 list \<times> nat" where
  "fragment_digits digits fragment buffer =
     (if digits < 3 \<and> fragment \<noteq> 0
      then fragment_digits (Suc digits) (fragment div 10) (buffer[digits := fragment mod 10 + 0x30])
      else (buffer, digits))"
  by pat_completeness auto
termination by (relation "measure (\<lambda>(digits, _, _). 3 - digits)") auto

declare fragment_digits.simps [simp del]

fun write_reversed :: "nat \<Rightarrow> u8 list \<Rightarrow> u8 list \<Rightarrow> int \<Rightarrow> (u8 list \<times> int) result" where
  "write_reversed 0 buffer string off = Inr (string, off)"
| "write_reversed (Suc digits) buffer string off =
     bindR (put_byte (buffer ! digits) string off) (\<lambda>string. write_reversed digits buffer string (off + 1))"

fun ip_to_string_loop :: "nat list \<Rightarrow> u32 \<Rightarrow> u8 list \<Rightarrow> int \<Rightarrow> (u8 list \<times> int) result" where
  "ip_to_string_loop [] ip string off = Inr (string, off)"
| "ip_to_string_loop (i # is) ip string off =
     (let fragment = ucast (drop_bit ((3 - i) * 8) ip AND 0xFF) :: u8;
          (buffer, digits) = (if fragment = 0 then ([0x30, 0, 0], 1) else ([0, 0, 0], 0));
          (buffer, digits) = fragment_digits digits fragment buffer
      in bindR (write_reversed digits buffer string off) (\<lambda>(string, off).
         if i \<noteq> 3 then
           bindR (put_byte 0x2E string off) (\<lambda>string. ip_to_string_loop is ip string (off + 1))
         else ip_to_string_loop is ip string off))"

definition ip_to_string :: "u32 \<Rightarrow> u8 list \<Rightarrow> (u8 list) result" where
  "ip_to_string ip string =
     bindR (ip_to_string_loop [0..<4] ip string 0) (\<lambda>(string, off). put_byte 0 string off)"

section \<open>Sending\<close>

definition compute_ip_checksum :: "u8 list \<Rightarrow> int \<Rightarrow> u16 result" where
  "compute_ip_checksum d off =
     bindR (sum_words d off IP_HEADER_SIZE 0) (\<lambda>(acc, _, _). Inr (ucast (NOT (fold_carry acc))))"

definition should_broadcast :: "u32 \<Rightarrow> ('e, 'h, 'z) net_state_scheme \<Rightarrow> bool" where
  "should_broadcast ip w =
     (let inverted_netmask = NOT (get_our_netmask w) in inverted_netmask AND ip = inverted_netmask)"

text \<open>Assignment to a bit-field of \<open>n\<close> bits at bit \<open>lo\<close> of a byte.\<close>

definition put_bits :: "nat \<Rightarrow> nat \<Rightarrow> u8 \<Rightarrow> u8 list \<Rightarrow> int \<Rightarrow> (u8 list) result" where
  "put_bits lo n v d off =
     bindR (get_byte d off) (\<lambda>b.
     put_byte ((b AND NOT (push_bit lo (mask n))) OR push_bit lo (take_bit n v)) d off)"

definition write_ip_header :: "u32 \<Rightarrow> u32 \<Rightarrow> int \<Rightarrow> int \<Rightarrow> int \<Rightarrow> u8 list \<Rightarrow> (u8 list) result" where
  "write_ip_header sender ip protocol n off d =
     bindR (put_bits 4 4 4 d off) (\<lambda>d.
     bindR (put_bits 0 4 (word_of_int (IP_HEADER_SIZE div 4)) d off) (\<lambda>d.
     bindR (put_bits 2 6 0 d (off + 1)) (\<lambda>d.
     bindR (put_bits 0 2 0 d (off + 1)) (\<lambda>d.
     bindR (put_byte 0xFF d (off + 8)) (\<lambda>d.
     bindR (put_byte (word_of_int protocol) d (off + 9)) (\<lambda>d.
     bindR (write_be16 (word_of_int n) d (off + 2)) (\<lambda>d.
     bindR (write_be16 0 d (off + 4)) (\<lambda>d.
     bindR (write_be16 IP_FLAG_DONT_FRAGMENT d (off + 6)) (\<lambda>d.
     bindR (write_be16 0 d (off + 10)) (\<lambda>d.
     bindR (write_be32 sender d (off + 12)) (\<lambda>d.
     bindR (write_be32 ip d (off + 16)) (\<lambda>d.
     bindR (compute_ip_checksum d off) (\<lambda>checksum.
     write_be16 checksum d (off + 10))))))))))))))"

definition mac_send_to_ip ::
  "('e, 'h) libs \<Rightarrow> nat \<Rightarrow> u32 \<Rightarrow> ('e, 'h, 'z) arp_state_scheme \<Rightarrow> (('e, 'h, 'z) arp_state_scheme) result" where
  "mac_send_to_ip X p ip w = arp_send X p ip w"

definition ip_send ::
  "('e, 'h) libs \<Rightarrow> nat \<Rightarrow> u32 \<Rightarrow> int \<Rightarrow> ('e, 'h, 'z) arp_state_scheme \<Rightarrow> (('e, 'h, 'z) arp_state_scheme) result" where
  "ip_send X p ip protocol w =
     (let w = set_packet p (\<lambda>k. k\<lparr>index := index k - IP_HEADER_SIZE, plength := plength k + IP_HEADER_SIZE\<rparr>) w in
     bindR (with_data p (write_ip_header (get_our_ip w) ip protocol (plength (packets w p)) (index (packets w p))) w) (\<lambda>w.
     if should_broadcast ip w then mac_broadcast X p ETHER_TYPE_IPV4 w
     else mac_send_to_ip X p ip w))"

section \<open>Checks on received headers\<close>

definition verify_ip_header :: "u8 list \<Rightarrow> int \<Rightarrow> int \<Rightarrow> bool result" where
  "verify_ip_header d off packet_size =
     bindR (get_byte d off) (\<lambda>b.
     if drop_bit 4 b \<noteq> 4 then Inr False else
     bindR (read_be16 d (off + 6)) (\<lambda>fragment_offset.
     if fragment_offset AND IP_FLAG_MORE_FRAGMENTS \<noteq> 0 then Inr False else
     if size_t packet_size \<le> 4 * ucast (take_bit 4 b) then Inr False else
     Inr True))"

definition should_filter_away :: "nat \<Rightarrow> ('e, 'h, 'z) net_state_scheme \<Rightarrow> bool" where
  "should_filter_away p w =
     (if get_our_ip w = 0 \<or> get_our_ip w = target_ip (packets w p) \<or> target_ip (packets w p) = 0xFFFFFFFF
      then False else True)"

section \<open>The header that is sent\<close>

definition ip_header_with :: "u16 \<Rightarrow> u32 \<Rightarrow> u32 \<Rightarrow> int \<Rightarrow> int \<Rightarrow> u8 list" where
  "ip_header_with checksum sender ip protocol n =
     [0x45, 0] @ be16_bytes (word_of_int n) @ be16_bytes 0 @ be16_bytes IP_FLAG_DONT_FRAGMENT @
     [0xFF, word_of_int protocol] @ be16_bytes checksum @ be32_bytes sender @ be32_bytes ip"

definition ip_header :: "u32 \<Rightarrow> u32 \<Rightarrow> int \<Rightarrow> int \<Rightarrow> u8 list" where
  "ip_header sender ip protocol n =
     ip_header_with (internet_checksum (word_sum (ip_header_with 0 sender ip protocol n))) sender ip protocol n"

lemma length_ip_header [simp]:
  "length (ip_header_with c sender ip protocol n) = 20" "length (ip_header sender ip protocol n) = 20"
  by (simp_all add: ip_header_def ip_header_with_def)

lemma word_sum_ip_header:
  "word_sum (ip_header_with c sender ip protocol n) = word_sum (ip_header_with 0 sender ip protocol n) + unat c"
  by (simp add: ip_header_with_def word_sum_append)

lemma compute_ip_checksum_ok [mem]:
  assumes "0 \<le> off" and "off + 20 \<le> int (length d)"
  shows "compute_ip_checksum d off = Inr (internet_checksum (word_sum (chunk (nat off) 20 d)))"
proof -
  have "\<exists>m. sum_words d off 20 0 = Inr (0 + of_nat (word_sum (chunk (nat off) (nat (20 - m)) d)), off + (20 - m), m) \<and>
      m = 20 mod 2"
    using assms by (intro sum_words_spec) simp_all
  then show ?thesis by (auto simp: compute_ip_checksum_def internet_checksum_def)
qed

lemma put_bits_ok [mem]:
  "0 \<le> off \<Longrightarrow> off < int (length d) \<Longrightarrow> put_bits lo n v d off =
   Inr (upd (nat off) [(d ! nat off AND NOT (push_bit lo (mask n))) OR push_bit lo (take_bit n v)] d)"
  by (simp add: put_bits_def mem)

lemma bit_fields:
  fixes b :: u8
  shows "((b AND NOT (push_bit 4 (mask 4)) OR push_bit 4 (take_bit 4 4)) AND NOT (push_bit 0 (mask 4))) OR
      push_bit 0 (take_bit 4 5) = 0x45"
    and "((b AND NOT (push_bit 2 (mask 6)) OR push_bit 2 (take_bit 6 0)) AND NOT (push_bit 0 (mask 2))) OR
      push_bit 0 (take_bit 2 0) = 0"
proof -
  show "((b AND NOT (push_bit 4 (mask 4)) OR push_bit 4 (take_bit 4 4)) AND NOT (push_bit 0 (mask 4))) OR
      push_bit 0 (take_bit 4 5) = 0x45"
  proof (rule bit_word_eqI)
    fix n assume "n < LENGTH(8)"
    then have "n \<in> {0, 1, 2, 3, 4, 5, 6, 7}" by auto
    then show "bit (((b AND NOT (push_bit 4 (mask 4)) OR push_bit 4 (take_bit 4 4)) AND NOT (push_bit 0 (mask 4))) OR
      push_bit 0 (take_bit 4 5)) n = bit (0x45 :: u8) n"
      by (auto simp: bit_simps)
  qed
  show "((b AND NOT (push_bit 2 (mask 6)) OR push_bit 2 (take_bit 6 0)) AND NOT (push_bit 0 (mask 2))) OR
      push_bit 0 (take_bit 2 0) = 0"
  proof (rule bit_word_eqI)
    fix n assume "n < LENGTH(8)"
    then have "n \<in> {0, 1, 2, 3, 4, 5, 6, 7}" by auto
    then show "bit (((b AND NOT (push_bit 2 (mask 6)) OR push_bit 2 (take_bit 6 0)) AND NOT (push_bit 0 (mask 2))) OR
      push_bit 0 (take_bit 2 0)) n = bit (0 :: u8) n"
      by (auto simp: bit_simps)
  qed
qed

lemma ip_fields:
  assumes "length B = 20"
  shows "upd 16 (be32_bytes ip) (upd 12 (be32_bytes sender) (upd 10 (be16_bytes 0) (upd 6 (be16_bytes IP_FLAG_DONT_FRAGMENT)
      (upd 4 (be16_bytes 0) (upd 2 (be16_bytes (word_of_int n)) (upd 9 [word_of_int protocol] (upd 8 [0xFF]
        (upd 1 [0] (upd 1 [x] (upd 0 [0x45] (upd 0 [y] B))))))))))) = ip_header_with 0 sender ip protocol n"
    and "upd 10 (be16_bytes c) (ip_header_with 0 sender ip protocol n) = ip_header_with c sender ip protocol n"
proof -
  have "sum_list [1, 1, 2, 2, 2, 1, 1, 2, 4, 4] = length B" using assms by simp
  from segments [OF this] obtain f1 f2 f3 f4 f5 f6 f7 f8 f9 f10
    where B: "B = f1 @ f2 @ f3 @ f4 @ f5 @ f6 @ f7 @ f8 @ f9 @ f10"
      and l: "length f1 = 1" "length f2 = 1" "length f3 = 2" "length f4 = 2" "length f5 = 2" "length f6 = 1"
        "length f7 = 1" "length f8 = 2" "length f9 = 4" "length f10 = 4"
    by (auto simp: map_eq_Cons_conv)
  show "upd 16 (be32_bytes ip) (upd 12 (be32_bytes sender) (upd 10 (be16_bytes 0) (upd 6 (be16_bytes IP_FLAG_DONT_FRAGMENT)
      (upd 4 (be16_bytes 0) (upd 2 (be16_bytes (word_of_int n)) (upd 9 [word_of_int protocol] (upd 8 [0xFF]
        (upd 1 [0] (upd 1 [x] (upd 0 [0x45] (upd 0 [y] B))))))))))) = ip_header_with 0 sender ip protocol n"
    unfolding B using l by (simp add: fields ip_header_with_def)
  show "upd 10 (be16_bytes c) (ip_header_with 0 sender ip protocol n) = ip_header_with c sender ip protocol n"
    by (simp add: fields ip_header_with_def)
qed

lemma write_ip_header_ok:
  assumes "0 \<le> off" and "off + 20 \<le> int (length d)"
  shows "write_ip_header sender ip protocol n off d = Inr (upd (nat off) (ip_header sender ip protocol n) d)"
proof -
  define B where "B = chunk (nat off) 20 d"
  have B: "length B = 20" and le: "nat off + 20 \<le> length d" using assms by (simp_all add: B_def)
  have d: "d = upd (nat off) B d" using le by (simp add: B_def upd_self)
  obtain x y where b0: "put_bits 4 4 4 (upd (nat off) B d) off = Inr (upd (nat off) (upd 0 [y] B) d)"
    and b1: "put_bits 0 4 (word_of_int (IP_HEADER_SIZE div 4)) (upd (nat off) (upd 0 [y] B) d) off =
      Inr (upd (nat off) (upd 0 [0x45] (upd 0 [y] B)) d)"
    and b2: "put_bits 2 6 0 (upd (nat off) (upd 0 [0x45] (upd 0 [y] B)) d) (off + 1) =
      Inr (upd (nat off) (upd 1 [x] (upd 0 [0x45] (upd 0 [y] B))) d)"
    and b3: "put_bits 0 2 0 (upd (nat off) (upd 1 [x] (upd 0 [0x45] (upd 0 [y] B))) d) (off + 1) =
      Inr (upd (nat off) (upd 1 [0] (upd 1 [x] (upd 0 [0x45] (upd 0 [y] B)))) d)"
  proof -
    let ?y = "B ! 0 AND NOT (push_bit 4 (mask 4)) OR push_bit 4 (take_bit 4 4)"
    let ?x = "B ! 1 AND NOT (push_bit 2 (mask 6)) OR push_bit 2 (take_bit 6 0)"
    have n: "upd (nat off) C d ! nat off = C ! 0" "upd (nat off) C d ! nat (off + 1) = C ! Suc 0" if "length C = 20" for C
      using assms le that by (simp_all add: nth_upd nat_add_distrib)
    have m: "upd 0 [a] C ! 0 = a" "upd 0 [a] C ! Suc 0 = C ! Suc 0" "upd (Suc 0) [a] C ! Suc 0 = a" if "length C = 20" for a :: u8 and C
      using that by (simp_all add: nth_upd)
    show thesis
      by (rule that [of ?y ?x])
        (use assms le B in \<open>simp_all add: put_bits_ok window n m bit_fields [simplified]\<close>)
  qed
  let ?z = "ip_header_with 0 sender ip protocol n"
  have c: "chunk (nat off) 20 (upd (nat off) ?z d) = ?z" using le by (simp add: chunk_upd_same)
  have "write_ip_header sender ip protocol n off (upd (nat off) B d) = Inr (upd (nat off) (ip_header sender ip protocol n) d)"
    unfolding write_ip_header_def b0 b1 b2 b3 bindR_Inr
    using assms B le by (simp add: mem window ip_fields [simplified] c ip_header_def)
  then show ?thesis using d by simp
qed

section \<open>ip_send\<close>

definition ip_framed :: "u32 \<Rightarrow> u32 \<Rightarrow> int \<Rightarrow> packet \<Rightarrow> packet" where
  "ip_framed sender ip protocol k = prepend (ip_header sender ip protocol (plength k + 20)) k"

lemma ip_send_eq:
  assumes "packet_ok (packets w p)" and "20 \<le> index (packets w p)"
  shows "ip_send X p ip protocol w =
    (let w = set_packet p (ip_framed (our_ip w) ip protocol) w in
     if should_broadcast ip w then mac_broadcast X p ETHER_TYPE_IPV4 w else arp_send X p ip w)"
proof -
  let ?k = "packets w p"
  have "write_ip_header (our_ip w) ip protocol (plength ?k + 20) (index ?k - 20) (data ?k) =
      Inr (upd (nat (index ?k - 20)) (ip_header (our_ip w) ip protocol (plength ?k + 20)) (data ?k))"
    using assms by (intro write_ip_header_ok) (auto simp: packet_ok_def)
  moreover have "set_packet p (\<lambda>k. k\<lparr>index := index k - 20, plength := plength k + 20,
      data := upd (nat (index ?k - 20)) (ip_header (our_ip w) ip protocol (plength ?k + 20)) (data ?k)\<rparr>) w =
      set_packet p (ip_framed (our_ip w) ip protocol) w"
    by (rule set_packet_cong) (simp add: ip_framed_def prepend_def)
  ultimately show ?thesis
    by (simp add: ip_send_def Let_def get_our_ip_def with_data_def mac_send_to_ip_def set_packet_set_packet)
qed

lemma ip_framed_frame:
  assumes "packet_ok k" and "20 \<le> index k"
  shows "frame_of (ip_framed sender ip protocol k) = ip_header sender ip protocol (plength k + 20) @ frame_of k"
    and "packet_ok (ip_framed sender ip protocol k)" and "index (ip_framed sender ip protocol k) = index k - 20"
    and "length (data (ip_framed sender ip protocol k)) = length (data k)"
  using prepend_frame [of k "ip_header sender ip protocol (plength k + 20)"] assms by (simp_all add: ip_framed_def)

text \<open>Where \<open>ip_send\<close> sends: to everyone, or to an address whose cache entry exists or can be made.\<close>

definition ip_room :: "('e, 'h) libs \<Rightarrow> u32 \<Rightarrow> ('e, 'h, 'z) arp_state_scheme \<Rightarrow> bool" where
  "ip_room X ip w \<longleftrightarrow> should_broadcast ip w \<or> arp_room X ip w"

lemma should_broadcast_cong: "our_netmask w' = our_netmask w \<Longrightarrow> should_broadcast ip w' = should_broadcast ip w"
  by (simp add: should_broadcast_def get_our_netmask_def)

lemma should_broadcast_all [simp]: "should_broadcast 0xFFFFFFFF w"
proof -
  have all: "(0xFFFFFFFF :: u32) = - 1" by simp
  show ?thesis unfolding should_broadcast_def Let_def all by simp
qed

lemma arp_room_cong:
  "arp_entries w' = arp_entries w \<Longrightarrow> entry_lists w' = entry_lists w \<Longrightarrow> arp_room X ip w' = arp_room X ip w"
  by (simp add: arp_room_def free_list_def find_arp_entry_def)

lemma ip_room_cong:
  "arp_entries w' = arp_entries w \<Longrightarrow> entry_lists w' = entry_lists w \<Longrightarrow> our_netmask w' = our_netmask w \<Longrightarrow>
   ip_room X ip w' = ip_room X ip w"
  using arp_room_cong [of w' w X ip] should_broadcast_cong [of w' w ip] by (simp add: ip_room_def)

lemma set_packet_fields [simp]:
  "arp_entries (set_packet p f w) = arp_entries w" "entry_lists (set_packet p f w) = entry_lists w"
  by (simp_all add: set_packet_def)

context intrusive_list
begin

lemma ip_send_safe:
  assumes "arp_inv X ok (add_mset p H) w" and "packet_ok (packets w p)" and "34 \<le> index (packets w p)"
    and "ip_room X ip w"
  shows "safe (ip_send X p ip protocol w) (\<lambda>w'. arp_inv X ok H w' \<and> arp_frame X w w')"
proof -
  let ?f = "ip_framed (our_ip w) ip protocol"
  let ?w = "set_packet p ?f w"
  have k: "packet_ok (packets ?w p)" "index (packets ?w p) = index (packets w p) - 20"
    and l: "length (data (?f (packets w p))) = length (data (packets w p))"
    using ip_framed_frame [OF assms(2)] assms(3) by simp_all
  have i: "arp_inv X ok (add_mset p H) ?w" and f: "arp_frame X w ?w"
    using arp_inv_set_packet [of p H w ?f, OF assms(1) l] .
  have r: "ready (packets ?w p)" using k assms(3) by (simp add: ready_def)
  have idx: "20 \<le> index (packets w p)" using assms(3) by simp
  have room: "ip_room X ip ?w = ip_room X ip w" by (rule ip_room_cong) simp_all
  have "safe (mac_broadcast X p ETHER_TYPE_IPV4 ?w) (\<lambda>w'. arp_inv X ok H w' \<and> arp_frame X ?w w')"
    unfolding mac_broadcast_def using i r by (intro mac_send_arp_inv) simp_all
  moreover have "safe (arp_send X p ip ?w) (\<lambda>w'. arp_inv X ok H w' \<and> arp_frame X ?w w')"
    if "\<not> should_broadcast ip ?w"
    using i r that assms(4) room by (intro arp_send_safe) (auto simp: ip_room_def)
  ultimately have "safe (if should_broadcast ip ?w then mac_broadcast X p ETHER_TYPE_IPV4 ?w else arp_send X p ip ?w)
      (\<lambda>w'. arp_inv X ok H w' \<and> arp_frame X ?w w')" by simp
  then show ?thesis
    unfolding ip_send_eq [OF assms(2) idx] Let_def
    by (rule safe_mono) (auto intro: arp_frame_trans [OF f])
qed

end

end
