(* ===== verification/Udp.thy ===== *)
theory Udp
  imports Ip
begin

text \<open>
  \<open>udp.c\<close>: the sixteen connections with their packet queues, the checksum over the pseudo header,
  sending, receiving, and the delivery of received datagrams to a connection.  A \<open>UdpConnection*\<close> is
  the index of the connection in \<open>connections\<close>.
\<close>

abbreviation UDP_CONNECTION_COUNT :: nat where "UDP_CONNECTION_COUNT \<equiv> 16"

text \<open>\<open>UdpHeader\<close>: source port at 0, destination port at 2, length at 4, checksum at 6.\<close>

abbreviation UDP_HEADER_SIZE :: int where "UDP_HEADER_SIZE \<equiv> 8"

record udp_connection =
  port :: u16
  queue_count :: int        \<comment> \<open>\<open>packet_count\<close>\<close>
  max_packet_count :: int

record ('e, 'h) udp_state = "('e, 'h) arp_state" +
  connections :: "nat \<Rightarrow> udp_connection"
  connection_lists :: 'h

definition set_connection ::
  "nat \<Rightarrow> (udp_connection \<Rightarrow> udp_connection) \<Rightarrow> ('e, 'h, 'z) udp_state_scheme \<Rightarrow> ('e, 'h, 'z) udp_state_scheme" where
  "set_connection c f w = w\<lparr>connections := (connections w)(c := f (connections w c))\<rparr>"

definition udp_init :: "('e, 'h) libs \<Rightarrow> ('e, 'h, 'z) udp_state_scheme \<Rightarrow> ('e, 'h, 'z) udp_state_scheme" where
  "udp_init X w =
     (let w = w\<lparr>connection_lists := list_init X Used_connections (list_init X Free_connections (connection_lists w))\<rparr> in
      fold (\<lambda>i w. w\<lparr>packet_lists := list_init X (Connection_queue i) (packet_lists w),
                    connection_lists := list_add_first X i Free_connections (connection_lists w)\<rparr>)
        [0..<UDP_CONNECTION_COUNT] w)"

section \<open>Sending\<close>

definition compute_udp_checksum :: "u8 list \<Rightarrow> int \<Rightarrow> int \<Rightarrow> u32 \<Rightarrow> u32 \<Rightarrow> u16 result" where
  "compute_udp_checksum d off n sender target =
     (let acc = (drop_bit 16 sender AND 0xFFFF) + (drop_bit 0 sender AND 0xFFFF)
              + (drop_bit 16 target AND 0xFFFF) + (drop_bit 0 target AND 0xFFFF)
              + word_of_int IP_PROTOCOL_UDP + word_of_int n
      in bindR (sum_words d off (uint (word_of_int n :: u16)) acc) (\<lambda>(acc, off, n).
         bindR (sum_last_byte d off n acc) (\<lambda>acc.
         Inr (ucast (NOT (fold_carry acc))))))"

definition write_udp_header :: "u16 \<Rightarrow> u16 \<Rightarrow> u32 \<Rightarrow> u32 \<Rightarrow> int \<Rightarrow> int \<Rightarrow> u8 list \<Rightarrow> (u8 list) result" where
  "write_udp_header source dest sender ip n off d =
     bindR (write_be16 source d off) (\<lambda>d.
     bindR (write_be16 dest d (off + 2)) (\<lambda>d.
     bindR (write_be16 (word_of_int n) d (off + 4)) (\<lambda>d.
     bindR (write_be16 0 d (off + 6)) (\<lambda>d.
     bindR (compute_udp_checksum d off n sender ip) (\<lambda>checksum.
     write_be16 checksum d (off + 6))))))"

definition udp_send_zero_copy ::
  "('e, 'h) libs \<Rightarrow> nat \<Rightarrow> u16 \<Rightarrow> u16 \<Rightarrow> u32 \<Rightarrow> ('e, 'h, 'z) arp_state_scheme \<Rightarrow>
   (('e, 'h, 'z) arp_state_scheme) result" where
  "udp_send_zero_copy X p source dest ip w =
     (let w = set_packet p (\<lambda>k. k\<lparr>index := index k - UDP_HEADER_SIZE, plength := plength k + UDP_HEADER_SIZE\<rparr>) w in
     bindR (with_data p (write_udp_header source dest (get_our_ip w) ip (plength (packets w p)) (index (packets w p))) w) (\<lambda>w.
     ip_send X p ip IP_PROTOCOL_UDP w))"

definition udp_send ::
  "('e, 'h) libs \<Rightarrow> u8 list \<Rightarrow> int \<Rightarrow> u16 \<Rightarrow> u16 \<Rightarrow> u32 \<Rightarrow> ('e, 'h, 'z) arp_state_scheme \<Rightarrow>
   (('e, 'h, 'z) arp_state_scheme) result" where
  "udp_send X payload n source dest ip w =
     bindR (allocate_network_packet X w) (\<lambda>(p, w).
     let n = (if n < NETWORK_PACKET_USER_SIZE then n else NETWORK_PACKET_USER_SIZE) in
     bindR (with_data p (\<lambda>d. copy_up 0 payload 0 d (index (packets w p)) n) w) (\<lambda>w.
     udp_send_zero_copy X p source dest ip (set_packet p (\<lambda>k. k\<lparr>plength := n\<rparr>) w)))"

section \<open>Connections\<close>

definition udp_listen ::
  "('e, 'h) libs \<Rightarrow> u16 \<Rightarrow> int \<Rightarrow> ('e, 'h, 'z) udp_state_scheme \<Rightarrow> (('e, 'h, 'z) udp_state_scheme) result" where
  "udp_listen X prt max_count w =
     (case list_remove_first X Free_connections (connection_lists w) of
        (None, h) \<Rightarrow> Inl Fault
      | (Some c, h) \<Rightarrow>
          let w = set_connection c (\<lambda>k. k\<lparr>max_packet_count := max_count, port := prt, queue_count := 0\<rparr>)
                    (w\<lparr>connection_lists := h\<rparr>) in
          Inr (w\<lparr>connection_lists := list_add_first X c Used_connections (connection_lists w)\<rparr>))"

definition find_connection :: "('e, 'h) libs \<Rightarrow> u16 \<Rightarrow> ('e, 'h, 'z) udp_state_scheme \<Rightarrow> nat option" where
  "find_connection X prt w =
     find (\<lambda>c. port (connections w c) = prt) (list_elements X Used_connections (connection_lists w))"

definition udp_receive_zero_copy ::
  "('e, 'h) libs \<Rightarrow> u16 \<Rightarrow> ('e, 'h, 'z) udp_state_scheme \<Rightarrow> (nat option \<times> ('e, 'h, 'z) udp_state_scheme) result" where
  "udp_receive_zero_copy X prt w =
     (case find_connection X prt w of
        None \<Rightarrow> Inr (None, w)
      | Some c \<Rightarrow>
          if queue_count (connections w c) = 0 then Inr (None, w)
          else case list_remove_first X (Connection_queue c) (packet_lists w) of
            (None, h) \<Rightarrow> Inl Fault
          | (Some p, h) \<Rightarrow>
              Inr (Some p, set_connection c (\<lambda>k. k\<lparr>queue_count := queue_count k - 1\<rparr>) (w\<lparr>packet_lists := h\<rparr>)))"

definition udp_receive ::
  "('e, 'h) libs \<Rightarrow> u8 list \<Rightarrow> int \<Rightarrow> u16 \<Rightarrow> ('e, 'h, 'z) udp_state_scheme \<Rightarrow>
   (int \<times> u8 list \<times> ('e, 'h, 'z) udp_state_scheme) result" where
  "udp_receive X buffer n prt w =
     bindR (udp_receive_zero_copy X prt w) (\<lambda>(r, w).
     case r of
       None \<Rightarrow> Inr (0, buffer, w)
     | Some p \<Rightarrow>
         let n = (if n < plength (packets w p) then n else plength (packets w p)) in
         bindR (copy_up 0 (data (packets w p)) (index (packets w p)) buffer 0 n) (\<lambda>buffer.
         Inr (n, buffer, free_network_packet X p w)))"

text \<open>The end of \<open>handle_udp\<close>: the packet joins the queue, and a queue that got too long loses its first.\<close>

definition deliver ::
  "('e, 'h) libs \<Rightarrow> nat \<Rightarrow> nat \<Rightarrow> ('e, 'h, 'z) udp_state_scheme \<Rightarrow> (('e, 'h, 'z) udp_state_scheme) result" where
  "deliver X c p w =
     (let w = set_connection c (\<lambda>k. k\<lparr>queue_count := queue_count k + 1\<rparr>)
                (w\<lparr>packet_lists := list_add_last X p (Connection_queue c) (packet_lists w)\<rparr>) in
      if queue_count (connections w c) > max_packet_count (connections w c) then
        case list_remove_first X (Connection_queue c) (packet_lists w) of
          (None, h) \<Rightarrow> Inl Fault
        | (Some free_this, h) \<Rightarrow>
            Inr (set_connection c (\<lambda>k. k\<lparr>queue_count := queue_count k - 1\<rparr>)
              (free_network_packet X free_this (w\<lparr>packet_lists := h\<rparr>)))
      else Inr w)"

definition handle_udp ::
  "('e, 'h) libs \<Rightarrow> nat \<Rightarrow> ('e, 'h, 'z) udp_state_scheme \<Rightarrow> (('e, 'h, 'z) udp_state_scheme) result" where
  "handle_udp X p w =
     (if size_t (plength (packets w p)) \<le> size_t UDP_HEADER_SIZE then Inr (free_network_packet X p w)
      else
        let header = index (packets w p);
            w = set_packet p (\<lambda>k. k\<lparr>index := index k + UDP_HEADER_SIZE, plength := plength k - UDP_HEADER_SIZE\<rparr>) w in
        bindR (read_be16 (data (packets w p)) (header + 2)) (\<lambda>dest_port.
        bindR (read_be16 (data (packets w p)) header) (\<lambda>source.
        let w = set_packet p (\<lambda>k. k\<lparr>source_port := source\<rparr>) w in
        case find_connection X dest_port w of
          None \<Rightarrow> Inr (free_network_packet X p w)
        | Some c \<Rightarrow>
            deliver X c p w)))"

section \<open>The invariant of the connections\<close>

text \<open>
  \<open>connections_inv\<close>: the sixteen connections are split between the free and the used list; a free one
  has no packets, a used one as many as it counts and not more than its maximum; every queued packet
  has a payload, which starts behind the three headers and ends before its buffer does.
\<close>

abbreviation connection_heads :: "list_head set" where "connection_heads \<equiv> {Free_connections, Used_connections}"

definition datagrams :: "('e, 'h) libs \<Rightarrow> ('e, 'h, 'z) net_state_scheme \<Rightarrow> nat \<Rightarrow> nat list" where
  "datagrams X w c = list_elements X (Connection_queue c) (packet_lists w)"

definition free_connections :: "('e, 'h) libs \<Rightarrow> ('e, 'h, 'z) udp_state_scheme \<Rightarrow> nat list" where
  "free_connections X w = list_elements X Free_connections (connection_lists w)"

definition used_connections :: "('e, 'h) libs \<Rightarrow> ('e, 'h, 'z) udp_state_scheme \<Rightarrow> nat list" where
  "used_connections X w = list_elements X Used_connections (connection_lists w)"

definition deliverable :: "packet \<Rightarrow> bool" where
  "deliverable k \<longleftrightarrow> packet_ok k \<and> 0 < plength k \<and> index k \<le> 82 \<and> index k + plength k < NETWORK_PACKET_SIZE"

definition connection_ok :: "('e, 'h) libs \<Rightarrow> ('e, 'h, 'z) udp_state_scheme \<Rightarrow> nat \<Rightarrow> bool" where
  "connection_ok X w c \<longleftrightarrow> queue_count (connections w c) = int (length (datagrams X w c)) \<and>
     int (length (datagrams X w c)) \<le> max 0 (max_packet_count (connections w c))"

definition connections_inv ::
  "('e, 'h) libs \<Rightarrow> (list_head set \<Rightarrow> 'h \<Rightarrow> bool) \<Rightarrow> ('e, 'h, 'z) udp_state_scheme \<Rightarrow> bool" where
  "connections_inv X ok w \<longleftrightarrow>
     ok connection_heads (connection_lists w) \<and>
     mset (free_connections X w) + mset (used_connections X w) = mset_set {..<UDP_CONNECTION_COUNT} \<and>
     (\<forall>c\<in>set (free_connections X w). datagrams X w c = []) \<and>
     (\<forall>c\<in>set (used_connections X w). connection_ok X w c) \<and>
     (\<forall>c<UDP_CONNECTION_COUNT. \<forall>p\<in>set (datagrams X w c). deliverable (packets w p))"

definition udp_inv ::
  "('e, 'h) libs \<Rightarrow> (list_head set \<Rightarrow> 'h \<Rightarrow> bool) \<Rightarrow> nat multiset \<Rightarrow> ('e, 'h, 'z) udp_state_scheme \<Rightarrow> bool" where
  "udp_inv X ok H w \<longleftrightarrow> arp_inv X ok H w \<and> connections_inv X ok w"

definition udp_frame :: "('e, 'h, 'z) udp_state_scheme \<Rightarrow> ('e, 'h, 'z) udp_state_scheme \<Rightarrow> bool" where
  "udp_frame w w' \<longleftrightarrow> udp_state.more w' = udp_state.more w \<and> same_config w w'"

lemma udp_frame_refl [simp]: "udp_frame w w"
  by (simp add: udp_frame_def)

lemma udp_frame_trans: "udp_frame w w' \<Longrightarrow> udp_frame w' w'' \<Longrightarrow> udp_frame w w''"
  by (simp add: udp_frame_def) (blast intro: same_config_trans)

lemma udp_fields_of_more:
  fixes w w' :: "('e, 'h, 'z) udp_state_scheme"
  assumes "arp_state.more w' = arp_state.more w"
  shows "connections w' = connections w" and "connection_lists w' = connection_lists w"
    and "udp_state.more w' = udp_state.more w"
  using assms by (cases w; cases w'; simp)+

lemma split_lists:
  fixes n :: nat
  assumes "mset xs + mset ys = mset_set {..<n}"
  shows "a \<in> set xs \<or> a \<in> set ys \<longleftrightarrow> a < n" and "a \<in> set xs \<Longrightarrow> a \<notin> set ys"
    and "distinct xs" and "distinct ys"
proof -
  have m: "mset (xs @ ys) = mset_set {..<n}" using assms by simp
  have "set_mset (mset (xs @ ys)) = {..<n}" unfolding m by simp
  then have s: "set (xs @ ys) = {..<n}" by (simp only: set_mset_mset)
  then show "a \<in> set xs \<or> a \<in> set ys \<longleftrightarrow> a < n" by auto
  have "size (mset (xs @ ys)) = n" unfolding m by simp
  then have "distinct (xs @ ys)" using s by (metis card_distinct card_lessThan size_mset)
  then show "a \<in> set xs \<Longrightarrow> a \<notin> set ys" and "distinct xs" and "distinct ys" by auto
qed

lemma connections_inv_lists: "connections_inv X ok w \<Longrightarrow>
   mset (free_connections X w) + mset (used_connections X w) = mset_set {..<UDP_CONNECTION_COUNT}"
  by (simp add: connections_inv_def)

lemmas connections_inv_member = split_lists [OF connections_inv_lists]

lemma connections_inv_cong:
  assumes "connections_inv X ok w" and "connections w' = connections w"
    and "connection_lists w' = connection_lists w" and "untouched X L w w'" and "\<And>c. Connection_queue c \<notin> L"
  shows "connections_inv X ok w'"
proof -
  have q: "datagrams X w' c = datagrams X w c" if "c < UDP_CONNECTION_COUNT" for c
    using untouched_queue [OF assms(4) in_packet_heads(3) [OF that] _ assms(5)] by (simp add: datagrams_def)
  have pk: "packets w' p = packets w p" if "c < UDP_CONNECTION_COUNT" "p \<in> set (datagrams X w c)" for c p
    using untouched_packet [OF assms(4) in_packet_heads(3) [OF that(1)] _ assms(5)] that(2) by (simp add: datagrams_def)
  have l: "free_connections X w' = free_connections X w" "used_connections X w' = used_connections X w"
    by (simp_all add: free_connections_def used_connections_def assms(3))
  have m: "c < UDP_CONNECTION_COUNT" if "c \<in> set (free_connections X w) \<or> c \<in> set (used_connections X w)" for c
    using that connections_inv_member(1) [OF assms(1)] by blast
  show ?thesis
    using assms(1) unfolding connections_inv_def l assms(2,3) connection_ok_def
    by (simp add: q pk m cong: ball_cong)
qed

lemma connections_inv_arp_frame: "connections_inv X ok w \<Longrightarrow> arp_frame X w w' \<Longrightarrow> connections_inv X ok w'"
  using udp_fields_of_more [of w' w] by (auto simp: arp_frame_def intro: connections_inv_cong)

lemma udp_frame_of_arp: "arp_frame X w w' \<Longrightarrow> udp_frame w w'"
  using udp_fields_of_more [of w' w] by (simp add: arp_frame_def udp_frame_def)

text \<open>What holds of an operation of the layers below holds of it here.\<close>

lemma udp_inv_lift:
  assumes "udp_inv X ok H w" and "safe m (\<lambda>w'. arp_inv X ok H' w' \<and> arp_frame X w w')"
  shows "safe m (\<lambda>w'. udp_inv X ok H' w' \<and> udp_frame w w')"
  using assms(2) by (rule safe_mono)
    (use assms(1) in \<open>auto simp: udp_inv_def intro: connections_inv_arp_frame udp_frame_of_arp\<close>)

lemma find_connection_Some:
  "find_connection X prt w = Some c \<Longrightarrow> c \<in> set (used_connections X w) \<and> port (connections w c) = prt"
  by (auto simp: find_connection_def used_connections_def find_Some_iff)

section \<open>Delivery and reception\<close>

lemma set_connection_frame [simp]:
  "packet_lists (set_connection c f w) = packet_lists w" "packets (set_connection c f w) = packets w"
  "connection_lists (set_connection c f w) = connection_lists w" "udp_state.more (set_connection c f w) = udp_state.more w"
  "datagrams X (set_connection c f w) i = datagrams X w i"
  "free_connections X (set_connection c f w) = free_connections X w"
  "used_connections X (set_connection c f w) = used_connections X w"
  by (simp_all add: set_connection_def datagrams_def free_connections_def used_connections_def)

lemma connections_set_connection [simp]:
  "connections (set_connection c f w) i = (if i = c then f (connections w c) else connections w i)"
  by (simp add: set_connection_def)

lemma gmac_inv_udp [simp]:
  "gmac_inv X ok H (set_connection c f w) = gmac_inv X ok H w"
  "gmac_inv X ok H (w\<lparr>connection_lists := h\<rparr>) = gmac_inv X ok H w"
  by (simp_all add: gmac_inv_def rings_def buffers_ok_def rings_ok_def set_connection_def)

text \<open>
  One used connection and its queue change, and the state below the connections only in the packet
  lists.
\<close>

lemma connections_inv_change:
  assumes "connections_inv X ok w" and "c \<in> set (used_connections X w)" and "connection_lists w' = connection_lists w"
    and "\<And>i. i \<noteq> c \<Longrightarrow> connections w' i = connections w i" and "connection_ok X w' c"
    and "untouched X {Connection_queue c} w w'" and "\<forall>p\<in>set (datagrams X w' c). deliverable (packets w' p)"
  shows "connections_inv X ok w'"
proof -
  have l: "free_connections X w' = free_connections X w" "used_connections X w' = used_connections X w"
    by (simp_all add: free_connections_def used_connections_def assms(3))
  have m: "i < UDP_CONNECTION_COUNT" if "i \<in> set (free_connections X w) \<or> i \<in> set (used_connections X w)" for i
    using that connections_inv_member(1) [OF assms(1)] by blast
  have ne: "i \<noteq> c" if "i \<in> set (free_connections X w)" for i
    using that assms(2) connections_inv_member(2) [OF assms(1)] by blast
  have q: "datagrams X w' i = datagrams X w i" if "i < UDP_CONNECTION_COUNT" "i \<noteq> c" for i
    using untouched_queue [OF assms(6) in_packet_heads(3) [OF that(1)]] that(2) by (simp add: datagrams_def)
  have pk: "packets w' p = packets w p" if "i < UDP_CONNECTION_COUNT" "i \<noteq> c" "p \<in> set (datagrams X w i)" for i p
    using untouched_packet [OF assms(6) in_packet_heads(3) [OF that(1)]] that(2,3) by (simp add: datagrams_def)
  show ?thesis
    unfolding connections_inv_def l assms(3)
  proof (intro conjI)
    show "\<forall>i\<in>set (free_connections X w). datagrams X w' i = []"
      using assms(1) m ne q by (auto simp: connections_inv_def)
    show "\<forall>i\<in>set (used_connections X w). connection_ok X w' i"
    proof
      fix i assume i: "i \<in> set (used_connections X w)"
      show "connection_ok X w' i"
        using assms(1) i q [OF m, of i] assms(4) [of i] assms(5)
        by (cases "i = c") (simp_all add: connection_ok_def connections_inv_def)
    qed
    show "\<forall>i<UDP_CONNECTION_COUNT. \<forall>p\<in>set (datagrams X w' i). deliverable (packets w' p)"
    proof (intro allI impI ballI)
      fix i p assume i: "i < UDP_CONNECTION_COUNT" and p: "p \<in> set (datagrams X w' i)"
      show "deliverable (packets w' p)"
      proof (cases "i = c")
        case True
        then show ?thesis using assms(7) p by simp
      next
        case False
        then show ?thesis using assms(1) i p by (simp add: q pk connections_inv_def)
      qed
    qed
  qed (use assms(1) in \<open>simp_all add: connections_inv_def\<close>)
qed

lemma arp_inv_udp:
  assumes "arp_inv X ok H w" and "gmac_inv X ok H' w'" and "untouched X {Connection_queue c} w w'"
    and "arp_entries w' = arp_entries w" and "entry_lists w' = entry_lists w"
  shows "arp_inv X ok H' w'"
  using assms entries_inv_other_queues [of X ok w w' "{Connection_queue c}"] by (simp add: arp_inv_def)

lemma arp_fields_udp [simp]:
  "arp_entries (set_connection c f w) = arp_entries w" "entry_lists (set_connection c f w) = entry_lists w"
  "same_config w (set_connection c f w)"
  by (simp_all add: set_connection_def same_config_def)

lemma arp_fields_free [simp]:
  "arp_entries (free_network_packet X p w) = arp_entries w" "entry_lists (free_network_packet X p w) = entry_lists w"
  by (simp_all add: free_network_packet_def)

lemma udp_fields_free [simp]:
  "connections (free_network_packet X p w) = connections w"
  "connection_lists (free_network_packet X p w) = connection_lists w"
  "udp_state.more (free_network_packet X p w) = udp_state.more w"
  by (simp_all add: free_network_packet_def)

context intrusive_list
begin

lemma udp_receive_zero_copy_returns:
  assumes "udp_inv X ok H w"
  shows "returns (udp_receive_zero_copy X prt w) (\<lambda>(r, w'). case r of
      None \<Rightarrow> w' = w
    | Some p \<Rightarrow> udp_inv X ok (add_mset p H) w' \<and> deliverable (packets w' p) \<and> packets w' = packets w \<and> udp_frame w w' \<and>
        (\<exists>c. find_connection X prt w = Some c \<and> datagrams X w c = p # datagrams X w' c \<and>
           untouched X {Connection_queue c} w w'))"
proof (cases "find_connection X prt w")
  case None
  then show ?thesis by (simp add: udp_receive_zero_copy_def)
next
  case (Some c)
  then have u: "c \<in> set (used_connections X w)" using find_connection_Some by blast
  have a: "arp_inv X ok H w" and i: "connections_inv X ok w" and g: "gmac_inv X ok H w"
    using assms by (simp_all add: udp_inv_def arp_inv_def)
  have c: "c < UDP_CONNECTION_COUNT" using connections_inv_member(1) [OF i] u by blast
  have qh: "Connection_queue c \<in> packet_heads" using c by (rule in_packet_heads)
  have cok: "queue_count (connections w c) = int (length (datagrams X w c))"
    "int (length (datagrams X w c)) \<le> max 0 (max_packet_count (connections w c))"
    using i u by (simp_all add: connections_inv_def connection_ok_def)
  show ?thesis
  proof (cases "queue_count (connections w c) = 0")
    case True
    then show ?thesis using Some by (simp add: udp_receive_zero_copy_def)
  next
    case False
    then have "list_elements X (Connection_queue c) (packet_lists w) \<noteq> []" using cok by (auto simp: datagrams_def)
    then obtain p h where rm: "list_remove_first X (Connection_queue c) (packet_lists w) = (Some p, h)"
      and els: "list_elements X (Connection_queue c) (packet_lists w) = p # list_elements X (Connection_queue c) h"
      and other: "\<And>k. k \<in> packet_heads \<Longrightarrow> k \<noteq> Connection_queue c \<Longrightarrow> list_elements X k h = list_elements X k (packet_lists w)"
      using remove_first_nonempty [OF gmac_lists [OF g] qh] by blast
    let ?w = "set_connection c (\<lambda>k. k\<lparr>queue_count := queue_count k - 1\<rparr>) (w\<lparr>packet_lists := h\<rparr>)"
    have g': "gmac_inv X ok (add_mset p H) ?w" using gmac_take [OF g qh rm] by simp
    have q: "datagrams X w c = p # datagrams X ?w c" using els by (simp add: datagrams_def)
    have un: "untouched X {Connection_queue c} w ?w" using other by (intro untouched_lists) auto
    have dv: "\<forall>q\<in>set (datagrams X w c). deliverable (packets w q)" using i c by (simp add: connections_inv_def)
    have "connections_inv X ok ?w"
      using cok dv q by (intro connections_inv_change [OF i u _ _ _ un]) (simp_all add: connection_ok_def)
    moreover have "arp_inv X ok (add_mset p H) ?w" using arp_inv_udp [OF a g' un] by simp
    moreover have "udp_frame w ?w" by (simp add: udp_frame_def set_connection_def same_config_def)
    ultimately have "udp_inv X ok (add_mset p H) ?w \<and> deliverable (packets ?w p) \<and> packets ?w = packets w \<and>
        udp_frame w ?w \<and> datagrams X w c = p # datagrams X ?w c \<and> untouched X {Connection_queue c} w ?w"
      using dv q un by (simp add: udp_inv_def)
    then show ?thesis using Some False by (simp add: udp_receive_zero_copy_def rm)
  qed
qed

lemma udp_inv_set_packet:
  assumes "udp_inv X ok (add_mset p H) w" and "length (data (f (packets w p))) = length (data (packets w p))"
  shows "udp_inv X ok (add_mset p H) (set_packet p f w)" and "udp_frame w (set_packet p f w)"
proof -
  have a: "arp_inv X ok (add_mset p H) w" using assms(1) by (simp add: udp_inv_def)
  note s = arp_inv_set_packet [of p H w f, OF a assms(2)]
  show "udp_inv X ok (add_mset p H) (set_packet p f w)"
    using s assms(1) by (auto simp: udp_inv_def intro: connections_inv_arp_frame)
  show "udp_frame w (set_packet p f w)" using s(2) by (rule udp_frame_of_arp)
qed

lemma udp_inv_free:
  assumes "udp_inv X ok (add_mset p H) w"
  shows "udp_inv X ok H (free_network_packet X p w)" and "udp_frame w (free_network_packet X p w)"
proof -
  have a: "arp_inv X ok (add_mset p H) w" using assms by (simp add: udp_inv_def)
  note s = gmac_free_arp [OF a]
  show "udp_inv X ok H (free_network_packet X p w)"
    using s assms by (auto simp: udp_inv_def intro: connections_inv_arp_frame)
  show "udp_frame w (free_network_packet X p w)" using s(2) by (rule udp_frame_of_arp)
qed

lemma deliver_returns:
  assumes "udp_inv X ok (add_mset p H) w" and "c \<in> set (used_connections X w)" and "deliverable (packets w p)"
  shows "returns (deliver X c p w)
     (\<lambda>w'. udp_inv X ok H w' \<and> udp_frame w w' \<and> packets w' = packets w \<and>
        untouched X {Connection_queue c} w w' \<and>
        datagrams X w' c = (let q = datagrams X w c @ [p] in
          if int (length q) > max_packet_count (connections w c) then tl q else q))"
proof -
  have a: "arp_inv X ok (add_mset p H) w" and i: "connections_inv X ok w" and g: "gmac_inv X ok (add_mset p H) w"
    using assms(1) by (simp_all add: udp_inv_def arp_inv_def)
  have c: "c < UDP_CONNECTION_COUNT" using connections_inv_member(1) [OF i] assms(2) by blast
  have qh: "Connection_queue c \<in> packet_heads" using c by (rule in_packet_heads)
  have cok: "queue_count (connections w c) = int (length (datagrams X w c))"
    "int (length (datagrams X w c)) \<le> max 0 (max_packet_count (connections w c))"
    using i assms(2) by (simp_all add: connections_inv_def connection_ok_def)
  have dv: "\<forall>q\<in>set (datagrams X w c). deliverable (packets w q)" using i c by (simp add: connections_inv_def)
  let ?q = "datagrams X w c @ [p]"
  let ?h = "list_add_last X p (Connection_queue c) (packet_lists w)"
  let ?w1 = "set_connection c (\<lambda>k. k\<lparr>queue_count := queue_count k + 1\<rparr>) (w\<lparr>packet_lists := ?h\<rparr>)"
  have pool: "pool X ok (add_mset p (H + rings w)) (packet_lists w)" using gmac_invD(1) [OF g] by simp
  note els = pool_add_elements(2) [OF pool qh]
  have g1: "gmac_inv X ok H ?w1"
    using pool_add_last [OF pool qh] g by (simp add: gmac_inv_def rings_def buffers_ok_def rings_ok_def set_connection_def)
  have q1: "list_elements X (Connection_queue c) (packet_lists ?w1) = ?q" using els [OF qh] by (simp add: datagrams_def)
  have un1: "untouched X {Connection_queue c} w ?w1" using els by (intro untouched_lists) auto
  have en1: "arp_entries ?w1 = arp_entries w" "entry_lists ?w1 = entry_lists w" "udp_frame w ?w1"
    by (simp_all add: udp_frame_def set_connection_def same_config_def)
  show ?thesis
  proof (cases "int (length ?q) > max_packet_count (connections w c)")
    case False
    have "connections_inv X ok ?w1"
      using cok dv q1 assms(3) False
      by (intro connections_inv_change [OF i assms(2) _ _ _ un1]) (auto simp: connection_ok_def datagrams_def)
    moreover have "arp_inv X ok H ?w1" using arp_inv_udp [OF a g1 un1] en1 by simp
    ultimately show ?thesis
      using False cok q1 un1 en1 by (simp add: deliver_def udp_inv_def Let_def datagrams_def)
  next
    case True
    have "list_elements X (Connection_queue c) (packet_lists ?w1) \<noteq> []" using q1 by simp
    then obtain f h where rm: "list_remove_first X (Connection_queue c) (packet_lists ?w1) = (Some f, h)"
      and els2: "list_elements X (Connection_queue c) (packet_lists ?w1) = f # list_elements X (Connection_queue c) h"
      and other: "\<And>k. k \<in> packet_heads \<Longrightarrow> k \<noteq> Connection_queue c \<Longrightarrow> list_elements X k h = list_elements X k (packet_lists ?w1)"
      using remove_first_nonempty [OF gmac_lists [OF g1] qh] by blast
    let ?w2 = "?w1\<lparr>packet_lists := h\<rparr>"
    let ?w3 = "set_connection c (\<lambda>k. k\<lparr>queue_count := queue_count k - 1\<rparr>) (free_network_packet X f ?w2)"
    have g2: "gmac_inv X ok (add_mset f H) ?w2" using g1 qh rm by (rule gmac_take)
    have g3: "gmac_inv X ok H ?w3" using gmac_inv_free(1) [OF g2] by simp
    have "list_elements X (Connection_queue c) h = tl ?q" using els2 q1 by (metis list.sel(3))
    then have q3: "datagrams X ?w3 c = tl ?q"
      using gmac_inv_free(2) [OF g2 qh] by (simp add: datagrams_def [of X "free_network_packet _ _ _"])
    have un3: "untouched X {Connection_queue c} w ?w3"
    proof (rule untouched_lists)
      show "list_elements X k (packet_lists ?w3) = list_elements X k (packet_lists w)"
        if "k \<in> packet_heads" "k \<noteq> Free_packets" "k \<notin> {Connection_queue c}" for k
        using gmac_inv_free(2) [OF g2 that(1,2)] other [OF that(1)] that els [OF that(1)] by simp
    qed simp
    have en3: "arp_entries ?w3 = arp_entries w" "entry_lists ?w3 = entry_lists w" "udp_frame w ?w3"
      by (simp_all add: udp_frame_def set_connection_def free_network_packet_def same_config_def)
    have "connections_inv X ok ?w3"
    proof (rule connections_inv_change [OF i assms(2) _ _ _ un3])
      show "connection_ok X ?w3 c" unfolding connection_ok_def q3 using cok by simp
      show "\<forall>q\<in>set (datagrams X ?w3 c). deliverable (packets ?w3 q)"
        unfolding q3 using dv assms(3) by (cases "datagrams X w c") auto
    qed simp_all
    moreover have "arp_inv X ok H ?w3" using arp_inv_udp [OF a g3 un3] en3 by simp
    ultimately show ?thesis
      using True cok un3 en3 rm q3 by (simp add: deliver_def udp_inv_def Let_def)
  qed
qed

text \<open>The fields of the header \<open>handle_udp\<close> reads, and the packet it delivers.\<close>

end

definition udp_payload :: "u16 \<Rightarrow> packet \<Rightarrow> packet" where
  "udp_payload source k = k\<lparr>index := index k + 8, plength := plength k - 8, source_port := source\<rparr>"

context intrusive_list
begin

lemma handle_udp_delivers:
  assumes "udp_inv X ok (add_mset p H) w" and "packet_ok (packets w p)" and "index (packets w p) \<le> 74"
    and "index (packets w p) + plength (packets w p) < NETWORK_PACKET_SIZE" and "8 < plength (packets w p)"
    and "read_be16 (data (packets w p)) (index (packets w p) + 2) = Inr dest"
    and "read_be16 (data (packets w p)) (index (packets w p)) = Inr source"
  shows "returns (handle_udp X p w) (\<lambda>w'. udp_inv X ok H w' \<and> udp_frame w w' \<and>
    packets w' = (packets w)(p := udp_payload source (packets w p)) \<and>
    (case find_connection X dest w of
       None \<Rightarrow> untouched X {} w w'
     | Some c \<Rightarrow> untouched X {Connection_queue c} w w' \<and> datagrams X w' c = (let q = datagrams X w c @ [p] in
         if int (length q) > max_packet_count (connections w c) then tl q else q)))"
proof -
  let ?k = "packets w p"
  let ?w = "set_packet p (udp_payload source) w"
  have sz: "\<not> size_t (plength ?k) \<le> size_t UDP_HEADER_SIZE"
    using assms(2,5) by (auto simp: packet_ok_def size_t_le uint_size_t)
  have eq: "set_packet p (\<lambda>k. k\<lparr>source_port := source\<rparr>) (set_packet p (\<lambda>k. k\<lparr>index := index k + 8, plength := plength k - 8\<rparr>) w) = ?w"
    unfolding set_packet_set_packet by (rule set_packet_cong) (simp add: udp_payload_def)
  have i: "udp_inv X ok (add_mset p H) ?w" and f: "udp_frame w ?w"
    using udp_inv_set_packet [of p H w "udp_payload source", OF assms(1)] by (simp_all add: udp_payload_def)
  have d: "deliverable (packets ?w p)"
    using assms(2-5) by (auto simp: deliverable_def packet_ok_def udp_payload_def)
  have g: "gmac_inv X ok (add_mset p H) w" using assms(1) by (simp add: udp_inv_def arp_inv_def)
  have un: "untouched X L w ?w" for L by (rule gmac_untouched_set_packet [OF g])
  have conn: "find_connection X dest ?w = find_connection X dest w" "connections ?w = connections w"
    "datagrams X ?w c = datagrams X w c" for c
    by (simp_all add: find_connection_def datagrams_def set_packet_def)
  have pk: "packets ?w = (packets w)(p := udp_payload source ?k)" by (simp add: set_packet_def)
  show ?thesis
  proof (cases "find_connection X dest w")
    case None
    have "gmac_inv X ok (add_mset p H) ?w" using i by (simp add: udp_inv_def arp_inv_def)
    then have "untouched X {} w (free_network_packet X p ?w)"
      by (blast intro: untouched_trans [OF un gmac_untouched_free])
    then show ?thesis
      using None sz assms(6,7) udp_inv_free [OF i] f
      by (auto simp: handle_udp_def Let_def eq conn pk intro: udp_frame_trans)
  next
    case (Some c)
    then have u: "c \<in> set (used_connections X ?w)" using find_connection_Some conn by metis
    have e: "handle_udp X p w = deliver X c p ?w"
      using sz assms(6,7) Some by (simp add: handle_udp_def Let_def eq conn)
    show ?thesis
      unfolding e using deliver_returns [OF i u d] Some un [of "{Connection_queue c}"] f
      by (auto simp: conn pk elim!: returns_mono intro: udp_frame_trans untouched_trans)
  qed
qed

lemma handle_udp_returns:
  assumes "udp_inv X ok (add_mset p H) w" and "packet_ok (packets w p)" and "index (packets w p) \<le> 74"
    and "index (packets w p) + plength (packets w p) < NETWORK_PACKET_SIZE"
  shows "returns (handle_udp X p w) (\<lambda>w'. udp_inv X ok H w' \<and> udp_frame w w')"
proof (cases "8 < plength (packets w p)")
  case False
  then show ?thesis
    using udp_inv_free [OF assms(1)] assms(2) by (auto simp: handle_udp_def packet_ok_def size_t_le uint_size_t)
next
  case True
  let ?k = "packets w p"
  have r: "0 \<le> index ?k" "index ?k + 8 \<le> int (length (data ?k))" using assms(2) True by (auto simp: packet_ok_def)
  obtain dest source where "read_be16 (data ?k) (index ?k + 2) = Inr dest" "read_be16 (data ?k) (index ?k) = Inr source"
    using be16.rd_in [of "index ?k + 2" "data ?k"] be16.rd_in [of "index ?k" "data ?k"] r by auto
  from handle_udp_delivers [OF assms True this] show ?thesis by (rule returns_mono) simp
qed

end

section \<open>The datagram that is sent\<close>

text \<open>The pseudo header of the checksum: both addresses, a zero, the protocol and the length.\<close>

definition udp_pseudo_header :: "u32 \<Rightarrow> u32 \<Rightarrow> int \<Rightarrow> u8 list" where
  "udp_pseudo_header sender ip n = be32_bytes sender @ be32_bytes ip @ [0, 17] @ be16_bytes (word_of_int n)"

definition udp_header_with :: "u16 \<Rightarrow> u16 \<Rightarrow> u16 \<Rightarrow> int \<Rightarrow> u8 list" where
  "udp_header_with checksum source dest n =
     be16_bytes source @ be16_bytes dest @ be16_bytes (word_of_int n) @ be16_bytes checksum"

definition udp_checksum :: "u16 \<Rightarrow> u16 \<Rightarrow> u32 \<Rightarrow> u32 \<Rightarrow> u8 list \<Rightarrow> u16" where
  "udp_checksum source dest sender ip payload =
     (let n = 8 + int (length payload) in
      internet_checksum (word_sum (udp_pseudo_header sender ip n @ udp_header_with 0 source dest n @ payload)))"

definition udp_header :: "u16 \<Rightarrow> u16 \<Rightarrow> u32 \<Rightarrow> u32 \<Rightarrow> u8 list \<Rightarrow> u8 list" where
  "udp_header source dest sender ip payload =
     udp_header_with (udp_checksum source dest sender ip payload) source dest (8 + int (length payload))"

lemma length_udp_header [simp]:
  "length (udp_header_with c source dest n) = 8" "length (udp_header source dest sender ip payload) = 8"
  "length (udp_pseudo_header sender ip n) = 12"
  by (simp_all add: udp_header_def udp_header_with_def udp_pseudo_header_def)

lemma word_sum_udp_header:
  "word_sum (udp_header_with c source dest n) = word_sum (udp_header_with 0 source dest n) + unat c"
  by (simp add: udp_header_with_def word_sum_append)

lemma compute_udp_checksum_ok:
  assumes "0 \<le> off" and "0 \<le> n" and "n < 65536" and "off + n \<le> int (length d)"
  shows "compute_udp_checksum d off n sender ip =
    Inr (internet_checksum (word_sum (udp_pseudo_header sender ip n @ chunk (nat off) (nat n) d)))"
proof -
  have u: "uint (word_of_int n :: u16) = n"
    using assms by (simp add: uint_word_of_int_eq take_bit_int_eq_self)
  have un: "unat (word_of_int n :: u16) = nat n" using u by (metis nat_uint_eq)
  let ?acc = "(drop_bit 16 sender AND 0xFFFF) + (drop_bit 0 sender AND 0xFFFF)
      + (drop_bit 16 ip AND 0xFFFF) + (drop_bit 0 ip AND 0xFFFF) + word_of_int IP_PROTOCOL_UDP + word_of_int n :: u32"
  have acc: "?acc = of_nat (word_sum (udp_pseudo_header sender ip n))"
  proof -
    have n: "word_of_int n = (of_nat (nat n) :: u32)" using assms(2) by simp
    have sum: "of_nat a + of_nat b + of_nat c + of_nat e + word_of_int 17 + of_nat m = (of_nat (a + b + c + e + 17 + m) :: u32)"
      for a b c e m by simp
    have "word_sum (udp_pseudo_header sender ip n) =
        unat sender div 65536 + unat sender mod 65536 + unat ip div 65536 + unat ip mod 65536 + 17 + nat n"
      by (simp add: udp_pseudo_header_def word_sum_append word_sum_be32 un)
    then show ?thesis unfolding half_words n by (simp only: sum)
  qed
  have "bindR (sum_words d off n ?acc) (\<lambda>(acc, off, n). sum_last_byte d off n acc) =
      Inr (?acc + of_nat (word_sum (chunk (nat off) (nat n) d)))"
    using assms by (intro sum_all_bytes)
  then have "bindR (sum_words d off n ?acc) (\<lambda>(acc, off, n). bindR (sum_last_byte d off n acc) (\<lambda>acc.
      Inr (ucast (NOT (fold_carry acc)) :: u16))) =
      Inr (ucast (NOT (fold_carry (?acc + of_nat (word_sum (chunk (nat off) (nat n) d))))))"
    by (auto simp: bindR_eq_Inr_iff)
  then show ?thesis
    unfolding compute_udp_checksum_def Let_def u acc internet_checksum_def
    by (simp add: word_sum_append)
qed

lemma udp_fields:
  assumes "length B = 8"
  shows "upd 6 (be16_bytes 0) (upd 4 (be16_bytes (word_of_int n)) (upd 2 (be16_bytes dest) (upd 0 (be16_bytes source) B))) =
      udp_header_with 0 source dest n"
    and "upd 6 (be16_bytes c) (udp_header_with 0 source dest n) = udp_header_with c source dest n"
proof -
  have "sum_list [2, 2, 2, 2] = length B" using assms by simp
  from segments [OF this] obtain f1 f2 f3 f4 where B: "B = f1 @ f2 @ f3 @ f4"
      and l: "length f1 = 2" "length f2 = 2" "length f3 = 2" "length f4 = 2"
    by (auto simp: map_eq_Cons_conv)
  show "upd 6 (be16_bytes 0) (upd 4 (be16_bytes (word_of_int n)) (upd 2 (be16_bytes dest) (upd 0 (be16_bytes source) B))) =
      udp_header_with 0 source dest n"
    unfolding B using l by (simp add: fields udp_header_with_def)
  show "upd 6 (be16_bytes c) (udp_header_with 0 source dest n) = udp_header_with c source dest n"
    by (simp add: fields udp_header_with_def)
qed

lemma write_udp_header_ok:
  assumes "0 \<le> off" and "8 \<le> n" and "n < 65536" and "off + n \<le> int (length d)"
  shows "write_udp_header source dest sender ip n off d =
    Inr (upd (nat off) (udp_header source dest sender ip (chunk (nat off + 8) (nat n - 8) d)) d)"
proof -
  define B where "B = chunk (nat off) 8 d"
  have B: "length B = 8" and le: "nat off + 8 \<le> length d" using assms by (simp_all add: B_def)
  have d: "d = upd (nat off) B d" using le by (simp add: B_def upd_self)
  let ?z = "udp_header_with 0 source dest n"
  let ?payload = "chunk (nat off + 8) (nat n - 8) d"
  have n8: "nat n = 8 + (nat n - 8)" using assms by simp
  have "nat off + 8 + (nat n - 8) \<le> length d" using assms by linarith
  then have lp: "8 + int (length ?payload) = n" using assms by simp
  have c: "chunk (nat off) (nat n) (upd (nat off) ?z d) = ?z @ ?payload"
    using le by (subst n8, subst chunk_append_chunk [symmetric]) (simp add: chunk_upd_same chunk_upd_after)
  have cs: "compute_udp_checksum (upd (nat off) ?z d) off n sender ip =
      Inr (udp_checksum source dest sender ip ?payload)"
    using assms le by (subst compute_udp_checksum_ok) (simp_all add: c udp_checksum_def Let_def lp)
  have "write_udp_header source dest sender ip n off (upd (nat off) B d) =
      Inr (upd (nat off) (udp_header source dest sender ip ?payload) d)"
    using assms B le by (simp add: write_udp_header_def mem window udp_fields cs udp_header_def lp)
  then show ?thesis using d by simp
qed

definition udp_framed :: "u16 \<Rightarrow> u16 \<Rightarrow> u32 \<Rightarrow> u32 \<Rightarrow> packet \<Rightarrow> packet" where
  "udp_framed source dest sender ip k = prepend (udp_header source dest sender ip (frame_of k)) k"

lemma udp_framed_frame:
  assumes "packet_ok k" and "8 \<le> index k"
  shows "frame_of (udp_framed source dest sender ip k) = udp_header source dest sender ip (frame_of k) @ frame_of k"
    and "packet_ok (udp_framed source dest sender ip k)" and "index (udp_framed source dest sender ip k) = index k - 8"
    and "length (data (udp_framed source dest sender ip k)) = length (data k)"
  using prepend_frame [of k "udp_header source dest sender ip (frame_of k)"] assms by (simp_all add: udp_framed_def)

lemma udp_send_zero_copy_eq:
  assumes "packet_ok (packets w p)" and "8 \<le> index (packets w p)"
  shows "udp_send_zero_copy X p source dest ip w =
    ip_send X p ip IP_PROTOCOL_UDP (set_packet p (udp_framed source dest (our_ip w) ip) w)"
proof -
  let ?k = "packets w p"
  have n: "nat (index ?k - 8) + 8 = nat (index ?k)" "nat (plength ?k + 8) - 8 = nat (plength ?k)"
    using assms by (auto simp: packet_ok_def)
  have "write_udp_header source dest (our_ip w) ip (plength ?k + 8) (index ?k - 8) (data ?k) =
      Inr (upd (nat (index ?k - 8)) (udp_header source dest (our_ip w) ip (frame_of ?k)) (data ?k))"
    using assms by (subst write_udp_header_ok) (auto simp: packet_ok_def n frame_of_def)
  moreover have "set_packet p (\<lambda>k. k\<lparr>index := index k - 8, plength := plength k + 8,
      data := upd (nat (index ?k - 8)) (udp_header source dest (our_ip w) ip (frame_of ?k)) (data ?k)\<rparr>) w =
      set_packet p (udp_framed source dest (our_ip w) ip) w"
    by (rule set_packet_cong) (simp add: udp_framed_def prepend_def)
  ultimately show ?thesis
    by (simp add: udp_send_zero_copy_def Let_def get_our_ip_def with_data_def set_packet_set_packet)
qed

context intrusive_list
begin

lemma udp_send_zero_copy_safe:
  assumes "arp_inv X ok (add_mset p H) w" and "packet_ok (packets w p)" and "42 \<le> index (packets w p)"
    and "ip_room X ip w"
  shows "safe (udp_send_zero_copy X p source dest ip w) (\<lambda>w'. arp_inv X ok H w' \<and> arp_frame X w w')"
proof -
  let ?f = "udp_framed source dest (our_ip w) ip"
  let ?w = "set_packet p ?f w"
  have i8: "8 \<le> index (packets w p)" using assms(3) by simp
  note fr = udp_framed_frame [OF assms(2) i8, of source dest "our_ip w" ip]
  note s = arp_inv_set_packet [of p H w ?f, OF assms(1) fr(4)]
  have "ip_room X ip ?w = ip_room X ip w" by (rule ip_room_cong) simp_all
  then have "safe (ip_send X p ip IP_PROTOCOL_UDP ?w) (\<lambda>w'. arp_inv X ok H w' \<and> arp_frame X ?w w')"
    using s(1) fr assms(3,4) by (intro ip_send_safe) simp_all
  then show ?thesis
    unfolding udp_send_zero_copy_eq [OF assms(2) i8]
    by (rule safe_mono) (auto intro: arp_frame_trans [OF s(2)])
qed

lemma arp_allocate:
  assumes "arp_inv X ok H w"
  shows "safe (allocate_network_packet X w) (\<lambda>(p, w'). arp_inv X ok (add_mset p H) w' \<and> arp_frame X w w' \<and>
    gmac_state.more w' = gmac_state.more w \<and> env w' = env w \<and> length (data (packets w p)) = 1024 \<and>
    packets w' p = (packets w p)\<lparr>plength := 0, index := 144\<rparr>)"
proof -
  have "gmac_inv X ok H w" using assms by (simp add: arp_inv_def)
  from gmac_allocate [OF this] show ?thesis
    by (rule safe_mono)
      (use assms in \<open>auto simp: arp_inv_def intro: entries_inv_cong arp_frame_of_gmac dest: arp_fields_of_more buffer_length\<close>)
qed

text \<open>A packet taken from the pool, filled and sent.\<close>

lemma send_filled_safe:
  assumes "arp_inv X ok (add_mset p H) w" and "packet_ok (g (packets w p))" and "index (g (packets w p)) = 144"
    and "ip_room X ip w"
  shows "safe (udp_send_zero_copy X p source dest ip (set_packet p g w)) (\<lambda>w'. arp_inv X ok H w' \<and> arp_frame X w w')"
proof -
  have g: "gmac_inv X ok (add_mset p H) w" using assms(1) by (simp add: arp_inv_def)
  have "length (data (g (packets w p))) = length (data (packets w p))"
    using buffer_length [OF g] assms(2) by (simp add: packet_ok_def)
  note s = arp_inv_set_packet [of p H w g, OF assms(1) this]
  have "ip_room X ip (set_packet p g w) = ip_room X ip w" by (rule ip_room_cong) simp_all
  then have "safe (udp_send_zero_copy X p source dest ip (set_packet p g w))
      (\<lambda>w'. arp_inv X ok H w' \<and> arp_frame X (set_packet p g w) w')"
    using s(1) assms(2,3,4) by (intro udp_send_zero_copy_safe) simp_all
  then show ?thesis by (rule safe_mono) (auto intro: arp_frame_trans [OF s(2)])
qed

lemma ip_room_more:
  "gmac_state.more w' = gmac_state.more w \<Longrightarrow> arp_frame X w w' \<Longrightarrow> ip_room X ip w' = ip_room X ip w"
  by (rule ip_room_cong) (auto simp: arp_frame_def same_config_def dest: arp_fields_of_more)

lemma udp_send_eq:
  assumes "arp_inv X ok H w" and "0 \<le> n" and "n \<le> int (length payload)"
  shows "udp_send X payload n source dest ip w =
    bindR (allocate_network_packet X w) (\<lambda>(p, w).
      udp_send_zero_copy X p source dest ip (set_packet p (put_message (take (min (nat n) 880) payload)) w))"
  unfolding udp_send_def
proof (rule bindR_cong [OF refl], goal_cases)
  case (1 r)
  obtain p w1 where r: "r = (p, w1)" by (cases r)
  from safeD [OF arp_allocate [OF assms(1)] 1] have a: "length (data (packets w1 p)) = 1024" "index (packets w1 p) = 144"
    by (simp_all add: r)
  let ?n = "if n < 880 then n else 880"
  let ?bs = "take (min (nat n) 880) payload"
  have n: "0 \<le> ?n" "?n \<le> int (length payload)" "nat ?n = min (nat n) 880" "int (length ?bs) = ?n" "?n \<le> 880"
    using assms(2,3) by auto
  have "copy_up 0 payload 0 (data (packets w1 p)) 144 ?n = Inr (upd 144 ?bs (data (packets w1 p)))"
    using memory_copy_ok [of ?n 0 payload 144 "data (packets w1 p)"] n a by (simp add: memory_copy_def chunk_def)
  moreover have "set_packet p (\<lambda>k. k\<lparr>data := upd 144 ?bs (data (packets w1 p)), plength := ?n\<rparr>) w1 =
      set_packet p (put_message ?bs) w1"
    by (rule set_packet_cong, rule packet.equality)
      (use assms(2,3) in \<open>auto simp: put_message_def a min_def\<close>)
  ultimately show ?case
    by (cases "n < 880") (simp_all add: r Let_def a with_data_def set_packet_set_packet)
qed

lemma udp_send_safe:
  assumes "arp_inv X ok H w" and "0 \<le> n" and "n \<le> int (length payload)" and "ip_room X ip w"
  shows "safe (udp_send X payload n source dest ip w) (\<lambda>w'. arp_inv X ok H w' \<and> arp_frame X w w')"
  unfolding udp_send_eq [OF assms(1-3)] safe_bindR
proof (rule safe_mono [OF arp_allocate [OF assms(1)]], goal_cases)
  case (1 r)
  obtain p w1 where r: "r = (p, w1)" by (cases r)
  let ?bs = "take (min (nat n) 880) payload"
  from 1 have a: "arp_inv X ok (add_mset p H) w1" "arp_frame X w w1" "gmac_state.more w1 = gmac_state.more w"
    "length (data (packets w1 p)) = 1024" "index (packets w1 p) = 144"
    by (simp_all add: r)
  have "packet_ok (put_message ?bs (packets w1 p))" "index (put_message ?bs (packets w1 p)) = 144"
    using put_message_frame [of "packets w1 p" ?bs] a by simp_all
  then have "safe (udp_send_zero_copy X p source dest ip (set_packet p (put_message ?bs) w1))
      (\<lambda>w'. arp_inv X ok H w' \<and> arp_frame X w1 w')"
    using a assms(4) ip_room_more [OF a(3,2)] by (intro send_filled_safe) simp_all
  then show ?case unfolding r prod.case by (rule safe_mono) (auto intro: arp_frame_trans [OF a(2)])
qed

lemma udp_receive_returns:
  assumes "udp_inv X ok H w" and "0 \<le> n" and "n \<le> int (length buffer)"
  shows "returns (udp_receive X buffer n prt w) (\<lambda>(m, buffer', w'). udp_inv X ok H w' \<and> udp_frame w w' \<and> packets w' = packets w \<and>
    (case find_connection X prt w of
       None \<Rightarrow> m = 0 \<and> buffer' = buffer \<and> w' = w
     | Some c \<Rightarrow> (case datagrams X w c of
          [] \<Rightarrow> m = 0 \<and> buffer' = buffer \<and> w' = w
        | p # q \<Rightarrow> datagrams X w' c = q \<and> m = min n (plength (packets w p)) \<and>
            buffer' = upd 0 (take (nat n) (frame_of (packets w p))) buffer)))"
  unfolding udp_receive_def returns_bindR
proof (rule returns_mono [OF udp_receive_zero_copy_returns [OF assms(1), of prt]], goal_cases)
  case (1 x)
  obtain r w1 where x: "x = (r, w1)" by (cases x)
  show ?case
  proof (cases r)
    case None
    then have w1: "w1 = w" using 1 by (simp add: x)
    have "datagrams X w c = []" if c: "find_connection X prt w = Some c" for c
    proof -
      have "udp_receive_zero_copy X prt w = Inr (None, w)" using 1(1) by (simp add: x None w1)
      then have "queue_count (connections w c) = 0"
        using c by (auto simp: udp_receive_zero_copy_def split: if_splits option.splits prod.splits)
      moreover have "connection_ok X w c"
        using assms(1) find_connection_Some [OF c] by (simp add: udp_inv_def connections_inv_def)
      ultimately show ?thesis by (simp add: connection_ok_def)
    qed
    then show ?thesis using assms(1) None w1 by (auto simp: x split: option.split)
  next
    case (Some p)
    with 1 obtain c where i: "udp_inv X ok (add_mset p H) w1" and dv: "deliverable (packets w1 p)"
      and pk: "packets w1 = packets w" and f: "udp_frame w w1" and c: "find_connection X prt w = Some c"
      and q: "datagrams X w c = p # datagrams X w1 c"
      by (auto simp: x)
    let ?k = "packets w p"
    let ?m = "if n < plength ?k then n else plength ?k"
    have ok: "packet_ok ?k" using dv pk by (simp add: deliverable_def)
    have m: "0 \<le> ?m" "?m \<le> int (length buffer)" "index ?k + ?m \<le> int (length (data ?k))" "0 \<le> index ?k"
      using assms(2,3) ok by (auto simp: packet_ok_def)
    have "copy_up 0 (data ?k) (index ?k) buffer 0 ?m = Inr (upd 0 (chunk (nat (index ?k)) (nat ?m) (data ?k)) buffer)"
      using memory_copy_ok [of ?m "index ?k" "data ?k" 0 buffer] m by (simp add: memory_copy_def)
    moreover have "chunk (nat (index ?k)) (nat ?m) (data ?k) = take (nat n) (frame_of ?k)"
      using assms(2) ok
      by (cases "n < plength ?k")
        (auto simp: frame_of_def chunk_def min_def packet_ok_def not_less intro!: arg_cong2 [where f = take])
    moreover have "datagrams X (free_network_packet X p w1) c = datagrams X w1 c"
    proof -
      have g: "gmac_inv X ok (add_mset p H) w1" using i by (simp add: udp_inv_def arp_inv_def)
      have "c < UDP_CONNECTION_COUNT"
        using find_connection_Some [OF c] assms(1) connections_inv_member(1) by (auto simp: udp_inv_def)
      then show ?thesis using gmac_inv_free(2) [OF g in_packet_heads(3)] by (simp add: datagrams_def)
    qed
    ultimately show ?thesis
      using udp_inv_free [OF i] f q c by (auto simp: x Some pk Let_def min_def intro: udp_frame_trans)
  qed
qed

lemma udp_listen_cases:
  assumes "udp_inv X ok H w"
  shows "free_connections X w = [] \<Longrightarrow> udp_listen X prt m w = Inl Fault"
    and "free_connections X w \<noteq> [] \<Longrightarrow> returns (udp_listen X prt m w) (\<lambda>w'. udp_inv X ok H w' \<and> udp_frame w w' \<and>
      packets w' = packets w \<and> packet_lists w' = packet_lists w \<and>
      free_connections X w' = tl (free_connections X w) \<and>
      used_connections X w' = hd (free_connections X w) # used_connections X w \<and> find_connection X prt w' = Some (hd (free_connections X w)) \<and>
      connections w' (hd (free_connections X w)) = \<lparr>port = prt, queue_count = 0, max_packet_count = m\<rparr>)"
proof -
  have a: "arp_inv X ok H w" and i: "connections_inv X ok w" using assms by (simp_all add: udp_inv_def)
  have ok: "ok connection_heads (connection_lists w)" using i by (simp add: connections_inv_def)
  show "udp_listen X prt m w = Inl Fault" if "free_connections X w = []"
  proof -
    have "list_remove_first X Free_connections (connection_lists w) = (None, connection_lists w)"
      using that by (intro remove_first_empty [OF ok]) (simp_all add: free_connections_def)
    then show ?thesis by (simp add: udp_listen_def)
  qed
  show "returns (udp_listen X prt m w) (\<lambda>w'. udp_inv X ok H w' \<and> udp_frame w w' \<and>
      packets w' = packets w \<and> packet_lists w' = packet_lists w \<and>
      free_connections X w' = tl (free_connections X w) \<and>
      used_connections X w' = hd (free_connections X w) # used_connections X w \<and> find_connection X prt w' = Some (hd (free_connections X w)) \<and>
      connections w' (hd (free_connections X w)) = \<lparr>port = prt, queue_count = 0, max_packet_count = m\<rparr>)"
    if ne: "free_connections X w \<noteq> []"
  proof -
    have "list_elements X Free_connections (connection_lists w) \<noteq> []" using ne by (simp add: free_connections_def)
    then obtain c h where rm: "list_remove_first X Free_connections (connection_lists w) = (Some c, h)"
      and els: "list_elements X Free_connections (connection_lists w) = c # list_elements X Free_connections h"
      and ok': "ok connection_heads h"
      and other: "\<And>k. k \<in> connection_heads \<Longrightarrow> k \<noteq> Free_connections \<Longrightarrow> list_elements X k h = list_elements X k (connection_lists w)"
      using remove_first_nonempty [OF ok, of Free_connections] by blast
    have fl: "free_connections X w = c # list_elements X Free_connections h" using els by (simp add: free_connections_def)
    have ul: "list_elements X Used_connections h = used_connections X w" using other by (simp add: used_connections_def)
    have c: "c \<notin> set (used_connections X w)" "c \<notin> set (list_elements X Free_connections h)"
      using connections_inv_member(2) [OF i, of c] connections_inv_member(3) [OF i] fl by auto
    have fresh: "\<forall>k\<in>connection_heads. c \<notin> set (list_elements X k h)" using c ul by simp
    let ?w1 = "set_connection c (\<lambda>k. k\<lparr>max_packet_count := m, port := prt, queue_count := 0\<rparr>) (w\<lparr>connection_lists := h\<rparr>)"
    let ?w = "?w1\<lparr>connection_lists := list_add_first X c Used_connections h\<rparr>"
    note ad = add_first_elements [OF ok' _ fresh, of Used_connections] add_first_ok [OF ok' _ fresh, of Used_connections]
    have fl': "free_connections X ?w = tl (free_connections X w)" and ul': "used_connections X ?w = c # used_connections X w"
      using ad by (simp_all add: free_connections_def [of X ?w] used_connections_def [of X ?w] fl ul)
    have dg: "datagrams X ?w j = datagrams X w j" for j by (simp add: datagrams_def set_connection_def)
    have qc: "datagrams X w c = []" using i fl by (simp add: connections_inv_def)
    have cn: "connections ?w = (connections w)(c := \<lparr>port = prt, queue_count = 0, max_packet_count = m\<rparr>)"
      by (cases "connections w c") (simp add: set_connection_def)
    have same: "packets ?w = packets w" "packet_lists ?w = packet_lists w" "connection_lists ?w = list_add_first X c Used_connections h"
      by (simp_all add: set_connection_def)
    have "connections_inv X ok ?w"
      unfolding connections_inv_def fl' ul' dg same connection_ok_def cn
    proof (intro conjI)
      show "mset (tl (free_connections X w)) + mset (c # used_connections X w) = mset_set {..<UDP_CONNECTION_COUNT}"
        using connections_inv_lists [OF i] fl by simp
    qed (use i ad c qc fl in \<open>auto simp: connections_inv_def connection_ok_def\<close>)
    moreover have "arp_inv X ok H ?w"
    proof -
      have "untouched X {} w ?w" by (simp add: untouched_def same)
      moreover have "arp_entries ?w = arp_entries w" "entry_lists ?w = entry_lists w" by (simp_all add: set_connection_def)
      ultimately have "entries_inv X ok ?w" using a by (auto simp: arp_inv_def intro: entries_inv_cong)
      moreover have "gmac_inv X ok H ?w" using a by (simp add: arp_inv_def)
      ultimately have "gmac_inv X ok H ?w \<and> entries_inv X ok ?w" by blast
      then show ?thesis by (simp add: arp_inv_def)
    qed
    moreover have "find_connection X prt ?w = Some c"
      using ad by (simp add: find_connection_def set_connection_def)
    moreover have "udp_frame w ?w" by (simp add: udp_frame_def set_connection_def same_config_def)
    ultimately show ?thesis
      using fl' ul' same cn fl by (simp add: udp_listen_def rm udp_inv_def Let_def)
  qed
qed

end

end
