(* ===== verification/Receive.thy ===== *)
theory Receive
  imports Udp
begin

text \<open>
  The receive path above the driver: \<open>icmp.c\<close> (ping), \<open>handle_ip\<close> of \<open>ip.c\<close> and \<open>handle_mac\<close> of
  \<open>mac.c\<close>, which hand a received packet down to the protocols until one of them keeps or frees it.
\<close>

abbreviation ICMP_TYPE_PING_REPLY :: u8 where "ICMP_TYPE_PING_REPLY \<equiv> 0"
abbreviation ICMP_TYPE_PING_REQUEST :: u8 where "ICMP_TYPE_PING_REQUEST \<equiv> 8"

text \<open>\<open>IcmpHeader\<close>: type at 0, code at 1, checksum at 2, id at 4, sequence number at 6.\<close>

abbreviation ICMP_HEADER_SIZE :: int where "ICMP_HEADER_SIZE \<equiv> 8"

definition compute_icmp_checksum :: "u8 list \<Rightarrow> int \<Rightarrow> int \<Rightarrow> u16 result" where
  "compute_icmp_checksum d off n =
     bindR (sum_words d off n 0) (\<lambda>(acc, off, n).
     bindR (sum_last_byte d off n acc) (\<lambda>acc.
     Inr (ucast (NOT (fold_carry acc)))))"

definition write_ping_reply :: "int \<Rightarrow> int \<Rightarrow> u8 list \<Rightarrow> (u8 list) result" where
  "write_ping_reply n off d =
     bindR (put_byte ICMP_TYPE_PING_REPLY d off) (\<lambda>d.
     bindR (put_byte 0 d (off + 1)) (\<lambda>d.
     bindR (write_be16 0 d (off + 2)) (\<lambda>d.
     bindR (compute_icmp_checksum d off n) (\<lambda>checksum.
     write_be16 checksum d (off + 2)))))"

definition handle_icmp ::
  "('e, 'h) libs \<Rightarrow> nat \<Rightarrow> ('e, 'h, 'z) arp_state_scheme \<Rightarrow> (('e, 'h, 'z) arp_state_scheme) result" where
  "handle_icmp X p w =
     (if size_t (plength (packets w p)) < size_t ICMP_HEADER_SIZE then Inr (free_network_packet X p w)
      else
        bindR (get_byte (data (packets w p)) (index (packets w p))) (\<lambda>type.
        if type = ICMP_TYPE_PING_REQUEST then
          bindR (with_data p (write_ping_reply (plength (packets w p)) (index (packets w p))) w) (\<lambda>w.
          ip_send X p (senders_ip (packets w p)) IP_PROTOCOL_ICMP w)
        else Inr (free_network_packet X p w)))"

definition handle_ip ::
  "('e, 'h) libs \<Rightarrow> nat \<Rightarrow> ('e, 'h, 'z) udp_state_scheme \<Rightarrow> (('e, 'h, 'z) udp_state_scheme) result" where
  "handle_ip X p w =
     (if size_t (plength (packets w p)) \<le> size_t IP_HEADER_SIZE then Inr (free_network_packet X p w)
      else
        let header = index (packets w p); d = data (packets w p) in
        bindR (read_be32 d (header + 12)) (\<lambda>sender.
        bindR (read_be32 d (header + 16)) (\<lambda>target.
        let w = set_packet p (\<lambda>k. k\<lparr>senders_ip := sender, target_ip := target\<rparr>) w in
        bindR (read_be16 d (header + 2)) (\<lambda>ip_length.
        let w = set_packet p (\<lambda>k. k\<lparr>plength := (if plength k < uint ip_length then plength k else uint ip_length)\<rparr>) w in
        bindR (verify_ip_header d header (plength (packets w p))) (\<lambda>valid.
        if \<not> valid then Inr (free_network_packet X p w)
        else
          bindR (get_byte d header) (\<lambda>b.
          let header_length = 4 * uint (take_bit 4 b);
              w = set_packet p (\<lambda>k. k\<lparr>index := index k + header_length, plength := plength k - header_length\<rparr>) w in
          if should_filter_away p w then Inr (free_network_packet X p w)
          else
            bindR (get_byte d (header + 9)) (\<lambda>protocol.
            if uint protocol = IP_PROTOCOL_UDP then handle_udp X p w
            else if uint protocol = IP_PROTOCOL_ICMP then handle_icmp X p w
            else Inr (free_network_packet X p w))))))))"

definition handle_mac ::
  "('e, 'h) libs \<Rightarrow> nat \<Rightarrow> ('e, 'h, 'z) udp_state_scheme \<Rightarrow> (('e, 'h, 'z) udp_state_scheme) result" where
  "handle_mac X p w =
     (if size_t (plength (packets w p)) \<le> size_t MAC_HEADER_SIZE then Inr (free_network_packet X p w)
      else
        let header = index (packets w p);
            w = set_packet p (\<lambda>k. k\<lparr>plength := plength k - MAC_HEADER_SIZE, index := index k + MAC_HEADER_SIZE\<rparr>) w in
        bindR (read_be16 (data (packets w p)) (header + 12)) (\<lambda>ether_type.
        if ether_type = ETHER_TYPE_ARP then handle_arp X p w
        else if ether_type = ETHER_TYPE_IPV4 then handle_ip X p w
        else Inr (free_network_packet X p w)))"

section \<open>The echo reply\<close>

definition ping_reply_with :: "u16 \<Rightarrow> u8 list \<Rightarrow> u8 list" where
  "ping_reply_with checksum request = [ICMP_TYPE_PING_REPLY, 0] @ be16_bytes checksum @ drop 4 request"

definition ping_reply :: "u8 list \<Rightarrow> u8 list" where
  "ping_reply request = ping_reply_with (internet_checksum (word_sum (ping_reply_with 0 request))) request"

lemma length_ping_reply [simp]:
  "4 \<le> length request \<Longrightarrow> length (ping_reply_with c request) = length request"
  "4 \<le> length request \<Longrightarrow> length (ping_reply request) = length request"
  by (simp_all add: ping_reply_with_def ping_reply_def)

lemma word_sum_ping_reply:
  "word_sum (ping_reply_with c request) = word_sum (ping_reply_with 0 request) + unat c"
proof -
  have "ping_reply_with c request = [ICMP_TYPE_PING_REPLY, 0] @ (be16_bytes c @ drop 4 request)" for c
    by (simp add: ping_reply_with_def)
  then show ?thesis by (simp add: word_sum_append del: append.simps)
qed

lemma compute_icmp_checksum_ok [mem]:
  assumes "0 \<le> off" and "0 \<le> n" and "off + n \<le> int (length d)"
  shows "compute_icmp_checksum d off n = Inr (internet_checksum (word_sum (chunk (nat off) (nat n) d)))"
proof -
  have "compute_icmp_checksum d off n =
      bindR (bindR (sum_words d off n 0) (\<lambda>(acc, off, n). sum_last_byte d off n acc)) (\<lambda>acc. Inr (ucast (NOT (fold_carry acc))))"
    unfolding compute_icmp_checksum_def bindR_assoc by (intro bindR_cong) auto
  then show ?thesis using sum_all_bytes [OF assms, of 0] by (simp add: internet_checksum_def)
qed

lemma ping_fields:
  assumes "4 \<le> length B"
  shows "upd 2 (be16_bytes 0) (upd 1 [0] (upd 0 [0] B)) = ping_reply_with 0 B"
    and "upd 2 (be16_bytes c) (ping_reply_with 0 B) = ping_reply_with c B"
proof -
  obtain a1 a2 a3 a4 as where B: "B = a1 # a2 # a3 # a4 # as"
    using assms by (auto simp: numeral_eq_Suc Suc_le_length_iff)
  show "upd 2 (be16_bytes 0) (upd 1 [0] (upd 0 [0] B)) = ping_reply_with 0 B"
    unfolding B by (simp add: upd_def ping_reply_with_def)
  show "upd 2 (be16_bytes c) (ping_reply_with 0 B) = ping_reply_with c B"
    by (simp add: fields ping_reply_with_def)
qed

lemma write_ping_reply_ok:
  assumes "0 \<le> off" and "8 \<le> n" and "off + n \<le> int (length d)"
  shows "write_ping_reply n off d = Inr (upd (nat off) (ping_reply (chunk (nat off) (nat n) d)) d)"
proof -
  define B where "B = chunk (nat off) (nat n) d"
  have B: "length B = nat n" and le: "nat off + nat n \<le> length d" using assms by (simp_all add: B_def)
  have d: "d = upd (nat off) B d" using le by (simp add: B_def upd_self)
  have c: "chunk (nat off) (nat n) (upd (nat off) (ping_reply_with 0 B) d) = ping_reply_with 0 B"
    using le assms B by (intro chunk_upd_same) auto
  have "write_ping_reply n off (upd (nat off) B d) = Inr (upd (nat off) (ping_reply B) d)"
    using assms B le by (simp add: write_ping_reply_def mem window ping_fields [simplified] ping_fields c ping_reply_def)
  then show ?thesis using d unfolding B_def by simp
qed

section \<open>Received packets cannot make the stack fault\<close>

text \<open>
  The one condition on the content of a frame: if it carries ICMP, its IP header has at least the
  five words of a header, and the cache has an entry, or room for one, for the address it names as
  its sender (the reply goes there).  \<open>off\<close> is the offset of the IP header.
\<close>

definition answerable :: "('e, 'h) libs \<Rightarrow> int \<Rightarrow> nat \<Rightarrow> ('e, 'h, 'z) arp_state_scheme \<Rightarrow> bool" where
  "answerable X off p w \<longleftrightarrow>
     (let d = data (packets w p) in
      get_byte d (off + 9) = Inr (word_of_int IP_PROTOCOL_ICMP) \<longrightarrow>
        (case get_byte d off of Inr b \<Rightarrow> 5 \<le> take_bit 4 b | Inl _ \<Rightarrow> True) \<and>
        (case read_be32 d (off + 12) of Inr ip \<Rightarrow> ip_room X ip w | Inl _ \<Rightarrow> True))"

lemma ip_room_set_packet [simp]: "ip_room X ip (set_packet p f w) = ip_room X ip w"
  by (rule ip_room_cong) simp_all

lemma answerable_set_packet:
  "data (f (packets w p)) = data (packets w p) \<Longrightarrow> answerable X off p (set_packet p f w) = answerable X off p w"
  by (simp add: answerable_def cong: sum.case_cong)

definition ping_answered :: "packet \<Rightarrow> packet" where
  "ping_answered k = k\<lparr>data := upd (nat (index k)) (ping_reply (frame_of k)) (data k)\<rparr>"

lemma ping_answered_frame:
  assumes "packet_ok k" and "8 \<le> plength k"
  shows "frame_of (ping_answered k) = ping_reply (frame_of k)" and "packet_ok (ping_answered k)"
    and "index (ping_answered k) = index k" and "length (data (ping_answered k)) = length (data k)"
proof -
  have k: "0 \<le> index k" "nat (index k) + nat (plength k) \<le> length (data k)" using assms by (auto simp: packet_ok_def)
  have l: "length (ping_reply (frame_of k)) = nat (plength k)" using assms length_frame_of [OF assms(1)] by simp
  show "length (data (ping_answered k)) = length (data k)" "index (ping_answered k) = index k"
    using k l by (simp_all add: ping_answered_def)
  then show "packet_ok (ping_answered k)" using assms(1) by (simp add: packet_ok_def) (simp add: ping_answered_def)
  have "frame_of (ping_answered k) = chunk (nat (index k)) (nat (plength k)) (upd (nat (index k)) (ping_reply (frame_of k)) (data k))"
    by (simp add: frame_of_def [of "k\<lparr>data := _\<rparr>"] ping_answered_def)
  then show "frame_of (ping_answered k) = ping_reply (frame_of k)"
    using k l by (simp only: chunk_upd_same)
qed

lemma handle_icmp_cases:
  assumes "packet_ok (packets w p)"
  defines "k \<equiv> packets w p"
  shows "handle_icmp X p w =
    (if plength k < 8 \<or> data k ! nat (index k) \<noteq> ICMP_TYPE_PING_REQUEST then Inr (free_network_packet X p w)
     else ip_send X p (senders_ip k) IP_PROTOCOL_ICMP (set_packet p ping_answered w))"
proof (cases "plength k < 8")
  case True
  then show ?thesis
    using assms(1) by (auto simp: handle_icmp_def k_def packet_ok_def size_t_less uint_size_t)
next
  case False
  have "0 \<le> plength k" "plength k \<le> 1024" using assms(1) by (auto simp: packet_ok_def k_def)
  then have n: "8 \<le> plength k" "\<not> size_t (plength k) < size_t ICMP_HEADER_SIZE"
    using False by (simp_all add: size_t_less uint_size_t)
  have r: "0 \<le> index k" "index k + plength k \<le> int (length (data k))" using assms(1) by (auto simp: packet_ok_def k_def)
  then have t: "get_byte (data k) (index k) = Inr (data k ! nat (index k))" using n by (simp add: mem)
  have "with_data p (write_ping_reply (plength k) (index k)) w =
      Inr (set_packet p (\<lambda>j. j\<lparr>data := upd (nat (index k)) (ping_reply (frame_of k)) (data k)\<rparr>) w)"
    by (rule with_data_Inr) (simp add: write_ping_reply_ok [OF r(1) n(1) r(2)] frame_of_def flip: k_def)
  also have "\<dots> = Inr (set_packet p ping_answered w)"
    by (simp add: ping_answered_def k_def set_packet_def)
  finally show ?thesis
    using False n(2) t by (auto simp: handle_icmp_def ping_answered_def simp flip: k_def)
qed

context intrusive_list
begin

lemma handle_icmp_arp_safe:
  assumes "arp_inv X ok (add_mset p H) w" and "packet_ok (packets w p)" and "34 \<le> index (packets w p)"
    and "ip_room X (senders_ip (packets w p)) w"
  shows "safe (handle_icmp X p w) (\<lambda>w'. arp_inv X ok H w' \<and> arp_frame X w w')"
proof (cases "plength (packets w p) < 8 \<or> data (packets w p) ! nat (index (packets w p)) \<noteq> ICMP_TYPE_PING_REQUEST")
  case True
  then show ?thesis using gmac_free_arp [OF assms(1)] by (simp add: handle_icmp_cases [OF assms(2)])
next
  case False
  then have n: "8 \<le> plength (packets w p)" by simp
  note a = ping_answered_frame [OF assms(2) n]
  note i = arp_inv_set_packet [where f = ping_answered, OF assms(1) a(4)]
  have "safe (ip_send X p (senders_ip (packets w p)) IP_PROTOCOL_ICMP (set_packet p ping_answered w))
      (\<lambda>w'. arp_inv X ok H w' \<and> arp_frame X (set_packet p ping_answered w) w')"
    using a assms(3,4) i(1) by (intro ip_send_safe) simp_all
  then show ?thesis
    using False i(2) by (simp add: handle_icmp_cases [OF assms(2)]) (erule safe_mono, auto intro: arp_frame_trans)
qed

lemma handle_icmp_safe:
  assumes "udp_inv X ok (add_mset p H) w" and "packet_ok (packets w p)" and "34 \<le> index (packets w p)"
    and "ip_room X (senders_ip (packets w p)) w"
  shows "safe (handle_icmp X p w) (\<lambda>w'. udp_inv X ok H w' \<and> udp_frame w w')"
  using assms by (intro udp_inv_lift [OF assms(1)] handle_icmp_arp_safe) (simp_all add: udp_inv_def)

end

lemma header_words:
  fixes b :: u8
  shows "uint (take_bit 4 b) < 16" and "uint (4 * ucast (take_bit 4 b) :: u32) = 4 * uint (take_bit 4 b)"
proof -
  have "uint (take_bit 4 b) = uint b mod 2 ^ 4" by (simp only: unsigned_take_bit_eq) (simp add: take_bit_eq_mod)
  then show b: "uint (take_bit 4 b) < 16" by simp
  have "uint (ucast (take_bit 4 b) :: u32) = uint (take_bit 4 b)"
    using b by (simp add: unsigned_ucast_eq take_bit_int_eq_self)
  then show "uint (4 * ucast (take_bit 4 b) :: u32) = 4 * uint (take_bit 4 b)"
    using b by (simp add: uint_word_ariths)
qed

text \<open>A header that passes the check is smaller than the packet.\<close>

lemma verify_ip_header_true:
  assumes "verify_ip_header d off n = Inr True" and "0 \<le> n" and "n < 2 ^ 31"
  obtains b where "get_byte d off = Inr b" and "4 * uint (take_bit 4 b) < n"
proof -
  from assms(1) obtain b where b: "get_byte d off = Inr b" and le: "\<not> size_t n \<le> 4 * ucast (take_bit 4 b)"
    by (auto simp: verify_ip_header_def bindR_eq_Inr_iff split: if_splits)
  have "4 * uint (take_bit 4 b) < n"
    using le assms(2,3) by (simp add: size_t_le header_words)
  with b show thesis by (rule that)
qed

lemma verify_ip_header_returns:
  assumes "0 \<le> off" and "off + 20 \<le> int (length d)"
  shows "\<exists>v. verify_ip_header d off n = Inr v"
proof -
  obtain f where "read_be16 d (off + 6) = Inr f" using be16.rd_in [of "off + 6" d] assms by auto
  moreover have "get_byte d off = Inr (d ! nat off)" using assms by (simp add: mem)
  ultimately show ?thesis by (auto simp: verify_ip_header_def)
qed

text \<open>The packet with the fields \<open>handle_ip\<close> sets before it checks the header, and behind the header.\<close>

definition ip_parsed :: "u32 \<Rightarrow> u32 \<Rightarrow> u16 \<Rightarrow> packet \<Rightarrow> packet" where
  "ip_parsed sender target n k = k\<lparr>senders_ip := sender, target_ip := target,
     plength := (if plength k < uint n then plength k else uint n)\<rparr>"

definition ip_payload :: "u32 \<Rightarrow> u32 \<Rightarrow> u16 \<Rightarrow> u8 \<Rightarrow> packet \<Rightarrow> packet" where
  "ip_payload sender target n b k = (ip_parsed sender target n k)\<lparr>
     index := index k + 4 * uint (take_bit 4 b), plength := plength (ip_parsed sender target n k) - 4 * uint (take_bit 4 b)\<rparr>"

lemma handle_ip_unfold:
  fixes w :: "('e, 'h, 'z) udp_state_scheme" and p :: nat
  defines "k \<equiv> packets w p"
  assumes "20 < plength k" and "plength k \<le> 1024"
    and "read_be32 (data k) (index k + 12) = Inr sender" and "read_be32 (data k) (index k + 16) = Inr target"
    and "read_be16 (data k) (index k + 2) = Inr n"
    and "verify_ip_header (data k) (index k) (plength (ip_parsed sender target n k)) = Inr valid"
    and "get_byte (data k) (index k) = Inr b" and "get_byte (data k) (index k + 9) = Inr protocol"
  shows "handle_ip X p w =
    (let w1 = set_packet p (ip_parsed sender target n) w; w2 = set_packet p (ip_payload sender target n b) w in
     if \<not> valid then Inr (free_network_packet X p w1)
     else if should_filter_away p w2 then Inr (free_network_packet X p w2)
     else if uint protocol = IP_PROTOCOL_UDP then handle_udp X p w2
     else if uint protocol = IP_PROTOCOL_ICMP then handle_icmp X p w2
     else Inr (free_network_packet X p w2))"
proof -
  have w1: "set_packet p (\<lambda>k. k\<lparr>plength := (if plength k < uint n then plength k else uint n)\<rparr>)
      (set_packet p (\<lambda>k. k\<lparr>senders_ip := sender, target_ip := target\<rparr>) w) = set_packet p (ip_parsed sender target n) w"
    unfolding set_packet_set_packet by (rule set_packet_cong) (simp add: ip_parsed_def)
  have w2: "set_packet p (\<lambda>k. k\<lparr>index := index k + 4 * uint (take_bit 4 b), plength := plength k - 4 * uint (take_bit 4 b)\<rparr>)
      (set_packet p (ip_parsed sender target n) w) = set_packet p (ip_payload sender target n b) w"
    unfolding set_packet_set_packet by (rule set_packet_cong) (simp add: ip_payload_def ip_parsed_def)
  let ?k = "k\<lparr>senders_ip := sender, target_ip := target\<rparr>"
  have k1: "?k\<lparr>plength := (if plength ?k < uint n then plength ?k else uint n)\<rparr> = ip_parsed sender target n k"
    by (simp add: ip_parsed_def)
  have l: "\<not> size_t (plength k) \<le> size_t IP_HEADER_SIZE" using assms by (simp add: size_t_le uint_size_t)
  show ?thesis
    unfolding handle_ip_def Let_def
    by (simp only: k_def [symmetric] l if_False if_True assms(4-) bindR_Inr w1 w2 k1 packets_set_packet refl)
qed

lemma set_packet_same [simp]: "set_packet p (\<lambda>k. k) w = w"
  by (simp add: set_packet_def)

text \<open>
  The ways a packet leaves \<open>handle_ip\<close>: released, or handed to UDP or to ICMP with its header taken
  off.
\<close>

lemma handle_ip_cases:
  fixes w :: "('e, 'h, 'z) udp_state_scheme" and p :: nat
  defines "k \<equiv> packets w p"
  assumes "packet_ok k" and "index k = 14" and "14 + plength k < NETWORK_PACKET_SIZE"
  obtains (freed) f where "handle_ip X p w = Inr (free_network_packet X p (set_packet p f w))" and "data (f k) = data k"
  | (udp) f where "handle_ip X p w = handle_udp X p (set_packet p f w)" and "data (f k) = data k"
      and "packet_ok (f k)" and "index (f k) \<le> 74" and "index (f k) + plength (f k) < NETWORK_PACKET_SIZE"
  | (icmp) f b where "handle_ip X p w = handle_icmp X p (set_packet p f w)" and "data (f k) = data k"
      and "packet_ok (f k)" and "index (f k) = 14 + 4 * uint (take_bit 4 b)" and "get_byte (data k) 14 = Inr b"
      and "get_byte (data k) 23 = Inr (word_of_int IP_PROTOCOL_ICMP)" and "read_be32 (data k) 26 = Inr (senders_ip (f k))"
proof (cases "size_t (plength k) \<le> size_t IP_HEADER_SIZE")
  case True
  then show thesis by (intro freed [of "\<lambda>k. k"]) (simp_all add: handle_ip_def k_def)
next
  case False
  let ?d = "data k"
  have p: "0 \<le> plength k" "plength k \<le> 1024" "length ?d = 1024" using assms(2) by (auto simp: packet_ok_def)
  then have n: "20 < plength k" using False by (simp add: size_t_le uint_size_t)
  obtain sender target m where rd: "read_be32 ?d 26 = Inr sender" "read_be32 ?d 30 = Inr target" "read_be16 ?d 16 = Inr m"
    using be32.rd_in [of 26 ?d] be32.rd_in [of 30 ?d] be16.rd_in [of 16 ?d] p by auto
  obtain b protocol where gb: "get_byte ?d 14 = Inr b" "get_byte ?d 23 = Inr protocol" using p by (simp add: mem)
  let ?f1 = "ip_parsed sender target m" and ?f2 = "ip_payload sender target m b"
  obtain valid where v: "verify_ip_header ?d 14 (plength (?f1 k)) = Inr valid"
    using verify_ip_header_returns [of 14 ?d] p by auto
  have l1: "0 \<le> plength (?f1 k)" "plength (?f1 k) \<le> plength k" using n by (auto simp: ip_parsed_def)
  note unf = handle_ip_unfold [of w p sender target m valid b protocol X, folded k_def, unfolded assms(3), simplified, OF n p(2) rd v gb]
  have d: "data (?f1 k) = ?d" "data (?f2 k) = ?d" "senders_ip (?f2 k) = sender" "index (?f2 k) = 14 + 4 * uint (take_bit 4 b)"
    using assms(3) by (simp_all add: ip_parsed_def ip_payload_def)
  consider "\<not> valid \<or> should_filter_away p (set_packet p ?f2 w) \<or> uint protocol \<notin> {17, 1}"
    | "valid" "\<not> should_filter_away p (set_packet p ?f2 w)" "uint protocol \<in> {17, 1}" by blast
  then show thesis
  proof cases
    case 1
    then show thesis using unf d freed [of ?f1] freed [of ?f2] by (auto simp: Let_def split: if_splits)
  next
    case 2
    with v l1 p obtain b' where "get_byte ?d 14 = Inr b'" "4 * uint (take_bit 4 b') < plength (?f1 k)"
      by (auto elim: verify_ip_header_true)
    then have hl: "4 * uint (take_bit 4 b) < plength (?f1 k)" using gb by simp
    have k2: "packet_ok (?f2 k)" "index (?f2 k) \<le> 74" "index (?f2 k) + plength (?f2 k) < 1024"
      using assms(2-4) hl l1 header_words(1) [of b] uint_ge_0 [of "take_bit 4 b"]
      by (auto simp: ip_payload_def packet_ok_def ip_parsed_def)
    show thesis
    proof (cases "uint protocol = 17")
      case True
      then show thesis using 2 unf d k2 by (intro udp [of ?f2]) simp_all
    next
      case False
      then have "protocol = word_of_int 1" using 2 by (metis insertE singletonD word_of_int_uint)
      then show thesis using 2 False unf d k2 rd gb by (intro icmp [of ?f2 b]) simp_all
    qed
  qed
qed

text \<open>The same for \<open>handle_mac\<close>.\<close>

definition mac_payload :: "packet \<Rightarrow> packet" where
  "mac_payload k = k\<lparr>plength := plength k - MAC_HEADER_SIZE, index := index k + MAC_HEADER_SIZE\<rparr>"

lemma handle_mac_cases:
  fixes w :: "('e, 'h, 'z) udp_state_scheme" and p :: nat
  defines "k \<equiv> packets w p" and "w1 \<equiv> set_packet p mac_payload w"
  assumes "packet_ok k" and "index k = 0" and "plength k < NETWORK_PACKET_SIZE"
  obtains (freed) f where "handle_mac X p w = Inr (free_network_packet X p (set_packet p f w))" and "data (f k) = data k"
  | (arp) "handle_mac X p w = handle_arp X p w1" and "packet_ok (mac_payload k)" and "index (mac_payload k) = 14"
  | (ip) "handle_mac X p w = handle_ip X p w1" and "packet_ok (mac_payload k)" and "index (mac_payload k) = 14"
      and "14 + plength (mac_payload k) < NETWORK_PACKET_SIZE" and "read_be16 (data k) 12 = Inr ETHER_TYPE_IPV4"
proof (cases "size_t (plength k) \<le> size_t MAC_HEADER_SIZE")
  case True
  then show thesis by (intro freed [of "\<lambda>k. k"]) (simp_all add: handle_mac_def k_def)
next
  case False
  have p: "0 \<le> plength k" "plength k \<le> 1024" "length (data k) = 1024" using assms(3) by (auto simp: packet_ok_def)
  then have n: "14 < plength k" using False by (simp add: size_t_le uint_size_t)
  obtain ether where e: "read_be16 (data k) 12 = Inr ether" using be16.rd_in [of 12 "data k"] p by auto
  have k: "packet_ok (mac_payload k)" "index (mac_payload k) = 14" "14 + plength (mac_payload k) < 1024" "data (mac_payload k) = data k"
    using assms(3-5) n by (auto simp: mac_payload_def packet_ok_def)
  have "handle_mac X p w = (if ether = ETHER_TYPE_ARP then handle_arp X p w1
      else if ether = ETHER_TYPE_IPV4 then handle_ip X p w1 else Inr (free_network_packet X p w1))"
    using False e assms(4) k(4) by (simp add: handle_mac_def Let_def k_def w1_def mac_payload_def [abs_def])
  then show thesis using k e arp ip freed [of mac_payload] by (auto simp: w1_def split: if_splits)
qed

text \<open>What \<open>answerable\<close> gives where \<open>handle_ip\<close> calls \<open>handle_icmp\<close>.\<close>

lemma answerable_reply:
  assumes "answerable X 14 p w" and "get_byte (data (packets w p)) 23 = Inr (word_of_int IP_PROTOCOL_ICMP)"
    and "get_byte (data (packets w p)) 14 = Inr b" and "read_be32 (data (packets w p)) 26 = Inr ip"
  shows "34 \<le> 14 + 4 * uint (take_bit 4 b)" and "ip_room X ip w"
  using assms by (auto simp: answerable_def word_le_def)

context intrusive_list
begin

lemma udp_inv_free_set:
  assumes "udp_inv X ok (add_mset p H) w" and "data (f (packets w p)) = data (packets w p)"
  shows "udp_inv X ok H (free_network_packet X p (set_packet p f w))" and "udp_frame w (free_network_packet X p (set_packet p f w))"
proof -
  have "length (data (f (packets w p))) = length (data (packets w p))" using assms(2) by simp
  note i = udp_inv_set_packet [of p H w f, OF assms(1) this]
  show "udp_inv X ok H (free_network_packet X p (set_packet p f w))" by (rule udp_inv_free(1) [OF i(1)])
  show "udp_frame w (free_network_packet X p (set_packet p f w))" by (rule udp_frame_trans [OF i(2) udp_inv_free(2) [OF i(1)]])
qed

lemma handle_ip_safe:
  assumes "udp_inv X ok (add_mset p H) w" and "packet_ok (packets w p)" and "index (packets w p) = 14"
    and "14 + plength (packets w p) < NETWORK_PACKET_SIZE" and "answerable X 14 p w"
  shows "safe (handle_ip X p w) (\<lambda>w'. udp_inv X ok H w' \<and> udp_frame w w')"
proof (cases rule: handle_ip_cases [OF assms(2-4), of X, case_names freed udp icmp])
  case (freed f)
  then show ?thesis using udp_inv_free_set [OF assms(1), of f] by simp
next
  case (udp f)
  note i = udp_inv_set_packet [of p H w f, OF assms(1)]
  have "safe (handle_udp X p (set_packet p f w)) (\<lambda>w'. udp_inv X ok H w' \<and> udp_frame (set_packet p f w) w')"
    by (rule returns_safe [OF handle_udp_returns [OF i(1)]]) (use udp in simp_all)
  then show ?thesis unfolding udp(1) by (rule safe_mono) (use i(2) udp(2) in \<open>auto intro: udp_frame_trans\<close>)
next
  case (icmp f b)
  note i = udp_inv_set_packet [of p H w f, OF assms(1)]
  note a = answerable_reply [OF assms(5) icmp(6,5,7)]
  have "safe (handle_icmp X p (set_packet p f w)) (\<lambda>w'. udp_inv X ok H w' \<and> udp_frame (set_packet p f w) w')"
    by (rule handle_icmp_safe [OF i(1)]) (use icmp a in simp_all)
  then show ?thesis unfolding icmp(1) by (rule safe_mono) (use i(2) icmp(2) in \<open>auto intro: udp_frame_trans\<close>)
qed

lemma handle_mac_safe:
  assumes "udp_inv X ok (add_mset p H) w" and "packet_ok (packets w p)" and "index (packets w p) = 0"
    and "plength (packets w p) < NETWORK_PACKET_SIZE" and "read_be16 (data (packets w p)) 12 = Inr ETHER_TYPE_IPV4 \<longrightarrow> answerable X 14 p w"
  shows "safe (handle_mac X p w) (\<lambda>w'. udp_inv X ok H w' \<and> udp_frame w w')"
proof -
  let ?w = "set_packet p mac_payload w"
  have d: "data (mac_payload (packets w p)) = data (packets w p)" by (simp add: mac_payload_def)
  note i = udp_inv_set_packet [of p H w mac_payload, OF assms(1), simplified d, OF refl]
  show ?thesis
  proof (cases rule: handle_mac_cases [OF assms(2-4), of X, case_names freed arp ip])
    case (freed f)
    then show ?thesis using udp_inv_free_set [OF assms(1), of f] by simp
  next
    case arp
    have "safe (handle_arp X p ?w) (\<lambda>w'. udp_inv X ok H w' \<and> udp_frame ?w w')"
      using i arp by (intro udp_inv_lift [OF i(1)] handle_arp_safe) (simp_all add: udp_inv_def)
    then show ?thesis unfolding arp(1) by (rule safe_mono) (use i(2) in \<open>auto intro: udp_frame_trans\<close>)
  next
    case ip
    have "safe (handle_ip X p ?w) (\<lambda>w'. udp_inv X ok H w' \<and> udp_frame ?w w')"
      by (rule handle_ip_safe [OF i(1)]) (use ip assms(5) d in \<open>simp_all add: answerable_set_packet\<close>)
    then show ?thesis unfolding ip(1) by (rule safe_mono) (use i(2) in \<open>auto intro: udp_frame_trans\<close>)
  qed
qed

end

end
