(* ===== verification/Backoff.thy ===== *)
theory Backoff
  imports Libraries
begin

text \<open>
  \<open>backoff.c\<close>: the retransmission timer with exponential back-off and jitter.  The fields of type
  \<open>Time\<close> are kept as \<open>u32\<close>; \<open>backoff_count\<close> and \<open>jitter_fraction\<close> are \<open>int\<close>.
\<close>

record backoff =
  start_timeout :: u32
  max_timeout :: u32
  timeout :: u32
  timeout_with_jitter :: u32
  backoff_time :: u32
  backoff_count :: int
  jitter_fraction :: int

definition backoff_reset :: "backoff \<Rightarrow> backoff" where
  "backoff_reset b = b\<lparr>backoff_count := 0, timeout := start_timeout b\<rparr>"

definition backoff_init :: "backoff \<Rightarrow> u32 \<Rightarrow> u32 \<Rightarrow> int \<Rightarrow> backoff" where
  "backoff_init b start mx fraction =
     backoff_reset (b\<lparr>max_timeout := mx, start_timeout := start, jitter_fraction := fraction\<rparr>)"

definition backoff_timeout ::
  "('e, 'h) libs \<Rightarrow> backoff \<Rightarrow> ('e, 'z) machine_scheme \<Rightarrow> bool \<times> ('e, 'z) machine_scheme" where
  "backoff_timeout X b w =
     (if backoff_count b = 0 then (True, w)
      else case now X w of (t, w) \<Rightarrow> (time_less X (timeout_with_jitter b) (get_elapsed X (backoff_time b) t), w))"

text \<open>
  \<open>(s32)random() % (timeout / jitter_fraction)\<close>: the fraction is an \<open>int\<close> and the divisor a \<open>Time\<close>, so
  that both operands of each operation are converted to \<open>u32\<close> if \<open>Time\<close> has no sign and to \<open>int\<close> if it
  has one.  A zero divisor, in either division, is undefined.
\<close>

definition next_backoff ::
  "('e, 'h) libs \<Rightarrow> backoff \<Rightarrow> ('e, 'z) machine_scheme \<Rightarrow> (backoff \<times> ('e, 'z) machine_scheme) result" where
  "next_backoff X b w =
     (case now X w of (t, w) \<Rightarrow>
      let b = b\<lparr>backoff_time := t, backoff_count := backoff_count b + 1\<rparr> in
      if backoff_count b \<noteq> 0 then
        let b = b\<lparr>timeout := (if time_less X (timeout b * 2) (max_timeout b) then timeout b * 2 else max_timeout b)\<rparr> in
        case draw_random X w of (r, w) \<Rightarrow>
          if word_of_int (jitter_fraction b) = (0 :: u32) then Inl Fault
          else let jitter = time_div X (timeout b) (word_of_int (jitter_fraction b)) in
            if jitter = 0 then Inl Fault
            else Inr (b\<lparr>timeout_with_jitter := timeout b + time_mod X r jitter\<rparr>, w)
      else Inr (b, w))"

section \<open>The timeouts stay within their bounds\<close>

text \<open>
  The parameters the two clients pass: a positive fraction not larger than the start timeout, and a
  maximum that can be doubled in a \<open>Time\<close>.
\<close>

definition backoff_ok :: "('e, 'h) libs \<Rightarrow> backoff \<Rightarrow> bool" where
  "backoff_ok X b \<longleftrightarrow> 0 < jitter_fraction b \<and> jitter_fraction b \<le> uint (start_timeout b) \<and>
     start_timeout b \<le> max_timeout b \<and> uint (max_timeout b) < (if time_signed X then 2 ^ 30 else 2 ^ 31) \<and>
     start_timeout b \<le> timeout b \<and> timeout b \<le> max_timeout b \<and> 0 \<le> backoff_count b"

lemma backoff_init_ok:
  assumes "0 < fraction" and "fraction \<le> uint start" and "start \<le> mx" and "uint mx < 2 ^ 30"
  shows "backoff_ok X (backoff_init b start mx fraction)"
  using assms by (simp add: backoff_ok_def backoff_init_def backoff_reset_def)

lemma backoff_reset_ok: "backoff_ok X b \<Longrightarrow> backoff_ok X (backoff_reset b)"
  by (simp add: backoff_ok_def backoff_reset_def)

lemma double_timeout:
  fixes t mx :: u32
  assumes "uint mx < 2 ^ 31" and "t \<le> mx"
  shows "uint (t * 2) = 2 * uint t"
proof -
  have "uint t \<le> uint mx" using assms(2) by (simp add: word_le_def)
  then have "2 * uint t < 2 ^ 32" using assms(1) by simp
  then show ?thesis by (simp add: uint_word_ariths)
qed

text \<open>A remainder by a positive \<open>Time\<close>: with a sign it has the sign of the dividend.\<close>

definition jitter_of :: "('e, 'h) libs \<Rightarrow> u32 \<Rightarrow> int \<Rightarrow> int" where
  "jitter_of X r q = time_value X r smod q"

lemma jitter_of_bounds:
  assumes "0 < q"
  shows "\<bar>jitter_of X r q\<bar> < q" and "\<not> time_signed X \<Longrightarrow> 0 \<le> jitter_of X r q"
    and "time_signed X \<Longrightarrow> if sint r < 0 then jitter_of X r q \<le> 0 else 0 \<le> jitter_of X r q"
proof -
  have m: "0 \<le> \<bar>v\<bar> mod q" "\<bar>v\<bar> mod q < q" for v :: int using assms by simp_all
  show "\<bar>jitter_of X r q\<bar> < q"
    using assms m by (simp add: jitter_of_def signed_modulo_int_def abs_mult sgn_if)
  show "\<not> time_signed X \<Longrightarrow> 0 \<le> jitter_of X r q"
    using assms m by (simp add: jitter_of_def signed_modulo_int_def time_value_def)
  show "time_signed X \<Longrightarrow> if sint r < 0 then jitter_of X r q \<le> 0 else 0 \<le> jitter_of X r q"
    using assms m [of "sint r"] by (auto simp: jitter_of_def signed_modulo_int_def time_value_def sgn_if)
qed

lemma time_div_small:
  assumes "uint t < 2 ^ 31" and "0 < f" and "f \<le> uint t"
  shows "uint (word_of_int f :: u32) = f" and "uint (time_div X t (word_of_int f)) = uint t div f"
proof -
  show u: "uint (word_of_int f :: u32) = f"
    using assms by (simp add: uint_word_of_int_eq take_bit_int_eq_self)
  have v: "time_value X t = uint t" "time_value X (word_of_int f) = f"
    using assms u by (simp_all add: time_value_small)
  have "0 \<le> uint t div f" "uint t div f \<le> uint t"
    using assms by (simp_all add: pos_imp_zdiv_nonneg_iff zdiv_mono2 [of "uint t" 1 f, simplified])
  then have "uint t div f < 2 ^ 32" using assms(1) by simp
  then show "uint (time_div X t (word_of_int f)) = uint t div f"
    using assms \<open>0 \<le> uint t div f\<close>
    by (simp add: time_div_def v signed_divide_int_def uint_word_of_int_eq take_bit_int_eq_self)
qed

lemma add_jitter:
  assumes "0 < uint q" and "uint q \<le> uint t" and "uint t < (if time_signed X then 2 ^ 30 else 2 ^ 31)"
  shows "uint (t + time_mod X r q) = uint t + jitter_of X r (uint q)"
proof -
  have "uint q < 2 ^ 31" using assms(2,3) by (simp split: if_splits)
  then have m: "time_mod X r q = word_of_int (jitter_of X r (uint q))" by (simp add: time_mod_def jitter_of_def time_value_small)
  have "0 \<le> uint t + jitter_of X r (uint q)" "uint t + jitter_of X r (uint q) < 2 ^ 32"
    using jitter_of_bounds(1) [OF assms(1), of X r] assms(2,3) by (auto split: if_splits)
  moreover have "t + word_of_int j = word_of_int (uint t + j)" for j by simp
  ultimately show ?thesis unfolding m by (simp add: uint_word_of_int_eq take_bit_int_eq_self del: word_of_int_uint of_int_add)
qed

text \<open>One retransmission: the new state, and the number the next timeout is made of.\<close>

lemma next_backoff_step:
  assumes "backoff_ok X b"
  shows "\<exists>b' w'. next_backoff X b w = Inr (b', w') \<and> backoff_ok X b' \<and> backoff_count b' = backoff_count b + 1 \<and>
    backoff_time b' = fst (now X w) \<and>
    uint (timeout b') = min (2 * uint (timeout b)) (uint (max_timeout b)) \<and>
    uint (timeout_with_jitter b') = uint (timeout b') +
      jitter_of X (fst (draw_random X (snd (now X w)))) (uint (timeout b') div jitter_fraction b) \<and>
    0 < uint (timeout b') div jitter_fraction b \<and>
    max_timeout b' = max_timeout b \<and> jitter_fraction b' = jitter_fraction b \<and> start_timeout b' = start_timeout b"
proof -
  obtain t w1 where n: "now X w = (t, w1)" by fastforce
  obtain r w2 where d: "draw_random X w1 = (r, w2)" by fastforce
  let ?f = "jitter_fraction b" and ?m = "max_timeout b"
  define t' where "t' = (if time_less X (timeout b * 2) ?m then timeout b * 2 else ?m)"
  have mx: "uint ?m < 2 ^ 31" "uint (timeout b) \<le> uint ?m" "time_signed X \<Longrightarrow> uint ?m < 2 ^ 30"
    using assms by (auto simp: backoff_ok_def word_le_def split: if_splits)
  have dbl: "uint (timeout b * 2) = 2 * uint (timeout b)"
    using assms mx(1) by (intro double_timeout) (auto simp: backoff_ok_def)
  have "time_value X ?m = uint ?m" using mx(1) by (rule time_value_small)
  moreover have "time_value X (timeout b * 2) = 2 * uint (timeout b)"
    using mx dbl time_value_small [of "timeout b * 2" X] by (cases "time_signed X") (simp_all add: time_value_def)
  ultimately have t': "uint t' = min (2 * uint (timeout b)) (uint ?m)"
    by (simp add: t'_def time_less_def dbl min_def)
  have le: "uint (start_timeout b) \<le> uint t'" "uint t' \<le> uint ?m"
    using assms unfolding t' by (auto simp: backoff_ok_def word_le_def)
  have f: "0 < ?f" "?f \<le> uint t'" and t31: "uint t' < 2 ^ 31" using assms le mx(1) by (auto simp: backoff_ok_def)
  let ?q = "time_div X t' (word_of_int ?f)"
  note q = time_div_small(1) [OF t31 f] time_div_small(2) [OF t31 f, of X]
  have qpos: "0 < uint t' div ?f" using f by (simp add: pos_imp_zdiv_pos_iff)
  have qle: "uint t' div ?f \<le> uint t'" using f(1) zdiv_mono2 [of "uint t'" 1 ?f] by simp
  have nz: "(word_of_int ?f :: u32) \<noteq> 0" "?q \<noteq> 0" using q f(1) qpos by (auto simp flip: uint_0_iff)
  have sum: "uint (t' + time_mod X r ?q) = uint t' + jitter_of X r (uint t' div ?f)"
    using add_jitter [of ?q t' X r] q(2) qpos qle le(2) mx by (cases "time_signed X") simp_all
  let ?b = "b\<lparr>backoff_time := t, backoff_count := backoff_count b + 1, timeout := t', timeout_with_jitter := t' + time_mod X r ?q\<rparr>"
  have c: "backoff_count b + 1 \<noteq> 0" using assms by (simp add: backoff_ok_def)
  have "next_backoff X b w = Inr (?b, w2)"
    using c nz n d
    by (cases "time_less X (timeout b * 2) (max_timeout b)") (simp_all add: next_backoff_def Let_def t'_def)
  moreover have "backoff_ok X ?b"
    using assms le by (simp add: backoff_ok_def word_le_def)
  ultimately show ?thesis using t' sum qpos n d by (intro exI [of _ ?b] exI [of _ w2]) simp
qed

end
