(* ===== verification/Dhcp.thy ===== *)
theory Dhcp
  imports Receive Backoff
begin

text \<open>
  \<open>dhcp.c\<close>: the DHCP client, its state machine, the packets it sends and the parser of the options
  it receives.  The static \<open>dhcp\<close> and \<open>options\<close> are two records of the state.
\<close>

section \<open>Data\<close>

abbreviation DHCP_START_TIMEOUT :: u32 where "DHCP_START_TIMEOUT \<equiv> 500"
abbreviation DHCP_MAX_TIMEOUT :: u32 where "DHCP_MAX_TIMEOUT \<equiv> 60000"
abbreviation DHCP_JITTER_FRACTION :: int where "DHCP_JITTER_FRACTION \<equiv> 4"
abbreviation DHCP_SERVER_PORT :: u16 where "DHCP_SERVER_PORT \<equiv> 67"
abbreviation DHCP_CLIENT_PORT :: u16 where "DHCP_CLIENT_PORT \<equiv> 68"

datatype dhcp_status =
  DHCP_DISABLED | DHCP_DISCOVER | DHCP_REQUESTING | DHCP_BOUND | DHCP_RENEWING | DHCP_REBINDING | DHCP_ERROR

datatype dhcp_packet =
  DHCP_PACKET_REQUEST | DHCP_PACKET_DISCOVER | DHCP_PACKET_RENEW | DHCP_PACKET_REBIND | DHCP_PACKET_RELEASE

abbreviation DHCP_MESSAGE_TYPE_DISCOVER :: int where "DHCP_MESSAGE_TYPE_DISCOVER \<equiv> 1"
abbreviation DHCP_MESSAGE_TYPE_OFFER :: int where "DHCP_MESSAGE_TYPE_OFFER \<equiv> 2"
abbreviation DHCP_MESSAGE_TYPE_REQUEST :: int where "DHCP_MESSAGE_TYPE_REQUEST \<equiv> 3"
abbreviation DHCP_MESSAGE_TYPE_ACK :: int where "DHCP_MESSAGE_TYPE_ACK \<equiv> 5"
abbreviation DHCP_MESSAGE_TYPE_NACK :: int where "DHCP_MESSAGE_TYPE_NACK \<equiv> 6"
abbreviation DHCP_MESSAGE_TYPE_RELEASE :: int where "DHCP_MESSAGE_TYPE_RELEASE \<equiv> 7"

abbreviation DHCP_OPTION_SUBNET_MASK :: u8 where "DHCP_OPTION_SUBNET_MASK \<equiv> 1"
abbreviation DHCP_OPTION_REQUESTED_IP_ADDRESS :: u8 where "DHCP_OPTION_REQUESTED_IP_ADDRESS \<equiv> 50"
abbreviation DHCP_OPTION_LEASE_TIME :: u8 where "DHCP_OPTION_LEASE_TIME \<equiv> 51"
abbreviation DHCP_OPTION_MESSAGE_TYPE :: u8 where "DHCP_OPTION_MESSAGE_TYPE \<equiv> 53"
abbreviation DHCP_OPTION_SERVER_IDENTIFIER :: u8 where "DHCP_OPTION_SERVER_IDENTIFIER \<equiv> 54"
abbreviation DHCP_OPTION_END :: u8 where "DHCP_OPTION_END \<equiv> 255"

abbreviation DHCP_OPCODE_REQUEST :: u8 where "DHCP_OPCODE_REQUEST \<equiv> 1"
abbreviation DHCP_OPCODE_REPLY :: u8 where "DHCP_OPCODE_REPLY \<equiv> 2"

abbreviation OPTION_SERVER_IP :: u32 where "OPTION_SERVER_IP \<equiv> 1"
abbreviation OPTION_NETMASK :: u32 where "OPTION_NETMASK \<equiv> 4"
abbreviation OPTION_MESSAGE_TYPE :: u32 where "OPTION_MESSAGE_TYPE \<equiv> 8"
abbreviation OPTION_LEASE_TIME :: u32 where "OPTION_LEASE_TIME \<equiv> 16"

record dhcp_client =
  dhcp_status :: dhcp_status
  transaction_id :: u32
  dhcp_time :: u32
  lease_time :: u32
  leased_ip :: u32
  server_ip :: u32
  netmask :: u32
  dhcp_backoff :: backoff
  aquisition_count :: int

record dhcp_options =
  option_mask :: u32
  option_your_ip :: u32
  option_server_ip :: u32
  option_netmask :: u32
  option_message_type :: int
  option_lease_time :: u32

record ('e, 'h) dhcp_state = "('e, 'h) udp_state" +
  dhcp :: dhcp_client
  options :: dhcp_options

text \<open>
  \<open>DhcpHeader\<close>: opcode, hardware type, hardware length and hardware options at 0 to 3, transaction id
  at 4, seconds at 8, flags at 10, client's, your, next server's and relay's address at 12, 16, 20
  and 24, client's MAC at 28, padding, host name at 44, boot filename at 108, magic cookie at 236.
\<close>

abbreviation DHCP_HEADER_SIZE :: int where "DHCP_HEADER_SIZE \<equiv> 240"
abbreviation MAGIC_COOKIE :: u32 where "MAGIC_COOKIE \<equiv> 0x63825363"

definition set_dhcp ::
  "(dhcp_client \<Rightarrow> dhcp_client) \<Rightarrow> ('e, 'h, 'z) dhcp_state_scheme \<Rightarrow> ('e, 'h, 'z) dhcp_state_scheme" where
  "set_dhcp f w = w\<lparr>dhcp := f (dhcp w)\<rparr>"

section \<open>Sending\<close>

definition dhcp_start ::
  "('e, 'h) libs \<Rightarrow> ('e, 'h, 'z) dhcp_state_scheme \<Rightarrow> (('e, 'h, 'z) dhcp_state_scheme) result" where
  "dhcp_start X w =
     (let w = set_dhcp (\<lambda>k. k\<lparr>dhcp_status := DHCP_DISCOVER\<rparr>) w in
      case draw_random X w of (r, w) \<Rightarrow>
      case now X (set_dhcp (\<lambda>k. k\<lparr>transaction_id := r\<rparr>) w) of (t, w) \<Rightarrow>
      let w = set_dhcp (\<lambda>k. k\<lparr>dhcp_time := t, dhcp_backoff :=
            backoff_init (dhcp_backoff k) DHCP_START_TIMEOUT DHCP_MAX_TIMEOUT DHCP_JITTER_FRACTION\<rparr>) w in
      udp_listen X DHCP_CLIENT_PORT 1 w)"

text \<open>The writers of options advance the pointer they are given.\<close>

definition add_message_type_option :: "int \<Rightarrow> u8 list \<times> int \<Rightarrow> (u8 list \<times> int) result" where
  "add_message_type_option message_type = (\<lambda>(d, off).
     bindR (put_byte DHCP_OPTION_MESSAGE_TYPE d off) (\<lambda>d.
     bindR (put_byte 1 d (off + 1)) (\<lambda>d.
     bindR (put_byte (word_of_int message_type) d (off + 2)) (\<lambda>d.
     Inr (d, off + 3)))))"

definition add_requested_ip_address_option :: "u32 \<Rightarrow> u8 list \<times> int \<Rightarrow> (u8 list \<times> int) result" where
  "add_requested_ip_address_option ip = (\<lambda>(d, off).
     bindR (put_byte DHCP_OPTION_REQUESTED_IP_ADDRESS d off) (\<lambda>d.
     bindR (put_byte 4 d (off + 1)) (\<lambda>d.
     bindR (write_be32 ip d (off + 2)) (\<lambda>d.
     Inr (d, off + 6)))))"

definition add_server_identifier_option :: "u32 \<Rightarrow> u8 list \<times> int \<Rightarrow> (u8 list \<times> int) result" where
  "add_server_identifier_option ip = (\<lambda>(d, off).
     bindR (put_byte DHCP_OPTION_SERVER_IDENTIFIER d off) (\<lambda>d.
     bindR (put_byte 4 d (off + 1)) (\<lambda>d.
     bindR (write_be32 ip d (off + 2)) (\<lambda>d.
     Inr (d, off + 6)))))"

definition finalize_options :: "u8 list \<times> int \<Rightarrow> (u8 list \<times> int) result" where
  "finalize_options = (\<lambda>(d, off). bindR (put_byte 255 d off) (\<lambda>d. Inr (d, off + 1)))"

definition write_dhcp_header :: "u32 \<Rightarrow> u16 \<Rightarrow> mac \<Rightarrow> int \<Rightarrow> u8 list \<Rightarrow> (u8 list) result" where
  "write_dhcp_header xid seconds client_mac off d =
     bindR (put_byte DHCP_OPCODE_REQUEST d off) (\<lambda>d.
     bindR (put_byte 1 d (off + 1)) (\<lambda>d.
     bindR (put_byte 6 d (off + 2)) (\<lambda>d.
     bindR (put_byte 0 d (off + 3)) (\<lambda>d.
     bindR (write_be32 xid d (off + 4)) (\<lambda>d.
     bindR (write_be16 seconds d (off + 8)) (\<lambda>d.
     bindR (write_be16 0 d (off + 10)) (\<lambda>d.
     bindR (write_be32 0 d (off + 12)) (\<lambda>d.
     bindR (write_be32 0 d (off + 16)) (\<lambda>d.
     bindR (write_be32 0 d (off + 20)) (\<lambda>d.
     bindR (write_be32 0 d (off + 24)) (\<lambda>d.
     bindR (write_be32 MAGIC_COOKIE d (off + 236)) (\<lambda>d.
     memory_copy client_mac 0 d (off + 28) 6))))))))))))"

definition write_dhcp_options ::
  "dhcp_packet \<Rightarrow> u32 \<Rightarrow> u32 \<Rightarrow> int \<Rightarrow> u8 list \<Rightarrow> (u8 list \<times> int) result" where
  "write_dhcp_options packet_type leased server off d =
     (let start = off + DHCP_HEADER_SIZE in
     bindR
       (case packet_type of
          DHCP_PACKET_DISCOVER \<Rightarrow> add_message_type_option DHCP_MESSAGE_TYPE_DISCOVER (d, start)
        | DHCP_PACKET_REQUEST \<Rightarrow>
            bindR (add_message_type_option DHCP_MESSAGE_TYPE_REQUEST (d, start)) (\<lambda>r.
            bindR (add_requested_ip_address_option leased r) (\<lambda>r.
            add_server_identifier_option server r))
        | DHCP_PACKET_RENEW \<Rightarrow>
            bindR (add_message_type_option DHCP_MESSAGE_TYPE_REQUEST (d, start)) (\<lambda>(d, pos).
            bindR (write_be32 leased d (off + 12)) (\<lambda>d. Inr (d, pos)))
        | DHCP_PACKET_RELEASE \<Rightarrow>
            bindR (add_message_type_option DHCP_MESSAGE_TYPE_RELEASE (d, start)) (\<lambda>r.
            bindR (add_server_identifier_option server r) (\<lambda>(d, pos).
            bindR (write_be32 leased d (off + 12)) (\<lambda>d.
            bindR (write_be16 0 d (off + 8)) (\<lambda>d. Inr (d, pos)))))
        | DHCP_PACKET_REBIND \<Rightarrow> Inr (d, start))
     finalize_options)"

definition dhcp_send_packet ::
  "('e, 'h) libs \<Rightarrow> dhcp_packet \<Rightarrow> ('e, 'h, 'z) dhcp_state_scheme \<Rightarrow> (('e, 'h, 'z) dhcp_state_scheme) result" where
  "dhcp_send_packet X packet_type w =
     bindR (allocate_network_packet X w) (\<lambda>(p, w).
     let off = index (packets w p) in
     case now X w of (t, w) \<Rightarrow>
     let seconds = ucast (time_div X (get_elapsed X (dhcp_time (dhcp w)) t) 1000) in
     bindR (with_data p (write_dhcp_header (transaction_id (dhcp w)) seconds (get_our_mac w) off) w) (\<lambda>w.
     bindR (write_dhcp_options packet_type (leased_ip (dhcp w)) (server_ip (dhcp w)) off (data (packets w p))) (\<lambda>(d, pos).
     udp_send_zero_copy X p DHCP_CLIENT_PORT DHCP_SERVER_PORT 0xFFFFFFFF
       (set_packet p (\<lambda>k. k\<lparr>data := d, plength := pos - off\<rparr>) w))))"

section \<open>Receiving\<close>

definition verify_dhcp_header :: "u32 \<Rightarrow> mac \<Rightarrow> int \<Rightarrow> u8 list \<Rightarrow> bool result" where
  "verify_dhcp_header xid our off d =
     bindR (get_byte d (off + 1)) (\<lambda>hardware_type.
     if hardware_type \<noteq> 1 then Inr False else
     bindR (get_byte d off) (\<lambda>opcode.
     if opcode \<noteq> DHCP_OPCODE_REPLY then Inr False else
     bindR (get_byte d (off + 2)) (\<lambda>hardware_length.
     if hardware_length \<noteq> 6 then Inr False else
     bindR (read_be32 d (off + 236)) (\<lambda>cookie.
     if cookie \<noteq> MAGIC_COOKIE then Inr False else
     bindR (read_be32 d (off + 4)) (\<lambda>id.
     if id \<noteq> xid then Inr False else
     bindR (memory_compare d (off + 28) our 0 6) (\<lambda>same.
     if \<not> same then Inr False else Inr True))))))"

text \<open>\<open>while (option_pointer[0] == 0 && length) { length--; option_pointer++; }\<close>\<close>

function skip_padding :: "u8 list \<Rightarrow> int \<Rightarrow> int \<Rightarrow> (int \<times> int) result" where
  "skip_padding d off n =
     bindR (get_byte d off) (\<lambda>b. if b = 0 \<and> n \<noteq> 0 then skip_padding d (off + 1) (n - 1) else Inr (off, n))"
  by pat_completeness auto
termination
  by (relation "measure (\<lambda>(d, off, _). nat (int (length d) - off))")
    (auto simp: get_byte_def in_range_def split: if_splits)

declare skip_padding.simps [simp del]

text \<open>The four options the client reads; \<open>None\<close> is the jump to \<open>return_false\<close>.\<close>

definition read_option :: "u8 list \<Rightarrow> u8 \<Rightarrow> int \<Rightarrow> int \<Rightarrow> dhcp_options \<Rightarrow> (bool \<times> dhcp_options) result" where
  "read_option d type option_length off opts =
     (if type = DHCP_OPTION_SUBNET_MASK then
        if option_length \<noteq> 4 then Inr (False, opts)
        else bindR (read_be32 d off) (\<lambda>v. Inr (True, opts\<lparr>option_mask := option_mask opts OR OPTION_NETMASK, option_netmask := v\<rparr>))
      else if type = DHCP_OPTION_LEASE_TIME then
        if option_length \<noteq> 4 then Inr (False, opts)
        else bindR (read_be32 d off) (\<lambda>v. Inr (True, opts\<lparr>option_mask := option_mask opts OR OPTION_LEASE_TIME, option_lease_time := v\<rparr>))
      else if type = DHCP_OPTION_SERVER_IDENTIFIER then
        if option_length \<noteq> 4 then Inr (False, opts)
        else bindR (read_be32 d off) (\<lambda>v. Inr (True, opts\<lparr>option_mask := option_mask opts OR OPTION_SERVER_IP, option_server_ip := v\<rparr>))
      else if type = DHCP_OPTION_MESSAGE_TYPE then
        if option_length \<noteq> 1 then Inr (False, opts)
        else bindR (get_byte d off) (\<lambda>v. Inr (True, opts\<lparr>option_mask := option_mask opts OR OPTION_MESSAGE_TYPE, option_message_type := uint v\<rparr>))
      else Inr (True, opts))"

lemma skip_padding_length: "skip_padding d off n = Inr (off', n') \<Longrightarrow> 0 \<le> n \<Longrightarrow> n' \<le> n \<and> 0 \<le> n'"
proof (induction d off n rule: skip_padding.induct)
  case (1 d off n)
  from "1.prems"(1) obtain b where b: "get_byte d off = Inr b"
    and r: "(if b = 0 \<and> n \<noteq> 0 then skip_padding d (off + 1) (n - 1) else Inr (off, n)) = Inr (off', n')"
    by (subst (asm) skip_padding.simps) (auto elim: bindR_InrE)
  show ?case
  proof (cases "b = 0 \<and> n \<noteq> 0")
    case True
    then have "n' \<le> n - 1 \<and> 0 \<le> n'"
      using "1.IH" [OF b True] r "1.prems"(2) by simp
    then show ?thesis by simp
  next
    case False
    then show ?thesis using r "1.prems"(2) by auto
  qed
qed

lemma option_shrinks: "n' \<le> n - 2 - uint (b :: u8) \<Longrightarrow> n' < n"
  using uint_ge_0 [of b] by linarith

function read_options :: "u8 list \<Rightarrow> int \<Rightarrow> int \<Rightarrow> dhcp_options \<Rightarrow> (bool \<times> dhcp_options) result" where
  "read_options d off n opts =
     bindR (get_byte d off) (\<lambda>type.
     if type = DHCP_OPTION_END then Inr (True, opts)
     else if n < 2 then Inr (False, opts)
     else
       bindR (get_byte d (off + 1)) (\<lambda>b.
       let option_length = uint b; n = n - 2; off = off + 2 in
       if option_length > n then Inr (False, opts)
       else
         bindR (read_option d type option_length off opts) (\<lambda>(ok, opts).
         if \<not> ok then Inr (False, opts)
         else
           bindR (skip_padding d (off + option_length) (n - option_length)) (\<lambda>(off, n).
           if n = 0 then Inr (False, opts)
           else read_options d off n opts))))"
  by pat_completeness auto
termination
  by (relation "measure (\<lambda>(_, _, n, _). nat n)")
    (auto dest!: skip_padding_length simp: linorder_not_less intro: option_shrinks)

declare read_options.simps [simp del]

text \<open>
  \<open>packet->length - sizeof(DhcpHeader)\<close> wraps in \<open>size_t\<close> and back in the conversion to \<open>int\<close>, which
  for the lengths of packets is the difference itself.
\<close>

definition dhcp_read ::
  "('e, 'h) libs \<Rightarrow> ('e, 'h, 'z) dhcp_state_scheme \<Rightarrow> (bool \<times> ('e, 'h, 'z) dhcp_state_scheme) result" where
  "dhcp_read X w =
     bindR (udp_receive_zero_copy X DHCP_CLIENT_PORT w) (\<lambda>(r, w).
     case r of
       None \<Rightarrow> Inr (False, w)
     | Some p \<Rightarrow>
         let d = data (packets w p); off = index (packets w p) in
         bindR (verify_dhcp_header (transaction_id (dhcp w)) (get_our_mac w) off d) (\<lambda>valid.
         if \<not> valid then Inr (False, free_network_packet X p w)
         else
           let n = plength (packets w p) - DHCP_HEADER_SIZE in
           bindR (read_be32 d (off + 16)) (\<lambda>your_ip.
           bindR (read_options d (off + DHCP_HEADER_SIZE) n ((options w)\<lparr>option_your_ip := your_ip, option_mask := 0\<rparr>)) (\<lambda>(ok, opts).
           Inr (ok, free_network_packet X p (w\<lparr>options := opts\<rparr>))))))"

definition has_options :: "u32 \<Rightarrow> dhcp_options \<Rightarrow> bool" where
  "has_options m opts \<longleftrightarrow> option_mask opts AND m = m"

definition try_read_offer ::
  "('e, 'h) libs \<Rightarrow> ('e, 'h, 'z) dhcp_state_scheme \<Rightarrow> (bool \<times> ('e, 'h, 'z) dhcp_state_scheme) result" where
  "try_read_offer X w =
     bindR (dhcp_read X w) (\<lambda>(ok, w).
     if \<not> ok then Inr (False, w)
     else
       let opts = options w in
       if \<not> has_options (OPTION_LEASE_TIME OR OPTION_SERVER_IP OR OPTION_MESSAGE_TYPE) opts
          \<or> option_message_type opts \<noteq> DHCP_MESSAGE_TYPE_OFFER then Inr (False, w)
       else Inr (True, set_dhcp (\<lambda>k. k\<lparr>netmask := option_netmask opts, server_ip := option_server_ip opts,
                                      leased_ip := option_your_ip opts\<rparr>) w))"

text \<open>The result is \<open>None\<close> for a return of \<open>false\<close>, and otherwise the value written to \<open>is_ack\<close>.\<close>

definition try_read_ack ::
  "('e, 'h) libs \<Rightarrow> ('e, 'h, 'z) dhcp_state_scheme \<Rightarrow> (bool option \<times> ('e, 'h, 'z) dhcp_state_scheme) result" where
  "try_read_ack X w =
     bindR (dhcp_read X w) (\<lambda>(ok, w).
     if \<not> ok then Inr (None, w)
     else
       let opts = options w in
       if \<not> has_options (OPTION_LEASE_TIME OR OPTION_MESSAGE_TYPE OR OPTION_SERVER_IP) opts then Inr (None, w)
       else if option_message_type opts = DHCP_MESSAGE_TYPE_NACK then Inr (Some False, w)
       else if option_message_type opts \<noteq> DHCP_MESSAGE_TYPE_ACK then Inr (None, w)
       else if option_netmask opts \<noteq> netmask (dhcp w) \<or> option_server_ip opts \<noteq> server_ip (dhcp w)
          \<or> option_your_ip opts \<noteq> leased_ip (dhcp w) then Inr (None, w)
       else case now X w of (t, w) \<Rightarrow>
         Inr (Some True, set_dhcp (\<lambda>k. k\<lparr>dhcp_time := t, lease_time := option_lease_time opts * 1000\<rparr>) w))"

definition renewing_expired ::
  "('e, 'h) libs \<Rightarrow> ('e, 'h, 'z) dhcp_state_scheme \<Rightarrow> bool \<times> ('e, 'h, 'z) dhcp_state_scheme" where
  "renewing_expired X w = (case now X w of (t, w) \<Rightarrow>
     (time_less X (time_div X (lease_time (dhcp w)) 2) (get_elapsed X (dhcp_time (dhcp w)) t), w))"

definition rebinding_expired ::
  "('e, 'h) libs \<Rightarrow> ('e, 'h, 'z) dhcp_state_scheme \<Rightarrow> bool \<times> ('e, 'h, 'z) dhcp_state_scheme" where
  "rebinding_expired X w = (case now X w of (t, w) \<Rightarrow>
     (time_less X (time_div X (3 * lease_time (dhcp w)) 4) (get_elapsed X (dhcp_time (dhcp w)) t), w))"

section \<open>The task\<close>

text \<open>\<open>if (backoff_timeout(..)) { dhcp_send_packet(..); next_backoff(..); }\<close>, which three states have.\<close>

definition resend ::
  "('e, 'h) libs \<Rightarrow> dhcp_packet \<Rightarrow> ('e, 'h, 'z) dhcp_state_scheme \<Rightarrow> (('e, 'h, 'z) dhcp_state_scheme) result" where
  "resend X packet_type w =
     (case backoff_timeout X (dhcp_backoff (dhcp w)) w of (expired, w) \<Rightarrow>
      if expired then
        bindR (dhcp_send_packet X packet_type w) (\<lambda>w.
        bindR (next_backoff X (dhcp_backoff (dhcp w)) w) (\<lambda>(b, w).
        Inr (set_dhcp (\<lambda>k. k\<lparr>dhcp_backoff := b\<rparr>) w)))
      else Inr w)"

definition enter :: "dhcp_status \<Rightarrow> ('e, 'h, 'z) dhcp_state_scheme \<Rightarrow> ('e, 'h, 'z) dhcp_state_scheme" where
  "enter s = set_dhcp (\<lambda>k. k\<lparr>dhcp_status := s\<rparr>)"

definition reset_backoff :: "('e, 'h, 'z) dhcp_state_scheme \<Rightarrow> ('e, 'h, 'z) dhcp_state_scheme" where
  "reset_backoff = set_dhcp (\<lambda>k. k\<lparr>dhcp_backoff := backoff_reset (dhcp_backoff k)\<rparr>)"

definition dhcp_task ::
  "('e, 'h) libs \<Rightarrow> ('e, 'h, 'z) dhcp_state_scheme \<Rightarrow> (('e, 'h, 'z) dhcp_state_scheme) result" where
  "dhcp_task X w =
     (case dhcp_status (dhcp w) of
        DHCP_DISABLED \<Rightarrow> Inr w
      | DHCP_DISCOVER \<Rightarrow>
          bindR (resend X DHCP_PACKET_DISCOVER w) (\<lambda>w.
          bindR (try_read_offer X w) (\<lambda>(offer, w).
          if offer then Inr (reset_backoff (enter DHCP_REQUESTING w)) else Inr w))
      | DHCP_REQUESTING \<Rightarrow>
          bindR (resend X DHCP_PACKET_REQUEST w) (\<lambda>w.
          bindR (try_read_ack X w) (\<lambda>(r, w).
          case r of
            None \<Rightarrow> Inr w
          | Some True \<Rightarrow>
              let w = enter DHCP_BOUND w in
              Inr (set_our_netmask (netmask (dhcp w)) (set_our_ip (leased_ip (dhcp w)) w))
          | Some False \<Rightarrow>
              Inr (reset_backoff (enter DHCP_DISCOVER
                (set_dhcp (\<lambda>k. k\<lparr>aquisition_count := aquisition_count k + 1\<rparr>) w)))))
      | DHCP_BOUND \<Rightarrow>
          (case renewing_expired X w of (expired, w) \<Rightarrow>
             if expired then Inr (reset_backoff (enter DHCP_RENEWING w)) else Inr w)
      | DHCP_RENEWING \<Rightarrow>
          (case rebinding_expired X w of (expired, w) \<Rightarrow>
             let w = (if expired then enter DHCP_REBINDING w else w) in
             bindR (resend X DHCP_PACKET_RENEW w) (\<lambda>w.
             bindR (try_read_ack X w) (\<lambda>(r, w).
             case r of
               None \<Rightarrow> Inr w
             | Some True \<Rightarrow> Inr (enter DHCP_BOUND w)
             | Some False \<Rightarrow> Inr (enter DHCP_DISCOVER w))))
      | DHCP_REBINDING \<Rightarrow>
          (case now X w of (t, w) \<Rightarrow>
             if \<not> time_less X (get_elapsed X (dhcp_time (dhcp w)) t) (lease_time (dhcp w))
             then Inr (reset_backoff (enter DHCP_DISCOVER w)) else Inr w)
      | DHCP_ERROR \<Rightarrow> Inr w)"

definition dhcp_release ::
  "('e, 'h) libs \<Rightarrow> ('e, 'h, 'z) dhcp_state_scheme \<Rightarrow> (('e, 'h, 'z) dhcp_state_scheme) result" where
  "dhcp_release X w = dhcp_send_packet X DHCP_PACKET_RELEASE w"

definition dhcp_is_done :: "('e, 'h, 'z) dhcp_state_scheme \<Rightarrow> bool" where
  "dhcp_is_done w \<longleftrightarrow> dhcp_status (dhcp w) = DHCP_BOUND \<or> dhcp_status (dhcp w) = DHCP_RENEWING
     \<or> dhcp_status (dhcp w) = DHCP_REBINDING"

definition dhcp_get_server_ip :: "('e, 'h, 'z) dhcp_state_scheme \<Rightarrow> u32" where
  "dhcp_get_server_ip w = server_ip (dhcp w)"

end
