(* ===== verification/Dhcp_Messages.thy ===== *)
theory Dhcp_Messages
  imports Dhcp
begin

text \<open>
  What the DHCP client sends: the bytes of its messages, and that sending one does not fault and
  keeps the invariants of the components below.
\<close>

section \<open>The messages that are sent\<close>

text \<open>
  The bytes of a message.  \<open>old\<close> are the 202 bytes between the client's address and the magic cookie
  (padding, host name and boot file name), which are never written: the message carries whatever the
  buffer held.
\<close>

definition dhcp_header :: "u32 \<Rightarrow> u16 \<Rightarrow> u32 \<Rightarrow> mac \<Rightarrow> u8 list \<Rightarrow> u8 list" where
  "dhcp_header xid seconds client client_mac old =
     [1, 1, 6, 0] @ be32_bytes xid @ be16_bytes seconds @ be16_bytes 0 @ be32_bytes client @ be32_bytes 0 @
     be32_bytes 0 @ be32_bytes 0 @ client_mac @ old @ be32_bytes MAGIC_COOKIE"

definition message_option :: "int \<Rightarrow> u8 list" where
  "message_option v = [DHCP_OPTION_MESSAGE_TYPE, 1, word_of_int v]"

definition address_option :: "u8 \<Rightarrow> u32 \<Rightarrow> u8 list" where
  "address_option type ip = [type, 4] @ be32_bytes ip"

definition dhcp_option_bytes :: "dhcp_packet \<Rightarrow> u32 \<Rightarrow> u32 \<Rightarrow> u8 list" where
  "dhcp_option_bytes packet_type leased server =
     (case packet_type of
        DHCP_PACKET_DISCOVER \<Rightarrow> message_option DHCP_MESSAGE_TYPE_DISCOVER
      | DHCP_PACKET_REQUEST \<Rightarrow> message_option DHCP_MESSAGE_TYPE_REQUEST @
          address_option DHCP_OPTION_REQUESTED_IP_ADDRESS leased @ address_option DHCP_OPTION_SERVER_IDENTIFIER server
      | DHCP_PACKET_RENEW \<Rightarrow> message_option DHCP_MESSAGE_TYPE_REQUEST
      | DHCP_PACKET_RELEASE \<Rightarrow> message_option DHCP_MESSAGE_TYPE_RELEASE @ address_option DHCP_OPTION_SERVER_IDENTIFIER server
      | DHCP_PACKET_REBIND \<Rightarrow> []) @ [DHCP_OPTION_END]"

definition dhcp_message :: "dhcp_packet \<Rightarrow> u32 \<Rightarrow> u16 \<Rightarrow> mac \<Rightarrow> u32 \<Rightarrow> u32 \<Rightarrow> u8 list \<Rightarrow> u8 list" where
  "dhcp_message packet_type xid seconds client_mac leased server old =
     dhcp_header xid (if packet_type = DHCP_PACKET_RELEASE then 0 else seconds)
       (if packet_type = DHCP_PACKET_RENEW \<or> packet_type = DHCP_PACKET_RELEASE then leased else 0) client_mac old @
     dhcp_option_bytes packet_type leased server"

lemma length_dhcp_header [simp]:
  "length client_mac = 6 \<Longrightarrow> length old = 202 \<Longrightarrow> length (dhcp_header xid seconds client client_mac old) = 240"
  by (simp add: dhcp_header_def)

lemma length_dhcp_option_bytes: "length (dhcp_option_bytes t leased server) \<le> 16"
  by (simp add: dhcp_option_bytes_def message_option_def address_option_def split: dhcp_packet.split)

lemma length_dhcp_message:
  "length client_mac = 6 \<Longrightarrow> length old = 202 \<Longrightarrow> length (dhcp_message t xid seconds client_mac leased server old) \<le> 256"
  using length_dhcp_option_bytes [of t leased server] by (simp add: dhcp_message_def)

lemma dhcp_header_fields:
  assumes "length client_mac = 6" and "length B = 240"
  shows "upd 28 client_mac (upd 236 (be32_bytes MAGIC_COOKIE) (upd 24 (be32_bytes 0) (upd 20 (be32_bytes 0)
      (upd 16 (be32_bytes 0) (upd 12 (be32_bytes 0) (upd 10 (be16_bytes 0) (upd 8 (be16_bytes seconds)
        (upd 4 (be32_bytes xid) (upd 3 [0] (upd 2 [6] (upd 1 [1] (upd 0 [1] B)))))))))))) =
    dhcp_header xid seconds 0 client_mac (chunk 34 202 B)"
proof -
  have "sum_list [1, 1, 1, 1, 4, 2, 2, 4, 4, 4, 4, 6, 202, 4] = length B" using assms by simp
  from segments [OF this] obtain f1 f2 f3 f4 f5 f6 f7 f8 f9 f10 f11 f12 f13 f14
    where B: "B = f1 @ f2 @ f3 @ f4 @ f5 @ f6 @ f7 @ f8 @ f9 @ f10 @ f11 @ f12 @ f13 @ f14"
      and l: "length f1 = 1" "length f2 = 1" "length f3 = 1" "length f4 = 1" "length f5 = 4" "length f6 = 2"
        "length f7 = 2" "length f8 = 4" "length f9 = 4" "length f10 = 4" "length f11 = 4" "length f12 = 6"
        "length f13 = 202" "length f14 = 4"
    by (auto simp: map_eq_Cons_conv)
  have "chunk 34 202 B = f13" unfolding B using l by (simp add: chunk_def)
  then show ?thesis unfolding B using assms l by (simp add: fields dhcp_header_def)
qed

lemma dhcp_header_client:
  assumes "length client_mac = 6" and "length old = 202"
  shows "upd 12 (be32_bytes ip) (dhcp_header xid seconds client client_mac old @ opts) =
      dhcp_header xid seconds ip client_mac old @ opts"
    and "upd 8 (be16_bytes 0) (dhcp_header xid seconds client client_mac old @ opts) =
      dhcp_header xid 0 client client_mac old @ opts"
  by (simp_all add: fields dhcp_header_def)

lemma write_dhcp_header_ok:
  assumes "length client_mac = 6" and "0 \<le> off" and "off + 240 \<le> int (length d)"
  shows "write_dhcp_header xid seconds client_mac off d =
    Inr (upd (nat off) (dhcp_header xid seconds 0 client_mac (chunk (nat off + 34) 202 d)) d)"
proof -
  define B where "B = chunk (nat off) 240 d"
  have B: "length B = 240" and le: "nat off + 240 \<le> length d" using assms by (simp_all add: B_def)
  have d: "d = upd (nat off) B d" using le by (simp add: B_def upd_self)
  have c: "chunk 0 6 client_mac = client_mac" using assms chunk_full [of client_mac] by simp
  have o: "chunk (nat off + 34) 202 d = chunk 34 202 B" by (simp add: B_def chunk_chunk add.commute)
  have "write_dhcp_header xid seconds client_mac off (upd (nat off) B d) =
      Inr (upd (nat off) (dhcp_header xid seconds 0 client_mac (chunk 34 202 B)) d)"
    using assms B le by (simp add: write_dhcp_header_def mem window c dhcp_header_fields [unfolded One_nat_def])
  then show ?thesis using d o by simp
qed

lemma write_dhcp_options_ok:
  assumes "length client_mac = 6" and "length old = 202" and "0 \<le> off" and "off + 256 \<le> int (length d)"
  shows "write_dhcp_options t leased server off (upd (nat off) (dhcp_header xid seconds 0 client_mac old) d) =
    Inr (upd (nat off) (dhcp_message t xid seconds client_mac leased server old) d,
      off + int (length (dhcp_message t xid seconds client_mac leased server old)))"
proof -
  have "nat off + 256 \<le> length d" using assms by simp
  then show ?thesis
    using assms
    by (cases t) (simp_all add: write_dhcp_options_def add_message_type_option_def add_requested_ip_address_option_def
        add_server_identifier_option_def finalize_options_def mem nat_add_distrib upd_append upd_window_nat dhcp_header_client
        dhcp_message_def dhcp_option_bytes_def message_option_def address_option_def)
qed

section \<open>Sending does not fault\<close>

lemma arp_inv_dhcp [simp]:
  "gmac_inv X ok H (set_dhcp f w) = gmac_inv X ok H w" "entries_inv X ok (set_dhcp f w) = entries_inv X ok w"
  "connections_inv X ok (set_dhcp f w) = connections_inv X ok w"
  by (simp_all add: gmac_inv_def rings_def buffers_ok_def rings_ok_def entries_inv_def queue_of_def free_list_def
      used_list_def entry_ok_def connections_inv_def datagrams_def free_connections_def used_connections_def
      connection_ok_def set_dhcp_def)

lemma udp_inv_dhcp [simp]: "udp_inv X ok H (set_dhcp f w) = udp_inv X ok H w"
  by (simp add: udp_inv_def arp_inv_def)

context intrusive_list
begin

text \<open>The message goes to all, in one UDP datagram; what the buffer of the packet held at the unwritten places goes with it.\<close>

lemma dhcp_send_packet_eq:
  assumes "arp_inv X ok H w"
  shows "dhcp_send_packet X t w =
    bindR (allocate_network_packet X w) (\<lambda>(p, w). case now X w of (time, w) \<Rightarrow>
      udp_send_zero_copy X p DHCP_CLIENT_PORT DHCP_SERVER_PORT 0xFFFFFFFF
        (set_packet p (put_message (dhcp_message t (transaction_id (dhcp w))
          (ucast (time_div X (get_elapsed X (dhcp_time (dhcp w)) time) 1000)) (our_mac w) (leased_ip (dhcp w)) (server_ip (dhcp w))
          (chunk 178 202 (data (packets w p))))) w))"
  unfolding dhcp_send_packet_def
proof (rule bindR_cong [OF refl], clarify)
  fix p w1 assume alloc: "allocate_network_packet X w = Inr (p, w1)"
  from safeD [OF arp_allocate [OF assms] alloc]
  have inv: "arp_inv X ok (add_mset p H) w1" and pk: "index (packets w1 p) = 144" "length (data (packets w1 p)) = 1024"
    by auto
  obtain time w2 where n: "now X w1 = (time, w2)" by fastforce
  note e = now_env [OF n]
  have w2: "packets w2 = packets w1" "our_mac w2 = our_mac w1" "dhcp w2 = dhcp w1" by (subst e, simp)+
  have mac: "length (our_mac w2) = 6" using inv w2 by (auto simp: arp_inv_def intro: our_mac_length)
  let ?d = "data (packets w1 p)" and ?c = "dhcp w1"
  let ?s = "ucast (time_div X (get_elapsed X (dhcp_time ?c) time) 1000) :: u16"
  let ?old = "chunk 178 202 ?d"
  let ?m = "dhcp_message t (transaction_id ?c) ?s (our_mac w1) (leased_ip ?c) (server_ip ?c) ?old"
  let ?h = "dhcp_header (transaction_id ?c) ?s 0 (our_mac w1) ?old"
  have hdr: "with_data p (write_dhcp_header (transaction_id ?c) ?s (our_mac w1) 144) w2 =
      Inr (set_packet p (\<lambda>k. k\<lparr>data := upd 144 ?h ?d\<rparr>) w2)"
    using mac pk w2 by (intro with_data_Inr) (simp add: write_dhcp_header_ok)
  have opt: "write_dhcp_options t (leased_ip ?c) (server_ip ?c) 144 (upd 144 ?h ?d) =
      Inr (upd 144 ?m ?d, 144 + int (length ?m))"
    using write_dhcp_options_ok [of "our_mac w1" ?old 144 ?d t "leased_ip ?c" "server_ip ?c" "transaction_id ?c" ?s] mac pk w2
    by simp
  have eq: "set_packet p (\<lambda>k. k\<lparr>data := upd 144 ?m ?d, plength := int (length ?m)\<rparr>)
      (set_packet p (\<lambda>k. k\<lparr>data := upd 144 ?h ?d\<rparr>) w2) = set_packet p (put_message ?m) w2"
    unfolding set_packet_set_packet using pk w2 by (intro set_packet_cong) (simp add: put_message_def)
  have d: "dhcp (set_packet p f w2) = dhcp w2" for f by (simp add: set_packet_def)
  show "(let off = index (packets w1 p) in
      case now X w1 of (t', w) \<Rightarrow>
      let seconds = ucast (time_div X (get_elapsed X (dhcp_time (dhcp w)) t') 1000) in
      bindR (with_data p (write_dhcp_header (transaction_id (dhcp w)) seconds (get_our_mac w) off) w) (\<lambda>w.
      bindR (write_dhcp_options t (leased_ip (dhcp w)) (server_ip (dhcp w)) off (data (packets w p))) (\<lambda>(d, pos).
      udp_send_zero_copy X p DHCP_CLIENT_PORT DHCP_SERVER_PORT 0xFFFFFFFF
        (set_packet p (\<lambda>k. k\<lparr>data := d, plength := pos - off\<rparr>) w)))) =
    (case now X w1 of (time, w) \<Rightarrow>
      udp_send_zero_copy X p DHCP_CLIENT_PORT DHCP_SERVER_PORT 0xFFFFFFFF
        (set_packet p (put_message (dhcp_message t (transaction_id (dhcp w))
          (ucast (time_div X (get_elapsed X (dhcp_time (dhcp w)) time) 1000)) (our_mac w) (leased_ip (dhcp w)) (server_ip (dhcp w))
          (chunk 178 202 (data (packets w p))))) w))"
    by (simp add: n w2 pk get_our_mac_def hdr opt eq d del: of_nat_less_iff)
qed

lemma dhcp_send_packet_safe:
  assumes "arp_inv X ok H w"
  shows "safe (dhcp_send_packet X t w) (\<lambda>w'. arp_inv X ok H w' \<and> arp_frame X w w')"
  unfolding dhcp_send_packet_eq [OF assms] safe_bindR
proof (rule safe_mono [OF arp_allocate [OF assms]], clarify)
  fix p w1
  assume inv: "arp_inv X ok (add_mset p H) w1" and fr: "arp_frame X w w1" and len: "length (data (packets w p)) = 1024"
    and pk: "packets w1 p = (packets w p)\<lparr>plength := 0, index := 144\<rparr>"
  obtain time w2 where n: "now X w1 = (time, w2)" by fastforce
  have e: "w2 = w1\<lparr>env := env w2\<rparr>" by (rule now_env [OF n])
  have inv2: "arp_inv X ok (add_mset p H) w2" by (subst e) (simp add: inv)
  have fr2: "arp_frame X w w2" by (subst e) (simp add: fr)
  have pk2: "packets w2 = packets w1" by (subst e) simp
  let ?m = "dhcp_message t (transaction_id (dhcp w2)) (ucast (time_div X (get_elapsed X (dhcp_time (dhcp w2)) time) 1000)) (our_mac w2)
      (leased_ip (dhcp w2)) (server_ip (dhcp w2)) (chunk 178 202 (data (packets w2 p)))"
  have "length (our_mac w2) = 6" using inv2 by (auto simp: arp_inv_def intro: our_mac_length)
  then have m: "length ?m \<le> 256" using len pk pk2 by (intro length_dhcp_message) simp_all
  have "safe (udp_send_zero_copy X p DHCP_CLIENT_PORT DHCP_SERVER_PORT 0xFFFFFFFF (set_packet p (put_message ?m) w2))
      (\<lambda>w'. arp_inv X ok H w' \<and> arp_frame X w2 w')"
    using inv2 len pk pk2 m put_message_frame [of "packets w2 p" ?m]
    by (intro send_filled_safe) (auto simp: ip_room_def)
  then show "safe (case now X w1 of (time, w) \<Rightarrow>
      udp_send_zero_copy X p DHCP_CLIENT_PORT DHCP_SERVER_PORT 0xFFFFFFFF
        (set_packet p (put_message (dhcp_message t (transaction_id (dhcp w))
          (ucast (time_div X (get_elapsed X (dhcp_time (dhcp w)) time) 1000)) (our_mac w) (leased_ip (dhcp w)) (server_ip (dhcp w))
          (chunk 178 202 (data (packets w p))))) w)) (\<lambda>w'. arp_inv X ok H w' \<and> arp_frame X w w')"
    by (simp add: n) (erule safe_mono, use fr2 in \<open>auto intro: arp_frame_trans\<close>)
qed

end

end
