(* ===== verification/Dhcp_Machine.thy ===== *)
theory Dhcp_Machine
  imports Dhcp_Messages
begin

text \<open>
  The DHCP client as a state machine: its parser stays inside the buffer, one run of its task keeps
  the invariant of all components, makes only the transitions of \<open>dhcp_next\<close>, and changes the host's
  address only when a lease is acknowledged.
\<close>

section \<open>Reading a reply\<close>

text \<open>
  The parser stays inside the buffer when the message ends before the buffer does: it looks at the
  byte behind the options before it looks at their length.
\<close>

lemma skip_padding_returns:
  assumes "0 \<le> off" and "0 \<le> n" and "off + n < int (length d)"
  shows "returns (skip_padding d off n) (\<lambda>(off', n'). 0 \<le> off' \<and> 0 \<le> n' \<and> off' + n' = off + n)"
  using assms
proof (induction d off n rule: skip_padding.induct)
  case (1 d off n)
  have b: "get_byte d off = Inr (d ! nat off)" using "1.prems" by (simp add: mem)
  show ?case
  proof (cases "d ! nat off = 0 \<and> n \<noteq> 0")
    case True
    then show ?thesis using "1.IH" [OF b True] "1.prems" b by (subst skip_padding.simps) simp
  next
    case False
    then show ?thesis using "1.prems" b by (subst skip_padding.simps) auto
  qed
qed

lemma read_option_returns:
  assumes "0 \<le> off" and "0 \<le> m" and "off + m < int (length d)"
  shows "\<exists>r. read_option d type m off opts = Inr r"
proof -
  have "\<exists>v. read_be32 d off = Inr v" if "m = 4" using be32.rd_in [of off d] assms that by auto
  moreover have "get_byte d off = Inr (d ! nat off)" if "m = 1" using assms that by (simp add: mem)
  ultimately show ?thesis unfolding read_option_def by auto
qed

lemma read_options_returns:
  assumes "0 \<le> off" and "off < int (length d)" and "n < 2 \<or> off + n < int (length d)"
  shows "\<exists>r. read_options d off n opts = Inr r"
  using assms
proof (induction d off n opts rule: read_options.induct)
  case (1 d off n opts)
  have type: "get_byte d off = Inr (d ! nat off)" using "1.prems" by (simp add: mem)
  consider "d ! nat off = DHCP_OPTION_END" | "d ! nat off \<noteq> DHCP_OPTION_END" "n < 2"
    | "d ! nat off \<noteq> DHCP_OPTION_END" "\<not> n < 2" by blast
  then show ?case
  proof cases
    case 3
    let ?b = "d ! nat (off + 1)"
    let ?m = "uint ?b"
    have b: "get_byte d (off + 1) = Inr ?b" using "1.prems" 3 by (simp add: mem)
    have m: "0 \<le> ?m" by simp
    show ?thesis
    proof (cases "?m > n - 2")
      case True
      then show ?thesis using type b 3 by (subst read_options.simps) simp
    next
      case fits: False
      have off2: "0 \<le> off + 2" "off + 2 + ?m < int (length d)" using "1.prems" 3 fits m by linarith+
      obtain ok opts' where ro: "read_option d (d ! nat off) ?m (off + 2) opts = Inr (ok, opts')"
        using read_option_returns [OF off2(1) m off2(2)] by fastforce
      have off3: "0 \<le> off + 2 + ?m" "0 \<le> n - 2 - ?m" "off + 2 + ?m + (n - 2 - ?m) < int (length d)"
        using "1.prems" 3 fits m by linarith+
      obtain off' n' where sp: "skip_padding d (off + 2 + ?m) (n - 2 - ?m) = Inr (off', n')"
        and sp': "0 \<le> off'" "0 \<le> n'" "off' + n' < int (length d)"
        using skip_padding_returns [OF off3] off3(3) by (auto simp: returns_iff)
      have "\<exists>r. read_options d off' n' opts' = Inr r" if "ok" "n' \<noteq> 0"
        by (rule "1.IH" [OF type 3 b refl refl refl fits ro refl _ sp refl]) (use that sp' in auto)
      then show ?thesis
        using type b 3 fits ro sp by (subst read_options.simps) (auto simp: Let_def)
    qed
  qed (use type in \<open>subst read_options.simps; simp\<close>)+
qed

text \<open>What the parser needs of the replies that wait: the buffer does not end with the message.\<close>

definition replies_fit :: "('e, 'h) libs \<Rightarrow> ('e, 'h, 'z) udp_state_scheme \<Rightarrow> bool" where
  "replies_fit X w \<longleftrightarrow> (\<forall>c. find_connection X DHCP_CLIENT_PORT w = Some c \<longrightarrow>
     (\<forall>p\<in>set (datagrams X w c). index (packets w p) + plength (packets w p) < NETWORK_PACKET_SIZE))"

lemma udp_inv_replies_fit: "udp_inv X ok H w \<Longrightarrow> replies_fit X w"
  unfolding replies_fit_def
proof (intro allI impI ballI)
  fix c p assume u: "udp_inv X ok H w" and c: "find_connection X DHCP_CLIENT_PORT w = Some c" and p: "p \<in> set (datagrams X w c)"
  have "c < UDP_CONNECTION_COUNT"
    using find_connection_Some [OF c] u connections_inv_member(1) by (auto simp: udp_inv_def)
  then have "deliverable (packets w p)" using u p by (auto simp: udp_inv_def connections_inv_def)
  then show "index (packets w p) + plength (packets w p) < NETWORK_PACKET_SIZE" by (simp add: deliverable_def)
qed

lemma verify_dhcp_header_returns:
  assumes "0 \<le> off" and "off + 240 \<le> int (length d)" and "length our = 6"
  shows "\<exists>v. verify_dhcp_header xid our off d = Inr v"
proof -
  obtain a where "read_be32 d (off + 236) = Inr a" using be32.rd_in [of "off + 236" d] assms by auto
  moreover obtain b where "read_be32 d (off + 4) = Inr b" using be32.rd_in [of "off + 4" d] assms by auto
  moreover obtain c where "memory_compare d (off + 28) our 0 6 = Inr c"
    using memory_compare_ok [of 6 "off + 28" d 0 our] assms by auto
  moreover have "get_byte d (off + 1) = Inr (d ! nat (off + 1))" "get_byte d off = Inr (d ! nat off)"
    "get_byte d (off + 2) = Inr (d ! nat (off + 2))" using assms by (simp_all add: mem)
  ultimately show ?thesis unfolding verify_dhcp_header_def by auto
qed

lemma udp_inv_options [simp]: "udp_inv X ok H (w\<lparr>options := v\<rparr>) = udp_inv X ok H w"
  by (simp add: udp_inv_def arp_inv_def gmac_inv_def rings_def buffers_ok_def rings_ok_def entries_inv_def queue_of_def
      free_list_def used_list_def entry_ok_def connections_inv_def datagrams_def free_connections_def
      used_connections_def connection_ok_def)

lemma dhcp_of_more:
  fixes w w' :: "('e, 'h, 'z) dhcp_state_scheme"
  assumes "udp_state.more w' = udp_state.more w"
  shows "dhcp w' = dhcp w" and "options w' = options w"
  using assms by (cases w; cases w'; simp)+

context intrusive_list
begin

lemma dhcp_read_returns:
  assumes "udp_inv X ok H w" and "replies_fit X w"
  shows "returns (dhcp_read X w) (\<lambda>(r, w'). udp_inv X ok H w' \<and> same_config w w' \<and> dhcp w' = dhcp w)"
  unfolding dhcp_read_def returns_bindR
proof (rule returns_mono [OF udp_receive_zero_copy_returns [OF assms(1)]], clarify)
  fix r w1
  assume rc: "udp_receive_zero_copy X DHCP_CLIENT_PORT w = Inr (r, w1)"
    and post: "case r of None \<Rightarrow> w1 = w
     | Some p \<Rightarrow> udp_inv X ok (add_mset p H) w1 \<and> deliverable (packets w1 p) \<and> packets w1 = packets w \<and> udp_frame w w1 \<and>
         (\<exists>c. find_connection X DHCP_CLIENT_PORT w = Some c \<and> datagrams X w c = p # datagrams X w1 c \<and>
            untouched X {Connection_queue c} w w1)"
  show "returns (case r of None \<Rightarrow> Inr (False, w1)
      | Some p \<Rightarrow>
         let d = data (packets w1 p); off = index (packets w1 p) in
         bindR (verify_dhcp_header (transaction_id (dhcp w1)) (get_our_mac w1) off d) (\<lambda>valid.
         if \<not> valid then Inr (False, free_network_packet X p w1)
         else
           let n = plength (packets w1 p) - DHCP_HEADER_SIZE in
           bindR (read_be32 d (off + 16)) (\<lambda>your_ip.
           bindR (read_options d (off + DHCP_HEADER_SIZE) n ((options w1)\<lparr>option_your_ip := your_ip, option_mask := 0\<rparr>)) (\<lambda>(ok, opts).
           Inr (ok, free_network_packet X p (w1\<lparr>options := opts\<rparr>))))))
     (\<lambda>(r, w'). udp_inv X ok H w' \<and> same_config w w' \<and> dhcp w' = dhcp w)"
  proof (cases r)
    case None
    then show ?thesis using post assms(1) by simp
  next
    case (Some p)
    with post have inv: "udp_inv X ok (add_mset p H) w1" and dl: "deliverable (packets w1 p)" and pk: "packets w1 = packets w"
      and fr: "udp_frame w w1" by auto
    from post Some assms(2) have fit: "index (packets w1 p) + plength (packets w1 p) < 1024"
      by (auto simp: replies_fit_def)
    let ?d = "data (packets w1 p)" and ?off = "index (packets w1 p)" and ?n = "plength (packets w1 p) - 240"
    have k: "0 \<le> ?off" "?off \<le> 82" "length ?d = 1024" using dl by (auto simp: deliverable_def packet_ok_def)
    have "length (our_mac w1) = 6" using inv by (auto simp: udp_inv_def arp_inv_def intro: our_mac_length)
    then obtain v where v: "verify_dhcp_header (transaction_id (dhcp w1)) (our_mac w1) ?off ?d = Inr v"
      using verify_dhcp_header_returns [of ?off ?d "our_mac w1"] k by auto
    obtain ip where ip: "read_be32 ?d (?off + 16) = Inr ip" using be32.rd_in [of "?off + 16" ?d] k by auto
    obtain fin opts where ro: "read_options ?d (?off + 240) ?n ((options w1)\<lparr>option_your_ip := ip, option_mask := 0\<rparr>) = Inr (fin, opts)"
      using read_options_returns [of "?off + 240" ?d ?n] k fit by fastforce
    have same: "same_config w w1" "dhcp w1 = dhcp w" using fr dhcp_of_more by (auto simp: udp_frame_def)
    have inv2: "udp_inv X ok (add_mset p H) (w1\<lparr>options := opts\<rparr>)" using inv by simp
    have d: "dhcp (free_network_packet X p u) = dhcp u" for u by (simp add: free_network_packet_def)
    show ?thesis
      using Some v ip ro same udp_inv_free [OF inv] udp_inv_free [OF inv2]
      by (auto simp: Let_def get_our_mac_def d same_config_def udp_frame_def free_network_packet_def)
  qed
qed

end

section \<open>The state machine\<close>

text \<open>
  While the client is enabled, its timer keeps the bounds of \<open>backoff_ok\<close>, so that the divisions of
  \<open>next_backoff\<close> are defined.
\<close>

definition dhcp_inv ::
  "('e, 'h) libs \<Rightarrow> (list_head set \<Rightarrow> 'h \<Rightarrow> bool) \<Rightarrow> nat multiset \<Rightarrow> ('e, 'h, 'z) dhcp_state_scheme \<Rightarrow> bool" where
  "dhcp_inv X ok H w \<longleftrightarrow> udp_inv X ok H w \<and> (dhcp_status (dhcp w) \<noteq> DHCP_DISABLED \<longrightarrow> backoff_ok X (dhcp_backoff (dhcp w)))"

lemma next_backoff_env: "next_backoff X b w = Inr (b', w') \<Longrightarrow> w' = w\<lparr>env := env w'\<rparr>"
  by (auto simp: next_backoff_def now_def draw_random_def Let_def split: prod.splits if_splits)

lemma backoff_timeout_env: "backoff_timeout X b w = (r, w') \<Longrightarrow> w' = w\<lparr>env := env w'\<rparr>"
  by (auto simp: backoff_timeout_def now_def split: prod.splits if_splits)

lemma udp_inv_env [simp]: "udp_inv X ok H (w\<lparr>env := v\<rparr>) = udp_inv X ok H w"
  by (simp add: udp_inv_def connections_inv_def datagrams_def free_connections_def used_connections_def connection_ok_def)

lemma udp_inv_config [simp]:
  "udp_inv X ok H (w\<lparr>our_ip := ip\<rparr>) = udp_inv X ok H w" "udp_inv X ok H (w\<lparr>our_netmask := m\<rparr>) = udp_inv X ok H w"
  by (simp_all add: udp_inv_def arp_inv_def gmac_inv_def rings_def buffers_ok_def rings_ok_def entries_inv_def queue_of_def
      free_list_def used_list_def entry_ok_def connections_inv_def datagrams_def free_connections_def
      used_connections_def connection_ok_def)

lemma replies_fit_local [simp]:
  "replies_fit X (w\<lparr>env := v\<rparr>) = replies_fit X w" "replies_fit X (set_dhcp f w) = replies_fit X w"
  by (simp_all add: replies_fit_def find_connection_def datagrams_def set_dhcp_def)

lemma set_dhcp_frame [simp]:
  "dhcp (set_dhcp f w) = f (dhcp w)" "our_ip (set_dhcp f w) = our_ip w" "our_netmask (set_dhcp f w) = our_netmask w"
  "our_mac (set_dhcp f w) = our_mac w" "options (set_dhcp f w) = options w" "env (set_dhcp f w) = env w"
  "free_connections X (set_dhcp f w) = free_connections X w"
  by (simp_all add: set_dhcp_def free_connections_def)

lemma same_config_local [simp]:
  "same_config w (set_dhcp f w') = same_config w w'" "same_config w (w'\<lparr>env := v\<rparr>) = same_config w w'"
  by (simp_all add: same_config_def)

lemma replies_fit_arp_frame:
  assumes "replies_fit X w" and "arp_frame X w w'" and "udp_inv X ok H w"
  shows "replies_fit X w'"
proof -
  have more: "connections w' = connections w" "connection_lists w' = connection_lists w"
    using assms(2) udp_fields_of_more [of w' w] by (auto simp: arp_frame_def)
  then have f: "find_connection X 68 w' = find_connection X 68 w" by (simp add: find_connection_def)
  have "datagrams X w' c = datagrams X w c \<and> (\<forall>p\<in>set (datagrams X w c). packets w' p = packets w p)"
    if "find_connection X 68 w = Some c" for c
  proof -
    have "c < 16"
      using find_connection_Some [OF that] assms(3) connections_inv_member(1) by (auto simp: udp_inv_def)
    then have k: "Connection_queue c \<in> packet_heads" "Connection_queue c \<notin> arp_heads" by auto
    have u: "untouched X arp_heads w w'" using assms(2) by (simp add: arp_frame_def)
    show ?thesis using untouched_queue [OF u k(1) _ k(2)] untouched_packet [OF u k(1) _ k(2)] by (simp add: datagrams_def)
  qed
  then show ?thesis using assms(1) f by (simp add: replies_fit_def)
qed

text \<open>The transitions of the client.\<close>

definition dhcp_next :: "dhcp_status \<Rightarrow> dhcp_status set" where
  "dhcp_next s = (case s of
       DHCP_DISABLED \<Rightarrow> {DHCP_DISABLED}
     | DHCP_DISCOVER \<Rightarrow> {DHCP_DISCOVER, DHCP_REQUESTING}
     | DHCP_REQUESTING \<Rightarrow> {DHCP_REQUESTING, DHCP_BOUND, DHCP_DISCOVER}
     | DHCP_BOUND \<Rightarrow> {DHCP_BOUND, DHCP_RENEWING}
     | DHCP_RENEWING \<Rightarrow> {DHCP_RENEWING, DHCP_REBINDING, DHCP_BOUND, DHCP_DISCOVER}
     | DHCP_REBINDING \<Rightarrow> {DHCP_REBINDING, DHCP_DISCOVER}
     | DHCP_ERROR \<Rightarrow> {DHCP_ERROR})"

definition dhcp_step_ok ::
  "('e, 'h, 'z) dhcp_state_scheme \<Rightarrow> ('e, 'h, 'z) dhcp_state_scheme \<Rightarrow> bool" where
  "dhcp_step_ok w w' \<longleftrightarrow>
     dhcp_status (dhcp w') \<in> dhcp_next (dhcp_status (dhcp w)) \<and> our_mac w' = our_mac w \<and>
     (if dhcp_status (dhcp w) = DHCP_REQUESTING \<and> dhcp_status (dhcp w') = DHCP_BOUND
      then our_ip w' = leased_ip (dhcp w) \<and> our_netmask w' = netmask (dhcp w)
      else our_ip w' = our_ip w \<and> our_netmask w' = our_netmask w) \<and>
     (dhcp_status (dhcp w) \<noteq> DHCP_DISCOVER \<longrightarrow> leased_ip (dhcp w') = leased_ip (dhcp w) \<and> netmask (dhcp w') = netmask (dhcp w))"

text \<open>The state between the transmission and the reception of one round.\<close>

definition after_resend ::
  "('e, 'h) libs \<Rightarrow> (list_head set \<Rightarrow> 'h \<Rightarrow> bool) \<Rightarrow> nat multiset \<Rightarrow> ('e, 'h, 'z) dhcp_state_scheme \<Rightarrow>
   ('e, 'h, 'z) dhcp_state_scheme \<Rightarrow> bool" where
  "after_resend X ok H w w' \<longleftrightarrow> udp_inv X ok H w' \<and> replies_fit X w' \<and> same_config w w' \<and>
     backoff_ok X (dhcp_backoff (dhcp w')) \<and> dhcp_status (dhcp w') = dhcp_status (dhcp w) \<and>
     leased_ip (dhcp w') = leased_ip (dhcp w) \<and> netmask (dhcp w') = netmask (dhcp w)"

lemmas dhcp_step_simps = dhcp_inv_def dhcp_step_ok_def dhcp_next_def reset_backoff_def enter_def same_config_def
  backoff_reset_ok set_our_ip_def set_our_netmask_def after_resend_def

context intrusive_list
begin

lemma resend_safe:
  assumes "udp_inv X ok H w" and "backoff_ok X (dhcp_backoff (dhcp w))" and "replies_fit X w"
  shows "safe (resend X t w) (\<lambda>w'. udp_inv X ok H w' \<and> replies_fit X w' \<and> same_config w w' \<and>
    backoff_ok X (dhcp_backoff (dhcp w')) \<and> dhcp w' = (dhcp w)\<lparr>dhcp_backoff := dhcp_backoff (dhcp w')\<rparr>)"
proof -
  obtain expired w1 where b: "backoff_timeout X (dhcp_backoff (dhcp w)) w = (expired, w1)" by fastforce
  have e: "w1 = w\<lparr>env := env w1\<rparr>" by (rule backoff_timeout_env [OF b])
  have w1: "udp_inv X ok H w1" "dhcp w1 = dhcp w" "same_config w w1" "replies_fit X w1"
    by (subst e, simp add: assms)+
  show ?thesis
  proof (cases expired)
    case False
    then show ?thesis using b w1 assms by (simp add: resend_def)
  next
    case True
    have a: "arp_inv X ok H w1" using w1(1) by (simp add: udp_inv_def)
    have step: "safe (bindR (next_backoff X (dhcp_backoff (dhcp w2)) w2) (\<lambda>(b, w). Inr (set_dhcp (\<lambda>k. k\<lparr>dhcp_backoff := b\<rparr>) w)))
        (\<lambda>w'. udp_inv X ok H w' \<and> replies_fit X w' \<and> same_config w w' \<and>
          backoff_ok X (dhcp_backoff (dhcp w')) \<and> dhcp w' = (dhcp w)\<lparr>dhcp_backoff := dhcp_backoff (dhcp w')\<rparr>)"
      if s: "dhcp_send_packet X t w1 = Inr w2" for w2
    proof -
      from safeD [OF dhcp_send_packet_safe [OF a] s] have fr: "arp_frame X w1 w2" by simp
      have inv2: "udp_inv X ok H w2"
        using safeD [OF udp_inv_lift [OF w1(1) dhcp_send_packet_safe [OF a]] s] by simp
      have "arp_state.more w2 = arp_state.more w1" using fr by (simp add: arp_frame_def)
      then have d: "dhcp w2 = dhcp w" using dhcp_of_more(1) [OF udp_fields_of_more(3)] w1(2) by metis
      have c: "same_config w w2" using fr w1(3) by (auto simp: arp_frame_def intro: same_config_trans)
      have r: "replies_fit X w2" by (rule replies_fit_arp_frame [OF w1(4) fr w1(1)])
      have "backoff_ok X (dhcp_backoff (dhcp w2))" using d assms(2) by simp
      from next_backoff_step [OF this, of w2] obtain b' w3
        where n: "next_backoff X (dhcp_backoff (dhcp w2)) w2 = Inr (b', w3)" "backoff_ok X b'" by blast
      have e3: "w3 = w2\<lparr>env := env w3\<rparr>" by (rule next_backoff_env [OF n(1)])
      have w3: "udp_inv X ok H w3" "replies_fit X w3" "same_config w w3" "dhcp w3 = dhcp w"
        by (subst e3, simp add: inv2 r c d)+
      show ?thesis using n w3 by simp
    qed
    have "safe (dhcp_send_packet X t w1) (\<lambda>w2. dhcp_send_packet X t w1 = Inr w2)"
      using dhcp_send_packet_safe [OF a, of t] by (rule safe_mono) simp
    then show ?thesis
      unfolding resend_def using b True by (simp del: dhcp_send_packet_eq safe_iff) (erule safe_mono, use step in simp)
  qed
qed

lemma try_read_offer_returns:
  assumes "udp_inv X ok H w" and "replies_fit X w"
  shows "returns (try_read_offer X w) (\<lambda>(offer, w'). udp_inv X ok H w' \<and> same_config w w' \<and>
    dhcp_status (dhcp w') = dhcp_status (dhcp w) \<and> dhcp_backoff (dhcp w') = dhcp_backoff (dhcp w) \<and>
    (\<not> offer \<longrightarrow> dhcp w' = dhcp w))"
  unfolding try_read_offer_def returns_bindR
  by (rule returns_mono [OF dhcp_read_returns [OF assms]]) (auto simp: Let_def)

lemma try_read_ack_returns:
  assumes "udp_inv X ok H w" and "replies_fit X w"
  shows "returns (try_read_ack X w) (\<lambda>(r, w'). udp_inv X ok H w' \<and> same_config w w' \<and>
    dhcp_status (dhcp w') = dhcp_status (dhcp w) \<and> dhcp_backoff (dhcp w') = dhcp_backoff (dhcp w) \<and>
    leased_ip (dhcp w') = leased_ip (dhcp w) \<and> netmask (dhcp w') = netmask (dhcp w) \<and>
    (r \<noteq> Some True \<longrightarrow> dhcp w' = dhcp w))"
  unfolding try_read_ack_def returns_bindR
proof (rule returns_mono [OF dhcp_read_returns [OF assms]], clarify)
  fix r w1
  assume i: "udp_inv X ok H w1" "same_config w w1" "dhcp w1 = dhcp w"
  obtain t w2 where n: "now X w1 = (t, w2)" by fastforce
  have e: "w2 = w1\<lparr>env := env w2\<rparr>" by (rule now_env [OF n])
  have w2: "udp_inv X ok H w2" "same_config w w2" "dhcp w2 = dhcp w" by (subst e, simp add: i)+
  show "returns (if \<not> r then Inr (None, w1)
     else
       let opts = options w1 in
       if \<not> has_options (OPTION_LEASE_TIME OR OPTION_MESSAGE_TYPE OR OPTION_SERVER_IP) opts then Inr (None, w1)
       else if option_message_type opts = DHCP_MESSAGE_TYPE_NACK then Inr (Some False, w1)
       else if option_message_type opts \<noteq> DHCP_MESSAGE_TYPE_ACK then Inr (None, w1)
       else if option_netmask opts \<noteq> netmask (dhcp w1) \<or> option_server_ip opts \<noteq> server_ip (dhcp w1)
          \<or> option_your_ip opts \<noteq> leased_ip (dhcp w1) then Inr (None, w1)
       else case now X w1 of (t, w) \<Rightarrow>
         Inr (Some True, set_dhcp (\<lambda>k. k\<lparr>dhcp_time := t, lease_time := option_lease_time opts * 1000\<rparr>) w))
    (\<lambda>(r, w'). udp_inv X ok H w' \<and> same_config w w' \<and>
      dhcp_status (dhcp w') = dhcp_status (dhcp w) \<and> dhcp_backoff (dhcp w') = dhcp_backoff (dhcp w) \<and>
      leased_ip (dhcp w') = leased_ip (dhcp w) \<and> netmask (dhcp w') = netmask (dhcp w) \<and>
      (r \<noteq> Some True \<longrightarrow> dhcp w' = dhcp w))"
    using i w2 n by (simp add: Let_def)
qed

lemma now_inv:
  assumes "now X w = (t, w')" and "udp_inv X ok H w" and "replies_fit X w"
  shows "udp_inv X ok H w' \<and> replies_fit X w' \<and> same_config w w' \<and> dhcp w' = dhcp w"
  by (subst (1 2 3 4) now_env [OF assms(1)]) (simp add: assms(2,3))

lemma resend_round:
  assumes "dhcp_inv X ok H w" and "replies_fit X w" and "dhcp_status (dhcp w) \<noteq> DHCP_DISABLED"
  shows "safe (resend X t w) (after_resend X ok H w)"
proof -
  have b: "backoff_ok X (dhcp_backoff (dhcp w))" and u: "udp_inv X ok H w" using assms by (simp_all add: dhcp_inv_def)
  show ?thesis
    by (rule safe_mono [OF resend_safe [OF u b assms(2)]])
      (clarsimp simp: after_resend_def, metis dhcp_client.select_convs(1,5,7) dhcp_client.surjective dhcp_client.update_convs(8))
qed

lemma dhcp_discover_safe:
  assumes "dhcp_inv X ok H w" and "replies_fit X w" and "dhcp_status (dhcp w) = DHCP_DISCOVER"
  shows "safe (dhcp_task X w) (\<lambda>w'. dhcp_inv X ok H w' \<and> dhcp_step_ok w w')"
proof -
  have "safe (bindR (try_read_offer X w1) (\<lambda>(offer, w). if offer then Inr (reset_backoff (enter DHCP_REQUESTING w)) else Inr w))
      (\<lambda>w'. dhcp_inv X ok H w' \<and> dhcp_step_ok w w')" if p: "after_resend X ok H w w1" for w1
  proof -
    have q: "udp_inv X ok H w1" "replies_fit X w1" using p by (simp_all add: after_resend_def)
    show ?thesis unfolding safe_bindR
      by (rule safe_mono [OF returns_safe [OF try_read_offer_returns [OF q]]])
        (use p assms(3) in \<open>auto simp: dhcp_step_simps\<close>)
  qed
  note step = this
  show ?thesis
    unfolding dhcp_task_def assms(3) dhcp_status.case safe_bindR [of "resend _ _ _"]
    by (rule safe_mono [OF resend_round [OF assms(1,2)] step]) (simp add: assms(3))
qed

lemma dhcp_requesting_safe:
  assumes "dhcp_inv X ok H w" and "replies_fit X w" and "dhcp_status (dhcp w) = DHCP_REQUESTING"
  shows "safe (dhcp_task X w) (\<lambda>w'. dhcp_inv X ok H w' \<and> dhcp_step_ok w w')"
proof -
  have "safe (bindR (try_read_ack X w1) (\<lambda>(r, w).
          case r of
            None \<Rightarrow> Inr w
          | Some True \<Rightarrow>
              let w = enter DHCP_BOUND w in
              Inr (set_our_netmask (netmask (dhcp w)) (set_our_ip (leased_ip (dhcp w)) w))
          | Some False \<Rightarrow>
              Inr (reset_backoff (enter DHCP_DISCOVER
                (set_dhcp (\<lambda>k. k\<lparr>aquisition_count := aquisition_count k + 1\<rparr>) w)))))
      (\<lambda>w'. dhcp_inv X ok H w' \<and> dhcp_step_ok w w')" if p: "after_resend X ok H w w1" for w1
  proof -
    have q: "udp_inv X ok H w1" "replies_fit X w1" using p by (simp_all add: after_resend_def)
    show ?thesis unfolding safe_bindR
      by (rule safe_mono [OF returns_safe [OF try_read_ack_returns [OF q]]])
        (use p assms(3) in \<open>auto simp: dhcp_step_simps Let_def split: option.splits bool.splits\<close>)
  qed
  note step = this
  show ?thesis
    unfolding dhcp_task_def assms(3) dhcp_status.case safe_bindR [of "resend _ _ _"]
    by (rule safe_mono [OF resend_round [OF assms(1,2)] step]) (simp add: assms(3))
qed

lemma dhcp_renewing_safe:
  assumes "dhcp_inv X ok H w" and "replies_fit X w" and "dhcp_status (dhcp w) = DHCP_RENEWING"
  shows "safe (dhcp_task X w) (\<lambda>w'. dhcp_inv X ok H w' \<and> dhcp_step_ok w w')"
proof -
  obtain expired w1 where x: "rebinding_expired X w = (expired, w1)" by fastforce
  then obtain t where n: "now X w = (t, w1)" by (auto simp: rebinding_expired_def split: prod.splits)
  have i: "udp_inv X ok H w1 \<and> replies_fit X w1 \<and> same_config w w1 \<and> dhcp w1 = dhcp w"
    by (rule now_inv [OF n _ assms(2)]) (use assms(1) in \<open>simp add: dhcp_inv_def\<close>)
  let ?w = "if expired then enter DHCP_REBINDING w1 else w1"
  have s: "dhcp_inv X ok H ?w" "replies_fit X ?w" "dhcp_status (dhcp ?w) \<noteq> DHCP_DISABLED" "same_config w ?w"
    "dhcp_status (dhcp ?w) \<in> {DHCP_RENEWING, DHCP_REBINDING}" "leased_ip (dhcp ?w) = leased_ip (dhcp w)"
    "netmask (dhcp ?w) = netmask (dhcp w)"
    using i assms by (auto simp: dhcp_inv_def enter_def)
  have "safe (bindR (try_read_ack X w2) (\<lambda>(r, w).
             case r of
               None \<Rightarrow> Inr w
             | Some True \<Rightarrow> Inr (enter DHCP_BOUND w)
             | Some False \<Rightarrow> Inr (enter DHCP_DISCOVER w)))
      (\<lambda>w'. dhcp_inv X ok H w' \<and> dhcp_step_ok w w')" if p: "after_resend X ok H ?w w2" for w2
  proof -
    have q: "udp_inv X ok H w2" "replies_fit X w2" "same_config w w2" "dhcp_status (dhcp w2) \<in> {DHCP_RENEWING, DHCP_REBINDING}"
      "backoff_ok X (dhcp_backoff (dhcp w2))" "leased_ip (dhcp w2) = leased_ip (dhcp w)" "netmask (dhcp w2) = netmask (dhcp w)"
      using p s(4-7) by (auto simp: after_resend_def simp del: dhcp_client.simps intro: same_config_trans)
    show ?thesis unfolding safe_bindR
      by (rule safe_mono [OF returns_safe [OF try_read_ack_returns [OF q(1,2)]]])
        (use q assms(3) in \<open>auto simp: dhcp_step_simps split: option.splits bool.splits\<close>)
  qed
  note step = this
  show ?thesis
    unfolding dhcp_task_def assms(3) dhcp_status.case x prod.case Let_def safe_bindR [of "resend _ _ _"]
    by (rule safe_mono [OF resend_round [OF s(1,2,3)] step])
qed

lemma dhcp_timed_safe:
  assumes "dhcp_inv X ok H w" and "replies_fit X w" and "dhcp_status (dhcp w) \<in> {DHCP_BOUND, DHCP_REBINDING}"
  shows "returns (dhcp_task X w) (\<lambda>w'. dhcp_inv X ok H w' \<and> dhcp_step_ok w w')"
proof -
  obtain t w1 where n: "now X w = (t, w1)" by fastforce
  have i: "udp_inv X ok H w1 \<and> replies_fit X w1 \<and> same_config w w1 \<and> dhcp w1 = dhcp w"
    by (rule now_inv [OF n _ assms(2)]) (use assms(1) in \<open>simp add: dhcp_inv_def\<close>)
  then show ?thesis
    using assms(1,3) n by (auto simp: dhcp_task_def renewing_expired_def dhcp_step_simps)
qed

lemma dhcp_task_safe:
  assumes "dhcp_inv X ok H w"
  shows "safe (dhcp_task X w) (\<lambda>w'. dhcp_inv X ok H w' \<and> dhcp_step_ok w w')"
proof -
  have "udp_inv X ok H w" using assms by (simp add: dhcp_inv_def)
  then have fit: "replies_fit X w" by (rule udp_inv_replies_fit)
  show ?thesis
  proof (cases "dhcp_status (dhcp w)")
  case DHCP_DISABLED
  then show ?thesis using assms by (simp add: dhcp_task_def dhcp_step_ok_def dhcp_next_def)
next
  case DHCP_ERROR
  then show ?thesis using assms by (simp add: dhcp_task_def dhcp_step_ok_def dhcp_next_def)
next
  case DHCP_BOUND
  then show ?thesis by (intro returns_safe dhcp_timed_safe assms fit) simp
next
  case DHCP_REBINDING
  then show ?thesis by (intro returns_safe dhcp_timed_safe assms fit) simp
qed (intro dhcp_discover_safe dhcp_requesting_safe dhcp_renewing_safe assms fit; assumption)+
qed

text \<open>Starting the client takes a connection and enters the first state, with a fresh timer.\<close>

lemma dhcp_start_inv:
  assumes "dhcp_inv X ok H w" and "free_connections X w \<noteq> []"
  shows "returns (dhcp_start X w) (\<lambda>w'. dhcp_inv X ok H w' \<and> same_config w w' \<and> dhcp_status (dhcp w') = DHCP_DISCOVER \<and>
    backoff_count (dhcp_backoff (dhcp w')) = 0 \<and> find_connection X DHCP_CLIENT_PORT w' = Some (hd (free_connections X w)))"
proof -
  let ?w = "set_dhcp (\<lambda>k. k\<lparr>dhcp_status := DHCP_DISCOVER\<rparr>) w"
  obtain r w1 where d: "draw_random X ?w = (r, w1)" by fastforce
  then have w1: "w1 = ?w\<lparr>env := env w1\<rparr>" by (auto simp: draw_random_def split: prod.splits)
  obtain t w2 where n: "now X (set_dhcp (\<lambda>k. k\<lparr>transaction_id := r\<rparr>) w1) = (t, w2)" by fastforce
  have w2: "w2 = (set_dhcp (\<lambda>k. k\<lparr>transaction_id := r\<rparr>) w1)\<lparr>env := env w2\<rparr>" by (rule now_env [OF n])
  let ?w3 = "set_dhcp (\<lambda>k. k\<lparr>dhcp_time := t, dhcp_backoff :=
      backoff_init (dhcp_backoff k) DHCP_START_TIMEOUT DHCP_MAX_TIMEOUT DHCP_JITTER_FRACTION\<rparr>) w2"
  have e: "w2 = (set_dhcp (\<lambda>k. k\<lparr>dhcp_status := DHCP_DISCOVER, transaction_id := r\<rparr>) w)\<lparr>env := env w2\<rparr>"
    by (subst w2, subst w1) (simp add: set_dhcp_def)
  have u2: "udp_inv X ok H w2" using assms(1) by (subst e) (simp add: dhcp_inv_def)
  have f2: "free_connections X w2 = free_connections X w" "same_config w w2" "dhcp_status (dhcp w2) = DHCP_DISCOVER"
    by (subst e, simp add: free_connections_def set_dhcp_def same_config_def)+
  have u: "udp_inv X ok H ?w3" and f: "free_connections X ?w3 = free_connections X w" "same_config w ?w3"
    using u2 f2 by simp_all
  have b: "backoff_ok X (dhcp_backoff (dhcp ?w3))" "backoff_count (dhcp_backoff (dhcp ?w3)) = 0"
    by (simp_all add: backoff_init_ok) (simp add: backoff_init_def backoff_reset_def)
  have s: "dhcp_status (dhcp ?w3) = DHCP_DISCOVER" using f2(3) by simp
  have "free_connections X ?w3 \<noteq> []" using f(1) assms(2) by simp
  note l = udp_listen_cases(2) [OF u this, of DHCP_CLIENT_PORT 1]
  have "returns (udp_listen X DHCP_CLIENT_PORT 1 ?w3) (\<lambda>w'. dhcp_inv X ok H w' \<and> same_config w w' \<and>
      dhcp_status (dhcp w') = DHCP_DISCOVER \<and> backoff_count (dhcp_backoff (dhcp w')) = 0 \<and>
      find_connection X DHCP_CLIENT_PORT w' = Some (hd (free_connections X w)))"
  proof (rule returns_mono [OF l], elim conjE)
    fix w'
    assume i: "udp_inv X ok H w'" "udp_frame ?w3 w'" "find_connection X DHCP_CLIENT_PORT w' = Some (hd (free_connections X ?w3))"
    have "dhcp w' = dhcp ?w3" using i(2) by (intro dhcp_of_more(1)) (simp add: udp_frame_def)
    then show "dhcp_inv X ok H w' \<and> same_config w w' \<and> dhcp_status (dhcp w') = DHCP_DISCOVER \<and>
      backoff_count (dhcp_backoff (dhcp w')) = 0 \<and> find_connection X DHCP_CLIENT_PORT w' = Some (hd (free_connections X w))"
    proof -
      assume k: "dhcp w' = dhcp ?w3"
      have "same_config ?w3 w'" using i(2) by (simp only: udp_frame_def)
      then have c: "same_config w w'" by (rule same_config_trans [OF f(2)])
      have "dhcp_inv X ok H w'" unfolding dhcp_inv_def k by (intro conjI impI i(1) b(1))
      moreover have "dhcp_status (dhcp w') = DHCP_DISCOVER" "backoff_count (dhcp_backoff (dhcp w')) = 0"
        unfolding k by (rule s, rule b(2))
      ultimately show ?thesis using c i(3) f(1) by simp
    qed
  qed
  then show ?thesis using d n by (simp add: dhcp_start_def)
qed

end

end
