(* ===== verification/Tftp.thy ===== *)
theory Tftp
  imports Udp Backoff
begin

text \<open>
  \<open>tftp.c\<close>: the TFTP client, which downloads one file block by block.  The \<open>TftpConnection\<close> belongs
  to the caller, so the operations take it and return it.
\<close>

section \<open>Data\<close>

abbreviation TFTP_BACKOFF_START_TIMEOUT :: u32 where "TFTP_BACKOFF_START_TIMEOUT \<equiv> 500"
abbreviation TFTP_BACKOFF_MAX_TIMEOUT :: u32 where "TFTP_BACKOFF_MAX_TIMEOUT \<equiv> 10000"
abbreviation TFTP_BACKOFF_JITTER_FRACTION :: int where "TFTP_BACKOFF_JITTER_FRACTION \<equiv> 4"
abbreviation TFTP_INITIAL_SERVER_PORT :: u16 where "TFTP_INITIAL_SERVER_PORT \<equiv> 69"
abbreviation TFTP_CLIENT_PORT :: u16 where "TFTP_CLIENT_PORT \<equiv> 23456"
abbreviation TFTP_MAX_FILENAME_LENGTH :: int where "TFTP_MAX_FILENAME_LENGTH \<equiv> 64"

abbreviation TFTP_OPCODE_READ_REQUEST :: u16 where "TFTP_OPCODE_READ_REQUEST \<equiv> 1"
abbreviation TFTP_OPCODE_ACK :: u16 where "TFTP_OPCODE_ACK \<equiv> 4"
abbreviation TFTP_OPCODE_ERROR :: u16 where "TFTP_OPCODE_ERROR \<equiv> 5"
abbreviation TFTP_OPCODE_OACK :: u16 where "TFTP_OPCODE_OACK \<equiv> 6"

abbreviation TFTP_ERROR_NOT_DEFINED :: u16 where "TFTP_ERROR_NOT_DEFINED \<equiv> 0"
abbreviation TFTP_ERROR_UNKNOWN_TID :: u16 where "TFTP_ERROR_UNKNOWN_TID \<equiv> 5"

datatype tftp_result = TFTP_STATUS_OK | TFTP_STATUS_ERROR | TFTP_STATUS_RETRY

datatype tftp_status = TFTP_STATE_REQUEST | TFTP_STATE_READ | TFTP_STATE_DONE | TFTP_STATE_ERROR

record tftp_connection =
  tftp_server_ip :: u32
  client_port :: u16
  server_port :: u16
  block_number :: u16
  tftp_status :: tftp_status
  tftp_time :: u32
  tftp_backoff :: backoff
  filename :: "u8 list"

text \<open>\<open>TftpDataHeader\<close>: opcode at 0, block number at 2.\<close>

abbreviation TFTP_DATA_HEADER_SIZE :: int where "TFTP_DATA_HEADER_SIZE \<equiv> 4"

text \<open>The string literals, with their terminating zero.\<close>

definition str_octet :: "u8 list" where "str_octet = [0x6F, 0x63, 0x74, 0x65, 0x74, 0]"
definition str_blksize :: "u8 list" where "str_blksize = [0x62, 0x6C, 0x6B, 0x73, 0x69, 0x7A, 0x65, 0]"
definition str_512 :: "u8 list" where "str_512 = [0x35, 0x31, 0x32, 0]"
definition str_wrong_port :: "u8 list" where
  "str_wrong_port = [0x77, 0x72, 0x6F, 0x6E, 0x67, 0x20, 0x70, 0x6F, 0x72, 0x74, 0]"

section \<open>Starting a download\<close>

text \<open>
  \<open>for (int i = 0; i < TFTP_MAX_FILENAME_LENGTH && filename[i]; i++)\<close>; the test for zero inside the
  loop is the one of the loop condition.
\<close>

function copy_filename :: "int \<Rightarrow> u8 list \<Rightarrow> u8 list \<Rightarrow> (u8 list) result" where
  "copy_filename i source dest =
     (if i < TFTP_MAX_FILENAME_LENGTH then
        bindR (get_byte source i) (\<lambda>c.
        if c = 0 then Inr dest
        else bindR (put_byte c dest i) (\<lambda>dest.
             if c = 0 then Inr dest else copy_filename (i + 1) source dest))
      else Inr dest)"
  by pat_completeness auto
termination by (relation "measure (\<lambda>(i, _, _). nat (TFTP_MAX_FILENAME_LENGTH - i))") auto

declare copy_filename.simps [simp del]

definition tftp_download_file ::
  "('e, 'h) libs \<Rightarrow> tftp_connection \<Rightarrow> u8 list \<Rightarrow> u32 \<Rightarrow> ('e, 'h, 'z) udp_state_scheme \<Rightarrow>
   (tftp_connection \<times> ('e, 'h, 'z) udp_state_scheme) result" where
  "tftp_download_file X c name ip w =
     (let c = c\<lparr>client_port := TFTP_CLIENT_PORT, server_port := TFTP_INITIAL_SERVER_PORT, tftp_server_ip := ip,
                tftp_status := TFTP_STATE_REQUEST, block_number := 0\<rparr> in
     bindR (udp_listen X (client_port c) 1 w) (\<lambda>w.
     let c = c\<lparr>tftp_backoff := backoff_init (tftp_backoff c) TFTP_BACKOFF_START_TIMEOUT TFTP_BACKOFF_MAX_TIMEOUT
                 TFTP_BACKOFF_JITTER_FRACTION\<rparr> in
     bindR (copy_filename 0 name (filename c)) (\<lambda>name.
     Inr (c\<lparr>filename := name\<rparr>, w))))"

section \<open>Sending\<close>

text \<open>\<open>while (*string) { *dest++ = *string++; } *dest++ = 0;\<close> from position \<open>i\<close> of the string.\<close>

function add_string_from :: "u8 list \<Rightarrow> int \<Rightarrow> u8 list \<times> int \<Rightarrow> (u8 list \<times> int) result" where
  "add_string_from string i (d, off) =
     bindR (get_byte string i) (\<lambda>c.
     if c \<noteq> 0 then bindR (put_byte c d off) (\<lambda>d. add_string_from string (i + 1) (d, off + 1))
     else bindR (put_byte 0 d off) (\<lambda>d. Inr (d, off + 1)))"
  by pat_completeness auto
termination
  by (relation "measure (\<lambda>(string, i, _). nat (int (length string) - i))")
    (auto simp: get_byte_def in_range_def split: if_splits)

declare add_string_from.simps [simp del]

definition add_string_followed_by_zero :: "u8 list \<Rightarrow> u8 list \<times> int \<Rightarrow> (u8 list \<times> int) result" where
  "add_string_followed_by_zero string = add_string_from string 0"

definition write_tftp_request :: "u8 list \<Rightarrow> int \<Rightarrow> u8 list \<Rightarrow> (u8 list \<times> int) result" where
  "write_tftp_request name off d =
     bindR (write_be16 TFTP_OPCODE_READ_REQUEST d off) (\<lambda>d.
     bindR (add_string_followed_by_zero name (d, off + 2)) (\<lambda>r.
     bindR (add_string_followed_by_zero str_octet r) (\<lambda>r.
     bindR (add_string_followed_by_zero str_blksize r) (\<lambda>r.
     add_string_followed_by_zero str_512 r))))"

definition send_tftp_request ::
  "('e, 'h) libs \<Rightarrow> tftp_connection \<Rightarrow> ('e, 'h, 'z) arp_state_scheme \<Rightarrow> (('e, 'h, 'z) arp_state_scheme) result" where
  "send_tftp_request X c w =
     bindR (allocate_network_packet X w) (\<lambda>(p, w).
     let off = index (packets w p) in
     bindR (write_tftp_request (filename c) off (data (packets w p))) (\<lambda>(d, pos).
     udp_send_zero_copy X p (client_port c) (server_port c) (tftp_server_ip c)
       (set_packet p (\<lambda>k. k\<lparr>data := d, plength := pos - off\<rparr>) w)))"

definition write_tftp_ack :: "u16 \<Rightarrow> int \<Rightarrow> u8 list \<Rightarrow> (u8 list) result" where
  "write_tftp_ack block off d =
     bindR (write_be16 TFTP_OPCODE_ACK d off) (\<lambda>d. write_be16 block d (off + 2))"

definition ack_current_block ::
  "('e, 'h) libs \<Rightarrow> tftp_connection \<Rightarrow> ('e, 'h, 'z) arp_state_scheme \<Rightarrow> (('e, 'h, 'z) arp_state_scheme) result" where
  "ack_current_block X c w =
     bindR (allocate_network_packet X w) (\<lambda>(p, w).
     bindR (with_data p (write_tftp_ack (block_number c) (index (packets w p))) w) (\<lambda>w.
     udp_send_zero_copy X p (client_port c) (server_port c) (tftp_server_ip c)
       (set_packet p (\<lambda>k. k\<lparr>plength := 4\<rparr>) w)))"

definition write_tftp_error :: "u16 \<Rightarrow> u8 list \<Rightarrow> int \<Rightarrow> u8 list \<Rightarrow> (u8 list \<times> int) result" where
  "write_tftp_error code message off d =
     bindR (write_be16 TFTP_OPCODE_ERROR d off) (\<lambda>d.
     bindR (write_be16 code d (off + 2)) (\<lambda>d.
     add_string_followed_by_zero message (d, off + 4)))"

definition send_error_to ::
  "('e, 'h) libs \<Rightarrow> tftp_connection \<Rightarrow> u16 \<Rightarrow> u16 \<Rightarrow> u8 list \<Rightarrow> ('e, 'h, 'z) arp_state_scheme \<Rightarrow>
   (('e, 'h, 'z) arp_state_scheme) result" where
  "send_error_to X c dest_port code message w =
     bindR (allocate_network_packet X w) (\<lambda>(p, w).
     let off = index (packets w p) in
     bindR (write_tftp_error code message off (data (packets w p))) (\<lambda>(d, pos).
     udp_send_zero_copy X p (client_port c) dest_port (tftp_server_ip c)
       (set_packet p (\<lambda>k. k\<lparr>data := d, plength := pos - off\<rparr>) w)))"

definition send_error ::
  "('e, 'h) libs \<Rightarrow> tftp_connection \<Rightarrow> u16 \<Rightarrow> u8 list \<Rightarrow> ('e, 'h, 'z) arp_state_scheme \<Rightarrow>
   (('e, 'h, 'z) arp_state_scheme) result" where
  "send_error X c code message w = send_error_to X c (server_port c) code message w"

section \<open>Receiving\<close>

text \<open>
  \<open>compare_option\<close> from position \<open>i\<close> of the string; the result holds the new value of \<open>*data\<close>.
  When the strings differ \<open>*data\<close> keeps its value \<open>start\<close>.
\<close>

function compare_option_from :: "u8 list \<Rightarrow> int \<Rightarrow> int \<Rightarrow> int \<Rightarrow> u8 list \<Rightarrow> int \<Rightarrow> (bool \<times> int) result" where
  "compare_option_from d start source fin string i =
     bindR (if source \<noteq> fin then bindR (get_byte string i) (\<lambda>c. Inr (c \<noteq> 0)) else Inr False) (\<lambda>more.
     if more then
       bindR (get_byte string i) (\<lambda>c.
       bindR (get_byte d source) (\<lambda>b.
       if c \<noteq> b then Inr (False, start)
       else compare_option_from d start (source + 1) fin string (i + 1)))
     else if source \<noteq> fin then bindR (get_byte d source) (\<lambda>b. Inr (b = 0, source + 1))
     else Inr (False, source + 1))"
  by pat_completeness auto
termination
  by (relation "measure (\<lambda>(_, _, _, _, string, i). nat (int (length string) - i))")
    (auto simp: get_byte_def in_range_def split: if_splits)

declare compare_option_from.simps [simp del]

definition compare_option :: "u8 list \<Rightarrow> int \<Rightarrow> int \<Rightarrow> u8 list \<Rightarrow> (bool \<times> int) result" where
  "compare_option d start fin string = compare_option_from d start start fin string 0"

definition read_oack :: "u8 list \<Rightarrow> int \<Rightarrow> int \<Rightarrow> bool result" where
  "read_oack d off fin =
     bindR (read_be16 d off) (\<lambda>opcode.
     if opcode \<noteq> TFTP_OPCODE_OACK then Inr False else
     bindR (compare_option d (off + 2) fin str_blksize) (\<lambda>(same, off).
     if \<not> same then Inr False else
     bindR (compare_option d off fin str_512) (\<lambda>(same, off).
     if \<not> same then Inr False else Inr True)))"

definition try_read_oack ::
  "('e, 'h) libs \<Rightarrow> tftp_connection \<Rightarrow> ('e, 'h, 'z) udp_state_scheme \<Rightarrow>
   (tftp_result \<times> tftp_connection \<times> ('e, 'h, 'z) udp_state_scheme) result" where
  "try_read_oack X c w =
     bindR (udp_receive_zero_copy X (client_port c) w) (\<lambda>(r, w).
     case r of
       None \<Rightarrow> Inr (TFTP_STATUS_RETRY, c, w)
     | Some p \<Rightarrow>
         if plength (packets w p) < 2 then Inr (TFTP_STATUS_RETRY, c, w)
         else
           let d = data (packets w p); off = index (packets w p) in
           bindR (read_oack d off (off + plength (packets w p))) (\<lambda>valid.
           if valid then
             Inr (TFTP_STATUS_OK, c\<lparr>server_port := source_port (packets w p)\<rparr>, free_network_packet X p w)
           else Inr (TFTP_STATUS_ERROR, c, free_network_packet X p w)))"

text \<open>
  \<open>limit(size, packet->length - sizeof(TftpDataHeader))\<close> compares in \<open>size_t\<close>; the value is then
  converted to \<open>int\<close>.  \<open>connection->block_number + 1\<close> is an \<open>int\<close>.
\<close>

definition limit_block :: "int \<Rightarrow> int \<Rightarrow> int" where
  "limit_block n packet_length =
     (if size_t n < size_t packet_length - size_t TFTP_DATA_HEADER_SIZE then sint (size_t n)
      else sint (size_t packet_length - size_t TFTP_DATA_HEADER_SIZE))"

definition try_read_data ::
  "('e, 'h) libs \<Rightarrow> tftp_connection \<Rightarrow> u8 list \<Rightarrow> int \<Rightarrow> ('e, 'h, 'z) udp_state_scheme \<Rightarrow>
   (int \<times> tftp_connection \<times> u8 list \<times> ('e, 'h, 'z) udp_state_scheme) result" where
  "try_read_data X c buffer n w =
     bindR (udp_receive_zero_copy X (client_port c) w) (\<lambda>(r, w).
     case r of
       None \<Rightarrow> Inr (0, c, buffer, w)
     | Some p \<Rightarrow>
         let d = data (packets w p); off = index (packets w p) in
         bindR (read_be16 d off) (\<lambda>opcode.
         bindR (read_be16 d (off + 2)) (\<lambda>block.
         if server_port c \<noteq> TFTP_INITIAL_SERVER_PORT \<and> server_port c \<noteq> source_port (packets w p) then
           bindR (send_error_to X c (source_port (packets w p)) TFTP_ERROR_UNKNOWN_TID str_wrong_port w) (\<lambda>w.
           Inr (0, c, buffer, free_network_packet X p w))
         else if block = block_number c then
           bindR (ack_current_block X c w) (\<lambda>w. Inr (0, c, buffer, free_network_packet X p w))
         else if uint block = uint (block_number c) + 1 then
           let n = limit_block n (plength (packets w p)); c = c\<lparr>block_number := block\<rparr> in
           bindR (memory_copy d (off + TFTP_DATA_HEADER_SIZE) buffer 0 n) (\<lambda>buffer.
           Inr (n, c, buffer, free_network_packet X p w))
         else Inr (0, c, buffer, free_network_packet X p w))))"

section \<open>Reading the file\<close>

text \<open>\<open>if (backoff_timeout(..)) { ..; next_backoff(..); }\<close>, which both states have.\<close>

definition tftp_resend ::
  "('e, 'h) libs \<Rightarrow> (('e, 'h, 'z) udp_state_scheme \<Rightarrow> (('e, 'h, 'z) udp_state_scheme) result) \<Rightarrow>
   tftp_connection \<Rightarrow> ('e, 'h, 'z) udp_state_scheme \<Rightarrow> (tftp_connection \<times> ('e, 'h, 'z) udp_state_scheme) result" where
  "tftp_resend X send c w =
     (case backoff_timeout X (tftp_backoff c) w of (expired, w) \<Rightarrow>
      if expired then
        bindR (send w) (\<lambda>w.
        bindR (next_backoff X (tftp_backoff c) w) (\<lambda>(b, w).
        Inr (c\<lparr>tftp_backoff := b\<rparr>, w)))
      else Inr (c, w))"

definition tftp_read ::
  "('e, 'h) libs \<Rightarrow> tftp_connection \<Rightarrow> u8 list \<Rightarrow> int \<Rightarrow> ('e, 'h, 'z) udp_state_scheme \<Rightarrow>
   (int \<times> tftp_connection \<times> u8 list \<times> ('e, 'h, 'z) udp_state_scheme) result" where
  "tftp_read X c buffer n w =
     (if tftp_status c = TFTP_STATE_REQUEST then
        bindR (tftp_resend X (send_tftp_request X c) c w) (\<lambda>(c, w).
        bindR (try_read_oack X c w) (\<lambda>(status, c, w).
        let c = (if status = TFTP_STATUS_OK
                 then c\<lparr>tftp_backoff := backoff_reset (tftp_backoff c), tftp_status := TFTP_STATE_READ, block_number := 0\<rparr>
                 else c);
            c = (if status = TFTP_STATUS_ERROR then c\<lparr>tftp_status := TFTP_STATE_ERROR\<rparr> else c)
        in Inr (0, c, buffer, w)))
      else if tftp_status c = TFTP_STATE_READ then
        bindR (tftp_resend X (ack_current_block X c) c w) (\<lambda>(c, w).
        bindR (try_read_data X c buffer n w) (\<lambda>(n, c, buffer, w).
        if n \<noteq> 0 then
          let c = c\<lparr>tftp_backoff := backoff_reset (tftp_backoff c)\<rparr> in
          if n < 512 then
            bindR (ack_current_block X c w) (\<lambda>w. Inr (n, c\<lparr>tftp_status := TFTP_STATE_DONE\<rparr>, buffer, w))
          else Inr (n, c, buffer, w)
        else Inr (0, c, buffer, w)))
      else Inr (0, c, buffer, w))"

definition tftp_abort_download ::
  "('e, 'h) libs \<Rightarrow> tftp_connection \<Rightarrow> u8 list \<Rightarrow> ('e, 'h, 'z) arp_state_scheme \<Rightarrow>
   (('e, 'h, 'z) arp_state_scheme) result" where
  "tftp_abort_download X c message w = send_error X c TFTP_ERROR_NOT_DEFINED message w"

end
