(* ===== verification/Stack.thy ===== *)
theory Stack
  imports Dhcp_Machine Tftp
begin

text \<open>
  The operations of \<open>network.c\<close> that call the other components: \<open>network_init\<close>, \<open>network_task\<close>
  and \<open>set_our_mac\<close>.
\<close>

definition network_init :: "('e, 'h) libs \<Rightarrow> ('e, 'h, 'z) udp_state_scheme \<Rightarrow> ('e, 'h, 'z) udp_state_scheme" where
  "network_init X w = udp_init X (arp_init X (init_packet_pool X w))"

fun receive_packets ::
  "('e, 'h) libs \<Rightarrow> nat \<Rightarrow> ('e, 'h, 'z) udp_state_scheme \<Rightarrow> (('e, 'h, 'z) udp_state_scheme) result" where
  "receive_packets X 0 w = Inr w"
| "receive_packets X (Suc n) w =
     bindR (gmac_receive X w) (\<lambda>(r, w).
     case r of
       None \<Rightarrow> Inr w
     | Some p \<Rightarrow> bindR (handle_mac X p w) (receive_packets X n))"

definition network_task ::
  "('e, 'h) libs \<Rightarrow> ('e, 'h, 'z) dhcp_state_scheme \<Rightarrow> (('e, 'h, 'z) dhcp_state_scheme) result" where
  "network_task X w =
     bindR (receive_packets X RECEIVE_DESCRIPTOR_COUNT w) (\<lambda>w.
     bindR (arp_task X w) (dhcp_task X))"

definition set_our_mac :: "mac \<Rightarrow> ('e, 'h, 'z) gmac_state_scheme \<Rightarrow> (('e, 'h, 'z) gmac_state_scheme) result" where
  "set_our_mac mac w =
     bindR (memory_copy mac 0 (our_mac w) 0 6) (\<lambda>m.
     Inr (gmac_set_mac_address mac (w\<lparr>our_mac := m\<rparr>)))"

end
