(* ===== verification/Stack_Invariant.thy ===== *)
theory Stack_Invariant
  imports Stack
begin

text \<open>
  The invariant of the whole stack is kept by the receive loop and by \<open>network_task\<close>, whatever the
  network sends, up to the conditions of \<open>acceptable\<close> on each frame.
\<close>

section \<open>Frames\<close>

text \<open>
  A received frame is acceptable if it is shorter than the buffer it was received into, and, when it
  carries ICMP over IPv4, meets the conditions of \<open>answerable\<close>.
\<close>

definition acceptable :: "('e, 'h) libs \<Rightarrow> nat \<Rightarrow> ('e, 'h, 'z) arp_state_scheme \<Rightarrow> bool" where
  "acceptable X p w \<longleftrightarrow> plength (packets w p) < NETWORK_PACKET_SIZE \<and>
     (read_be16 (data (packets w p)) 12 = Inr ETHER_TYPE_IPV4 \<longrightarrow> answerable X 14 p w)"

text \<open>The frames the next \<open>n\<close> rounds of the receive loop take from the driver are acceptable.\<close>

fun acceptable_frames :: "('e, 'h) libs \<Rightarrow> nat \<Rightarrow> ('e, 'h, 'z) udp_state_scheme \<Rightarrow> bool" where
  "acceptable_frames X 0 w = True"
| "acceptable_frames X (Suc n) w =
     (case gmac_receive X w of
        Inr (Some p, w) \<Rightarrow>
          acceptable X p w \<and> (case handle_mac X p w of Inr w \<Rightarrow> acceptable_frames X n w | Inl _ \<Rightarrow> True)
      | _ \<Rightarrow> True)"

section \<open>The receive loop\<close>

context intrusive_list
begin

lemma receive_udp_safe:
  assumes "udp_inv X ok H w"
  shows "safe (gmac_receive X w) (\<lambda>(r, w'). udp_frame w w' \<and> (case r of
      None \<Rightarrow> udp_inv X ok H w'
    | Some p \<Rightarrow> udp_inv X ok (add_mset p H) w' \<and> packet_ok (packets w' p) \<and> index (packets w' p) = 0))"
proof -
  have g: "gmac_inv X ok H w" and e: "entries_inv X ok w" and c: "connections_inv X ok w"
    using assms by (simp_all add: udp_inv_def arp_inv_def)
  have lift: "entries_inv X ok w' \<and> connections_inv X ok w' \<and> udp_frame w w'"
    if u: "untouched X {} w w'" and m: "gmac_state.more w' = gmac_state.more w" and s: "same_config w w'" for w'
  proof -
    note f = arp_fields_of_more [OF m]
    note f2 = udp_fields_of_more [OF f(3)]
    show ?thesis
      using entries_inv_cong [OF e f(1,2) u] connections_inv_cong [OF c f2(1,2) u] f2(3) s
      by (simp add: udp_frame_def)
  qed
  show ?thesis
    by (rule safe_mono [OF gmac_receive_safe [OF g]])
      (use lift in \<open>auto simp: udp_inv_def arp_inv_def split: option.splits\<close>)
qed

lemma receive_packets_safe:
  assumes "udp_inv X ok H w" and "acceptable_frames X n w"
  shows "safe (receive_packets X n w) (\<lambda>w'. udp_inv X ok H w' \<and> udp_frame w w')"
  using assms
proof (induction n arbitrary: w)
  case 0
  then show ?case by simp
next
  case (Suc n)
  note r = receive_udp_safe [OF Suc.prems(1)]
  show ?case
  proof (cases "gmac_receive X w")
    case (Inl e)
    then show ?thesis using r by simp
  next
    case (Inr a)
    obtain q w1 where a: "a = (q, w1)" by (cases a)
    have post: "udp_frame w w1" "case q of None \<Rightarrow> udp_inv X ok H w1
      | Some p \<Rightarrow> udp_inv X ok (add_mset p H) w1 \<and> packet_ok (packets w1 p) \<and> index (packets w1 p) = 0"
      using r Inr a by simp_all
    show ?thesis
    proof (cases q)
      case None
      then show ?thesis using Inr a post by simp
    next
      case (Some p)
      have ac: "acceptable X p w1" and rest: "\<And>w2. handle_mac X p w1 = Inr w2 \<Longrightarrow> acceptable_frames X n w2"
        using Suc.prems(2) Inr a Some by auto
      have h: "safe (handle_mac X p w1) (\<lambda>w'. udp_inv X ok H w' \<and> udp_frame w1 w')"
        using post Some ac by (intro handle_mac_safe) (auto simp: acceptable_def)
      have "safe (handle_mac X p w1) (\<lambda>w2. safe (receive_packets X n w2) (\<lambda>w'. udp_inv X ok H w' \<and> udp_frame w w'))"
      proof (rule safe_mono [OF h])
        fix w2 assume s: "handle_mac X p w1 = Inr w2" and i: "udp_inv X ok H w2 \<and> udp_frame w1 w2"
        show "safe (receive_packets X n w2) (\<lambda>w'. udp_inv X ok H w' \<and> udp_frame w w')"
          by (rule safe_mono [OF Suc.IH [OF _ rest [OF s]]])
            (use i post(1) in \<open>auto intro: udp_frame_trans\<close>)
      qed
      then show ?thesis using Inr a Some by simp
    qed
  qed
qed

lemma arp_task_udp_safe:
  assumes "udp_inv X ok H w"
  shows "safe (arp_task X w) (\<lambda>w'. udp_inv X ok H w' \<and> udp_frame w w')"
  using assms by (intro udp_inv_lift [OF assms] arp_task_safe) (simp add: udp_inv_def)

lemma dhcp_inv_frame:
  assumes "dhcp_inv X ok H w" and "udp_inv X ok H' w'" and "udp_frame w w'"
  shows "dhcp_inv X ok H' w'" and "dhcp w' = dhcp w" and "same_config w w'"
proof -
  show d: "dhcp w' = dhcp w" using assms(3) dhcp_of_more(1) by (auto simp: udp_frame_def)
  then show "dhcp_inv X ok H' w'" using assms by (simp add: dhcp_inv_def)
  show "same_config w w'" using assms(3) by (simp add: udp_frame_def)
qed

lemma network_task_safe:
  assumes "dhcp_inv X ok H w" and "acceptable_frames X RECEIVE_DESCRIPTOR_COUNT w"
  shows "safe (network_task X w) (\<lambda>w'. dhcp_inv X ok H w' \<and> dhcp_step_ok w w')"
proof -
  have u: "udp_inv X ok H w" using assms by (simp add: dhcp_inv_def)
  have tail: "safe (bindR (arp_task X w1) (dhcp_task X)) (\<lambda>w'. dhcp_inv X ok H w' \<and> dhcp_step_ok w w')"
    if w1: "udp_inv X ok H w1" "udp_frame w w1" for w1
    unfolding safe_bindR
  proof (rule safe_mono [OF arp_task_udp_safe [OF w1(1)]], elim conjE)
    fix w2 assume w2: "udp_inv X ok H w2" "udp_frame w1 w2"
    note f = dhcp_inv_frame [OF assms(1) w2(1) udp_frame_trans [OF w1(2) w2(2)]]
    show "safe (dhcp_task X w2) (\<lambda>w'. dhcp_inv X ok H w' \<and> dhcp_step_ok w w')"
      by (rule safe_mono [OF dhcp_task_safe [OF f(1)]])
        (use f(2,3) in \<open>auto simp: dhcp_step_ok_def same_config_def\<close>)
  qed
  show ?thesis
    unfolding network_task_def safe_bindR [of "receive_packets _ _ _"]
    by (rule safe_mono [OF receive_packets_safe [OF u assms(2)]]) (use tail in blast)
qed

end

end
