(* ===== verification/Boot.thy ===== *)
theory Boot
  imports Stack_Invariant
begin

text \<open>
  Start-up: \<open>network_init\<close> builds the lists from uninitialised memory, \<open>gmac_init\<close> fills the rings,
  and the invariant of the whole stack holds.
\<close>

context intrusive_list
begin

lemma fold_add_first:
  assumes "ok S h" and "l \<in> S" and "\<forall>k\<in>S. list_elements X k h = []"
  shows "ok S (fold (\<lambda>i. list_add_first X i l) [0..<n] h) \<and>
    (\<forall>k\<in>S. list_elements X k (fold (\<lambda>i. list_add_first X i l) [0..<n] h) = (if k = l then rev [0..<n] else []))"
proof (induction n)
  case 0
  then show ?case using assms by simp
next
  case (Suc n)
  let ?h = "fold (\<lambda>i. list_add_first X i l) [0..<n] h"
  have "\<forall>k\<in>S. n \<notin> set (list_elements X k ?h)" using Suc by simp
  then show ?case using Suc assms(2) add_first_ok [of S ?h l n] add_first_elements [of S ?h l n] by simp
qed

lemma fold_init:
  assumes "ok S h"
  shows "ok (f ` {..<n} \<union> S) (fold (\<lambda>i. list_init X (f i)) [0..<n] h) \<and>
    (\<forall>k\<in>f ` {..<n} \<union> S. list_elements X k (fold (\<lambda>i. list_init X (f i)) [0..<n] h) =
      (if k \<in> f ` {..<n} then [] else list_elements X k h))"
proof (induction n)
  case 0
  then show ?case using assms by simp
next
  case (Suc n)
  let ?h = "fold (\<lambda>i. list_init X (f i)) [0..<n] h" and ?S = "f ` {..<n} \<union> S"
  have eq: "f ` {..<Suc n} \<union> S = insert (f n) ?S" by (auto simp: lessThan_Suc)
  show ?case
    unfolding eq using Suc init_ok [of ?S ?h "f n"] init_elements [of ?S ?h _ "f n"]
    by (auto simp: lessThan_Suc)
qed

end

text \<open>The two initialisation loops, as one loop over each memory.\<close>

lemma arp_init_fold:
  "fold (\<lambda>i w. w\<lparr>packet_lists := list_init X (Entry_queue i) (packet_lists w),
      entry_lists := list_add_first X i Free_entries (entry_lists w)\<rparr>) is w =
   w\<lparr>packet_lists := fold (\<lambda>i. list_init X (Entry_queue i)) is (packet_lists w),
     entry_lists := fold (\<lambda>i. list_add_first X i Free_entries) is (entry_lists w)\<rparr>"
  by (induction "is" arbitrary: w) simp_all

lemma udp_init_fold:
  "fold (\<lambda>i w. w\<lparr>packet_lists := list_init X (Connection_queue i) (packet_lists w),
      connection_lists := list_add_first X i Free_connections (connection_lists w)\<rparr>) is w =
   w\<lparr>packet_lists := fold (\<lambda>i. list_init X (Connection_queue i)) is (packet_lists w),
     connection_lists := fold (\<lambda>i. list_add_first X i Free_connections) is (connection_lists w)\<rparr>"
  by (induction "is" arbitrary: w) simp_all

lemma packet_heads_split:
  "packet_heads = Connection_queue ` {..<16} \<union> (Entry_queue ` {..<8} \<union> {Free_packets})"
  by (auto simp: packet_heads_def)

lemma mset_upto: "mset (rev [0..<n]) = mset_set {..<n}"
  by (simp add: atLeast0LessThan)

text \<open>The memory before start-up: every array has its size, every buffer its bytes.\<close>

definition memory_ok :: "('e, 'h, 'z) udp_state_scheme \<Rightarrow> bool" where
  "memory_ok w \<longleftrightarrow> buffers_ok w \<and>
     length (tx_packets w) = TRANSMIT_DESCRIPTOR_COUNT \<and> length (tx_descriptors w) = TRANSMIT_DESCRIPTOR_COUNT \<and>
     length (rx_packets w) = RECEIVE_DESCRIPTOR_COUNT \<and> length (rx_descriptors w) = RECEIVE_DESCRIPTOR_COUNT \<and>
     (\<forall>i<RECEIVE_DESCRIPTOR_COUNT. uint (rx_length (rx_descriptors w ! i)) \<le> NETWORK_PACKET_SIZE) \<and>
     (\<forall>e. length (entry_mac (arp_entries w e)) = 6)"

context intrusive_list
begin

lemma network_init_lists:
  fixes w :: "('e, 'h, 'z) udp_state_scheme"
  defines "w' \<equiv> network_init X w"
  shows "pool X ok {#} (packet_lists w')" and "list_elements X Free_packets (packet_lists w') = rev [0..<96]"
    and "\<And>k. k \<in> packet_heads \<Longrightarrow> k \<noteq> Free_packets \<Longrightarrow> list_elements X k (packet_lists w') = []"
    and "ok entry_heads (entry_lists w')" and "free_list X w' = rev [0..<8]" and "used_list X w' = []"
    and "ok connection_heads (connection_lists w')" and "free_connections X w' = rev [0..<16]"
    and "used_connections X w' = []"
    and "w' = w\<lparr>packet_lists := packet_lists w', entry_lists := entry_lists w', connection_lists := connection_lists w'\<rparr>"
proof -
  define h1 where "h1 = fold (\<lambda>i. list_add_first X i Free_packets) [0..<96] (list_init X Free_packets (packet_lists w))"
  define h2 where "h2 = fold (\<lambda>i. list_init X (Entry_queue i)) [0..<8] h1"
  define h3 where "h3 = fold (\<lambda>i. list_init X (Connection_queue i)) [0..<16] h2"
  define e where "e = fold (\<lambda>i. list_add_first X i Free_entries) [0..<8] (list_init X Used_entries (list_init X Free_entries (entry_lists w)))"
  define c where "c = fold (\<lambda>i. list_add_first X i Free_connections) [0..<16]
    (list_init X Used_connections (list_init X Free_connections (connection_lists w)))"
  have w': "w' = w\<lparr>packet_lists := h3, entry_lists := e, connection_lists := c\<rparr>"
    by (simp add: w'_def network_init_def init_packet_pool_def arp_init_def udp_init_def Let_def arp_init_fold udp_init_fold
        h1_def h2_def h3_def e_def c_def)
  have two: "ok {l, k} (list_init X l (list_init X k h)) \<and> (\<forall>j\<in>{l, k}. list_elements X j (list_init X l (list_init X k h)) = [])" for l k h
    using init_ok [OF ok_empty, of k h] init_ok [of "{k}" "list_init X k h" l] init_elements [of "{k}" "list_init X k h" _ l]
      init_elements [OF ok_empty, of k k h] by auto
  have h1: "ok {Free_packets} h1" "list_elements X Free_packets h1 = rev [0..<96]"
    unfolding h1_def using fold_add_first [of "{Free_packets}" "list_init X Free_packets (packet_lists w)" Free_packets 96]
      init_ok [OF ok_empty] init_elements [OF ok_empty] by auto
  note f2 = fold_init [OF h1(1), of Entry_queue 8, folded h2_def]
  note f3 = fold_init [OF conjunct1 [OF f2], of Connection_queue 16, folded h3_def, folded packet_heads_split]
  show free: "list_elements X Free_packets (packet_lists w') = rev [0..<96]"
    using f2 f3 h1 by (auto simp: w')
  show empty: "list_elements X k (packet_lists w') = []" if "k \<in> packet_heads" "k \<noteq> Free_packets" for k
    using f2 f3 that by (auto simp: w' packet_heads_split)
  have "listed X h3 = mset (rev [0..<96])"
  proof -
    have "listed X h3 = mset (list_elements X Free_packets h3) + (\<Sum>k\<in>packet_heads - {Free_packets}. mset (list_elements X k h3))"
      by (rule listed_split) simp
    also have "(\<Sum>k\<in>packet_heads - {Free_packets}. mset (list_elements X k h3)) = {#}"
      by (rule sum.neutral) (use empty in \<open>simp add: w'\<close>)
    finally show ?thesis using free by (simp add: w')
  qed
  then show "pool X ok {#} (packet_lists w')"
    using f3 by (simp add: pool_def w' all_packets_def atLeast0LessThan)
  have "ok entry_heads e \<and> (\<forall>k\<in>entry_heads. list_elements X k e = (if k = Free_entries then rev [0..<8] else []))"
    unfolding e_def using two [of Used_entries Free_entries] by (intro fold_add_first) (simp_all add: insert_commute)
  then show "ok entry_heads (entry_lists w')" "free_list X w' = rev [0..<8]" "used_list X w' = []"
    by (simp_all add: w' free_list_def used_list_def)
  have "ok connection_heads c \<and> (\<forall>k\<in>connection_heads. list_elements X k c = (if k = Free_connections then rev [0..<16] else []))"
    unfolding c_def using two [of Used_connections Free_connections] by (intro fold_add_first) (simp_all add: insert_commute)
  then show "ok connection_heads (connection_lists w')" "free_connections X w' = rev [0..<16]" "used_connections X w' = []"
    by (simp_all add: w' free_connections_def used_connections_def)
  show "w' = w\<lparr>packet_lists := packet_lists w', entry_lists := entry_lists w', connection_lists := connection_lists w'\<rparr>"
    by (simp add: w')
qed

lemma boot_inv:
  fixes w :: "('e, 'h, 'z) udp_state_scheme"
  assumes "phy_ready X" and "memory_ok w"
  shows "\<exists>w'. gmac_init X (network_init X w) = Inr w' \<and> udp_inv X ok {#} w' \<and> available X w' = 56 \<and>
    free_list X w' = rev [0..<8] \<and> used_list X w' = [] \<and> free_connections X w' = rev [0..<16] \<and> used_connections X w' = [] \<and>
    udp_state.more w' = udp_state.more w \<and> same_config w w'"
proof -
  define w1 where "w1 = network_init X w"
  note i = network_init_lists [where w = w, folded w1_def]
  have m: "memory_ok w1" using assms(2) by (subst i(10)) (simp add: memory_ok_def buffers_ok_def)
  have av: "available X w1 = 96" using i(2) by (simp add: available_def)
  obtain w' where g: "gmac_init X w1 = Inr w'" "gmac_inv X ok {#} w'" "available X w' + 40 = available X w1"
    and w': "w' = w1\<lparr>env := env w', packets := packets w', packet_lists := packet_lists w',
      tx_descriptors := tx_descriptors w', rx_descriptors := rx_descriptors w', tx_packets := tx_packets w',
      rx_packets := rx_packets w', tx_index := 0, rx_index := 0, regs := regs w'\<rparr>"
    using gmac_init_inv [OF assms(1) i(1)] av m by (auto simp: memory_ok_def)
  have same: "free_list X w' = rev [0..<8]" "used_list X w' = []" "free_connections X w' = rev [0..<16]"
    "used_connections X w' = []" "entry_lists w' = entry_lists w1" "connection_lists w' = connection_lists w1"
    "arp_entries w' = arp_entries w1" "udp_state.more w' = udp_state.more w1" "same_config w1 w'"
    using i(5,6,8,9)
    by (subst w', simp add: free_list_def used_list_def free_connections_def used_connections_def same_config_def)+
  have w1: "udp_state.more w1 = udp_state.more w" "same_config w w1" by (subst i(10), simp add: same_config_def)+
  have "size (listed X (packet_lists w')) + size ({#} + rings w') = 96"
    using pool_size [OF gmac_invD(1) [OF g(2)]] .
  moreover have "size (rings w') = 40" using g(2) by (simp add: gmac_inv_def rings_ok_def rings_def)
  ultimately have sz: "size (listed X (packet_lists w')) = length (list_elements X Free_packets (packet_lists w'))"
    using g(3) av by (simp add: available_def)
  have empty: "list_elements X k (packet_lists w') = []" if "k \<in> packet_heads" "k \<noteq> Free_packets" for k
  proof -
    have "size (\<Sum>k\<in>packet_heads - {Free_packets}. mset (list_elements X k (packet_lists w'))) = 0"
      using sz by (simp add: listed_split [of Free_packets])
    then have "\<forall>k\<in>packet_heads - {Free_packets}. mset (list_elements X k (packet_lists w')) = {#}"
      by (simp add: sum_eq_empty_iff)
    then show ?thesis using that by simp
  qed
  have "entries_inv X ok w'"
    using i(4) m empty
    by (auto simp: entries_inv_def same queue_of_def atLeast0LessThan memory_ok_def)
  moreover have "connections_inv X ok w'"
    using i(7) empty by (auto simp: connections_inv_def same datagrams_def atLeast0LessThan)
  ultimately show ?thesis
    using g av w1 same(1-4,8,9) by (auto simp: w1_def udp_inv_def arp_inv_def intro: same_config_trans)
qed

end

end
