(* ===== verification/Reachable.thy ===== *)
theory Reachable
  imports Boot
begin

text \<open>
  The stack as an open system.  A step is a call of the program that uses the stack, a run of
  \<open>network_task\<close>, or a move of the outside world: the Ethernet controller writes a received frame
  into a buffer it owns and hands the descriptor over, it finishes a transmission, and the clock,
  the random source and the status registers change.  \<open>stack_reachable\<close> are the states that these
  steps reach from a state after start-up.

  The premises on calls are those the code relies on: a buffer is as long as its caller says, a free
  connection is left for \<open>udp_listen\<close>, and the address cache has an entry or room for the receiver.  A
  program may set the addresses itself as long as it does not overwrite those of a lease in force.
\<close>

text \<open>The controller may write any bytes into the buffer it fills, and no more than the buffer holds.\<close>

definition hardware_receives ::
  "nat \<Rightarrow> u8 list \<Rightarrow> rx_descriptor \<Rightarrow> ('e, 'h, 'z) gmac_state_scheme \<Rightarrow> ('e, 'h, 'z) gmac_state_scheme" where
  "hardware_receives i bytes d w =
     set_packet (rx_packets w ! i) (\<lambda>k. k\<lparr>data := bytes\<rparr>)
       (w\<lparr>rx_descriptors := (rx_descriptors w)[i := d\<lparr>rx_owner := OWNER_CPU, rx_address := rx_address (rx_descriptors w ! i)\<rparr>]\<rparr>)"

definition hardware_sent :: "nat \<Rightarrow> ('e, 'h, 'z) gmac_state_scheme \<Rightarrow> ('e, 'h, 'z) gmac_state_scheme" where
  "hardware_sent i w = w\<lparr>tx_descriptors := (tx_descriptors w)[i := (tx_descriptors w ! i)\<lparr>tx_owner := OWNER_CPU\<rparr>]\<rparr>"

inductive stack_step :: "('e, 'h) libs \<Rightarrow> ('e, 'h, 'z) dhcp_state_scheme \<Rightarrow> ('e, 'h, 'z) dhcp_state_scheme \<Rightarrow> bool"
  for X where
  task: "acceptable_frames X RECEIVE_DESCRIPTOR_COUNT w \<Longrightarrow> network_task X w = Inr w' \<Longrightarrow> stack_step X w w'"
| send: "0 \<le> n \<Longrightarrow> n \<le> int (length payload) \<Longrightarrow> ip_room X ip w \<Longrightarrow>
     udp_send X payload n source dest ip w = Inr w' \<Longrightarrow> stack_step X w w'"
| receive: "0 \<le> n \<Longrightarrow> n \<le> int (length buffer) \<Longrightarrow> udp_receive X buffer n prt w = Inr (m, buffer', w') \<Longrightarrow> stack_step X w w'"
| listen: "free_connections X w \<noteq> [] \<Longrightarrow> udp_listen X prt m w = Inr w' \<Longrightarrow> stack_step X w w'"
| start: "free_connections X w \<noteq> [] \<Longrightarrow> dhcp_start X w = Inr w' \<Longrightarrow> stack_step X w w'"
| release: "dhcp_release X w = Inr w' \<Longrightarrow> stack_step X w w'"
| set_mac: "length mac = 6 \<Longrightarrow> set_our_mac mac w = Inr w' \<Longrightarrow> stack_step X w w'"
| set_ip: "\<not> dhcp_is_done w \<Longrightarrow> stack_step X w (set_our_ip ip w)"
| set_netmask: "\<not> dhcp_is_done w \<Longrightarrow> stack_step X w (set_our_netmask subnet w)"
| frame: "i < RECEIVE_DESCRIPTOR_COUNT \<Longrightarrow> rx_owner (rx_descriptors w ! i) = OWNER_GMAC \<Longrightarrow>
     length bytes = 1024 \<Longrightarrow> uint (rx_length d) \<le> NETWORK_PACKET_SIZE \<Longrightarrow> stack_step X w (hardware_receives i bytes d w)"
| sent: "i < TRANSMIT_DESCRIPTOR_COUNT \<Longrightarrow> stack_step X w (hardware_sent i w)"
| world: "stack_step X w (w\<lparr>env := v\<rparr>)"

inductive stack_reachable :: "('e, 'h) libs \<Rightarrow> ('e, 'h, 'z) dhcp_state_scheme \<Rightarrow> bool" for X where
  boot: "memory_ok w \<Longrightarrow> dhcp_status (dhcp w) = DHCP_DISABLED \<Longrightarrow> gmac_init X (network_init X w) = Inr w' \<Longrightarrow>
     stack_reachable X w'"
| step: "stack_reachable X w \<Longrightarrow> stack_step X w w' \<Longrightarrow> stack_reachable X w'"

section \<open>Every step keeps the invariant\<close>

lemma dhcp_inv_env [simp]: "dhcp_inv X ok H (w\<lparr>env := v\<rparr>) = dhcp_inv X ok H w"
  by (simp add: dhcp_inv_def)

text \<open>A move of the hardware touches no listed packet and no list.\<close>

lemma dhcp_inv_hardware:
  assumes "dhcp_inv X ok H w" and "gmac_inv X ok H w'" and "untouched X {} w w'"
    and "gmac_state.more w' = gmac_state.more w"
  shows "dhcp_inv X ok H w'"
proof -
  note f = arp_fields_of_more [OF assms(4)]
  note f2 = udp_fields_of_more [OF f(3)]
  have e: "entries_inv X ok w" and c: "connections_inv X ok w"
    using assms(1) by (simp_all add: dhcp_inv_def udp_inv_def arp_inv_def)
  show ?thesis
    using assms(1,2) entries_inv_cong [OF e f(1,2) assms(3)] connections_inv_cong [OF c f2(1,2) assms(3)]
      dhcp_of_more(1) [OF f2(3)]
    by (simp add: dhcp_inv_def udp_inv_def arp_inv_def)
qed

lemma hardware_sent_inv:
  assumes "gmac_inv X ok H w" and "i < TRANSMIT_DESCRIPTOR_COUNT"
  shows "gmac_inv X ok H (hardware_sent i w)"
  using assms by (auto simp: gmac_inv_def rings_def buffers_ok_def rings_ok_def hardware_sent_def nth_list_update)

lemma hardware_receives_inv:
  assumes "gmac_inv X ok H w" and "i < RECEIVE_DESCRIPTOR_COUNT" and "length bytes = 1024"
    and "uint (rx_length d) \<le> NETWORK_PACKET_SIZE"
  shows "gmac_inv X ok H (hardware_receives i bytes d w)"
  using assms by (auto simp: gmac_inv_def rings_def buffers_ok_def rings_ok_def hardware_receives_def set_packet_def nth_list_update)

lemma hardware_receives_untouched:
  assumes "gmac_inv X ok H w" and "i < RECEIVE_DESCRIPTOR_COUNT"
  shows "untouched X {} w (hardware_receives i bytes d w)"
proof -
  have "rx_packets w ! i \<in># rings w" using assms by (simp add: gmac_inv_def rings_ok_def rings_def)
  then obtain R where "rings w = add_mset (rx_packets w ! i) R" by (blast dest: multi_member_split)
  then have "pool X ok (add_mset (rx_packets w ! i) (H + R)) (packet_lists w)"
    using assms(1) by (simp add: gmac_inv_def)
  from this show ?thesis
    by (rule untouched_same_lists) (simp_all add: hardware_receives_def set_packet_def)
qed

text \<open>What a step may do to the DHCP client and to our addresses.\<close>

definition client_step :: "('e, 'h, 'z) dhcp_state_scheme \<Rightarrow> ('e, 'h, 'z) dhcp_state_scheme \<Rightarrow> bool" where
  "client_step w w' \<longleftrightarrow> dhcp_step_ok w w' \<or> dhcp_status (dhcp w') = DHCP_DISCOVER \<or>
     dhcp w' = dhcp w \<and> (dhcp_is_done w \<longrightarrow> our_ip w' = our_ip w \<and> our_netmask w' = our_netmask w)"

text \<open>A lease in force stays the one the stack is configured with, or ends.\<close>

definition lease_configured :: "('e, 'h, 'z) dhcp_state_scheme \<Rightarrow> bool" where
  "lease_configured w \<longleftrightarrow> (dhcp_is_done w \<longrightarrow> our_ip w = leased_ip (dhcp w) \<and> our_netmask w = netmask (dhcp w))"

lemma client_step_lease:
  assumes "client_step w w'" and "lease_configured w"
  shows "lease_configured w'"
  using assms(1) unfolding client_step_def
proof (elim disjE conjE)
  assume "dhcp_step_ok w w'"
  then show ?thesis
    using assms(2)
    by (cases "dhcp_status (dhcp w)") (auto simp: lease_configured_def dhcp_step_ok_def dhcp_next_def dhcp_is_done_def)
next
  assume "dhcp w' = dhcp w" and "dhcp_is_done w \<longrightarrow> our_ip w' = our_ip w \<and> our_netmask w' = our_netmask w"
  then show ?thesis using assms(2) by (simp add: lease_configured_def dhcp_is_done_def)
qed (simp add: lease_configured_def dhcp_is_done_def)

context intrusive_list
begin

lemma quiet_step:
  assumes "dhcp_inv X ok H w" and "udp_inv X ok H' w'" and "udp_frame w w'"
  shows "dhcp_inv X ok H' w' \<and> client_step w w'"
  using dhcp_inv_frame [OF assms] by (simp add: client_step_def same_config_def)

lemma set_our_mac_inv:
  assumes "dhcp_inv X ok H w" and "length mac = 6" and "set_our_mac mac w = Inr w'"
  shows "dhcp_inv X ok H w'" and "dhcp w' = dhcp w" and "our_ip w' = our_ip w" and "our_netmask w' = our_netmask w"
proof -
  have g: "gmac_inv X ok H w" using assms(1) by (simp add: dhcp_inv_def udp_inv_def arp_inv_def)
  then have "length (our_mac w) = 6" by (rule our_mac_length)
  then obtain m where w': "w' = gmac_set_mac_address mac (w\<lparr>our_mac := m\<rparr>)" and m: "length m = 6"
    using assms(2,3) by (auto simp: set_our_mac_def memory_copy_ok)
  have "gmac_inv X ok H w'"
    using g m by (simp add: w' gmac_inv_def rings_def buffers_ok_def rings_ok_def gmac_set_mac_address_def)
  moreover have "untouched X {} w w'" by (rule untouched_lists) (simp_all add: w' gmac_set_mac_address_def)
  ultimately show "dhcp_inv X ok H w'"
    by (rule dhcp_inv_hardware [OF assms(1)]) (simp add: w' gmac_set_mac_address_def)
  show "dhcp w' = dhcp w" "our_ip w' = our_ip w" "our_netmask w' = our_netmask w"
    by (simp_all add: w' gmac_set_mac_address_def)
qed

lemma stack_step_inv:
  "stack_step X w w' \<Longrightarrow> dhcp_inv X ok H w \<Longrightarrow> dhcp_inv X ok H w' \<and> client_step w w'"
proof (induction rule: stack_step.induct)
  case (task w w')
  from safeD [OF network_task_safe [OF task.prems task.hyps(1)] task.hyps(2)] show ?case by (simp add: client_step_def)
next
  case (send n payload ip w source dest w')
  have u: "udp_inv X ok H w" using send.prems by (simp add: dhcp_inv_def)
  then have "arp_inv X ok H w" by (simp add: udp_inv_def)
  from safeD [OF udp_inv_lift [OF u udp_send_safe [OF this send.hyps(1-3)]] send.hyps(4)]
  show ?case using quiet_step [OF send.prems] by blast
next
  case (receive n buffer prt w m buffer' w')
  have u: "udp_inv X ok H w" using receive.prems by (simp add: dhcp_inv_def)
  from udp_receive_returns [OF u receive.hyps(1,2), of prt] receive.hyps(3)
  have "udp_inv X ok H w'" "udp_frame w w'" by simp_all
  then show ?case by (rule quiet_step [OF receive.prems])
next
  case (listen w prt m w')
  have u: "udp_inv X ok H w" using listen.prems by (simp add: dhcp_inv_def)
  from udp_listen_cases(2) [OF u listen.hyps(1), of prt m] listen.hyps(2)
  have "udp_inv X ok H w'" "udp_frame w w'" by simp_all
  then show ?case by (rule quiet_step [OF listen.prems])
next
  case (start w w')
  show ?case using dhcp_start_inv [OF start.prems start.hyps(1)] start.hyps(2) by (simp add: client_step_def)
next
  case (release w w')
  have u: "udp_inv X ok H w" using release.prems by (simp add: dhcp_inv_def)
  then have a: "arp_inv X ok H w" by (simp add: udp_inv_def)
  from safeD [OF udp_inv_lift [OF u dhcp_send_packet_safe [OF a]] release.hyps(1) [unfolded dhcp_release_def]]
  show ?case using quiet_step [OF release.prems] by blast
next
  case (set_mac mac w w')
  from set_our_mac_inv [OF set_mac.prems set_mac.hyps] show ?case by (simp add: client_step_def)
next
  case (set_ip w ip)
  then show ?case by (simp add: client_step_def set_our_ip_def dhcp_inv_def)
next
  case (set_netmask w subnet)
  then show ?case by (simp add: client_step_def set_our_netmask_def dhcp_inv_def)
next
  case (frame i w bytes d)
  have g: "gmac_inv X ok H w" using frame.prems by (simp add: dhcp_inv_def udp_inv_def arp_inv_def)
  have "dhcp_inv X ok H (hardware_receives i bytes d w)"
    by (rule dhcp_inv_hardware [OF frame.prems hardware_receives_inv [OF g frame.hyps(1,3,4)]
          hardware_receives_untouched [OF g frame.hyps(1)]])
      (simp add: hardware_receives_def)
  then show ?case by (simp add: client_step_def hardware_receives_def set_packet_def same_config_def)
next
  case (sent i w)
  have g: "gmac_inv X ok H w" using sent.prems by (simp add: dhcp_inv_def udp_inv_def arp_inv_def)
  have "dhcp_inv X ok H (hardware_sent i w)"
    by (rule dhcp_inv_hardware [OF sent.prems hardware_sent_inv [OF g sent.hyps]])
      (auto simp: hardware_sent_def intro: untouched_lists)
  then show ?case by (simp add: client_step_def hardware_sent_def same_config_def)
next
  case (world w v)
  then show ?case by (simp add: client_step_def same_config_def)
qed

lemma stack_reachable_inv:
  assumes "phy_ready X"
  shows "stack_reachable X w \<Longrightarrow> dhcp_inv X ok {#} w"
proof (induction rule: stack_reachable.induct)
  case (boot w w')
  from boot_inv [OF assms boot.hyps(1)] boot.hyps(3) have "udp_inv X ok {#} w'" "udp_state.more w' = udp_state.more w" by auto
  then show ?case using boot.hyps(2) dhcp_of_more(1) [of w' w] by (simp add: dhcp_inv_def)
next
  case (step w w')
  then show ?case by (blast dest: stack_step_inv)
qed

lemma stack_steps_lease:
  assumes "(stack_step X)\<^sup>*\<^sup>* w w'" and "dhcp_inv X ok H w" and "lease_configured w"
  shows "dhcp_inv X ok H w' \<and> lease_configured w'"
  using assms by (induction rule: rtranclp_induct) (auto dest: stack_step_inv client_step_lease)

lemma stack_reachable_lease:
  assumes "phy_ready X"
  shows "stack_reachable X w \<Longrightarrow> lease_configured w"
proof (induction rule: stack_reachable.induct)
  case (boot w w')
  from boot_inv [OF assms boot.hyps(1)] boot.hyps(3) have "udp_state.more w' = udp_state.more w" by auto
  then show ?case using boot.hyps(2) dhcp_of_more(1) [of w' w] by (simp add: lease_configured_def dhcp_is_done_def)
next
  case (step w w')
  have "client_step w w'" using stack_step_inv [OF step.hyps(2) stack_reachable_inv [OF assms step.hyps(1)]] by simp
  then show ?case by (rule client_step_lease) (rule step.IH)
qed

end

end
