(* ===== verification/Samples.thy ===== *)
theory Samples
  imports Stack
begin

text \<open>
  A concrete state of the stack on the list library \<open>ref_libs\<close>, on which the witnesses of the
  properties run: the driver's rings are filled, the address 10.0.0.2 is resolved in ARP entry 0,
  10.0.0.3 is pending in entry 1 with packet 40 waiting, connection 0 listens on port 68 with an
  empty queue, and connection 1 on port 1000 with packet 41 in its queue.  The running code holds
  the packets from 42 to \<open>41 + n\<close>.
\<close>

definition sample_packet :: packet where
  "sample_packet = \<lparr>data = replicate 1024 0, index = 74, plength = 100, broadcast = False,
     senders_ip = 0x0A000002, target_ip = 0x0A000001, source_port = 1000\<rparr>"

definition sample_backoff :: backoff where
  "sample_backoff = \<lparr>start_timeout = 500, max_timeout = 60000, timeout = 500, timeout_with_jitter = 0,
     backoff_time = 0, backoff_count = 0, jitter_fraction = 4\<rparr>"

definition sample_entry :: "nat \<Rightarrow> arp_entry" where
  "sample_entry e = \<lparr>entry_mac = [2, 0, 0, 0, 0, 2], entry_ip = 0x0A000002 + word_of_nat e,
     contain_valid_mapping = (e \<noteq> 1), entry_time = 0, retry_count = 0, packet_count = of_bool (e = 1)\<rparr>"

definition sample_connection :: "nat \<Rightarrow> udp_connection" where
  "sample_connection c = (if c = 0 then \<lparr>port = 68, queue_count = 0, max_packet_count = 1\<rparr>
     else \<lparr>port = 1000, queue_count = 1, max_packet_count = 2\<rparr>)"

definition sample_lists :: "nat \<Rightarrow> list_head \<Rightarrow> nat list" where
  "sample_lists n l = (if l = Free_packets then [42 + n..<96] else if l = Entry_queue 1 then [40]
     else if l = Connection_queue 1 then [41] else [])"

abbreviation blank_rx :: rx_descriptor where
  "blank_rx \<equiv> \<lparr>rx_owner = OWNER_CPU, rx_wrap = False, rx_address = None, rx_length = 0, fcs_status = False,
     start_of_frame = False, end_of_frame = False, cfi = False, vlan_priority = 0, priority_tag = False,
     vlan_detected = False, checksum_status = 0, snap_status = False, address_match_status = 0, address_match = False,
     rx_reserved0 = False, unicast_hash_match = False, multicast_hash_match = False, broadcast_detected = False\<rparr>"

abbreviation blank_tx :: tx_descriptor where
  "blank_tx \<equiv> \<lparr>tx_address = None, tx_length = 0, tx_reserved0 = False, last_buffer = False, ignore_crc = False,
     tx_reserved1 = 0, crc_errors = 0, tx_reserved2 = 0, late_collision = False, ahb_error = False, underrun = False,
     retry_limit_exceeded = False, tx_wrap = False, tx_owner = OWNER_CPU\<rparr>"

definition sample_state :: "nat \<Rightarrow> (ref_env, list_head \<Rightarrow> nat list) dhcp_state" where
  "sample_state n = \<lparr>env = \<lparr>clock = 5000, seed = 7, status = 0\<rparr>,
     packets = (\<lambda>_. sample_packet), packet_lists = sample_lists n,
     our_mac = [2, 0, 0, 0, 0, 1], our_ip = 0x0A000001, our_netmask = 0xFFFFFF00,
     tx_descriptors = replicate 8 blank_tx,
     rx_descriptors = map (\<lambda>p. blank_rx\<lparr>rx_address := Some p, rx_length := 60, start_of_frame := True,
       end_of_frame := True\<rparr>) [8..<40],
     tx_packets = [0..<8], rx_packets = [8..<40], tx_index = 0, rx_index = 0,
     regs = \<lparr>NCR = 0, NCFGR = 0, UR = 0, DCFGR = 0, SA_BOTTOM = 0, SA_TOP = 0, TBQB = Some Tx_ring, RBQB = Some Rx_ring\<rparr>,
     arp_entries = sample_entry, entry_lists = (\<lambda>_. [])(Free_entries := [2..<8], Used_entries := [0, 1]),
     connections = sample_connection,
     connection_lists = (\<lambda>_. [])(Free_connections := [2..<16], Used_connections := [0, 1]),
     dhcp = \<lparr>dhcp_status = DHCP_DISCOVER, transaction_id = 0, dhcp_time = 0, lease_time = 0, leased_ip = 0,
       server_ip = 0, netmask = 0, dhcp_backoff = sample_backoff, aquisition_count = 0\<rparr>,
     options = \<lparr>option_mask = 0, option_your_ip = 0, option_server_ip = 0, option_netmask = 0,
       option_message_type = 0, option_lease_time = 0\<rparr>\<rparr>"

definition sample_held :: "nat \<Rightarrow> nat multiset" where
  "sample_held n = mset [42..<42 + n]"

lemma sample_packet_ok: "packet_ok sample_packet" "ready sample_packet" "deliverable sample_packet"
  by (simp_all add: packet_ok_def ready_def deliverable_def sample_packet_def)

lemma ref_elements [simp]: "list_elements ref_libs l h = h l"
  by (simp add: ref_libs_def)

lemma sample_listed: "listed ref_libs (sample_lists n) = mset [42 + n..<96] + {#40#} + {#41#}"
proof -
  have "listed ref_libs (sample_lists n) =
      (\<Sum>l\<in>{Free_packets, Entry_queue 1, Connection_queue 1}. mset (sample_lists n l))"
    unfolding listed_def ref_elements
    by (rule sum.mono_neutral_right) (auto simp: packet_heads_def sample_lists_def)
  then show ?thesis by (simp add: sample_lists_def)
qed

lemma count_upt: "count (mset [a..<b]) x = (if a \<le> x \<and> x < b then 1 else 0)"
  by simp

lemma sample_pool:
  assumes "n \<le> 54"
  shows "pool ref_libs ref_ok (sample_held n + (mset [0..<8] + mset [8..<40])) (sample_lists n)"
proof -
  have "mset [42 + n..<96] + {#40#} + {#41#} + (mset [42..<42 + n] + (mset [0..<8] + mset [8..<40])) = mset [0..<96]"
    by (rule multiset_eqI) (use assms in \<open>auto simp only: count_upt count_union count_single split: if_splits\<close>)
  then show ?thesis
    by (simp add: pool_def sample_listed sample_held_def all_packets_def ref_ok_def atLeast0LessThan)
qed

text \<open>The sample state satisfies the invariants of all components.\<close>

lemma sample_gmac: "n \<le> 54 \<Longrightarrow> gmac_inv ref_libs ref_ok (sample_held n) (sample_state n)"
  using sample_pool [of n]
  by (auto simp: gmac_inv_def rings_def buffers_ok_def rings_ok_def sample_state_def sample_packet_def
      simp del: upt_rec_numeral)

lemma lessThan_mset: "mset_set {..<n :: nat} = mset [0..<n]"
  by (simp add: atLeast0LessThan)

lemma sample_entries: "entries_inv ref_libs ref_ok (sample_state n)"
  unfolding entries_inv_def
proof (intro conjI)
  show "mset (free_list ref_libs (sample_state n)) + mset (used_list ref_libs (sample_state n)) = mset_set {..<8}"
    unfolding lessThan_mset by (simp add: free_list_def used_list_def sample_state_def upt_conv_Cons eval_nat_numeral)
  show "\<forall>e\<in>set (used_list ref_libs (sample_state n)). entry_ok ref_libs (sample_state n) e"
    by (simp add: used_list_def entry_ok_def queue_of_def sample_state_def sample_entry_def sample_lists_def)
  show "\<forall>e<8. \<forall>p\<in>set (queue_of ref_libs (sample_state n) e). ready (packets (sample_state n) p)"
    by (simp add: sample_state_def sample_packet_ok)
qed (auto simp: free_list_def used_list_def queue_of_def sample_state_def sample_entry_def sample_lists_def ref_ok_def)

lemma sample_connections: "connections_inv ref_libs ref_ok (sample_state n)"
  unfolding connections_inv_def
proof (intro conjI)
  show "mset (free_connections ref_libs (sample_state n)) + mset (used_connections ref_libs (sample_state n)) = mset_set {..<16}"
    unfolding lessThan_mset by (simp add: free_connections_def used_connections_def sample_state_def upt_conv_Cons eval_nat_numeral)
  show "\<forall>c<16. \<forall>p\<in>set (datagrams ref_libs (sample_state n) c). deliverable (packets (sample_state n) p)"
    by (simp add: sample_state_def sample_packet_ok)
qed (auto simp: free_connections_def used_connections_def datagrams_def connection_ok_def sample_state_def
    sample_connection_def sample_lists_def ref_ok_def)

lemma sample_arp: "n \<le> 54 \<Longrightarrow> arp_inv ref_libs ref_ok (sample_held n) (sample_state n)"
  by (simp add: arp_inv_def sample_gmac sample_entries)

lemma sample_udp: "n \<le> 54 \<Longrightarrow> udp_inv ref_libs ref_ok (sample_held n) (sample_state n)"
  by (simp add: udp_inv_def sample_arp sample_connections)

lemma sample_held_simps [simp]: "sample_held 0 = {#}" "sample_held (Suc 0) = {#42#}"
  by (simp_all add: sample_held_def)

lemma sample_packets [simp]: "packets (sample_state n) p = sample_packet"
  by (simp add: sample_state_def)

text \<open>The contract of the lists, for \<open>ref_libs\<close>.\<close>

lemmas ref_contract = ref.intrusive_list_axioms

end
