(* ===== verification/Stack_Properties.thy ===== *)
theory Stack_Properties
  imports Reachable Samples
begin

text \<open>
  The properties of the stack as a whole: start-up, the states it can reach, its periodic task and its
  receive path, each with a witness.
\<close>

section \<open>A state after start-up\<close>

text \<open>Memory with arbitrary content before \<open>network_init\<close>; only the client is known to be off.\<close>

definition cold_state :: "(ref_env, list_head \<Rightarrow> nat list) dhcp_state" where
  "cold_state = set_dhcp (\<lambda>k. k\<lparr>dhcp_status := DHCP_DISABLED\<rparr>) (sample_state 0)"

lemma ref_phy_ready: "phy_ready ref_libs"
  unfolding phy_ready_def by (subst wait_mdio.simps) (simp add: ref_libs_def)

lemma cold_state_ok: "memory_ok cold_state" "dhcp_status (dhcp cold_state) = DHCP_DISABLED"
  using sample_arp [of 0]
  by (simp_all add: cold_state_def memory_ok_def arp_inv_def gmac_inv_def entries_inv_def rings_ok_def buffers_ok_def set_dhcp_def)

lemma cold_start:
  obtains w where "gmac_init ref_libs (network_init ref_libs cold_state) = Inr w" and "stack_reachable ref_libs w"
  using ref.boot_inv [OF ref_phy_ready cold_state_ok(1)] stack_reachable.boot [OF cold_state_ok] by blast

section \<open>Start-up\<close>

text \<open>
  Property C4: with a PHY that answers, \<open>network_init\<close> followed by \<open>gmac_init\<close> returns, whatever the
  memory held before.  Forty of the 96 packets are then in the descriptor rings and 56 are free; no
  queue holds a packet, no cache entry and no connection is in use, and the configuration is kept.
\<close>

theorem start_up:
  assumes "intrusive_list X ok" and "phy_ready X" and "memory_ok w"
  shows "returns (gmac_init X (network_init X w)) (\<lambda>w'. udp_inv X ok {#} w' \<and> available X w' = 56 \<and>
    size (rings w') = 40 \<and> used_list X w' = [] \<and> used_connections X w' = [] \<and> same_config w w')"
proof -
  obtain w' where b: "gmac_init X (network_init X w) = Inr w'" "udp_inv X ok {#} w'" "available X w' = 56" "same_config w w'"
    "used_list X w' = []" "used_connections X w' = []"
    using intrusive_list.boot_inv [OF assms] by blast
  have "size (rings w') = 40" using b(2) by (simp add: udp_inv_def arp_inv_def gmac_inv_def rings_ok_def rings_def)
  then show ?thesis using b by simp
qed

theorem start_up_witness:
  "returns (gmac_init ref_libs (network_init ref_libs cold_state)) (\<lambda>w'. available ref_libs w' = 56)"
  using start_up [OF ref.intrusive_list_axioms ref_phy_ready cold_state_ok(1)] by (auto elim: returns_mono)

section \<open>Reachable states\<close>

text \<open>
  Property C1: in every reachable state each of the 96 packets is in exactly one place, which is the
  free list, the queue of one cache entry, the queue of one connection or one slot of the descriptor
  rings: no packet is lost, duplicated or shared.  An unresolved cache entry in use holds at most two
  packets and a connection at most as many as it was opened for, and their counters are exact.
\<close>

theorem reachable_packets_accounted:
  assumes "intrusive_list X ok" and "phy_ready X" and "stack_reachable X w"
  shows "listed X (packet_lists w) + rings w = mset_set {..<96} \<and>
    (\<forall>e\<in>set (used_list X w). \<not> contain_valid_mapping (arp_entries w e) \<longrightarrow>
       length (queue_of X w e) \<le> 2 \<and> packet_count (arp_entries w e) = int (length (queue_of X w e))) \<and>
    (\<forall>c\<in>set (used_connections X w). queue_count (connections w c) = int (length (datagrams X w c)) \<and>
       int (length (datagrams X w c)) \<le> max 0 (max_packet_count (connections w c)))"
proof -
  have "udp_inv X ok {#} w"
    using intrusive_list.stack_reachable_inv [OF assms] by (simp add: dhcp_inv_def)
  then have "gmac_inv X ok {#} w" "entries_inv X ok w" "connections_inv X ok w"
    by (simp_all add: udp_inv_def arp_inv_def)
  then show ?thesis
    by (auto simp: gmac_inv_def pool_def all_packets_def entries_inv_def entry_ok_def connections_inv_def connection_ok_def)
qed

theorem reachable_packets_accounted_witness:
  "\<exists>w. gmac_init ref_libs (network_init ref_libs cold_state) = Inr w \<and> listed ref_libs (packet_lists w) + rings w = mset_set {..<96}"
proof -
  obtain w where "gmac_init ref_libs (network_init ref_libs cold_state) = Inr w" and "stack_reachable ref_libs w"
    by (rule cold_start)
  with reachable_packets_accounted [OF ref.intrusive_list_axioms ref_phy_ready this(2)] show ?thesis by blast
qed

text \<open>
  Property C3: the values of a reachable state are well formed.  The ring positions are in range, and each
  receive descriptor points at the packet the driver keeps beside it.  Every packet that waits in the
  address cache lies within its buffer, behind room for the Ethernet header; every queued datagram is not
  empty and lies within its buffer.  No address has two entries of the cache, every hardware address has six
  bytes, and the timer of an enabled DHCP client stays between its limits.
\<close>

theorem reachable_well_formed:
  assumes "intrusive_list X ok" and "phy_ready X" and "stack_reachable X w"
  shows "tx_index w < TRANSMIT_DESCRIPTOR_COUNT \<and> rx_index w < RECEIVE_DESCRIPTOR_COUNT \<and>
    (\<forall>i<RECEIVE_DESCRIPTOR_COUNT. rx_address (rx_descriptors w ! i) = Some (rx_packets w ! i)) \<and>
    (\<forall>e<ARP_ENTRY_COUNT. \<forall>p\<in>set (queue_of X w e).
       MAC_HEADER_SIZE \<le> index (packets w p) \<and> index (packets w p) + plength (packets w p) \<le> int (length (data (packets w p)))) \<and>
    (\<forall>c<UDP_CONNECTION_COUNT. \<forall>p\<in>set (datagrams X w c).
       0 \<le> index (packets w p) \<and> 0 < plength (packets w p) \<and> index (packets w p) + plength (packets w p) \<le> int (length (data (packets w p)))) \<and>
    distinct (map (\<lambda>e. entry_ip (arp_entries w e)) (used_list X w)) \<and>
    (\<forall>e. length (entry_mac (arp_entries w e)) = 6) \<and> length (our_mac w) = 6 \<and>
    (dhcp_status (dhcp w) \<noteq> DHCP_DISABLED \<longrightarrow> start_timeout (dhcp_backoff (dhcp w)) \<le> timeout (dhcp_backoff (dhcp w)) \<and>
       timeout (dhcp_backoff (dhcp w)) \<le> max_timeout (dhcp_backoff (dhcp w)))"
proof -
  have d: "udp_inv X ok {#} w" "dhcp_status (dhcp w) \<noteq> DHCP_DISABLED \<longrightarrow> backoff_ok X (dhcp_backoff (dhcp w))"
    using intrusive_list.stack_reachable_inv [OF assms] by (simp_all add: dhcp_inv_def)
  then have "gmac_inv X ok {#} w" and e: "entries_inv X ok w" and c: "connections_inv X ok w"
    by (simp_all add: udp_inv_def arp_inv_def)
  then have "rings_ok w" "buffers_ok w" by (simp_all add: gmac_inv_def)
  moreover have "\<forall>e<ARP_ENTRY_COUNT. \<forall>p\<in>set (queue_of X w e). ready (packets w p)" using e by (simp add: entries_inv_def)
  moreover have "\<forall>c<UDP_CONNECTION_COUNT. \<forall>p\<in>set (datagrams X w c). deliverable (packets w p)" using c by (simp add: connections_inv_def)
  ultimately show ?thesis
    using e d(2) by (simp add: rings_ok_def buffers_ok_def entries_inv_def ready_def deliverable_def packet_ok_def backoff_ok_def)
qed

theorem reachable_well_formed_witness:
  "\<exists>w. gmac_init ref_libs (network_init ref_libs cold_state) = Inr w \<and> rx_index w < RECEIVE_DESCRIPTOR_COUNT \<and> length (our_mac w) = 6"
proof -
  obtain w where "gmac_init ref_libs (network_init ref_libs cold_state) = Inr w" and "stack_reachable ref_libs w"
    by (rule cold_start)
  with reachable_well_formed [OF ref.intrusive_list_axioms ref_phy_ready this(2)] show ?thesis by blast
qed

text \<open>
  Property C2: no call of the stack touches memory outside its buffers or follows a null pointer in a
  reachable state.  \<open>network_task\<close> needs the received frames to be acceptable, \<open>udp_send\<close> room in
  the address cache for a new receiver and a buffer as long as its caller says, \<open>dhcp_start\<close> and
  \<open>udp_listen\<close> a free connection; \<open>udp_receive\<close> always returns.
\<close>

theorem reachable_no_fault:
  assumes "intrusive_list X ok" and "phy_ready X" and "stack_reachable X w"
  shows "(acceptable_frames X RECEIVE_DESCRIPTOR_COUNT w \<longrightarrow> network_task X w \<noteq> Inl Fault) \<and>
    (\<forall>payload n source dest ip. 0 \<le> n \<and> n \<le> int (length payload) \<and> ip_room X ip w \<longrightarrow>
       udp_send X payload n source dest ip w \<noteq> Inl Fault) \<and>
    (\<forall>buffer n prt. 0 \<le> n \<and> n \<le> int (length buffer) \<longrightarrow> returns (udp_receive X buffer n prt w) (\<lambda>_. True)) \<and>
    (free_connections X w \<noteq> [] \<longrightarrow> returns (dhcp_start X w) (\<lambda>_. True) \<and> (\<forall>prt m. returns (udp_listen X prt m w) (\<lambda>_. True))) \<and>
    arp_task X w \<noteq> Inl Fault \<and> dhcp_task X w \<noteq> Inl Fault \<and> dhcp_release X w \<noteq> Inl Fault"
proof -
  have d: "dhcp_inv X ok {#} w" by (rule intrusive_list.stack_reachable_inv [OF assms])
  then have u: "udp_inv X ok {#} w" by (simp add: dhcp_inv_def)
  then have a: "arp_inv X ok {#} w" by (simp add: udp_inv_def)
  show ?thesis
  proof (intro conjI impI allI)
    show "network_task X w \<noteq> Inl Fault" if "acceptable_frames X RECEIVE_DESCRIPTOR_COUNT w"
      by (rule safe_no_fault [OF intrusive_list.network_task_safe [OF assms(1) d that]])
    show "udp_send X payload n source dest ip w \<noteq> Inl Fault" if "0 \<le> n \<and> n \<le> int (length payload) \<and> ip_room X ip w"
      for payload n source dest ip
      using that by (intro safe_no_fault [OF intrusive_list.udp_send_safe [OF assms(1) a]]) auto
    show "returns (udp_receive X buffer n prt w) (\<lambda>_. True)" if "0 \<le> n \<and> n \<le> int (length buffer)" for buffer n prt
      using that by (intro returns_mono [OF intrusive_list.udp_receive_returns [OF assms(1) u]]) auto
    show "returns (dhcp_start X w) (\<lambda>_. True)" if "free_connections X w \<noteq> []"
      using intrusive_list.dhcp_start_inv [OF assms(1) d that] by (rule returns_mono) simp
    show "returns (udp_listen X prt m w) (\<lambda>_. True)" if "free_connections X w \<noteq> []" for prt m
      using intrusive_list.udp_listen_cases(2) [OF assms(1) u that] by (rule returns_mono) simp
    show "arp_task X w \<noteq> Inl Fault" by (rule safe_no_fault [OF intrusive_list.arp_task_safe [OF assms(1) a]])
    show "dhcp_task X w \<noteq> Inl Fault" by (rule safe_no_fault [OF intrusive_list.dhcp_task_safe [OF assms(1) d]])
    show "dhcp_release X w \<noteq> Inl Fault"
      unfolding dhcp_release_def by (rule safe_no_fault [OF intrusive_list.dhcp_send_packet_safe [OF assms(1) a]])
  qed
qed

theorem reachable_no_fault_witness:
  "\<exists>w. gmac_init ref_libs (network_init ref_libs cold_state) = Inr w \<and> dhcp_task ref_libs w \<noteq> Inl Fault \<and>
     returns (udp_receive ref_libs (replicate 10 0) 10 1000 w) (\<lambda>_. True)"
proof -
  obtain w where w: "gmac_init ref_libs (network_init ref_libs cold_state) = Inr w" and r: "stack_reachable ref_libs w"
    by (rule cold_start)
  from reachable_no_fault [OF ref.intrusive_list_axioms ref_phy_ready r]
  have "dhcp_task ref_libs w \<noteq> Inl Fault" and "returns (udp_receive ref_libs (replicate 10 0) 10 1000 w) (\<lambda>_. True)"
    by auto
  with w show ?thesis by blast
qed

section \<open>The task and the receive path\<close>

text \<open>
  Property C8: one round of \<open>network_task\<close> keeps every invariant of the stack, leaks no packet and
  faults on no acceptable frame, and it moves the DHCP client along an edge of its state machine:
  our address and netmask change exactly on the step from requesting to bound, to the offered values.
\<close>

theorem network_task_round:
  assumes "intrusive_list X ok" and "dhcp_inv X ok H w" and "acceptable_frames X RECEIVE_DESCRIPTOR_COUNT w"
  shows "safe (network_task X w) (\<lambda>w'. dhcp_inv X ok H w' \<and>
     dhcp_status (dhcp w') \<in> dhcp_next (dhcp_status (dhcp w)) \<and> our_mac w' = our_mac w \<and>
     (if dhcp_status (dhcp w) = DHCP_REQUESTING \<and> dhcp_status (dhcp w') = DHCP_BOUND
      then our_ip w' = leased_ip (dhcp w) \<and> our_netmask w' = netmask (dhcp w)
      else our_ip w' = our_ip w \<and> our_netmask w' = our_netmask w))"
  by (rule safe_mono [OF intrusive_list.network_task_safe [OF assms]]) (simp add: dhcp_step_ok_def)

lemma sample_dhcp: "n \<le> 54 \<Longrightarrow> dhcp_inv ref_libs ref_ok (sample_held n) (sample_state n)"
  using sample_udp [of n] by (simp add: dhcp_inv_def sample_state_def sample_backoff_def backoff_ok_def)

text \<open>The sample state with one received frame: the descriptor after it belongs to the controller.\<close>

text \<open>
  Property C7: a lease in force is the one the stack is configured with.  From any state that meets the
  invariants and has this property, such as the one after start-up, where no lease is in force, it
  holds after every sequence of steps: frames, rounds of the task, transmissions, timeouts, and calls of
  the application, which may change the hardware address at any time and the IP address and netmask as
  long as no lease is in force.  Whenever \<open>dhcp_is_done\<close> reports a lease, bound, renewing or rebinding, our
  address and netmask are those the client keeps for it.
\<close>

theorem lease_in_force:
  assumes "intrusive_list X ok" and "dhcp_inv X ok {#} w"
    and "dhcp_is_done w \<longrightarrow> our_ip w = leased_ip (dhcp w) \<and> our_netmask w = netmask (dhcp w)"
    and "(stack_step X)\<^sup>*\<^sup>* w w'" and "dhcp_is_done w'"
  shows "our_ip w' = leased_ip (dhcp w') \<and> our_netmask w' = netmask (dhcp w')"
  using intrusive_list.stack_steps_lease [OF assms(1,4,2)] assms(3,5) by (simp add: lease_configured_def)

text \<open>A bound client whose controller sends what was queued, and whose clock goes on.\<close>

definition bound_state :: "(ref_env, list_head \<Rightarrow> nat list) dhcp_state" where
  "bound_state = set_dhcp (\<lambda>k. k\<lparr>dhcp_status := DHCP_BOUND, leased_ip := 0x0A000001, netmask := 0xFFFFFF00\<rparr>) (sample_state 0)"

theorem lease_in_force_witness:
  "let w' = (hardware_sent 3 bound_state)\<lparr>env := \<lparr>clock = 9000, seed = 1, status = 0\<rparr>\<rparr> in
     our_ip w' = leased_ip (dhcp w') \<and> our_netmask w' = netmask (dhcp w')"
proof -
  let ?w = "hardware_sent 3 bound_state" and ?e = "\<lparr>clock = 9000, seed = 1, status = 0\<rparr>"
  have i: "dhcp_inv ref_libs ref_ok {#} bound_state"
    using sample_dhcp [of 0] by (simp add: bound_state_def dhcp_inv_def sample_state_def)
  have "stack_step ref_libs bound_state ?w" "stack_step ref_libs ?w (?w\<lparr>env := ?e\<rparr>)"
    by (rule stack_step.sent, simp) (rule stack_step.world)
  then have s: "(stack_step ref_libs)\<^sup>*\<^sup>* bound_state (?w\<lparr>env := ?e\<rparr>)" by simp
  have d: "dhcp_is_done (?w\<lparr>env := ?e\<rparr>)" by (simp add: dhcp_is_done_def hardware_sent_def bound_state_def)
  have "dhcp_is_done bound_state \<longrightarrow>
      our_ip bound_state = leased_ip (dhcp bound_state) \<and> our_netmask bound_state = netmask (dhcp bound_state)"
    by (simp add: bound_state_def) (simp add: sample_state_def)
  from lease_in_force [OF ref.intrusive_list_axioms i this s d] show ?thesis by (simp add: Let_def)
qed

definition one_frame :: "(ref_env, list_head \<Rightarrow> nat list) dhcp_state" where
  "one_frame = (sample_state 0)\<lparr>rx_descriptors := (rx_descriptors (sample_state 0))[1 :=
     (rx_descriptors (sample_state 0) ! 1)\<lparr>rx_owner := OWNER_GMAC\<rparr>]\<rparr>"

lemma dhcp_inv_rx_owner:
  assumes "dhcp_inv X ok H w" and "i < 32"
  shows "dhcp_inv X ok H (w\<lparr>rx_descriptors := (rx_descriptors w)[i := (rx_descriptors w ! i)\<lparr>rx_owner := v\<rparr>]\<rparr>)"
proof (rule dhcp_inv_hardware [OF assms(1)])
  have "gmac_inv X ok H w" using assms(1) by (simp add: dhcp_inv_def udp_inv_def arp_inv_def)
  then show "gmac_inv X ok H (w\<lparr>rx_descriptors := (rx_descriptors w)[i := (rx_descriptors w ! i)\<lparr>rx_owner := v\<rparr>]\<rparr>)"
    using assms(2) by (auto simp: gmac_inv_def rings_def buffers_ok_def rings_ok_def nth_list_update)
qed (auto intro: untouched_lists)

lemma one_frame_inv: "dhcp_inv ref_libs ref_ok {#} one_frame"
  using dhcp_inv_rx_owner [OF sample_dhcp [of 0], of 1] by (simp add: one_frame_def)

lemma idle_ring:
  assumes "rx_index w < RECEIVE_DESCRIPTOR_COUNT" and "rx_owner (rx_descriptors w ! rx_index w) = OWNER_GMAC"
  shows "acceptable_frames X n w"
  using assms by (cases n) (simp_all add: gmac_receive_def)

text \<open>The frame is acceptable whatever the status register of the controller says.\<close>

lemma one_frame_acceptable_any: "acceptable_frames (ref_libs\<lparr>read_TSR := f\<rparr>) n one_frame"
proof -
  let ?X = "ref_libs\<lparr>read_TSR := f\<rparr>"
  obtain w where r: "gmac_receive ?X one_frame = Inr (Some 8, w)" and i: "rx_index w = 1"
    and o: "rx_owner (rx_descriptors w ! 1) = OWNER_GMAC"
    and k: "packets w 8 = sample_packet\<lparr>plength := 60, index := 0, broadcast := False\<rparr>"
  proof
    have "[42..<96] = 42 # [43..<96::nat]" by (rule upt_conv_Cons [THEN trans]) simp_all
    then show "gmac_receive ?X one_frame = Inr (Some 8, snd (projr (gmac_receive ?X one_frame)))"
      and "rx_index (snd (projr (gmac_receive ?X one_frame))) = 1"
      and "rx_owner (rx_descriptors (snd (projr (gmac_receive ?X one_frame))) ! 1) = OWNER_GMAC"
      and "packets (snd (projr (gmac_receive ?X one_frame))) 8 = sample_packet\<lparr>plength := 60, index := 0, broadcast := False\<rparr>"
      by (simp_all add: one_frame_def sample_state_def gmac_receive_def allocate_network_packet_def ref_libs_def set_packet_def
          sample_lists_def Let_def nth_list_update del: upt_rec_numeral)
  qed
  have t: "read_be16 (data (packets w 8)) 12 = Inr 0"
    by (simp add: k sample_packet_def read_be16_def mem)
  have "acceptable ?X 8 w" by (simp add: acceptable_def t) (simp add: k)
  moreover have "handle_mac ?X 8 w = Inr (free_network_packet ?X 8
      (set_packet 8 (\<lambda>k. k\<lparr>plength := plength k - 14, index := index k + 14\<rparr>) w))"
    using t by (simp add: handle_mac_def k Let_def size_t_def)
  moreover have "acceptable_frames ?X m (free_network_packet ?X 8
      (set_packet 8 (\<lambda>k. k\<lparr>plength := plength k - 14, index := index k + 14\<rparr>) w))" for m
    using i o by (intro idle_ring) (simp_all add: free_network_packet_def set_packet_def)
  ultimately show ?thesis using r by (cases n) simp_all
qed

lemma one_frame_acceptable: "acceptable_frames ref_libs n one_frame"
  using one_frame_acceptable_any [of "read_TSR ref_libs"] by simp

theorem network_task_round_witness:
  "safe (network_task ref_libs one_frame) (\<lambda>w'. dhcp_status (dhcp w') \<in> {DHCP_DISCOVER, DHCP_REQUESTING})"
proof -
  have "dhcp_status (dhcp one_frame) = DHCP_DISCOVER" by (simp add: one_frame_def sample_state_def)
  then show ?thesis
    using network_task_round [OF ref.intrusive_list_axioms one_frame_inv one_frame_acceptable]
    by (auto simp: dhcp_next_def elim: safe_mono)
qed

text \<open>
  Property C9: on an acceptable frame, whatever else its bytes are, \<open>handle_mac\<close> neither faults nor loses
  the buffer, and keeps the invariants of all the layers.  Acceptable is every frame of fewer than 1024
  bytes, except IPv4 packets that carry ICMP and whose header is shorter than five words or whose
  sender has no entry of the address cache and no room for one.
\<close>

theorem handle_mac_any_frame:
  assumes "intrusive_list X ok" and "udp_inv X ok (add_mset p H) w" and "packet_ok (packets w p)"
    and "index (packets w p) = 0" and "acceptable X p w"
  shows "safe (handle_mac X p w) (\<lambda>w'. udp_inv X ok H w' \<and> same_config w w')"
  using intrusive_list.handle_mac_safe [OF assms(1-4)] assms(5)
  by (auto simp: acceptable_def udp_frame_def elim: safe_mono)

text \<open>An ARP request from 10.0.0.2 for our address, in the buffer of packet 42.\<close>

definition request_frame :: "u8 list" where
  "request_frame = mac_header [0xFF, 0xFF, 0xFF, 0xFF, 0xFF, 0xFF] [2, 0, 0, 0, 0, 2] ETHER_TYPE_ARP @
     arp_message [2, 0, 0, 0, 0, 2] [0, 0, 0, 0, 0, 0] ARP_OPERATION_REQUEST 0x0A000002 0x0A000001"

definition request_state :: "int \<Rightarrow> (ref_env, list_head \<Rightarrow> nat list) dhcp_state" where
  "request_state i = set_packet 42 (\<lambda>k. k\<lparr>index := i, plength := 42 - i, data := upd 0 request_frame (data k)\<rparr>) (sample_state 1)"

lemma length_request_frame: "length request_frame = 42"
  by (simp add: request_frame_def length_mac_header length_arp_message)

lemma request_state_ok:
  assumes "0 \<le> i" and "i \<le> 42"
  shows "udp_inv ref_libs ref_ok {#42#} (request_state i)" and "packet_ok (packets (request_state i) 42)"
    and "index (packets (request_state i) 42) = i" and "plength (packets (request_state i) 42) = 42 - i"
proof -
  have "udp_inv ref_libs ref_ok (add_mset 42 {#}) (sample_state 1)" using sample_udp [of 1] by simp
  then show "udp_inv ref_libs ref_ok {#42#} (request_state i)"
    unfolding request_state_def
    by (rule ref.udp_inv_set_packet) (simp add: sample_packet_def length_request_frame)
  show "packet_ok (packets (request_state i) 42)"
    using assms by (simp add: request_state_def packet_ok_def sample_packet_def length_request_frame)
qed (simp_all add: request_state_def)

theorem handle_mac_any_frame_witness:
  "safe (handle_mac ref_libs 42 (request_state 0)) (\<lambda>w'. udp_inv ref_libs ref_ok {#} w')"
proof -
  have "read_be16 (data (packets (request_state 0) 42)) 12 = Inr ETHER_TYPE_ARP"
    by (simp add: request_state_def request_frame_def sample_packet_def mac_header_def arp_message_def be16_bytes_def
        be32_bytes_def read_be16_def mem upd_def)
  then have "acceptable ref_libs 42 (request_state 0)" by (simp add: acceptable_def request_state_ok)
  then show ?thesis
    using handle_mac_any_frame [OF ref.intrusive_list_axioms, of 42 "{#}" "request_state 0"]
    by (auto simp: request_state_ok elim!: safe_mono)
qed

end
