(* ===== verification/Wire.thy ===== *)
theory Wire
  imports Dhcp_Machine
begin

text \<open>
  What the layers put on the wire.  \<open>transmits w w' f\<close> says of a call from \<open>w\<close> to \<open>w'\<close> that the
  controller gets the frame \<open>f\<close> in the descriptor in turn, and that when this descriptor is still
  busy nothing is handed over.  Every sending operation is followed down to the driver, so that the
  properties speak of whole Ethernet frames.
\<close>

section \<open>The driver\<close>

text \<open>The bytes the controller gets when the slot in turn is free.\<close>

lemma gmac_sent_frame:
  assumes "intrusive_list X ok" and "gmac_inv X ok (add_mset p H) w" and "packet_ok (packets w p)"
    and "gmac_send X p w = Inr w'" and "tx_owner (tx_descriptors w ! tx_index w) \<noteq> OWNER_GMAC"
  shows "tx_frame w' (tx_index w) = frame_of (packets w p)"
proof -
  note l = intrusive_list.gmac_send_linked [OF assms(1,2,4,5)]
  have i: "tx_index w < 8" "length (tx_descriptors w) = 8" using assms(2) by (simp_all add: gmac_inv_def rings_ok_def)
  have pk: "packets w' = packets w" by (subst gmac_send_shape [OF assms(4)]) simp
  have "plength (packets w p) < 2 ^ 14" "0 \<le> plength (packets w p)" using assms(3) by (auto simp: packet_ok_def)
  then have "unat (word_of_int (plength (packets w p)) :: 14 word) = nat (plength (packets w p))"
    by (simp add: unat_eq_nat_uint uint_word_of_int_eq take_bit_int_eq_self)
  then show ?thesis using i by (simp add: l(2-4) tx_frame_def frame_of_def pk)
qed


definition transmits ::
  "('e, 'h, 'z) gmac_state_scheme \<Rightarrow> ('e, 'h, 'z) gmac_state_scheme \<Rightarrow> u8 list \<Rightarrow> bool" where
  "transmits w w' f \<longleftrightarrow>
     (let i = tx_index w in
      if tx_owner (tx_descriptors w ! i) = OWNER_GMAC then tx_descriptors w' = tx_descriptors w
      else tx_frame w' i = f \<and> tx_owner (tx_descriptors w' ! i) = OWNER_GMAC \<and>
        tx_index w' = Suc i mod TRANSMIT_DESCRIPTOR_COUNT \<and> (\<forall>j. j \<noteq> i \<longrightarrow> tx_descriptors w' ! j = tx_descriptors w ! j))"

lemma transmits_from:
  "transmits w1 w' f \<Longrightarrow> tx_descriptors w1 = tx_descriptors w \<Longrightarrow> tx_index w1 = tx_index w \<Longrightarrow> transmits w w' f"
  by (simp add: transmits_def Let_def)

lemma transmits_to:
  assumes "transmits w w1 f" and "tx_descriptors w' = tx_descriptors w1" and "tx_index w' = tx_index w1"
    and "packets w' = packets w1"
  shows "transmits w w' f"
proof -
  have "tx_frame w' i = tx_frame w1 i" for i by (simp add: tx_frame_def assms(2,4) cong: option.case_cong)
  with assms show ?thesis by (simp add: transmits_def Let_def)
qed

text \<open>Changes of a packet, of the clock or of the lists leave the transmit ring alone.\<close>

lemma tx_ring_simps [simp]:
  "tx_descriptors (set_packet p f w) = tx_descriptors w" "tx_index (set_packet p f w) = tx_index w"
  "tx_descriptors (free_network_packet X p w) = tx_descriptors w" "tx_index (free_network_packet X p w) = tx_index w"
  by (simp_all add: set_packet_def free_network_packet_def)

lemma tx_ring_allocate:
  "allocate_network_packet X w = Inr (p, w') \<Longrightarrow> tx_descriptors w' = tx_descriptors w \<and> tx_index w' = tx_index w"
  by (auto simp: allocate_network_packet_def split: prod.splits option.splits)

lemma tx_ring_now:
  "now X w = (t, w') \<Longrightarrow> tx_descriptors w' = tx_descriptors w \<and> tx_index w' = tx_index w"
  by (auto simp: now_def split: prod.splits)

lemma gmac_send_wire:
  assumes "intrusive_list X ok" and "gmac_inv X ok (add_mset p H) w" and "packet_ok (packets w p)"
    and "gmac_send X p w = Inr w'"
  shows "transmits w w' (frame_of (packets w p))"
proof (cases "tx_owner (tx_descriptors w ! tx_index w) = OWNER_GMAC")
  case True
  have "\<not> tx_error X w" using assms(4) gmac_send_returns_iff [of w X p] assms(2) by (auto simp: gmac_inv_def rings_ok_def)
  from intrusive_list.gmac_send_dropped [OF assms(1,2) this True] True assms(4) show ?thesis
    by (auto simp: transmits_def)
next
  case False
  note l = intrusive_list.gmac_send_linked [OF assms(1,2,4) False]
  have "tx_index w < 8" "length (tx_descriptors w) = 8" using assms(2) by (simp_all add: gmac_inv_def rings_ok_def)
  then show ?thesis
    using False gmac_sent_frame [OF assms False] by (simp add: transmits_def l(3,4))
qed

section \<open>Ethernet frames\<close>

definition ether_frame :: "mac \<Rightarrow> mac \<Rightarrow> u16 \<Rightarrow> u8 list \<Rightarrow> u8 list" where
  "ether_frame target senders ether_type payload = mac_header target senders ether_type @ payload"

abbreviation BROADCAST_MAC :: mac where "BROADCAST_MAC \<equiv> [0xFF, 0xFF, 0xFF, 0xFF, 0xFF, 0xFF]"

lemma mac_send_wire:
  assumes "intrusive_list X ok" and "gmac_inv X ok (add_mset p H) w" and "packet_ok (packets w p)"
    and "14 \<le> index (packets w p)" and "length mac = 6" and "mac_send X p mac e w = Inr w'"
  shows "transmits w w' (ether_frame mac (our_mac w) e (frame_of (packets w p)))"
proof -
  have our: "length (our_mac w) = 6" using assms(2) by (simp add: gmac_inv_def buffers_ok_def)
  let ?w = "set_packet p (mac_framed mac (our_mac w) e) w"
  note f = mac_framed_frame [OF assms(3,4,5) our, of e]
  have "length (data (mac_framed mac (our_mac w) e (packets w p))) = length (data (packets w p))"
    using f(2) assms(3) by (simp add: packet_ok_def)
  then have g: "gmac_inv X ok (add_mset p H) ?w" using assms(2) by (simp add: gmac_inv_set_packet)
  have "gmac_send X p ?w = Inr w'" using assms(6) mac_send_eq [OF assms(5) our assms(3,4)] by simp
  then have "transmits ?w w' (frame_of (packets ?w p))"
    by (intro gmac_send_wire [OF assms(1) g]) (simp_all add: f(2))
  then show ?thesis by (simp add: f(1) ether_frame_def transmits_def Let_def)
qed

text \<open>A message written into a fresh packet and sent.\<close>

lemma fresh_packet:
  assumes "intrusive_list X ok" and "gmac_inv X ok H w" and "allocate_network_packet X w = Inr (p, w1)"
    and "length bs \<le> 880"
  defines "w2 \<equiv> set_packet p (put_message bs) w1"
  shows "gmac_inv X ok (add_mset p H) w2" and "packet_ok (packets w2 p)" and "index (packets w2 p) = 144"
    and "frame_of (packets w2 p) = bs" and "tx_descriptors w2 = tx_descriptors w" and "tx_index w2 = tx_index w"
    and "same_config w w2"
proof -
  from safeD [OF intrusive_list.gmac_allocate [OF assms(1,2)] assms(3)] have a: "gmac_inv X ok (add_mset p H) w1"
    "packets w1 p = (packets w p)\<lparr>plength := 0, index := 144\<rparr>" "same_config w w1"
    by simp_all
  have l: "length (data (packets w1 p)) = 1024" using a(1) by (simp add: gmac_inv_def buffers_ok_def)
  have i: "index (packets w1 p) = 144" by (simp add: a(2))
  note m = put_message_frame [of "packets w1 p" bs, unfolded l i]
  show "index (packets w2 p) = 144" by (simp add: w2_def put_message_def i)
  show "frame_of (packets w2 p) = bs" and ok: "packet_ok (packets w2 p)"
    using m assms(4) by (simp_all add: w2_def)
  show "gmac_inv X ok (add_mset p H) w2"
    using a(1) ok l by (simp add: w2_def gmac_inv_set_packet packet_ok_def)
  show "tx_descriptors w2 = tx_descriptors w" "tx_index w2 = tx_index w"
    using tx_ring_allocate [OF assms(3)] by (simp_all add: w2_def)
  show "same_config w w2" using a(3) by (simp add: w2_def same_config_def)
qed

section \<open>ARP packets\<close>

lemma send_arp_wire:
  assumes "intrusive_list X ok" and "gmac_inv X ok H w" and "t = ARP_TYPE_REPLY \<longrightarrow> length tm = 6"
    and "send_arp_packet X tm target t w = Inr w'"
  shows "transmits w w' (ether_frame (arp_destination tm t) (our_mac w) ETHER_TYPE_ARP
    (arp_packet (our_mac w) (our_ip w) tm target t))"
proof -
  let ?bs = "arp_packet (our_mac w) (our_ip w) tm target t"
  obtain p w1 where a: "allocate_network_packet X w = Inr (p, w1)"
    and s: "mac_send X p (arp_destination tm t) ETHER_TYPE_ARP (set_packet p (put_message ?bs) w1) = Inr w'"
    using assms(4) unfolding intrusive_list.send_arp_packet_eq [OF assms(1-3)] by (auto simp: bindR_eq_Inr_iff)
  have "length (our_mac w) = 6" using assms(2) by (simp add: gmac_inv_def buffers_ok_def)
  then have len: "length ?bs \<le> 880" "length (arp_destination tm t) = 6"
    using assms(3) by (simp_all add: arp_packet_def arp_target_mac_def arp_destination_def length_arp_message)
  note f = fresh_packet [OF assms(1,2) a len(1)]
  have "transmits (set_packet p (put_message ?bs) w1) w' (ether_frame (arp_destination tm t)
      (our_mac (set_packet p (put_message ?bs) w1)) ETHER_TYPE_ARP (frame_of (packets (set_packet p (put_message ?bs) w1) p)))"
    using f(3) by (intro mac_send_wire [OF assms(1) f(1,2) _ len(2) s]) simp
  from transmits_from [OF this f(5,6)] show ?thesis
    using f(7) unfolding f(4) by (simp only: same_config_def)
qed

section \<open>IP datagrams\<close>

text \<open>The hardware address an IP packet is sent to at once; \<open>None\<close> when it has to be resolved first.\<close>

definition next_hop :: "('e, 'h) libs \<Rightarrow> u32 \<Rightarrow> ('e, 'h, 'z) arp_state_scheme \<Rightarrow> mac option" where
  "next_hop X ip w =
     (if should_broadcast ip w then Some BROADCAST_MAC
      else case find_arp_entry X ip w of
          None \<Rightarrow> None
        | Some e \<Rightarrow> if contain_valid_mapping (arp_entries w e) then Some (entry_mac (arp_entries w e)) else None)"

definition ip_datagram :: "u32 \<Rightarrow> u32 \<Rightarrow> int \<Rightarrow> u8 list \<Rightarrow> u8 list" where
  "ip_datagram sender ip protocol payload = ip_header sender ip protocol (int (length payload) + 20) @ payload"

lemma next_hop_mac: "entries_inv X ok w \<Longrightarrow> next_hop X ip w = Some m \<Longrightarrow> length m = 6"
  by (auto simp: next_hop_def entries_inv_def split: option.splits if_splits)

lemma cache_set_packet [simp]:
  "arp_entries (set_packet p f w) = arp_entries w" "entry_lists (set_packet p f w) = entry_lists w"
  "find_arp_entry X ip (set_packet p f w) = find_arp_entry X ip w" "should_broadcast ip (set_packet p f w) = should_broadcast ip w"
  by (simp_all add: find_arp_entry_def should_broadcast_def get_our_netmask_def set_packet_def)

lemma next_hop_set_packet [simp]: "next_hop X ip (set_packet p f w) = next_hop X ip w"
  by (simp add: next_hop_def split: option.split)

lemma next_hop_env: "next_hop X ip (w\<lparr>env := v\<rparr>) = next_hop X ip w"
  by (simp add: next_hop_def should_broadcast_def get_our_netmask_def find_arp_entry_def split: option.split)

lemma ip_send_wire:
  assumes "intrusive_list X ok" and "arp_inv X ok (add_mset p H) w" and "packet_ok (packets w p)"
    and "34 \<le> index (packets w p)" and "next_hop X ip w = Some m" and "ip_send X p ip protocol w = Inr w'"
  shows "transmits w w' (ether_frame m (our_mac w) ETHER_TYPE_IPV4 (ip_datagram (our_ip w) ip protocol (frame_of (packets w p))))"
proof -
  let ?f = "ip_framed (our_ip w) ip protocol"
  let ?w = "set_packet p ?f w"
  have i: "20 \<le> index (packets w p)" using assms(4) by simp
  note k = ip_framed_frame [OF assms(3) i, of "our_ip w" ip protocol]
  have inv: "gmac_inv X ok (add_mset p H) ?w"
    using intrusive_list.arp_inv_set_packet(1) [where f = ?f, OF assms(1,2) k(4)] by (simp add: arp_inv_def)
  have send: "mac_send X p m ETHER_TYPE_IPV4 ?w = Inr w'"
    using assms(5,6) unfolding ip_send_eq [OF assms(3) i] Let_def
    by (auto simp: next_hop_def arp_send_def mac_broadcast_def split: if_splits option.splits)
  have m: "length m = 6" using assms(2,5) next_hop_mac by (auto simp: arp_inv_def)
  have idx: "14 \<le> index (packets ?w p)" using k(3) assms(4) by simp
  have ok: "packet_ok (packets ?w p)" using k(2) by simp
  have len: "plength (packets w p) = int (length (frame_of (packets w p)))"
    using assms(3) by (simp add: length_frame_of packet_ok_def)
  from mac_send_wire [OF assms(1) inv ok idx m send] show ?thesis
    by (simp add: transmits_def Let_def k(1) ip_datagram_def len)
qed

section \<open>UDP datagrams\<close>

definition udp_datagram :: "u16 \<Rightarrow> u16 \<Rightarrow> u32 \<Rightarrow> u32 \<Rightarrow> u8 list \<Rightarrow> u8 list" where
  "udp_datagram source dest sender ip payload = udp_header source dest sender ip payload @ payload"

definition udp_frame_bytes :: "mac \<Rightarrow> mac \<Rightarrow> u16 \<Rightarrow> u16 \<Rightarrow> u32 \<Rightarrow> u32 \<Rightarrow> u8 list \<Rightarrow> u8 list" where
  "udp_frame_bytes target senders source dest sender ip payload =
     ether_frame target senders ETHER_TYPE_IPV4
       (ip_datagram sender ip IP_PROTOCOL_UDP (udp_datagram source dest sender ip payload))"

lemma udp_zero_copy_wire:
  assumes "intrusive_list X ok" and "arp_inv X ok (add_mset p H) w" and "packet_ok (packets w p)"
    and "42 \<le> index (packets w p)" and "next_hop X ip w = Some m" and "udp_send_zero_copy X p source dest ip w = Inr w'"
  shows "transmits w w' (udp_frame_bytes m (our_mac w) source dest (our_ip w) ip (frame_of (packets w p)))"
proof -
  let ?f = "udp_framed source dest (our_ip w) ip"
  let ?w = "set_packet p ?f w"
  have i: "8 \<le> index (packets w p)" using assms(4) by simp
  note k = udp_framed_frame [OF assms(3) i, of source dest "our_ip w" ip]
  note inv = intrusive_list.arp_inv_set_packet(1) [where f = ?f, OF assms(1,2) k(4)]
  have "ip_send X p ip IP_PROTOCOL_UDP ?w = Inr w'"
    using assms(6) udp_send_zero_copy_eq [OF assms(3) i] by simp
  from ip_send_wire [OF assms(1) inv _ _ _ this, of m] show ?thesis
    using assms(4,5) k by (simp add: transmits_def Let_def udp_frame_bytes_def udp_datagram_def)
qed

lemma arp_allocated:
  assumes "intrusive_list X ok" and "arp_inv X ok H w" and "allocate_network_packet X w = Inr (p, w1)"
    and "length bs \<le> 880"
  defines "w2 \<equiv> set_packet p (put_message bs) w1"
  shows "arp_inv X ok (add_mset p H) w2" and "next_hop X ip w2 = next_hop X ip w" and "our_ip w2 = our_ip w"
    and "our_mac w2 = our_mac w"
proof -
  have g: "gmac_inv X ok H w" using assms(2) by (simp add: arp_inv_def)
  from safeD [OF intrusive_list.arp_allocate [OF assms(1,2)] assms(3)] have a: "arp_inv X ok (add_mset p H) w1"
    "gmac_state.more w1 = gmac_state.more w" "arp_frame X w w1" by simp_all
  note f = fresh_packet [OF assms(1) g assms(3,4)]
  have "length (data (put_message bs (packets w1 p))) = length (data (packets w1 p))"
    using f(2) a(1) by (simp add: packet_ok_def arp_inv_def gmac_inv_def buffers_ok_def)
  then show "arp_inv X ok (add_mset p H) w2"
    unfolding w2_def by (rule intrusive_list.arp_inv_set_packet(1) [OF assms(1) a(1)])
  have c: "our_mac w1 = our_mac w" "our_ip w1 = our_ip w" "our_netmask w1 = our_netmask w"
    using a(3) by (simp_all add: arp_frame_def same_config_def)
  show "our_ip w2 = our_ip w" "our_mac w2 = our_mac w" using c by (simp_all add: w2_def)
  show "next_hop X ip w2 = next_hop X ip w"
    using arp_fields_of_more [OF a(2)] c
    by (simp add: w2_def next_hop_def should_broadcast_def get_our_netmask_def find_arp_entry_def split: option.split)
qed

lemma filled_wire:
  assumes "intrusive_list X ok" and "arp_inv X ok H w" and "allocate_network_packet X w = Inr (p, w1)"
    and "length bs \<le> 880" and "next_hop X ip w = Some m"
    and "udp_send_zero_copy X p source dest ip (set_packet p (put_message bs) (w1\<lparr>env := v\<rparr>)) = Inr w'"
  shows "transmits w w' (udp_frame_bytes m (our_mac w) source dest (our_ip w) ip bs)"
proof -
  let ?w = "(set_packet p (put_message bs) w1)\<lparr>env := v\<rparr>"
  have g: "gmac_inv X ok H w" using assms(2) by (simp add: arp_inv_def)
  note f = fresh_packet [OF assms(1) g assms(3,4)]
  note a = arp_allocated [OF assms(1-4)]
  have w: "arp_inv X ok (add_mset p H) ?w" "packet_ok (packets ?w p)" "42 \<le> index (packets ?w p)"
    "next_hop X ip ?w = Some m" "frame_of (packets ?w p) = bs" "our_mac ?w = our_mac w" "our_ip ?w = our_ip w"
    "tx_descriptors ?w = tx_descriptors w" "tx_index ?w = tx_index w"
    using f a assms(5) by (simp_all del: packets_set_packet set_packet_frame tx_ring_simps next_hop_set_packet add: next_hop_env)
  have "set_packet p (put_message bs) (w1\<lparr>env := v\<rparr>) = ?w" by (cases w1) (simp add: set_packet_def)
  with assms(6) have s: "udp_send_zero_copy X p source dest ip ?w = Inr w'" by simp
  show ?thesis
    using transmits_from [OF udp_zero_copy_wire [OF assms(1) w(1-4) s] w(8,9)] unfolding w(5-7) .
qed

lemma udp_send_wire:
  assumes "intrusive_list X ok" and "arp_inv X ok H w" and "0 \<le> n" and "n \<le> int (length payload)"
    and "next_hop X ip w = Some m" and "udp_send X payload n source dest ip w = Inr w'"
  shows "transmits w w' (udp_frame_bytes m (our_mac w) source dest (our_ip w) ip (take (min (nat n) 880) payload))"
proof -
  obtain p w1 where a: "allocate_network_packet X w = Inr (p, w1)"
    and s: "udp_send_zero_copy X p source dest ip (set_packet p (put_message (take (min (nat n) 880) payload)) w1) = Inr w'"
    using assms(6) unfolding intrusive_list.udp_send_eq [OF assms(1-4)] by (auto simp: bindR_eq_Inr_iff)
  show ?thesis by (rule filled_wire [OF assms(1,2) a _ assms(5), where v = "env w1"]) (use s in simp_all)
qed

section \<open>DHCP messages\<close>

lemma broadcast_hop: "next_hop X 0xFFFFFFFF w = Some BROADCAST_MAC"
proof -
  have "x AND 0xFFFFFFFF = (x :: u32)" for x
    using and.right_neutral [of x] by (simp add: mask_eq_exp_minus_1 [of 32] flip: mask_full)
  then show ?thesis by (simp add: next_hop_def should_broadcast_def Let_def)
qed

lemma dhcp_send_wire:
  assumes "intrusive_list X ok" and "arp_inv X ok H w" and "dhcp_send_packet X t w = Inr w'"
  shows "\<exists>old. length old = 202 \<and> transmits w w' (udp_frame_bytes BROADCAST_MAC (our_mac w) 68 67 (our_ip w) 0xFFFFFFFF
    (dhcp_message t (transaction_id (dhcp w)) (ucast (time_div X (get_elapsed X (dhcp_time (dhcp w)) (fst (now X w))) 1000)) (our_mac w)
      (leased_ip (dhcp w)) (server_ip (dhcp w)) old))"
proof -
  let ?send = "\<lambda>p time w2. udp_send_zero_copy X p DHCP_CLIENT_PORT DHCP_SERVER_PORT 0xFFFFFFFF
        (set_packet p (put_message (dhcp_message t (transaction_id (dhcp w2))
          (ucast (time_div X (get_elapsed X (dhcp_time (dhcp w2)) time) 1000)) (our_mac w2) (leased_ip (dhcp w2)) (server_ip (dhcp w2))
          (chunk 178 202 (data (packets w2 p))))) w2)"
  obtain p w1 where a: "allocate_network_packet X w = Inr (p, w1)"
    and c: "(case now X w1 of (time, w2) \<Rightarrow> ?send p time w2) = Inr w'"
    using assms(3) unfolding intrusive_list.dhcp_send_packet_eq [OF assms(1,2)] by (auto simp: bindR_eq_Inr_iff)
  obtain time w2 where n: "now X w1 = (time, w2)" by fastforce
  have s: "udp_send_zero_copy X p DHCP_CLIENT_PORT DHCP_SERVER_PORT 0xFFFFFFFF
        (set_packet p (put_message (dhcp_message t (transaction_id (dhcp w2))
          (ucast (time_div X (get_elapsed X (dhcp_time (dhcp w2)) time) 1000)) (our_mac w2) (leased_ip (dhcp w2)) (server_ip (dhcp w2))
          (chunk 178 202 (data (packets w2 p))))) w2) = Inr w'"
    using c n by simp
  from safeD [OF intrusive_list.arp_allocate [OF assms(1,2)] a] have w1: "arp_inv X ok (add_mset p H) w1"
    "gmac_state.more w1 = gmac_state.more w" "our_mac w1 = our_mac w" "env w1 = env w"
    by (simp_all add: arp_frame_def same_config_def)
  note e = intrusive_list.now_env [OF assms(1) n]
  have w2: "our_mac w2 = our_mac w" "dhcp w2 = dhcp w" "length (data (packets w2 p)) = 1024"
    using w1(1,3) dhcp_of_more(1) [OF udp_fields_of_more(3) [OF arp_fields_of_more(3) [OF w1(2)]]]
    by (subst e, simp add: arp_inv_def gmac_inv_def buffers_ok_def)+
  have t: "time = fst (now X w)" using n w1(4) by (simp add: now_def split: prod.splits)
  let ?m = "dhcp_message t (transaction_id (dhcp w)) (ucast (time_div X (get_elapsed X (dhcp_time (dhcp w)) time) 1000)) (our_mac w)
      (leased_ip (dhcp w)) (server_ip (dhcp w)) (chunk 178 202 (data (packets w2 p)))"
  have old: "length (chunk 178 202 (data (packets w2 p))) = 202" using w2(3) by simp
  have "length (our_mac w) = 6" using assms(2) by (simp add: arp_inv_def gmac_inv_def buffers_ok_def)
  then have m: "length ?m \<le> 880" using length_dhcp_message [OF _ old, of "our_mac w" t "transaction_id (dhcp w)"
      "ucast (time_div X (get_elapsed X (dhcp_time (dhcp w)) time) 1000)" "leased_ip (dhcp w)" "server_ip (dhcp w)"] by linarith
  have "udp_send_zero_copy X p DHCP_CLIENT_PORT DHCP_SERVER_PORT 0xFFFFFFFF
      (set_packet p (put_message ?m) (w1\<lparr>env := env w2\<rparr>)) = Inr w'"
    using s unfolding w2(1,2) using e by simp
  from filled_wire [OF assms(1,2) a m broadcast_hop this] old show ?thesis unfolding t by blast
qed

end
