(* ===== verification/Link_Properties.thy ===== *)
theory Link_Properties
  imports Samples Wire
begin

text \<open>
  The properties of the packet pool, the Ethernet driver, the MAC layer and the ARP cache, each with
  a witness on the sample state.  They hold for every list library that keeps its contract.
\<close>

section \<open>The packet pool\<close>

text \<open>
  \<open>allocate_network_packet\<close> returns exactly when a packet is free and otherwise enters
  its endless loop; the packet it returns is one of the 96, is held by nobody else and linked in no
  list, and comes empty with 144 bytes reserved for headers.
\<close>

theorem allocate_from_pool:
  assumes "intrusive_list X ok" and "pool X ok H (packet_lists w)"
  shows "if available X w = 0 then allocate_network_packet X w = Inl Hang
    else returns (allocate_network_packet X w) (\<lambda>(p, w'). pool X ok (add_mset p H) (packet_lists w') \<and>
      p < NETWORK_PACKET_COUNT \<and> p \<notin># H \<and> (\<forall>l\<in>packet_heads. p \<notin> set (list_elements X l (packet_lists w'))) \<and>
      available X w = Suc (available X w') \<and> plength (packets w' p) = 0 \<and> index (packets w' p) = 144)"
proof -
  show ?thesis
  proof (rule intrusive_list.allocate_cases [OF assms(1,2)])
    assume "list_elements X Free_packets (packet_lists w) = []" and "allocate_network_packet X w = Inl Hang"
    then show ?thesis by (simp add: available_def)
  next
    fix p w' assume packet: "allocate_network_packet X w = Inr (p, w')"
    note a = intrusive_list.allocate_Inr [OF assms(1,2) packet]
    have "packets w' p = (packets w p)\<lparr>plength := 0, index := NETWORK_PACKET_HEADER_SIZE\<rparr>"
      by (subst a(4)) simp
    moreover have "available X w = Suc (available X w')" using a(2) by (simp add: available_def)
    ultimately show ?thesis
      using packet a(1) pool_bound [OF a(1)] pool_fresh_held [OF a(1)] pool_fresh [OF a(1)] by simp
  qed
qed

theorem allocate_from_pool_witness:
  "returns (allocate_network_packet ref_libs (sample_state 0)) (\<lambda>(p, w'). plength (packets w' p) = 0)"
proof -
  have "available ref_libs (sample_state 0) \<noteq> 0" by (simp add: available_def sample_state_def sample_lists_def)
  then show ?thesis
    using allocate_from_pool [OF ref_contract gmac_invD(1) [OF sample_gmac [of 0]]]
    by (auto elim: returns_mono)
qed

text \<open>
  Releasing a held packet gives it back to the pool, at the front of the free list; no
  other list changes, and the next allocation returns that packet.
\<close>

theorem free_to_pool:
  assumes "intrusive_list X ok" and "pool X ok (add_mset p H) (packet_lists w)"
  defines "w' \<equiv> free_network_packet X p w"
  shows "pool X ok H (packet_lists w') \<and> available X w' = Suc (available X w) \<and>
    (\<forall>l\<in>packet_heads. l \<noteq> Free_packets \<longrightarrow> list_elements X l (packet_lists w') = list_elements X l (packet_lists w)) \<and>
    (\<exists>w''. allocate_network_packet X w' = Inr (p, w''))"
proof -
  note f = intrusive_list.free_pool [OF assms(1,2), folded w'_def]
  have els: "list_elements X Free_packets (packet_lists w') = p # list_elements X Free_packets (packet_lists w)"
    using f(2) [of Free_packets] by simp
  have "\<exists>w''. allocate_network_packet X w' = Inr (p, w'')"
  proof (rule intrusive_list.allocate_cases [OF assms(1) f(1)])
    assume "list_elements X Free_packets (packet_lists w') = []"
    then show ?thesis using els by simp
  next
    fix q v assume packet: "allocate_network_packet X w' = Inr (q, v)"
    then show ?thesis using intrusive_list.allocate_Inr(2) [OF assms(1) f(1) packet] els by simp
  qed
  then show ?thesis using f els by (simp add: available_def)
qed

theorem free_to_pool_witness:
  "available ref_libs (free_network_packet ref_libs 42 (sample_state 1)) = Suc (available ref_libs (sample_state 1))"
proof -
  have "pool ref_libs ref_ok (add_mset 42 (rings (sample_state 1))) (packet_lists (sample_state 1))"
    using gmac_invD(1) [OF sample_gmac [of 1]] by simp
  from free_to_pool [OF ref_contract this] show ?thesis by blast
qed

section \<open>The driver\<close>

text \<open>
  Property C29: \<open>gmac_send\<close> takes over a held packet and keeps the driver's invariant.  On a transmit
  error it hangs.  When the descriptor in turn still belongs to the DMA engine it drops the packet;
  otherwise the engine gets exactly the bytes of the packet from its index on, and the packet that
  was linked there before goes back to the pool.  No waiting packet is touched.
\<close>

theorem gmac_send_queues_frame:
  assumes "intrusive_list X ok" and "gmac_inv X ok (add_mset p H) w" and "packet_ok (packets w p)"
  defines "i \<equiv> tx_index w"
  shows "if tx_error X w then gmac_send X p w = Inl Hang
    else returns (gmac_send X p w) (\<lambda>w'. gmac_inv X ok H w' \<and> untouched X {} w w' \<and>
      (if tx_owner (tx_descriptors w ! i) = OWNER_GMAC
       then tx_descriptors w' = tx_descriptors w \<and> p \<in> set (list_elements X Free_packets (packet_lists w'))
       else tx_frame w' i = frame_of (packets w p) \<and> tx_owner (tx_descriptors w' ! i) = OWNER_GMAC \<and>
         tx_packets w' ! i = p \<and> tx_packets w ! i \<in> set (list_elements X Free_packets (packet_lists w')) \<and>
         tx_index w' = Suc i mod 8 \<and> (\<forall>j. j \<noteq> i \<longrightarrow> tx_descriptors w' ! j = tx_descriptors w ! j)))"
proof (cases "tx_error X w")
  case True
  have "i < 8" using assms(2) by (simp add: gmac_inv_def rings_ok_def i_def)
  with True show ?thesis by (auto simp: gmac_send_def tx_error_def i_def Let_def split: prod.splits)
next
  case False
  have i: "i < 8" "length (tx_descriptors w) = 8" "length (tx_packets w) = 8"
    using assms(2) by (simp_all add: gmac_inv_def rings_ok_def i_def)
  obtain w' where s: "gmac_send X p w = Inr w'"
    using False gmac_send_returns_iff [of w X p] i by (auto simp: i_def)
  note inv = intrusive_list.gmac_send_inv [OF assms(1,2) s]
  have pk: "packets w' = packets w" by (subst gmac_send_shape [OF s]) simp
  have un: "untouched X {} w w'" using inv(2) pk by (intro untouched_lists) auto
  have pool: "pool X ok (add_mset p (H + rings w)) (packet_lists w)" using assms(2) by (simp add: gmac_inv_def)
  from assms(1,2) s have "if tx_owner (tx_descriptors w ! i) = OWNER_GMAC
       then tx_descriptors w' = tx_descriptors w \<and> p \<in> set (list_elements X Free_packets (packet_lists w'))
       else tx_frame w' i = frame_of (packets w p) \<and> tx_owner (tx_descriptors w' ! i) = OWNER_GMAC \<and>
         tx_packets w' ! i = p \<and> tx_packets w ! i \<in> set (list_elements X Free_packets (packet_lists w')) \<and>
         tx_index w' = Suc i mod 8 \<and> (\<forall>j. j \<noteq> i \<longrightarrow> tx_descriptors w' ! j = tx_descriptors w ! j)"
  proof (cases "tx_owner (tx_descriptors w ! i) = OWNER_GMAC")
    case True
    have "w' = free_network_packet X p (w\<lparr>env := snd (read_TSR X (env w))\<rparr>)"
      using intrusive_list.gmac_send_dropped [OF assms(1,2) False] True s by (simp add: i_def)
    then show ?thesis
      using True intrusive_list.free_pool(2) [OF assms(1) pool, of Free_packets] by (simp add: free_network_packet_def)
  next
    case owned: False
    note l = intrusive_list.gmac_send_linked [OF assms(1,2) s, folded i_def, OF owned]
    define q where "q = tx_packets w ! i"
    have "q \<in># rings w" using i by (auto simp: rings_def q_def)
    then obtain R where "rings w = add_mset q R" by (blast dest: multi_member_split)
    then have "pool X ok (add_mset q (add_mset p (H + R))) (packet_lists w)"
      using pool by (simp add: add_mset_commute)
    from intrusive_list.free_pool(2) [OF assms(1) this, of Free_packets]
    have "q \<in> set (list_elements X Free_packets (packet_lists w'))"
      by (simp add: l(1) free_network_packet_def q_def)
    moreover have "tx_frame w' i = frame_of (packets w p)"
      using gmac_sent_frame [OF assms(1-3) s] owned by (simp add: i_def)
    ultimately show ?thesis
      using owned i by (simp add: l(2-4) q_def)
  qed
  with False s inv(1) un show ?thesis by simp
qed

theorem gmac_send_queues_frame_witness:
  "returns (gmac_send ref_libs 42 (sample_state 1)) (\<lambda>w'. tx_frame w' 0 = frame_of sample_packet)"
proof -
  have "gmac_inv ref_libs ref_ok (add_mset 42 {#}) (sample_state 1)" using sample_gmac [of 1] by simp
  note q = gmac_send_queues_frame [OF ref_contract this]
  have "\<not> tx_error ref_libs (sample_state 1)" by (simp add: tx_error_def ref_libs_def sample_state_def)
  moreover have "tx_index (sample_state 1) = 0" "tx_owner (tx_descriptors (sample_state 1) ! 0) = OWNER_CPU"
    by (simp_all add: sample_state_def)
  ultimately show ?thesis
    using q by (auto simp: sample_packet_ok elim!: returns_mono)
qed

text \<open>
  Property C30: \<open>gmac_receive\<close> hands out the buffer of the descriptor in turn with exactly the bytes the
  controller reported, replaces it by a free packet, gives the descriptor back to the controller and
  moves on.  An unfinished descriptor and an empty ring yield no packet.  A frame that is split over
  descriptors is given back without moving on to the next one, and with an empty pool the call hangs.
\<close>

theorem gmac_receive_swaps_buffers:
  assumes "intrusive_list X ok" and "gmac_inv X ok H w"
  defines "i \<equiv> rx_index w" and "d \<equiv> rx_descriptors w ! rx_index w"
  shows "if rx_owner d = OWNER_GMAC then gmac_receive X w = Inr (None, w)
    else if \<not> start_of_frame d \<or> \<not> end_of_frame d then
      returns (gmac_receive X w) (\<lambda>(r, w'). r = None \<and> rx_index w' = i \<and> rx_owner (rx_descriptors w' ! i) = OWNER_GMAC)
    else if available X w = 0 then gmac_receive X w = Inl Hang
    else returns (gmac_receive X w) (\<lambda>(r, w'). r = Some (rx_packets w ! i) \<and>
      gmac_inv X ok (add_mset (rx_packets w ! i) H) w' \<and>
      frame_of (packets w' (rx_packets w ! i)) = take (unat (rx_length d)) (data (packets w (rx_packets w ! i))) \<and>
      rx_packets w' ! i \<in> set (list_elements X Free_packets (packet_lists w)) \<and>
      rx_address (rx_descriptors w' ! i) = Some (rx_packets w' ! i) \<and> rx_owner (rx_descriptors w' ! i) = OWNER_GMAC \<and>
      rx_index w' = Suc i mod 32 \<and> (\<forall>j. j \<noteq> i \<longrightarrow> rx_descriptors w' ! j = rx_descriptors w ! j))"
proof -
  let ?p = "rx_packets w ! i"
  let ?w = "set_packet ?p (\<lambda>k. k\<lparr>plength := uint (rx_length d), index := 0, broadcast := broadcast_detected d\<rparr>) w"
  have i: "i < 32" "length (rx_descriptors w) = 32" "length (rx_packets w) = 32"
    using assms(2) by (simp_all add: gmac_inv_def rings_ok_def i_def)
  show ?thesis
  proof (cases "rx_owner d \<noteq> OWNER_GMAC \<and> start_of_frame d \<and> end_of_frame d")
    case False
    then show ?thesis using i by (auto simp: gmac_receive_def i_def d_def Let_def)
  next
    case True
    then have e: "gmac_receive X w = bindR (allocate_network_packet X ?w) (\<lambda>(q, w1). Inr (Some ?p,
        w1\<lparr>rx_packets := (rx_packets w1)[i := q],
          rx_descriptors := (rx_descriptors w1)[i := d\<lparr>rx_address := Some q, rx_owner := OWNER_GMAC\<rparr>],
          rx_index := (if Suc i = 32 then 0 else Suc i)\<rparr>))"
      using i by (simp add: gmac_receive_def i_def d_def Let_def)
    have pool: "pool X ok (H + rings w) (packet_lists ?w)" using assms(2) by (simp add: gmac_inv_def)
    show ?thesis
    proof (rule intrusive_list.allocate_cases [OF assms(1) pool])
      assume "list_elements X Free_packets (packet_lists ?w) = []" "allocate_network_packet X ?w = Inl Hang"
      then show ?thesis using True by (simp add: e available_def)
    next
      fix q w1 assume a: "allocate_network_packet X ?w = Inr (q, w1)"
      note al = intrusive_list.allocate_Inr [OF assms(1) pool a]
      have same: "rx_packets w1 = rx_packets w" "rx_descriptors w1 = rx_descriptors w"
        by (subst al(4), simp add: set_packet_def)+
      have q: "q \<in> set (list_elements X Free_packets (packet_lists w))" and av: "available X w \<noteq> 0"
        using al(2) by (simp_all add: available_def)
      define w' where "w' = w1\<lparr>rx_packets := (rx_packets w1)[i := q],
          rx_descriptors := (rx_descriptors w1)[i := d\<lparr>rx_address := Some q, rx_owner := OWNER_GMAC\<rparr>],
          rx_index := (if Suc i = 32 then 0 else Suc i)\<rparr>"
      have r: "gmac_receive X w = Inr (Some ?p, w')" using e a by (simp add: w'_def)
      note s = intrusive_list.gmac_receive_Some [OF assms(1,2) r, folded i_def d_def]
      have "frame_of (packets w' ?p) = take (unat (rx_length d)) (data (packets w ?p))"
        by (simp add: frame_of_def s(4-6) chunk_def)
      then show ?thesis
        using True av r s(1,3) q i by (simp add: w'_def same)
    qed
  qed
qed

theorem gmac_receive_swaps_buffers_witness:
  "returns (gmac_receive ref_libs (sample_state 0)) (\<lambda>(r, w'). r = Some 8 \<and> frame_of (packets w' 8) = replicate 60 0)"
proof -
  have d: "rx_descriptors (sample_state 0) ! rx_index (sample_state 0) =
      blank_rx\<lparr>rx_address := Some 8, rx_length := 60, start_of_frame := True, end_of_frame := True\<rparr>"
    and p: "rx_packets (sample_state 0) ! rx_index (sample_state 0) = 8"
    by (simp_all add: sample_state_def del: upt_rec_numeral)
  have "available ref_libs (sample_state 0) \<noteq> 0" by (simp add: available_def sample_state_def sample_lists_def)
  with gmac_receive_swaps_buffers [OF ref_contract sample_gmac [of 0]] show ?thesis
    by (auto simp: d p sample_packet_def elim!: returns_mono)
qed

section \<open>The MAC layer\<close>

text \<open>
  When the link works, \<open>mac_send\<close> puts the 14 bytes of the Ethernet header before the
  packet's bytes: the receiver's address, ours, and the type in network order.  The controller
  gets exactly that frame if its ring has a slot, and nothing otherwise.  With fewer than 14 bytes left before the data the header is
  written outside the buffer.
\<close>

theorem mac_send_frames_packet:
  assumes "intrusive_list X ok" and "gmac_inv X ok (add_mset p H) w" and "packet_ok (packets w p)"
    and "length mac = 6" and "\<not> tx_error X w"
  shows "if index (packets w p) < 14 then mac_send X p mac e w = Inl Fault
    else returns (mac_send X p mac e w) (\<lambda>w'. gmac_inv X ok H w' \<and>
      transmits w w' (mac @ our_mac w @ be16_bytes e @ frame_of (packets w p)))"
proof (cases "index (packets w p) < 14")
  case True
  then show ?thesis using mac_send_out_of_room [OF assms(4)] by simp
next
  case False
  then obtain w' where s: "mac_send X p mac e w = Inr w'"
    using intrusive_list.mac_send_returns [OF assms(1,2,4,3) _ assms(5)] by fastforce
  have "transmits w w' (ether_frame mac (our_mac w) e (frame_of (packets w p)))"
    using False by (intro mac_send_wire [OF assms(1-3) _ assms(4) s]) simp
  then show ?thesis
    using False s intrusive_list.mac_send_inv(1) [OF assms(1,2) s] by (simp add: ether_frame_def mac_header_def)
qed

theorem mac_send_frames_packet_witness:
  "returns (mac_send ref_libs 42 [2, 0, 0, 0, 0, 2] 0x800 (sample_state 1))
     (\<lambda>w'. tx_frame w' 0 = [2, 0, 0, 0, 0, 2] @ [2, 0, 0, 0, 0, 1] @ [8, 0] @ replicate 100 0)"
proof -
  have "gmac_inv ref_libs ref_ok (add_mset 42 {#}) (sample_state 1)" using sample_gmac [of 1] by simp
  note q = mac_send_frames_packet [OF ref_contract this, where mac = "[2, 0, 0, 0, 0, 2]" and e = "0x800"]
  have "\<not> tx_error ref_libs (sample_state 1)" by (simp add: tx_error_def ref_libs_def sample_state_def)
  moreover have "tx_index (sample_state 1) = 0" "tx_owner (tx_descriptors (sample_state 1) ! 0) = OWNER_CPU"
    "our_mac (sample_state 1) = [2, 0, 0, 0, 0, 1]" "frame_of sample_packet = replicate 100 0"
    "be16_bytes 0x800 = [8, 0]" "index sample_packet = 74"
    by (simp_all add: sample_state_def frame_of_def sample_packet_def chunk_def be16_bytes_def)
  ultimately show ?thesis
    using q by (auto simp: sample_packet_ok transmits_def elim!: returns_mono)
qed

text \<open>
  Property C38: \<open>string_to_mac\<close> reads back what \<open>mac_to_string\<close> writes, in upper and lower case, for
  every address and whatever the two buffers held.
\<close>

theorem mac_text_roundtrip:
  assumes "length mac = 6" and "length junk = 6" and "18 \<le> length string"
  shows "bindR (mac_to_string mac string lowercase) (string_to_mac junk) = Inr mac"
  using mac_to_string_text [OF assms(3), of mac lowercase] string_to_mac_text [OF assms] by simp

theorem mac_text_roundtrip_witness:
  "bindR (mac_to_string [2, 0, 0xAB, 0, 0, 0xFE] (replicate 18 0x20) True) (string_to_mac (replicate 6 7)) =
    Inr [2, 0, 0xAB, 0, 0, 0xFE]"
  by (rule mac_text_roundtrip) simp_all

end
