(* ===== verification/Cache_Properties.thy ===== *)
theory Cache_Properties
  imports Samples Wire
begin

text \<open>
  The properties of the ARP cache (\<open>arp.c\<close>): sending to resolved, pending and unknown addresses,
  received requests and replies, the periodic task and the exhausted cache, each with a witness.
\<close>

section \<open>Reading an ARP packet\<close>

text \<open>The value of four bytes stored in network order, read as a little-endian word.\<close>

definition byte_swap :: "u32 \<Rightarrow> u32" where
  "byte_swap v = push_bit 24 (ucast (ucast v :: u8)) OR push_bit 16 (ucast (ucast (drop_bit 8 v) :: u8)) OR
     push_bit 8 (ucast (ucast (drop_bit 16 v) :: u8)) OR ucast (ucast (drop_bit 24 v) :: u8)"

lemma byte_swap_bytes: "be32_bytes (byte_swap v) = rev (be32_bytes v)"
  unfolding byte_swap_def be32_bytes_of by (simp add: be32_bytes_def)

lemma arp_fields_read:
  assumes "chunk (nat off) 28 d = arp_message sm tm op a b" and "length sm = 6" and "length tm = 6"
    and "0 \<le> off" and "off + 28 \<le> int (length d)"
  shows "validate_arp_header off d = Inr True" and "read_be16 d (off + 6) = Inr op"
    and "read_be32 d (off + 14) = Inr a" and "read_be32 d (off + 24) = Inr b"
    and "load_mac d (off + 8) = Inr sm" and "chunk (nat (off + 8)) 6 d = sm"
    and "load_u32 d (off + 14) = Inr (byte_swap a)"
proof -
  let ?m = "arp_message sm tm op a b"
  have sub: "chunk (nat (off + int i)) n d = chunk i n ?m" if "i + n \<le> 28" for i n
    using chunk_chunk [OF that, of "nat off" d] assms(4) by (simp add: assms(1) nat_add_distrib)
  have fields: "chunk 0 2 ?m = be16_bytes 1" "chunk 2 2 ?m = be16_bytes 0x800" "chunk 4 1 ?m = [6]" "chunk 5 1 ?m = [4]"
    "chunk 6 2 ?m = be16_bytes op" "chunk 8 6 ?m = sm" "chunk 14 4 ?m = be32_bytes a" "chunk 24 4 ?m = be32_bytes b"
    using assms(2,3) by (simp_all add: arp_message_def chunk_def be16_bytes_def be32_bytes_def)
  have bytes: "get_byte d (off + 4) = Inr 6" "get_byte d (off + 5) = Inr 4"
    using sub [of 4 1] sub [of 5 1] fields(3,4) chunk_byte [of "nat (off + 4)" d] chunk_byte [of "nat (off + 5)" d] assms(4,5)
    by (simp_all add: mem)
  have r16: "read_be16 d off = Inr 1" "read_be16 d (off + 2) = Inr 0x800" "read_be16 d (off + 6) = Inr op"
    using sub [of 0 2] sub [of 2 2] sub [of 6 2] fields assms(4,5) by (simp_all add: be16.rd_enc)
  show "read_be16 d (off + 6) = Inr op" by (rule r16)
  show "validate_arp_header off d = Inr True" by (simp add: validate_arp_header_def r16 bytes)
  show "read_be32 d (off + 14) = Inr a" "read_be32 d (off + 24) = Inr b"
    using sub [of 14 4] sub [of 24 4] fields assms(4,5) by (simp_all add: be32.rd_enc)
  show m: "chunk (nat (off + 8)) 6 d = sm" using sub [of 8 6] fields by simp
  show "load_mac d (off + 8) = Inr sm" using assms(4,5) m by (simp add: load_mac_def)
  have "chunk (nat (off + 14)) 4 d = be32_bytes a" using sub [of 14 4] fields by simp
  moreover have "chunk (nat (off + 14)) 4 d =
      [d ! nat (off + 14), d ! nat (off + 15), d ! nat (off + 16), d ! nat (off + 17)]"
    using assms(4,5) by (subst chunk_4) (simp_all add: nat_add_distrib add.commute)
  ultimately have "d ! nat (off + 14) = ucast (drop_bit 24 a)" "d ! nat (off + 15) = ucast (drop_bit 16 a)"
    "d ! nat (off + 16) = ucast (drop_bit 8 a)" "d ! nat (off + 17) = ucast a"
    by (simp_all add: be32_bytes_def)
  then show "load_u32 d (off + 14) = Inr (byte_swap a)"
    using assms(4,5) by (simp add: load_u32_def mem byte_swap_def ac_simps)
qed

text \<open>What \<open>handle_arp\<close> does with a well-formed packet.\<close>

lemma handle_arp_message:
  assumes "packet_ok (packets w p)" and "28 \<le> plength (packets w p)" and "length sm = 6" and "length tm = 6"
    and "take 28 (frame_of (packets w p)) = arp_message sm tm op a b"
  defines "d \<equiv> data (packets w p)" and "off \<equiv> index (packets w p)"
  shows "handle_arp X p w = bindR
      (if op = ARP_OPERATION_REPLY then
         (if a \<noteq> b \<and> b = our_ip w then update_arp_mapping X a d (off + 8) True w else Inr w)
       else if op = ARP_OPERATION_REQUEST then
         (if a \<noteq> 0 \<and> a \<noteq> b \<and> b = our_ip w then send_arp_packet X sm (byte_swap a) ARP_TYPE_REPLY w else Inr w)
       else Inr w) (\<lambda>w. Inr (free_network_packet X p w))"
    and "chunk (nat (off + 8)) 6 d = sm" and "0 \<le> off" and "off + 28 \<le> int (length d)"
proof -
  show b: "0 \<le> off" "off + 28 \<le> int (length d)" using assms(1,2) by (auto simp: packet_ok_def off_def d_def)
  have "28 \<le> nat (plength (packets w p))" using assms(2) by simp
  then have "chunk (nat off) 28 d = arp_message sm tm op a b"
    using assms(5) by (simp add: frame_of_def chunk_def off_def d_def min_def)
  note r = arp_fields_read [OF this assms(3,4) b]
  show "chunk (nat (off + 8)) 6 d = sm" by (rule r(6))
  have "plength (packets w p) \<le> 1024" using assms(1) by (auto simp: packet_ok_def)
  then have "\<not> size_t (plength (packets w p)) < size_t 28" using assms(2) by (simp add: size_t_less uint_size_t)
  then show "handle_arp X p w = bindR
      (if op = ARP_OPERATION_REPLY then
         (if a \<noteq> b \<and> b = our_ip w then update_arp_mapping X a d (off + 8) True w else Inr w)
       else if op = ARP_OPERATION_REQUEST then
         (if a \<noteq> 0 \<and> a \<noteq> b \<and> b = our_ip w then send_arp_packet X sm (byte_swap a) ARP_TYPE_REPLY w else Inr w)
       else Inr w) (\<lambda>w. Inr (free_network_packet X p w))"
    using r by (simp add: handle_arp_def Let_def d_def off_def get_our_ip_def)
qed

section \<open>Sending\<close>

text \<open>
  \<open>arp_send\<close> to an address with a valid mapping hands the packet to the controller at
  once, in an IPv4 frame to the mapped hardware address.  To an address that is still being resolved
  it transmits nothing and queues the packet behind the waiting ones; a third packet evicts the
  oldest of them.
\<close>

theorem arp_send_cached:
  assumes "intrusive_list X ok" and "arp_inv X ok (add_mset p H) w" and "ready (packets w p)"
    and "find_arp_entry X ip w = Some e"
  shows "if contain_valid_mapping (arp_entries w e)
    then safe (arp_send X p ip w) (\<lambda>w'. arp_inv X ok H w' \<and>
      transmits w w' (ether_frame (entry_mac (arp_entries w e)) (our_mac w) ETHER_TYPE_IPV4 (frame_of (packets w p))))
    else returns (arp_send X p ip w) (\<lambda>w'. arp_inv X ok H w' \<and> tx_descriptors w' = tx_descriptors w \<and>
      (let waiting = queue_of X w e in queue_of X w' e = (if length waiting < 2 then waiting else tl waiting) @ [p]))"
proof (cases "contain_valid_mapping (arp_entries w e)")
  case True
  have s: "arp_send X p ip w = mac_send X p (entry_mac (arp_entries w e)) ETHER_TYPE_IPV4 w"
    using True by (simp add: arp_send_def assms(4))
  have k: "packet_ok (packets w p)" "14 \<le> index (packets w p)" using assms(3) by (simp_all add: ready_def)
  have m: "length (entry_mac (arp_entries w e)) = 6" and g: "gmac_inv X ok (add_mset p H) w"
    using assms(2) by (simp_all add: arp_inv_def entries_inv_def)
  have "safe (arp_send X p ip w) (\<lambda>w'. arp_inv X ok H w' \<and> arp_frame X w w')"
    using assms(4) by (intro intrusive_list.arp_send_safe [OF assms(1-3)]) (simp add: arp_room_def)
  then show ?thesis
    using True mac_send_wire [OF assms(1) g k m] by (auto simp: s elim!: safe_mono)
next
  case False
  have u: "e \<in> set (used_list X w)" using assms(4) find_arp_entry_Some by blast
  then have "entry_ok X w e" using assms(2) by (simp add: arp_inv_def entries_inv_def)
  then have q: "length (queue_of X w e) \<le> 2" using False by (simp add: entry_ok_def)
  have s: "arp_send X p ip w = add_to_arp_entry_queue X p e w" using False by (simp add: arp_send_def assms(4))
  have "returns (arp_send X p ip w) (\<lambda>w'. arp_inv X ok H w' \<and> tx_descriptors w' = tx_descriptors w \<and>
      queue_of X w' e = (if length (queue_of X w e) = 2 then tl (queue_of X w e) else queue_of X w e) @ [p])"
    unfolding s
  proof (rule returns_mono [OF intrusive_list.add_to_queue_returns [OF assms(1,2) u False assms(3)]], elim conjE, intro conjI)
    fix w' assume "add_to_arp_entry_queue X p e w = Inr w'"
    from intrusive_list.add_to_queue_shape(1) [OF assms(1) this]
    show "tx_descriptors w' = tx_descriptors w" by (rule arg_cong [of _ _ tx_descriptors, THEN trans]) simp
  qed simp_all
  then show ?thesis using False q by (auto simp: Let_def elim!: returns_mono)
qed

lemma sample_find:
  "find_arp_entry ref_libs 0x0A000002 (sample_state n) = Some 0" "find_arp_entry ref_libs 0x0A000003 (sample_state n) = Some 1"
  "find_arp_entry ref_libs 0x0A000009 (sample_state n) = None"
  by (simp_all add: find_arp_entry_def sample_state_def sample_entry_def del: upt_rec_numeral)

theorem arp_send_cached_witness:
  "safe (arp_send ref_libs 42 0x0A000002 (sample_state 1))
     (\<lambda>w'. tx_frame w' 0 = [2, 0, 0, 0, 0, 2] @ [2, 0, 0, 0, 0, 1] @ [8, 0] @ replicate 100 0) \<and>
   returns (arp_send ref_libs 42 0x0A000003 (sample_state 1)) (\<lambda>w'. queue_of ref_libs w' 1 = [40, 42])"
proof -
  have i: "arp_inv ref_libs ref_ok (add_mset 42 {#}) (sample_state 1)" using sample_arp [of 1] by simp
  have r: "ready (packets (sample_state 1) 42)" by (simp add: sample_packet_ok)
  note p = arp_send_cached [OF ref_contract i r]
  have s: "tx_index (sample_state 1) = 0" "tx_owner (tx_descriptors (sample_state 1) ! 0) = OWNER_CPU"
    "our_mac (sample_state 1) = [2, 0, 0, 0, 0, 1]" "frame_of sample_packet = replicate 100 0"
    "be16_bytes 0x800 = [8, 0]" "arp_entries (sample_state 1) = sample_entry"
    "queue_of ref_libs (sample_state 1) 1 = [40]"
    by (simp_all add: sample_state_def frame_of_def sample_packet_def chunk_def be16_bytes_def queue_of_def sample_lists_def
        del: upt_rec_numeral)
  show ?thesis
    using p [OF sample_find(1)] p [OF sample_find(2)]
    by (auto simp: s [unfolded One_nat_def] sample_entry_def transmits_def ether_frame_def mac_header_def elim!: safe_mono returns_mono)
qed

text \<open>
  \<open>arp_send\<close> to an unknown address, while an entry is free, takes the first free entry
  for the address, queues the packet on it unresolved, and broadcasts an ARP request that asks for the
  address in our name.
\<close>

theorem arp_send_unknown:
  assumes "intrusive_list X ok" and "arp_inv X ok (add_mset p H) w" and "ready (packets w p)"
    and "find_arp_entry X ip w = None" and "free_list X w = e # es"
  shows "safe (arp_send X p ip w) (\<lambda>w'. arp_inv X ok H w' \<and> free_list X w' = es \<and> used_list X w' = used_list X w @ [e] \<and>
    entry_ip (arp_entries w' e) = ip \<and> \<not> contain_valid_mapping (arp_entries w' e) \<and> queue_of X w' e = [p] \<and>
    transmits w w' (ether_frame BROADCAST_MAC (our_mac w) ETHER_TYPE_ARP
      (arp_message (our_mac w) [0, 0, 0, 0, 0, 0] ARP_OPERATION_REQUEST (our_ip w) ip)))"
proof -
  obtain w1 where s: "arp_send X p ip w = send_arp_packet X [] ip ARP_TYPE_REQUEST w1" and i: "arp_inv X ok H w1"
    and f: "arp_frame X w w1" and l: "used_list X w1 = used_list X w @ [e]" "free_list X w1 = es"
      "queue_of X w1 e = [p]" "entry_ip (arp_entries w1 e) = ip" "\<not> contain_valid_mapping (arp_entries w1 e)"
    and w1: "w1 = w\<lparr>packet_lists := packet_lists w1, arp_entries := arp_entries w1, entry_lists := entry_lists w1, env := env w1\<rparr>"
    using intrusive_list.arp_send_new [OF assms(1-4)] assms(5) by auto
  have g: "gmac_inv X ok H w1" using i by (simp add: arp_inv_def)
  have e: "e < 8" using assms(2,5) entries_inv_member(1) [of X ok w e] by (simp add: arp_inv_def)
  have c: "our_mac w1 = our_mac w" "our_ip w1 = our_ip w" using f by (simp_all add: arp_frame_def same_config_def)
  have tx: "tx_descriptors w1 = tx_descriptors w" "tx_index w1 = tx_index w" by (subst w1, simp)+
  show ?thesis
    unfolding s
  proof (rule safe_mono [OF intrusive_list.send_arp_packet_inv [OF assms(1) i]], simp, elim conjE)
    fix w' assume r: "send_arp_packet X [] ip ARP_TYPE_REQUEST w1 = Inr w'" and i': "arp_inv X ok H w'"
      and u: "untouched X {} w1 w'" and m: "gmac_state.more w' = gmac_state.more w1"
    have "transmits w1 w' (ether_frame (arp_destination [] ARP_TYPE_REQUEST) (our_mac w1) ETHER_TYPE_ARP
        (arp_packet (our_mac w1) (our_ip w1) [] ip ARP_TYPE_REQUEST))"
      by (rule send_arp_wire [OF assms(1) g _ r]) simp
    then have "transmits w w' (ether_frame BROADCAST_MAC (our_mac w) ETHER_TYPE_ARP
        (arp_message (our_mac w) [0, 0, 0, 0, 0, 0] ARP_OPERATION_REQUEST (our_ip w) ip))"
      using transmits_from [OF _ tx] by (simp add: c arp_packet_def arp_destination_def arp_target_mac_def)
    moreover have "queue_of X w' e = [p]"
      using untouched_queue [OF u] e l(3) by (simp add: queue_of_def)
    ultimately show "arp_inv X ok H w' \<and> free_list X w' = es \<and> used_list X w' = used_list X w @ [e] \<and>
      entry_ip (arp_entries w' e) = ip \<and> \<not> contain_valid_mapping (arp_entries w' e) \<and> queue_of X w' e = [p] \<and>
      transmits w w' (ether_frame BROADCAST_MAC (our_mac w) ETHER_TYPE_ARP
        (arp_message (our_mac w) [0, 0, 0, 0, 0, 0] ARP_OPERATION_REQUEST (our_ip w) ip))"
      using i' l lists_of_more [OF m] arp_fields_of_more(1) [OF m] by simp
  qed
qed

theorem arp_send_unknown_witness:
  "safe (arp_send ref_libs 42 0x0A000009 (sample_state 1))
     (\<lambda>w'. queue_of ref_libs w' 2 = [42] \<and> length (tx_frame w' 0) = 42)"
proof -
  have i: "arp_inv ref_libs ref_ok (add_mset 42 {#}) (sample_state 1)" using sample_arp [of 1] by simp
  have r: "ready (packets (sample_state 1) 42)" by (simp add: sample_packet_ok)
  have s: "tx_index (sample_state 1) = 0" "tx_owner (tx_descriptors (sample_state 1) ! 0) = OWNER_CPU"
    "our_mac (sample_state 1) = [2, 0, 0, 0, 0, 1]"
    and f: "free_list ref_libs (sample_state 1) = 2 # [3, 4, 5, 6, 7]"
    by (simp_all add: sample_state_def free_list_def)
  show ?thesis
    using arp_send_unknown [OF ref_contract i r sample_find(3) f]
    by (auto simp: s [unfolded One_nat_def] transmits_def ether_frame_def length_mac_header length_arp_message elim!: safe_mono)
qed

section \<open>Receiving\<close>

text \<open>What \<open>handle_arp\<close> does with a well-formed reply.\<close>

lemma arp_reply:
  fixes w :: "('e, 'h, 'z) arp_state_scheme"
  assumes "intrusive_list X ok" and "arp_inv X ok (add_mset p H) w" and "packet_ok (packets w p)"
    and "28 \<le> plength (packets w p)" and "length sm = 6" and "length tm = 6" and "a \<noteq> our_ip w"
    and "take 28 (frame_of (packets w p)) = arp_message sm tm ARP_OPERATION_REPLY a (our_ip w)"
  shows "safe (handle_arp X p w) (\<lambda>w'. arp_inv X ok H w' \<and> used_list X w' = used_list X w \<and>
    (\<forall>e. e \<noteq> the (find_arp_entry X a w) \<longrightarrow> arp_entries w' e = arp_entries w e) \<and>
    (case find_arp_entry X a w of
       None \<Rightarrow> arp_entries w' = arp_entries w
     | Some e \<Rightarrow> if contain_valid_mapping (arp_entries w e) then arp_entries w' e = arp_entries w e
         else contain_valid_mapping (arp_entries w' e) \<and> entry_mac (arp_entries w' e) = sm \<and> queue_of X w' e = []))"
proof -
  define Q where "Q w' \<longleftrightarrow> used_list X w' = used_list X w \<and>
    (\<forall>e. e \<noteq> the (find_arp_entry X a w) \<longrightarrow> arp_entries w' e = arp_entries w e) \<and>
    (case find_arp_entry X a w of
       None \<Rightarrow> arp_entries w' = arp_entries w
     | Some e \<Rightarrow> if contain_valid_mapping (arp_entries w e) then arp_entries w' e = arp_entries w e
         else contain_valid_mapping (arp_entries w' e) \<and> entry_mac (arp_entries w' e) = sm \<and> queue_of X w' e = [])"
    for w' :: "('e, 'h, 'z) arp_state_scheme"
  note h = handle_arp_message [OF assms(3-6,8)]
  let ?d = "data (packets w p)" and ?off = "index (packets w p) + 8"
  have r: "handle_arp X p w = bindR (update_arp_mapping X a ?d ?off True w) (\<lambda>w. Inr (free_network_packet X p w))"
    using h(1) assms(7) by simp
  have u: "safe (update_arp_mapping X a ?d ?off True w) (\<lambda>w'. arp_inv X ok (add_mset p H) w' \<and> Q w')"
  proof (cases "find_arp_entry X a w")
    case None
    then show ?thesis using assms(2) by (simp add: update_arp_mapping_def Q_def)
  next
    case (Some e)
    show ?thesis
    proof (cases "contain_valid_mapping (arp_entries w e)")
      case True
      then show ?thesis using assms(2) Some by (simp add: update_arp_mapping_def Q_def)
    next
      case False
      then show ?thesis
        using intrusive_list.update_mapping_flush [OF assms(1,2) Some, of ?off ?d True] h(2-4)
        by (auto simp: Some Q_def elim!: safe_mono)
    qed
  qed
  have "arp_inv X ok H (free_network_packet X p w') \<and> Q (free_network_packet X p w')"
    if i: "arp_inv X ok (add_mset p H) w'" and q: "Q w'" for w'
  proof -
    have "queue_of X (free_network_packet X p w') e = queue_of X w' e" if "find_arp_entry X a w = Some e" for e
    proof -
      have "e \<in> set (used_list X w)" using that find_arp_entry_Some by blast
      then have "e < 8" using assms(2) entries_inv_member(1) [of X ok w e] by (simp add: arp_inv_def)
      then show ?thesis
        using intrusive_list.gmac_inv_free(2) [OF assms(1), of p H w' "Entry_queue e"] i by (simp add: queue_of_def arp_inv_def)
    qed
    then show ?thesis
      using intrusive_list.gmac_free_arp(1) [OF assms(1) i] q by (auto simp: Q_def used_list_def split: option.splits if_splits)
  qed
  then have "safe (handle_arp X p w) (\<lambda>w'. arp_inv X ok H w' \<and> Q w')"
    unfolding r safe_bindR by (intro safe_mono [OF u]) simp
  then show ?thesis by (simp only: Q_def)
qed

text \<open>The buffer of packet 42 with a reply from 10.0.0.3, on whose entry packet 40 waits.\<close>

definition arp_state_with :: "u8 list \<Rightarrow> (ref_env, list_head \<Rightarrow> nat list) dhcp_state" where
  "arp_state_with bytes = set_packet 42 (put_message bytes) (sample_state 1)"

lemma arp_state_with_ok:
  assumes "length bytes = 28"
  shows "arp_inv ref_libs ref_ok (add_mset 42 {#}) (arp_state_with bytes)" and "packet_ok (packets (arp_state_with bytes) 42)"
    and "28 \<le> plength (packets (arp_state_with bytes) 42)" and "take 28 (frame_of (packets (arp_state_with bytes) 42)) = bytes"
    and "find_arp_entry ref_libs ip (arp_state_with bytes) = find_arp_entry ref_libs ip (sample_state 1)"
    and "arp_entries (arp_state_with bytes) = sample_entry" and "our_ip (arp_state_with bytes) = 0x0A000001"
    and "our_mac (arp_state_with bytes) = [2, 0, 0, 0, 0, 1]" and "tx_index (arp_state_with bytes) = 0"
    and "tx_owner (tx_descriptors (arp_state_with bytes) ! 0) = OWNER_CPU"
proof -
  have k: "length (data sample_packet) = 1024" "0 \<le> index sample_packet" "index sample_packet + int (length bytes) \<le> 1024"
    using assms by (simp_all add: sample_packet_def)
  note m = put_message_frame [OF k]
  have i: "arp_inv ref_libs ref_ok (add_mset 42 {#}) (sample_state 1)" using sample_arp [of 1] by simp
  show "arp_inv ref_libs ref_ok (add_mset 42 {#}) (arp_state_with bytes)"
    unfolding arp_state_with_def
    by (rule ref.arp_inv_set_packet(1) [OF i]) (use m(2) k in \<open>simp add: packet_ok_def\<close>)
  show "packet_ok (packets (arp_state_with bytes) 42)" "28 \<le> plength (packets (arp_state_with bytes) 42)"
    "take 28 (frame_of (packets (arp_state_with bytes) 42)) = bytes"
    using m assms by (simp_all add: arp_state_with_def) (simp add: put_message_def)
  show "find_arp_entry ref_libs ip (arp_state_with bytes) = find_arp_entry ref_libs ip (sample_state 1)"
    by (simp add: arp_state_with_def)
qed (simp_all add: arp_state_with_def sample_state_def del: upt_rec_numeral)

text \<open>
  A well-formed ARP reply to our address completes the pending entry of its sender: the
  entry gets the sender's hardware address, becomes valid, and every packet that waited on it leaves
  the queue.  A reply nobody waits for, or for a valid entry, changes no mapping.
\<close>

theorem arp_reply_resolves:
  fixes w :: "('e, 'h, 'z) arp_state_scheme"
  assumes "intrusive_list X ok" and "arp_inv X ok (add_mset p H) w" and "packet_ok (packets w p)"
    and "28 \<le> plength (packets w p)" and "length sm = 6" and "length tm = 6" and "a \<noteq> our_ip w"
    and "take 28 (frame_of (packets w p)) = arp_message sm tm ARP_OPERATION_REPLY a (our_ip w)"
  shows "safe (handle_arp X p w) (\<lambda>w'. arp_inv X ok H w' \<and> used_list X w' = used_list X w \<and>
    (\<forall>e. e \<noteq> the (find_arp_entry X a w) \<longrightarrow> arp_entries w' e = arp_entries w e) \<and>
    (case find_arp_entry X a w of
       None \<Rightarrow> arp_entries w' = arp_entries w
     | Some e \<Rightarrow> if contain_valid_mapping (arp_entries w e) then arp_entries w' e = arp_entries w e
         else contain_valid_mapping (arp_entries w' e) \<and> entry_mac (arp_entries w' e) = sm \<and> queue_of X w' e = []))"
  by (rule arp_reply [OF assms])

theorem arp_reply_resolves_witness:
  "safe (handle_arp ref_libs 42 (arp_state_with
       (arp_message [2, 0, 0, 0, 0, 3] [2, 0, 0, 0, 0, 1] ARP_OPERATION_REPLY 0x0A000003 0x0A000001)))
     (\<lambda>w'. contain_valid_mapping (arp_entries w' 1) \<and> entry_mac (arp_entries w' 1) = [2, 0, 0, 0, 0, 3] \<and>
        queue_of ref_libs w' 1 = [])"
proof -
  let ?m = "arp_message [2, 0, 0, 0, 0, 3] [2, 0, 0, 0, 0, 1] ARP_OPERATION_REPLY 0x0A000003 0x0A000001"
  have l: "length ?m = 28" by (simp add: length_arp_message)
  note s = arp_state_with_ok [OF l]
  show ?thesis
    using arp_reply_resolves [OF ref_contract s(1-3), of "[2, 0, 0, 0, 0, 3]" "[2, 0, 0, 0, 0, 1]" "0x0A000003"] s(4)
      sample_find(2) [of 1]
    by (auto simp: s(5-7) sample_entry_def simp del: One_nat_def elim!: safe_mono)
qed

text \<open>
  A well-formed ARP request for our address is answered with one ARP reply that goes to the hardware
  address the request names and gives ours.  The target protocol address in the reply is the
  requester's address with its four bytes reversed: \<open>handle_arp\<close> passes the field of the received
  header on without \<open>read_be32\<close>.
\<close>

lemma arp_request:
  assumes "intrusive_list X ok" and "arp_inv X ok (add_mset p H) w" and "packet_ok (packets w p)"
    and "28 \<le> plength (packets w p)" and "length sm = 6" and "length tm = 6" and "a \<noteq> our_ip w" and "a \<noteq> 0"
    and "take 28 (frame_of (packets w p)) = arp_message sm tm ARP_OPERATION_REQUEST a (our_ip w)"
  shows "safe (handle_arp X p w) (\<lambda>w'. arp_inv X ok H w' \<and>
    transmits w w' (ether_frame sm (our_mac w) ETHER_TYPE_ARP
      (arp_message (our_mac w) sm ARP_OPERATION_REPLY (our_ip w) (byte_swap a))))"
proof -
  have r: "handle_arp X p w =
      bindR (send_arp_packet X sm (byte_swap a) ARP_TYPE_REPLY w) (\<lambda>w. Inr (free_network_packet X p w))"
    using handle_arp_message(1) [OF assms(3-6,9), of X] assms(7,8) by simp
  have g: "gmac_inv X ok (add_mset p H) w" using assms(2) by (simp add: arp_inv_def)
  have sm: "ARP_TYPE_REPLY = ARP_TYPE_REPLY \<longrightarrow> length sm = 6" using assms(5) by simp
  show ?thesis
    unfolding r safe_bindR
  proof (rule safe_mono [OF intrusive_list.send_arp_packet_inv [OF assms(1,2) sm]], simp, intro conjI)
    fix w' assume s: "send_arp_packet X sm (byte_swap a) ARP_TYPE_REPLY w = Inr w'"
      and i: "arp_inv X ok (add_mset p H) w' \<and> untouched X {} w w' \<and> gmac_state.more w' = gmac_state.more w \<and> same_config w w'"
    show "arp_inv X ok H (free_network_packet X p w')"
      using i by (intro intrusive_list.gmac_free_arp(1) [OF assms(1)]) simp
    have "transmits w w' (ether_frame sm (our_mac w) ETHER_TYPE_ARP
        (arp_message (our_mac w) sm ARP_OPERATION_REPLY (our_ip w) (byte_swap a)))"
      using send_arp_wire [OF assms(1) g sm s] by (simp add: arp_packet_def arp_destination_def arp_target_mac_def)
    then show "transmits w (free_network_packet X p w') (ether_frame sm (our_mac w) ETHER_TYPE_ARP
        (arp_message (our_mac w) sm ARP_OPERATION_REPLY (our_ip w) (byte_swap a)))"
      by (rule transmits_to) simp_all
  qed
qed

text \<open>
  A packet the cache acts upon: a complete IPv4-over-Ethernet ARP packet for our address from another
  sender, which is a reply, or a request with a sender address.
\<close>

definition arp_wanted :: "u32 \<Rightarrow> u8 list \<Rightarrow> bool" where
  "arp_wanted our bs \<longleftrightarrow> (\<exists>sm tm op a. length sm = 6 \<and> length tm = 6 \<and> take 28 bs = arp_message sm tm op a our \<and>
     a \<noteq> our \<and> (op = ARP_OPERATION_REPLY \<or> op = ARP_OPERATION_REQUEST \<and> a \<noteq> 0))"

lemma chunk_join: "b = a + m \<Longrightarrow> chunk a m d @ chunk b n d = chunk a (m + n) d"
  by (simp add: chunk_append_chunk)

lemma valid_arp_message:
  assumes "validate_arp_header off d = Inr True" and "0 \<le> off" and "off + 28 \<le> int (length d)"
  shows "\<exists>sm tm op a b. length sm = 6 \<and> length tm = 6 \<and> chunk (nat off) 28 d = arp_message sm tm op a b"
proof -
  obtain op where op: "chunk (nat off + 6) 2 d = be16_bytes op"
    using be16.rd_in [of "off + 6" d] be16.rd_enc [of "off + 6" d] assms(2,3) by (auto simp: nat_add_distrib)
  obtain a where a: "chunk (nat off + 14) 4 d = be32_bytes a"
    using be32.rd_in [of "off + 14" d] be32.rd_enc [of "off + 14" d] assms(2,3) by (auto simp: nat_add_distrib)
  obtain b where b: "chunk (nat off + 24) 4 d = be32_bytes b"
    using be32.rd_in [of "off + 24" d] be32.rd_enc [of "off + 24" d] assms(2,3) by (auto simp: nat_add_distrib)
  have v: "read_be16 d off = Inr 1" "read_be16 d (off + 2) = Inr 0x800" "get_byte d (off + 4) = Inr 6" "get_byte d (off + 5) = Inr 4"
    using assms(1) by (auto simp: validate_arp_header_def bindR_eq_Inr_iff split: if_splits)
  have h: "chunk (nat off) 2 d = be16_bytes 1" "chunk (nat off + 2) 2 d = be16_bytes 0x800"
    using v(1,2) be16.rd_enc [of off d] be16.rd_enc [of "off + 2" d] assms(2,3) by (simp_all add: nat_add_distrib)
  have l: "chunk (nat off + 4) 1 d = [6]" "chunk (nat off + 5) 1 d = [4]"
    using v(3,4) chunk_byte [of "nat off + 4" d] chunk_byte [of "nat off + 5" d] assms(2,3)
    by (simp_all add: mem nat_add_distrib)
  have "chunk (nat off) 28 d = chunk (nat off) 2 d @ chunk (nat off + 2) 2 d @ chunk (nat off + 4) 1 d @
      chunk (nat off + 5) 1 d @ chunk (nat off + 6) 2 d @ chunk (nat off + 8) 6 d @ chunk (nat off + 14) 4 d @
      chunk (nat off + 18) 6 d @ chunk (nat off + 24) 4 d"
    by (simp add: chunk_join)
  then have "chunk (nat off) 28 d = arp_message (chunk (nat off + 8) 6 d) (chunk (nat off + 18) 6 d) op a b"
    unfolding op a b h l by (simp add: arp_message_def)
  moreover have "length (chunk (nat off + 8) 6 d) = 6" "length (chunk (nat off + 18) 6 d) = 6"
    using assms(2,3) by simp_all
  ultimately show ?thesis by blast
qed

text \<open>
  Every other packet is only released: one that is too short, one for other protocols or
  address sizes, one for another host, one from ourselves, and one with an unknown operation.
\<close>

theorem arp_others_released:
  assumes "packet_ok (packets w p)" and "plength (packets w p) < 28 \<or> \<not> arp_wanted (our_ip w) (frame_of (packets w p))"
  shows "handle_arp X p w = Inr (free_network_packet X p w)"
proof (cases "plength (packets w p) < 28")
  case True
  then show ?thesis using assms(1) by (auto simp: handle_arp_def Let_def packet_ok_def size_t_less uint_size_t)
next
  case False
  let ?d = "data (packets w p)" and ?off = "index (packets w p)"
  have len: "28 \<le> plength (packets w p)" and b: "0 \<le> ?off" "?off + 28 \<le> int (length ?d)" "plength (packets w p) \<le> 1024"
    using False assms(1) by (auto simp: packet_ok_def)
  have sz: "\<not> size_t (plength (packets w p)) < size_t 28" using len b by (simp add: size_t_less uint_size_t)
  have "\<exists>v. validate_arp_header ?off ?d = Inr v"
    using b by (simp add: validate_arp_header_def mem cong: if_cong)
  then obtain v where v: "validate_arp_header ?off ?d = Inr v" ..
  show ?thesis
  proof (cases v)
    case False
    then show ?thesis using sz v by (simp add: handle_arp_def Let_def)
  next
    case True
    then obtain sm tm op a t where m: "length sm = 6" "length tm = 6" "chunk (nat ?off) 28 ?d = arp_message sm tm op a t"
      using valid_arp_message [OF _ b(1,2)] v by auto
    have "28 \<le> nat (plength (packets w p))" using len by simp
    then have "take 28 (frame_of (packets w p)) = arp_message sm tm op a t"
      using m(3) by (simp add: frame_of_def chunk_def min_def)
    note t = this
    have "arp_wanted (our_ip w) (frame_of (packets w p))"
      if "t = our_ip w" "a \<noteq> t" "op = ARP_OPERATION_REPLY \<or> op = ARP_OPERATION_REQUEST \<and> a \<noteq> 0"
      unfolding arp_wanted_def using that t m(1,2) by blast
    then have "\<not> (t = our_ip w \<and> a \<noteq> t \<and> (op = ARP_OPERATION_REPLY \<or> op = ARP_OPERATION_REQUEST \<and> a \<noteq> 0))"
      using assms(2) len by auto
    then show ?thesis
      using handle_arp_message(1) [OF assms(1) len m(1,2) t, of X] by auto
  qed
qed

theorem arp_others_released_witness:
  "handle_arp ref_libs 42 (sample_state 1) = Inr (free_network_packet ref_libs 42 (sample_state 1))"
proof (rule arp_others_released)
  have "take 28 (frame_of sample_packet) ! 0 = 0" "take 28 (frame_of sample_packet) ! 1 = 0"
    by (simp_all add: frame_of_def sample_packet_def chunk_def)
  moreover have "arp_message sm tm op a our ! 1 = 1" for sm tm op a our
    by (simp add: arp_message_def be16_bytes_def)
  ultimately have "\<not> arp_wanted our (frame_of sample_packet)" for our
    unfolding arp_wanted_def by (metis zero_neq_one)
  then show "plength (packets (sample_state 1) 42) < 28 \<or>
      \<not> arp_wanted (our_ip (sample_state 1)) (frame_of (packets (sample_state 1) 42))" by simp
qed (simp add: sample_packet_ok)

section \<open>The periodic task\<close>

text \<open>
  Property C34: one visit of \<open>arp_task\<close> to an entry.  A mapping older than a minute and a resolution
  that got no reply after three repetitions are given up: the entry becomes the first free one and
  the packets that waited on it go back to the pool.  A resolution without reply for more than a
  second is repeated with another broadcast request and counted, and its second starts again: the
  entry gets the time read after the request, and nothing else of the cache changes.  Otherwise only
  the clock is read.
\<close>

theorem arp_task_entry_ages:
  fixes w :: "('e, 'h, 'z) arp_state_scheme"
  assumes "intrusive_list X ok" and "arp_inv X ok H w" and "e \<in> set (used_list X w)"
  defines "k \<equiv> arp_entries w e" and "age \<equiv> time_value X (get_elapsed X (entry_time (arp_entries w e)) (fst (now X w)))"
  shows "if (if contain_valid_mapping k then age > 60000 else age > 1000 \<and> 3 \<le> retry_count k)
    then returns (arp_task_entry X e w) (\<lambda>w'. arp_inv X ok H w' \<and> used_list X w' = remove1 e (used_list X w) \<and>
      free_list X w' = e # free_list X w \<and> queue_of X w' e = [])
    else if \<not> contain_valid_mapping k \<and> age > 1000
    then safe (arp_task_entry X e w) (\<lambda>w'. arp_inv X ok H w' \<and> used_list X w' = used_list X w \<and>
      (\<exists>v :: ('e, 'h, 'z) arp_state_scheme. env w' = env (snd (now X v)) \<and>
         arp_entries w' = (arp_entries w)(e := k\<lparr>retry_count := retry_count k + 1, entry_time := fst (now X v)\<rparr>)) \<and>
      transmits w w' (ether_frame BROADCAST_MAC (our_mac w) ETHER_TYPE_ARP
        (arp_message (our_mac w) [0, 0, 0, 0, 0, 0] ARP_OPERATION_REQUEST (our_ip w) (entry_ip k))))
    else returns (arp_task_entry X e w) (\<lambda>w'. w' = w\<lparr>env := env w'\<rparr>)"
proof -
  obtain t w1 where n: "now X w = (t, w1)" by fastforce
  note env = intrusive_list.now_env [OF assms(1) n]
  have w1: "arp_inv X ok H w1" "used_list X w1 = used_list X w" "free_list X w1 = free_list X w"
    "arp_entries w1 = arp_entries w" "our_mac w1 = our_mac w" "our_ip w1 = our_ip w"
    using assms(2) by (subst env, simp)+
  have tx: "tx_descriptors w1 = tx_descriptors w" "tx_index w1 = tx_index w" by (subst env, simp)+
  have g: "gmac_inv X ok H w1" using w1(1) by (simp add: arp_inv_def)
  have free: "returns (free_entry X e w1) (\<lambda>w'. arp_inv X ok H w' \<and> used_list X w' = remove1 e (used_list X w) \<and>
      free_list X w' = e # free_list X w \<and> queue_of X w' e = [])"
    using intrusive_list.free_entry_returns [OF assms(1) w1(1), of e] assms(3) by (auto simp: w1 elim!: returns_mono)
  let ?frame = "ether_frame BROADCAST_MAC (our_mac w) ETHER_TYPE_ARP
        (arp_message (our_mac w) [0, 0, 0, 0, 0, 0] ARP_OPERATION_REQUEST (our_ip w) (entry_ip k))"
  let ?again = "\<lambda>w'. \<exists>v :: ('e, 'h, 'z) arp_state_scheme. env w' = env (snd (now X v)) \<and>
      arp_entries w' = (arp_entries w)(e := k\<lparr>retry_count := retry_count k + 1, entry_time := fst (now X v)\<rparr>)"
  have retry: "safe (bindR (send_arp_packet X [] (entry_ip k) ARP_TYPE_REQUEST w1) (\<lambda>w.
      let w = set_entry e (\<lambda>k. k\<lparr>retry_count := retry_count k + 1\<rparr>) w in
      case now X w of (t, w) \<Rightarrow> Inr (set_entry e (\<lambda>k. k\<lparr>entry_time := t\<rparr>) w)))
      (\<lambda>w'. arp_inv X ok H w' \<and> used_list X w' = used_list X w \<and> ?again w' \<and> transmits w w' ?frame)"
    unfolding safe_bindR
  proof (rule safe_mono [OF intrusive_list.send_arp_packet_inv [OF assms(1) w1(1)]], simp, elim conjE)
    fix w2 assume s: "send_arp_packet X [] (entry_ip k) ARP_TYPE_REQUEST w1 = Inr w2" and i: "arp_inv X ok H w2"
      and m: "gmac_state.more w2 = gmac_state.more w1"
    let ?w3 = "set_entry e (\<lambda>k. k\<lparr>retry_count := retry_count k + 1\<rparr>) w2"
    obtain t' w4 where n4: "now X ?w3 = (t', w4)" by fastforce
    note e4 = intrusive_list.now_env [OF assms(1) n4]
    let ?w5 = "set_entry e (\<lambda>k. k\<lparr>entry_time := t'\<rparr>) w4"
    have "transmits w1 w2 (ether_frame (arp_destination [] ARP_TYPE_REQUEST) (our_mac w1) ETHER_TYPE_ARP
        (arp_packet (our_mac w1) (our_ip w1) [] (entry_ip k) ARP_TYPE_REQUEST))"
      by (rule send_arp_wire [OF assms(1) g _ s]) simp
    then have "transmits w w2 ?frame"
      using transmits_from [OF _ tx] by (simp add: w1 arp_packet_def arp_destination_def arp_target_mac_def)
    moreover have "tx_descriptors ?w5 = tx_descriptors w2" "tx_index ?w5 = tx_index w2" "packets ?w5 = packets w2"
      unfolding set_entry_def by (simp, subst e4, simp add: set_entry_def)+
    ultimately have "transmits w ?w5 ?frame" by (rule transmits_to)
    moreover have "arp_inv X ok H ?w5"
      using i by (subst e4) (simp add: arp_inv_def entries_inv_timer gmac_inv_env)
    moreover have "used_list X ?w5 = used_list X w"
      using lists_of_more [OF m, of X] w1(2) by (subst e4) simp
    moreover have "?again ?w5"
    proof (rule exI [of _ ?w3], intro conjI)
      show "env ?w5 = env (snd (now X ?w3))" unfolding n4 by (simp add: set_entry_def)
      have "arp_entries w4 = arp_entries ?w3" by (subst e4) simp
      then show "arp_entries ?w5 = (arp_entries w)(e := k\<lparr>retry_count := retry_count k + 1, entry_time := fst (now X ?w3)\<rparr>)"
        using arp_fields_of_more(1) [OF m] w1(4) unfolding n4 by (simp add: k_def set_entry_def)
    qed
    ultimately show "safe (let w = set_entry e (\<lambda>k. k\<lparr>retry_count := retry_count k + 1\<rparr>) w2 in
        case now X w of (t, w) \<Rightarrow> Inr (set_entry e (\<lambda>k. k\<lparr>entry_time := t\<rparr>) w))
      (\<lambda>w'. arp_inv X ok H w' \<and> used_list X w' = used_list X w \<and> ?again w' \<and> transmits w w' ?frame)"
      by (simp only: Let_def n4 prod.case safe_Inr)
  qed
  have limits: "time_value X ARP_ENTRY_EXPIRATION_INTERVAL = 60000" "time_value X ARP_RETRY_INTERVAL = 1000"
    by (simp_all add: time_value_small)
  have task: "arp_task_entry X e w =
     (if contain_valid_mapping k then (if age > 60000 then free_entry X e w1 else Inr w1)
      else if age > 1000 then
          (if retry_count k < 3 then bindR (send_arp_packet X [] (entry_ip k) ARP_TYPE_REQUEST w1) (\<lambda>w.
             let w = set_entry e (\<lambda>k. k\<lparr>retry_count := retry_count k + 1\<rparr>) w in
             case now X w of (t, w) \<Rightarrow> Inr (set_entry e (\<lambda>k. k\<lparr>entry_time := t\<rparr>) w))
           else free_entry X e w1)
      else Inr w1)"
    unfolding arp_task_entry_def by (simp only: n prod.case w1 k_def age_def fst_conv time_less_def limits)
  show ?thesis
    unfolding task using free retry env by (auto simp del: safe_bindR)
qed

theorem arp_task_entry_ages_witness:
  "safe (arp_task_entry ref_libs 1 (sample_state 0)) (\<lambda>w'. retry_count (arp_entries w' 1) = 1 \<and>
     tx_frame w' 0 = mac_header BROADCAST_MAC [2, 0, 0, 0, 0, 1] ETHER_TYPE_ARP @
       arp_message [2, 0, 0, 0, 0, 1] [0, 0, 0, 0, 0, 0] ARP_OPERATION_REQUEST 0x0A000001 0x0A000003)"
proof -
  have i: "arp_inv ref_libs ref_ok {#} (sample_state 0)" using sample_arp [of 0] by simp
  have u: "1 \<in> set (used_list ref_libs (sample_state 0))" by (simp add: used_list_def sample_state_def)
  have s: "tx_index (sample_state 0) = 0" "tx_owner (tx_descriptors (sample_state 0) ! 0) = OWNER_CPU"
    "our_mac (sample_state 0) = [2, 0, 0, 0, 0, 1]" "our_ip (sample_state 0) = 0x0A000001"
    "arp_entries (sample_state 0) = sample_entry" "fst (now ref_libs (sample_state 0)) = 5000" "time_value ref_libs (get_elapsed ref_libs 0 5000) = 5000"
    by (simp_all add: sample_state_def now_def ref_libs_def time_value_def del: upt_rec_numeral)
  show ?thesis
    using arp_task_entry_ages [OF ref_contract i u]
    by (auto simp: s sample_entry_def transmits_def ether_frame_def simp del: One_nat_def elim!: safe_mono)
qed

section \<open>The exhausted cache\<close>

text \<open>
  Property C40: when every entry is in use, \<open>allocate_entry\<close> evicts the oldest one with \<open>free_entry\<close>,
  which puts it on the free list, and then appends it to the used list without taking it off the free
  list: \<open>list_add_last\<close> is called on a node that is still linked, against the contract of the lists.
\<close>

theorem exhausted_cache_relinks_entry:
  assumes "intrusive_list X ok" and "arp_inv X ok H w" and "free_list X w = []"
  shows "\<exists>e w1. allocate_entry X w = Inr (e, use_entry X e w1) \<and> e = hd (used_list X w) \<and>
    arp_inv X ok H w1 \<and> free_list X w1 = [e]"
proof -
  have inv: "entries_inv X ok w" using assms(2) by (simp add: arp_inv_def)
  have "used_list X w \<noteq> []"
    using entries_inv_member(1) [OF inv, of 0] assms(3) by auto
  then obtain e es where u: "used_list X w = e # es" by (cases "used_list X w") auto
  have ok: "ok entry_heads (entry_lists w)" using inv by (simp add: entries_inv_def)
  have none: "list_remove_first X Free_entries (entry_lists w) = (None, entry_lists w)"
    using intrusive_list.remove_first_empty [OF assms(1) ok] assms(3) by (simp add: free_list_def)
  have first: "list_get_first X Used_entries (entry_lists w) = Some e"
    using intrusive_list.get_first_node [OF assms(1) ok, of Used_entries] u by (simp add: used_list_def)
  obtain w1 where f: "free_entry X e w = Inr w1" "arp_inv X ok H w1" "free_list X w1 = [e]"
    using intrusive_list.free_entry_returns [OF assms(1,2), of e] u assms(3) by (auto simp: returns_iff)
  have "allocate_entry X w = Inr (e, use_entry X e w1)"
    by (simp add: allocate_entry_def none first f(1) Let_def)
  with f(2,3) show ?thesis by (intro exI [of _ e] exI [of _ w1]) (simp add: u)
qed

text \<open>All eight entries in use: the evicted entry ends up on both lists.\<close>

definition full_cache :: "(ref_env, list_head \<Rightarrow> nat list) dhcp_state" where
  "full_cache = (sample_state 0)\<lparr>entry_lists := (\<lambda>_. [])(Used_entries := [0..<8])\<rparr>"

lemma full_cache_inv: "arp_inv ref_libs ref_ok {#} full_cache"
proof -
  have l: "free_list ref_libs full_cache = []" "used_list ref_libs full_cache = [0..<8]"
    by (simp_all add: full_cache_def free_list_def used_list_def del: upt_rec_numeral)
  have q: "queue_of ref_libs full_cache e = (if e = 1 then [40] else [])" "arp_entries full_cache = sample_entry"
    "packets full_cache p = sample_packet" for e p
    by (simp_all add: full_cache_def queue_of_def sample_state_def sample_lists_def)
  have "distinct (map (\<lambda>e. entry_ip (arp_entries full_cache e)) (used_list ref_libs full_cache))"
    unfolding l q by (simp add: sample_entry_def upt_rec)
  moreover have "\<forall>e. entry_ok ref_libs full_cache e" by (simp add: entry_ok_def q sample_entry_def)
  ultimately have "entries_inv ref_libs ref_ok full_cache"
    by (auto simp: entries_inv_def l q ref_ok_def sample_entry_def sample_packet_ok lessThan_mset simp del: upt_rec_numeral)
  moreover have "gmac_inv ref_libs ref_ok {#} full_cache"
    using sample_gmac [of 0] by (simp add: full_cache_def)
  ultimately show ?thesis by (simp add: arp_inv_def)
qed

theorem exhausted_cache_relinks_entry_witness:
  "\<exists>w. allocate_entry ref_libs full_cache = Inr (0, w) \<and>
     0 \<in> set (free_list ref_libs w) \<and> 0 \<in> set (used_list ref_libs w)"
proof -
  have "free_list ref_libs full_cache = []" "hd (used_list ref_libs full_cache) = 0"
    by (simp_all add: full_cache_def free_list_def used_list_def)
  with exhausted_cache_relinks_entry [OF ref_contract full_cache_inv]
  obtain w1 where "allocate_entry ref_libs full_cache = Inr (0, use_entry ref_libs 0 w1)" "free_list ref_libs w1 = [0]"
    by auto
  moreover from this have "0 \<in> set (free_list ref_libs (use_entry ref_libs 0 w1))"
    "0 \<in> set (used_list ref_libs (use_entry ref_libs 0 w1))"
    by (simp_all add: use_entry_def free_list_def used_list_def set_entry_def Let_def) (simp_all add: ref_libs_def)
  ultimately show ?thesis by blast
qed

end
