(* ===== verification/Cache_Map.thy ===== *)
theory Cache_Map
  imports Cache_Properties
begin

text \<open>
  The address cache as a map: what an address resolves to, or the datagrams that wait for it.  Sending
  and receiving refine two updates of this map, and what leaves the queue of an entry is on the wire.
\<close>

section \<open>The frames of a queue\<close>

text \<open>
  The transmit slots from the one in turn.  While they are free, \<open>fs\<close> goes into them in order; what
  finds a slot busy is dropped by the driver.
\<close>

definition slot :: "('e, 'h, 'z) gmac_state_scheme \<Rightarrow> nat \<Rightarrow> nat" where
  "slot w k = (tx_index w + k) mod TRANSMIT_DESCRIPTOR_COUNT"

definition slots_free :: "('e, 'h, 'z) gmac_state_scheme \<Rightarrow> nat \<Rightarrow> bool" where
  "slots_free w n \<longleftrightarrow> (\<forall>k<n. tx_owner (tx_descriptors w ! slot w k) \<noteq> OWNER_GMAC)"

definition transmits_all :: "('e, 'h, 'z) gmac_state_scheme \<Rightarrow> ('e, 'h, 'z) gmac_state_scheme \<Rightarrow> u8 list list \<Rightarrow> bool" where
  "transmits_all w w' fs \<longleftrightarrow> (slots_free w (length fs) \<longrightarrow> tx_index w' = slot w (length fs) \<and>
     (\<forall>k<length fs. tx_frame w' (slot w k) = fs ! k \<and> tx_owner (tx_descriptors w' ! slot w k) = OWNER_GMAC))"

lemma slot_Suc: "tx_index w1 = slot w 1 \<Longrightarrow> slot w1 k = slot w (Suc k)"
  by (simp add: slot_def mod_add_left_eq)

lemma slot_0: "tx_index w < TRANSMIT_DESCRIPTOR_COUNT \<Longrightarrow> slot w 0 = tx_index w"
  by (simp add: slot_def)

lemma slots_differ: "tx_index w < 8 \<Longrightarrow> k < 7 \<Longrightarrow> slot w (Suc k) \<noteq> tx_index w"
  by (simp add: slot_def mod_eq_iff_dvd_symdiff_nat) presburger

text \<open>One packet, as \<open>mac_send\<close> leaves it to the controller.\<close>

lemma mac_send_linked:
  assumes "intrusive_list X ok" and "gmac_inv X ok (add_mset p H) w" and "ready (packets w p)" and "length m = 6"
    and "mac_send X p m e w = Inr w'" and "tx_owner (tx_descriptors w ! tx_index w) \<noteq> OWNER_GMAC"
  shows "tx_frame w' (tx_index w) = ether_frame m (our_mac w) e (frame_of (packets w p))"
    and "tx_owner (tx_descriptors w' ! tx_index w) = OWNER_GMAC" and "tx_index w' = slot w 1"
    and "\<exists>k. tx_address (tx_descriptors w' ! tx_index w) = Some (p, k)"
    and "i \<noteq> tx_index w \<Longrightarrow> tx_descriptors w' ! i = tx_descriptors w ! i"
    and "q \<noteq> p \<Longrightarrow> packets w' q = packets w q"
proof -
  have r: "packet_ok (packets w p)" "14 \<le> index (packets w p)" using assms(3) by (simp_all add: ready_def)
  note t = mac_send_wire [OF assms(1,2) r assms(4,5)]
  show "tx_frame w' (tx_index w) = ether_frame m (our_mac w) e (frame_of (packets w p))"
    "tx_owner (tx_descriptors w' ! tx_index w) = OWNER_GMAC" "tx_index w' = slot w 1"
    "i \<noteq> tx_index w \<Longrightarrow> tx_descriptors w' ! i = tx_descriptors w ! i"
    using t assms(6) by (simp_all add: transmits_def Let_def slot_def)
  let ?w = "set_packet p (mac_framed m (our_mac w) e) w"
  have s: "gmac_send X p ?w = Inr w'" using assms(5) mac_send_eq [OF assms(4) our_mac_length [OF assms(2)] r] by simp
  have "packets w' = packets ?w" by (subst gmac_send_shape [OF s]) simp
  then show "q \<noteq> p \<Longrightarrow> packets w' q = packets w q" by simp
  have g: "gmac_inv X ok (add_mset p H) ?w"
    using assms(2) mac_framed_frame(2) [OF r assms(4) our_mac_length [OF assms(2)], of e] r(1)
    by (subst gmac_inv_set_packet) (simp_all add: packet_ok_def)
  have i: "tx_index ?w < length (tx_descriptors ?w)" using assms(2) by (simp add: gmac_inv_def rings_ok_def)
  have "tx_descriptors w' = (tx_descriptors ?w)[tx_index ?w := (tx_descriptors ?w ! tx_index ?w)\<lparr>
       tx_address := Some (p, index (packets ?w p)), tx_length := word_of_int (plength (packets ?w p)),
       last_buffer := True, ignore_crc := False, tx_owner := OWNER_GMAC\<rparr>]"
    by (rule intrusive_list.gmac_send_linked(3) [OF assms(1) g s]) (use assms(6) in simp)
  then show "\<exists>k. tx_address (tx_descriptors w' ! tx_index w) = Some (p, k)" using i by simp
qed

lemma drain_wire:
  assumes "intrusive_list X ok" and "gmac_inv X ok H w" and "e < ARP_ENTRY_COUNT" and "length m = 6"
    and "entry_mac (arp_entries w e) = m" and "\<forall>p\<in>set (queue_of X w e). ready (packets w p)"
    and "length (queue_of X w e) \<le> 8" and "slots_free w (length (queue_of X w e))"
    and "send_packets_on_entry X e w = Inr w'"
  defines "q \<equiv> queue_of X w e"
  shows "tx_index w' = slot w (length q) \<and>
    (\<forall>k<length q. tx_frame w' (slot w k) = ether_frame m (our_mac w) ETHER_TYPE_IPV4 (frame_of (packets w (q ! k))) \<and>
       tx_owner (tx_descriptors w' ! slot w k) = OWNER_GMAC) \<and>
    (\<forall>i. (\<forall>k<length q. i \<noteq> slot w k) \<longrightarrow> tx_descriptors w' ! i = tx_descriptors w ! i) \<and>
    (\<forall>p. p \<notin> set q \<longrightarrow> packets w' p = packets w p)"
  using assms(2-9) unfolding q_def
proof (induction "queue_of X w e" arbitrary: w)
  case Nil
  have k: "Entry_queue e \<in> packet_heads" using Nil.prems(2) by auto
  have "tx_index w < 8" using Nil.prems(1) by (simp add: gmac_inv_def rings_ok_def)
  moreover have "list_remove_first X (Entry_queue e) (packet_lists w) = (None, packet_lists w)"
    by (rule intrusive_list.remove_first_empty [OF assms(1) intrusive_list.gmac_lists [OF assms(1) Nil.prems(1)] k])
      (use Nil.hyps in \<open>simp add: queue_of_def\<close>)
  then have "w' = w" using Nil.prems(8) by (simp add: send_packets_on_entry_def drain.simps)
  ultimately show ?case by (simp add: Nil.hyps [symmetric] slot_0)
next
  case (Cons p rest)
  let ?E = "Entry_queue e"
  have k: "?E \<in> packet_heads" "?E \<noteq> Free_packets" using Cons.prems(2) by auto
  note lists = intrusive_list.gmac_lists [OF assms(1) Cons.prems(1)]
  obtain h where rm: "list_remove_first X ?E (packet_lists w) = (Some p, h)" and rest: "list_elements X ?E h = rest"
    using intrusive_list.remove_first_nonempty [OF assms(1) lists k(1)] Cons.hyps(2)
    by (metis list.distinct(1) list.inject queue_of_def)
  let ?w = "w\<lparr>packet_lists := h\<rparr>"
  have g: "gmac_inv X ok (add_mset p H) ?w" by (rule intrusive_list.gmac_take [OF assms(1) Cons.prems(1) k(1) rm])
  obtain w1 where w1: "mac_send X p m ETHER_TYPE_IPV4 ?w = Inr w1" and d: "send_packets_on_entry X e w1 = Inr w'"
    using Cons.prems(8) rm Cons.prems(4)
    by (subst (asm) send_packets_on_entry_def, subst (asm) drain.simps)
      (auto simp: send_packets_on_entry_def split: sum.splits)
  have pk: "packets ?w = packets w" "tx_descriptors ?w = tx_descriptors w" "tx_index ?w = tx_index w" "our_mac ?w = our_mac w"
    "slot ?w = slot w" by (simp_all add: slot_def fun_eq_iff)
  have i: "tx_index w < 8" using Cons.prems(1) by (simp add: gmac_inv_def rings_ok_def)
  have fresh: "p \<notin> set rest"
    using pool_fresh [of X ok p "H + rings ?w" "packet_lists ?w"] gmac_invD(1) [OF g] k(1) rest by auto
  have rp: "ready (packets ?w p)" using Cons.prems(5) Cons.hyps(2) pk(1) by (metis list.set_intros(1))
  have n: "length (queue_of X w e) = Suc (length rest)" by (simp flip: Cons.hyps(2))
  have slots: "tx_owner (tx_descriptors w ! slot w k) \<noteq> OWNER_GMAC" if "k < Suc (length rest)" for k
    using Cons.prems(7) that unfolding n slots_free_def by blast
  have free: "tx_owner (tx_descriptors ?w ! tx_index ?w) \<noteq> OWNER_GMAC" using slots [of 0] i by (simp add: slot_0)
  note l = mac_send_linked [OF assms(1) g rp Cons.prems(3) w1 free, unfolded pk]
  note s1 = slot_Suc [OF l(3)]
  have safe: "gmac_inv X ok H w1" "untouched X {} ?w w1" "gmac_state.more w1 = gmac_state.more ?w" "same_config ?w w1"
    using safeD [OF intrusive_list.mac_send_safe [OF assms(1) g Cons.prems(3)] w1] rp by (simp_all add: ready_def)
  have q1: "queue_of X w1 e = rest" using untouched_queue [OF safe(2) k] rest by (simp add: queue_of_def)
  have c1: "our_mac w1 = our_mac w" "arp_entries w1 = arp_entries w"
    using safe(4) arp_fields_of_more(1) [OF safe(3)] by (simp_all add: same_config_def)
  have p1: "packets w1 q = packets w q" if "q \<in> set rest" for q using l(6) [of q] that fresh by auto
  have short: "length rest < 8" using Cons.prems(6) n by simp
  have away: "slot w (Suc k) \<noteq> tx_index w" if "k < length rest" for k using slots_differ [OF i] that short by simp
  have ih: "tx_index w' = slot w1 (length rest) \<and>
    (\<forall>k<length rest. tx_frame w' (slot w1 k) = ether_frame m (our_mac w1) ETHER_TYPE_IPV4 (frame_of (packets w1 (rest ! k))) \<and>
       tx_owner (tx_descriptors w' ! slot w1 k) = OWNER_GMAC) \<and>
    (\<forall>i. (\<forall>k<length rest. i \<noteq> slot w1 k) \<longrightarrow> tx_descriptors w' ! i = tx_descriptors w1 ! i) \<and>
    (\<forall>p. p \<notin> set rest \<longrightarrow> packets w' p = packets w1 p)"
  proof (rule Cons.hyps(1) [of w1, unfolded q1, OF refl safe(1) Cons.prems(2,3)])
    show "entry_mac (arp_entries w1 e) = m" using Cons.prems(4) c1 by simp
    show "\<forall>p\<in>set rest. ready (packets w1 p)" using Cons.prems(5) Cons.hyps(2) p1 by (metis list.set_intros(2))
    show "slots_free w1 (length rest)" using slots away l(5) by (simp add: slots_free_def s1)
  qed (use short d in simp_all)
  have kept: "tx_descriptors w' ! tx_index w = tx_descriptors w1 ! tx_index w" "packets w' p = packets w1 p"
    using ih away fresh by (auto simp: s1) metis
  obtain off where "tx_address (tx_descriptors w1 ! tx_index w) = Some (p, off)" using l(4) by blast
  then have first: "tx_frame w' (tx_index w) = tx_frame w1 (tx_index w)" using kept by (simp add: tx_frame_def)
  have all: "tx_frame w' (slot w k) = ether_frame m (our_mac w) ETHER_TYPE_IPV4 (frame_of (packets w ((p # rest) ! k))) \<and>
       tx_owner (tx_descriptors w' ! slot w k) = OWNER_GMAC" if "k < Suc (length rest)" for k
  proof (cases k)
    case 0
    then show ?thesis using l(1,2) first kept(1) i by (simp add: slot_0)
  next
    case (Suc j)
    then show ?thesis using ih that p1 c1(1) by (simp add: s1)
  qed
  have others: "tx_descriptors w' ! i = tx_descriptors w ! i" if "\<forall>k<Suc (length rest). i \<noteq> slot w k" for i
  proof -
    have "i \<noteq> tx_index w" using that [rule_format, of 0] \<open>tx_index w < 8\<close> by (simp add: slot_0)
    moreover have "\<forall>k<length rest. i \<noteq> slot w1 k" using that by (simp add: s1)
    ultimately show ?thesis using ih l(5) [of i] by simp
  qed
  have index: "tx_index w' = slot w (Suc (length rest))" using ih by (simp add: s1)
  have untouched: "\<forall>q. q \<notin> set (p # rest) \<longrightarrow> packets w' q = packets w q" using ih l(6) by simp
  show ?case
    unfolding Cons.hyps(2) [symmetric] list.size add_0_right add_Suc_right
    using index all others untouched by simp
qed

section \<open>The map\<close>

datatype resolution = Resolved mac | Waiting "u8 list list"

definition resolution_of :: "('e, 'h) libs \<Rightarrow> ('e, 'h, 'z) arp_state_scheme \<Rightarrow> nat \<Rightarrow> resolution" where
  "resolution_of X w e = (if contain_valid_mapping (arp_entries w e) then Resolved (entry_mac (arp_entries w e))
     else Waiting (map (\<lambda>p. frame_of (packets w p)) (queue_of X w e)))"

definition cache_of :: "('e, 'h) libs \<Rightarrow> ('e, 'h, 'z) arp_state_scheme \<Rightarrow> u32 \<Rightarrow> resolution option" where
  "cache_of X w ip = map_option (resolution_of X w) (find_arp_entry X ip w)"

text \<open>A datagram for \<open>ip\<close>: it waits unless the address is resolved, and the third one pushes out the first.\<close>

definition cache_send :: "u32 \<Rightarrow> u8 list \<Rightarrow> (u32 \<Rightarrow> resolution option) \<Rightarrow> u32 \<Rightarrow> resolution option" where
  "cache_send ip f m = (case m ip of
       None \<Rightarrow> m(ip \<mapsto> Waiting [f])
     | Some (Resolved _) \<Rightarrow> m
     | Some (Waiting fs) \<Rightarrow> m(ip \<mapsto> Waiting ((if int (length fs) < ARP_ENTRY_MAX_QUEUE_SIZE then fs else tl fs) @ [f])))"

text \<open>A reply from \<open>ip\<close>: it resolves what is asked for and nothing else.\<close>

definition cache_reply :: "u32 \<Rightarrow> mac \<Rightarrow> (u32 \<Rightarrow> resolution option) \<Rightarrow> u32 \<Rightarrow> resolution option" where
  "cache_reply ip a m = (case m ip of Some (Waiting _) \<Rightarrow> m(ip \<mapsto> Resolved a) | _ \<Rightarrow> m)"

lemma find_used:
  assumes "entries_inv X ok w" and "e \<in> set (used_list X w)"
  shows "find_arp_entry X (entry_ip (arp_entries w e)) w = Some e"
proof (cases "find_arp_entry X (entry_ip (arp_entries w e)) w")
  case None
  then show ?thesis using assms(2) find_arp_entry_None by blast
next
  case (Some i)
  have "inj_on (\<lambda>e. entry_ip (arp_entries w e)) (set (used_list X w))"
    using assms(1) by (simp add: entries_inv_def distinct_map)
  then show ?thesis using Some find_arp_entry_Some [OF Some] assms(2) by (auto dest: inj_onD)
qed

lemma find_entry_cong:
  assumes "used_list X w' = used_list X w" and "\<forall>e\<in>set (used_list X w). entry_ip (arp_entries w' e) = entry_ip (arp_entries w e)"
  shows "find_arp_entry X ip w' = find_arp_entry X ip w"
  using assms unfolding find_arp_entry_def used_list_def by (intro find_cong) auto

lemma resolution_cong:
  assumes "untouched X L w w'" and "e < ARP_ENTRY_COUNT" and "Entry_queue e \<notin> L" and "arp_entries w' e = arp_entries w e"
  shows "resolution_of X w' e = resolution_of X w e"
proof -
  have k: "Entry_queue e \<in> packet_heads" "Entry_queue e \<noteq> Free_packets" using assms(2) by auto
  show ?thesis
    using untouched_queue [OF assms(1) k assms(3)] untouched_packet [OF assms(1) k assms(3)] assms(4)
    by (simp add: resolution_of_def queue_of_def)
qed

text \<open>A call that changes one entry in use, or none.\<close>

lemma cache_of_change:
  assumes "entries_inv X ok w" and "e \<in> set (used_list X w)" and "used_list X w' = used_list X w"
    and "\<forall>i. i \<noteq> e \<longrightarrow> arp_entries w' i = arp_entries w i" and "entry_ip (arp_entries w' e) = entry_ip (arp_entries w e)"
    and "untouched X {Entry_queue e} w w'"
  shows "cache_of X w' = (cache_of X w)(entry_ip (arp_entries w e) \<mapsto> resolution_of X w' e)"
proof
  fix ip
  have f: "find_arp_entry X ip w' = find_arp_entry X ip w" using assms(3-5) by (intro find_entry_cong) metis+
  show "cache_of X w' ip = ((cache_of X w)(entry_ip (arp_entries w e) \<mapsto> resolution_of X w' e)) ip"
  proof (cases "find_arp_entry X ip w")
    case None
    then have "ip \<noteq> entry_ip (arp_entries w e)" using find_used [OF assms(1,2)] by auto
    then show ?thesis using None f by (simp add: cache_of_def)
  next
    case (Some i)
    show ?thesis
    proof (cases "i = e")
      case True
      then show ?thesis using Some f find_arp_entry_Some [OF Some] by (simp add: cache_of_def)
    next
      case False
      have "i \<in> set (used_list X w)" "entry_ip (arp_entries w i) = ip" using find_arp_entry_Some [OF Some] by simp_all
      then have "i < ARP_ENTRY_COUNT" using entries_inv_member(1) [OF assms(1)] by blast
      moreover have "ip \<noteq> entry_ip (arp_entries w e)" using find_used [OF assms(1,2)] Some False by force
      ultimately show ?thesis
        using Some f False assms(4) resolution_cong [OF assms(6), of i] by (simp add: cache_of_def)
    qed
  qed
qed

lemma cache_of_same:
  assumes "entries_inv X ok w" and "used_list X w' = used_list X w" and "arp_entries w' = arp_entries w" and "untouched X {} w w'"
  shows "cache_of X w' = cache_of X w"
proof
  fix ip
  have "find_arp_entry X ip w' = find_arp_entry X ip w" using assms(2,3) by (intro find_entry_cong) simp_all
  moreover have "resolution_of X w' e = resolution_of X w e" if "find_arp_entry X ip w = Some e" for e
  proof (rule resolution_cong [OF assms(4)])
    show "e < ARP_ENTRY_COUNT" using find_arp_entry_Some [OF that] entries_inv_member(1) [OF assms(1)] by blast
  qed (simp_all add: assms(3))
  ultimately show "cache_of X w' ip = cache_of X w ip" by (cases "find_arp_entry X ip w") (simp_all add: cache_of_def)
qed

lemma cache_of_new:
  assumes "entries_inv X ok w" and "entries_inv X ok w'" and "used_list X w' = used_list X w @ [e]" and "e \<notin> set (used_list X w)"
    and "\<forall>i. i \<noteq> e \<longrightarrow> arp_entries w' i = arp_entries w i" and "untouched X {Entry_queue e} w w'"
  shows "cache_of X w' = (cache_of X w)(entry_ip (arp_entries w' e) \<mapsto> resolution_of X w' e)"
proof
  fix ip
  let ?P = "\<lambda>w e. entry_ip (arp_entries w e) = ip"
  have f: "find_arp_entry X ip w' = (case find_arp_entry X ip w of None \<Rightarrow> if ?P w' e then Some e else None | Some i \<Rightarrow> Some i)"
  proof -
    have "find (?P w') (xs @ [e]) = (case find (?P w) xs of None \<Rightarrow> if ?P w' e then Some e else None | Some i \<Rightarrow> Some i)"
      if "e \<notin> set xs" for xs using that assms(5) by (induction xs) auto
    then show ?thesis using assms(3,4) by (simp add: find_arp_entry_def used_list_def)
  qed
  show "cache_of X w' ip = ((cache_of X w)(entry_ip (arp_entries w' e) \<mapsto> resolution_of X w' e)) ip"
  proof (cases "find_arp_entry X ip w")
    case None
    then show ?thesis using f by (auto simp: cache_of_def)
  next
    case (Some i)
    note i = find_arp_entry_Some [OF Some]
    have ne: "i \<noteq> e" "i < ARP_ENTRY_COUNT" using i assms(4) entries_inv_member(1) [OF assms(1)] by blast+
    have "find_arp_entry X (entry_ip (arp_entries w' e)) w' = Some e" by (rule find_used [OF assms(2)]) (simp add: assms(3))
    moreover have "find_arp_entry X ip w' = Some i" using f Some by simp
    ultimately have "ip \<noteq> entry_ip (arp_entries w' e)" using ne(1) by auto
    then show ?thesis
      using Some f ne assms(5) resolution_cong [OF assms(6), of i] by (simp add: cache_of_def)
  qed
qed

section \<open>Sending\<close>

lemma send_waiting:
  assumes "intrusive_list X ok" and "arp_inv X ok (add_mset p H) w" and "ready (packets w p)"
    and "find_arp_entry X ip w = Some e" and "\<not> contain_valid_mapping (arp_entries w e)"
  shows "safe (arp_send X p ip w) (\<lambda>w'. arp_inv X ok H w' \<and> tx_descriptors w' = tx_descriptors w \<and>
    cache_of X w' = cache_send ip (frame_of (packets w p)) (cache_of X w))"
proof -
  have u: "e \<in> set (used_list X w)" and ip: "entry_ip (arp_entries w e) = ip" using find_arp_entry_Some [OF assms(4)] by simp_all
  have inv: "entries_inv X ok w" using assms(2) by (simp add: arp_inv_def)
  have len: "length (queue_of X w e) \<le> 2" using inv u assms(5) by (auto simp: entries_inv_def entry_ok_def)
  have s: "arp_send X p ip w = add_to_arp_entry_queue X p e w" using assms(4,5) by (simp add: arp_send_def)
  show ?thesis
    unfolding s
  proof (rule safe_mono [OF returns_safe [OF intrusive_list.add_to_queue_returns [OF assms(1,2) u assms(5,3)]]], elim conjE)
    fix w'
    assume r: "add_to_arp_entry_queue X p e w = Inr w'" and i: "arp_inv X ok H w'" and un: "untouched X {Entry_queue e} w w'"
      and ul: "used_list X w' = used_list X w" and pk: "packets w' = packets w"
      and q: "queue_of X w' e = (if length (queue_of X w e) = 2 then tl (queue_of X w e) else queue_of X w e) @ [p]"
    note sh = intrusive_list.add_to_queue_shape [OF assms(1) r]
    have "cache_of X w' = (cache_of X w)(ip \<mapsto> resolution_of X w' e)"
      using cache_of_change [OF inv u ul _ sh(3) un] sh(2) ip by simp
    moreover have "resolution_of X w' e = Waiting (map (\<lambda>p. frame_of (packets w p)) (queue_of X w' e))"
      using sh(4) assms(5) pk by (simp add: resolution_of_def)
    moreover have "cache_of X w ip = Some (Waiting (map (\<lambda>p. frame_of (packets w p)) (queue_of X w e)))"
      using assms(4,5) by (simp add: cache_of_def resolution_of_def)
    ultimately have "cache_of X w' = cache_send ip (frame_of (packets w p)) (cache_of X w)"
      using len by (auto simp: cache_send_def q map_tl)
    moreover have "tx_descriptors w' = tx_descriptors w" by (subst sh(1)) simp
    ultimately show "arp_inv X ok H w' \<and> tx_descriptors w' = tx_descriptors w \<and>
        cache_of X w' = cache_send ip (frame_of (packets w p)) (cache_of X w)" using i by simp
  qed
qed

lemma send_unknown:
  assumes "intrusive_list X ok" and "arp_inv X ok (add_mset p H) w" and "ready (packets w p)"
    and "find_arp_entry X ip w = None" and "free_list X w \<noteq> []"
  shows "safe (arp_send X p ip w) (\<lambda>w'. arp_inv X ok H w' \<and>
    cache_of X w' = cache_send ip (frame_of (packets w p)) (cache_of X w) \<and>
    transmits w w' (ether_frame BROADCAST_MAC (our_mac w) ETHER_TYPE_ARP
      (arp_message (our_mac w) [0, 0, 0, 0, 0, 0] ARP_OPERATION_REQUEST (our_ip w) ip)))"
proof -
  let ?e = "hd (free_list X w)"
  obtain w1 where s: "arp_send X p ip w = send_arp_packet X [] ip ARP_TYPE_REQUEST w1" and i: "arp_inv X ok H w1"
    and f: "arp_frame X w w1" and l: "used_list X w1 = used_list X w @ [?e]" "queue_of X w1 ?e = [p]"
      "entry_ip (arp_entries w1 ?e) = ip" "\<not> contain_valid_mapping (arp_entries w1 ?e)" "untouched X {Entry_queue ?e} w w1"
      "\<forall>i. i \<noteq> ?e \<longrightarrow> arp_entries w1 i = arp_entries w i"
    and w1: "w1 = w\<lparr>packet_lists := packet_lists w1, arp_entries := arp_entries w1, entry_lists := entry_lists w1, env := env w1\<rparr>"
    using intrusive_list.arp_send_new [OF assms] by auto
  have inv: "entries_inv X ok w" "entries_inv X ok w1" using assms(2) i by (simp_all add: arp_inv_def)
  have fresh: "?e \<notin> set (used_list X w)" using entries_inv_member(2) [OF inv(1)] assms(5) by simp
  have pk: "packets w1 = packets w" by (subst w1) simp
  have "cache_of X w1 = (cache_of X w)(ip \<mapsto> resolution_of X w1 ?e)"
    using cache_of_new [OF inv l(1) fresh l(6,5)] l(3) by simp
  moreover have "resolution_of X w1 ?e = Waiting [frame_of (packets w p)]" using l(2,4) by (simp add: resolution_of_def pk)
  moreover have "cache_of X w ip = None" using assms(4) by (simp add: cache_of_def)
  ultimately have c1: "cache_of X w1 = cache_send ip (frame_of (packets w p)) (cache_of X w)" by (simp add: cache_send_def)
  have c: "our_mac w1 = our_mac w" "our_ip w1 = our_ip w" using f by (simp_all add: arp_frame_def same_config_def)
  have tx: "tx_descriptors w1 = tx_descriptors w" "tx_index w1 = tx_index w" by (subst w1, simp)+
  show ?thesis
    unfolding s
  proof (rule safe_mono [OF intrusive_list.send_arp_packet_inv [OF assms(1) i]], simp, elim conjE)
    fix w' assume r: "send_arp_packet X [] ip ARP_TYPE_REQUEST w1 = Inr w'" and i': "arp_inv X ok H w'"
      and u: "untouched X {} w1 w'" and m: "gmac_state.more w' = gmac_state.more w1"
    have g: "gmac_inv X ok H w1" using i by (simp add: arp_inv_def)
    have "transmits w1 w' (ether_frame (arp_destination [] ARP_TYPE_REQUEST) (our_mac w1) ETHER_TYPE_ARP
        (arp_packet (our_mac w1) (our_ip w1) [] ip ARP_TYPE_REQUEST))"
      by (rule send_arp_wire [OF assms(1) g _ r]) simp
    then have "transmits w w' (ether_frame BROADCAST_MAC (our_mac w) ETHER_TYPE_ARP
        (arp_message (our_mac w) [0, 0, 0, 0, 0, 0] ARP_OPERATION_REQUEST (our_ip w) ip))"
      using transmits_from [OF _ tx] by (simp add: c arp_packet_def arp_destination_def arp_target_mac_def)
    moreover have "cache_of X w' = cache_of X w1"
      using lists_of_more [OF m] arp_fields_of_more(1) [OF m] u by (intro cache_of_same [OF inv(2)]) simp_all
    ultimately show "arp_inv X ok H w' \<and> cache_of X w' = cache_send ip (frame_of (packets w p)) (cache_of X w) \<and>
      transmits w w' (ether_frame BROADCAST_MAC (our_mac w) ETHER_TYPE_ARP
        (arp_message (our_mac w) [0, 0, 0, 0, 0, 0] ARP_OPERATION_REQUEST (our_ip w) ip))"
      using i' c1 by simp
  qed
qed

text \<open>
  Property C31: \<open>arp_send\<close> refines sending over the map.  While the address has an entry or one is
  free, the map changes as \<open>cache_send\<close> says, for every address.  A resolved address gets the datagram in
  one frame at once, an address in resolution nothing yet, and for an unknown one a broadcast request
  is sent that asks for it in our name.
\<close>

theorem arp_send_refines:
  assumes "intrusive_list X ok" and "arp_inv X ok (add_mset p H) w" and "ready (packets w p)" and "arp_room X ip w"
  shows "safe (arp_send X p ip w) (\<lambda>w'. arp_inv X ok H w' \<and>
    cache_of X w' = cache_send ip (frame_of (packets w p)) (cache_of X w) \<and>
    (case cache_of X w ip of
       None \<Rightarrow> transmits w w' (ether_frame BROADCAST_MAC (our_mac w) ETHER_TYPE_ARP
         (arp_message (our_mac w) [0, 0, 0, 0, 0, 0] ARP_OPERATION_REQUEST (our_ip w) ip))
     | Some (Resolved m) \<Rightarrow> transmits w w' (ether_frame m (our_mac w) ETHER_TYPE_IPV4 (frame_of (packets w p)))
     | Some (Waiting _) \<Rightarrow> tx_descriptors w' = tx_descriptors w))"
proof (cases "find_arp_entry X ip w")
  case None
  then have "free_list X w \<noteq> []" using assms(4) by (simp add: arp_room_def)
  from send_unknown [OF assms(1-3) None this] show ?thesis using None by (simp add: cache_of_def)
next
  case (Some e)
  show ?thesis
  proof (cases "contain_valid_mapping (arp_entries w e)")
    case False
    from send_waiting [OF assms(1-3) Some this] show ?thesis
      using Some False by (auto simp: cache_of_def resolution_of_def elim!: safe_mono)
  next
    case True
    let ?m = "entry_mac (arp_entries w e)"
    have inv: "entries_inv X ok w" and g: "gmac_inv X ok (add_mset p H) w" and m: "length ?m = 6"
      using assms(2) by (simp_all add: arp_inv_def entries_inv_def)
    have r: "packet_ok (packets w p)" "14 \<le> index (packets w p)" using assms(3) by (simp_all add: ready_def)
    have res: "cache_of X w ip = Some (Resolved ?m)" using Some True by (simp add: cache_of_def resolution_of_def)
    have s: "arp_send X p ip w = mac_send X p ?m ETHER_TYPE_IPV4 w" using Some True by (simp add: arp_send_def)
    have "safe (mac_send X p ?m ETHER_TYPE_IPV4 w) (\<lambda>w'. arp_inv X ok H w' \<and> cache_of X w' = cache_of X w \<and>
        transmits w w' (ether_frame ?m (our_mac w) ETHER_TYPE_IPV4 (frame_of (packets w p))))"
    proof (rule safe_mono [OF safe_conj [OF intrusive_list.mac_send_arp_inv [OF assms(1,2) m assms(3)]
          intrusive_list.mac_send_safe [OF assms(1) g m r]]], elim conjE, intro conjI)
      fix w' assume e: "mac_send X p ?m ETHER_TYPE_IPV4 w = Inr w'" and "arp_inv X ok H w'" and u: "untouched X {} w w'"
        and more: "gmac_state.more w' = gmac_state.more w"
      show "cache_of X w' = cache_of X w"
        using lists_of_more [OF more] arp_fields_of_more(1) [OF more] u by (intro cache_of_same [OF inv]) simp_all
      show "transmits w w' (ether_frame ?m (our_mac w) ETHER_TYPE_IPV4 (frame_of (packets w p)))"
        by (rule mac_send_wire [OF assms(1) g r m e])
    qed
    then show ?thesis using res by (simp add: s cache_send_def)
  qed
qed

lemma sample_cache:
  "cache_of ref_libs (sample_state n) 0x0A000003 = Some (Waiting [replicate 100 0])"
  "cache_of ref_libs (sample_state n) 0x0A000009 = None"
proof -
  have "queue_of ref_libs (sample_state n) 1 = [40]" "\<not> contain_valid_mapping (arp_entries (sample_state n) 1)"
    "frame_of sample_packet = replicate 100 0"
    by (simp_all add: queue_of_def sample_state_def sample_lists_def sample_entry_def frame_of_def sample_packet_def chunk_def
        del: upt_rec_numeral)
  then show "cache_of ref_libs (sample_state n) 0x0A000003 = Some (Waiting [replicate 100 0])"
    "cache_of ref_libs (sample_state n) 0x0A000009 = None"
    using sample_find by (simp_all add: cache_of_def resolution_of_def)
qed

theorem arp_send_refines_witness:
  "safe (arp_send ref_libs 42 0x0A000003 (sample_state 1)) (\<lambda>w'. cache_of ref_libs w' 0x0A000003 =
     Some (Waiting [replicate 100 0, replicate 100 0])) \<and>
   safe (arp_send ref_libs 42 0x0A000009 (sample_state 1)) (\<lambda>w'. cache_of ref_libs w' 0x0A000009 =
     Some (Waiting [replicate 100 0]))"
proof -
  have i: "arp_inv ref_libs ref_ok (add_mset 42 {#}) (sample_state 1)" using sample_arp [of 1] by simp
  have r: "ready (packets (sample_state 1) 42)" by (simp add: sample_packet_ok)
  have f: "frame_of sample_packet = replicate 100 0" by (simp add: frame_of_def sample_packet_def chunk_def)
  have room: "arp_room ref_libs ip (sample_state 1)" for ip by (simp add: arp_room_def free_list_def sample_state_def)
  note send = arp_send_refines [OF ref_contract i r room]
  show ?thesis
    by (intro conjI; rule safe_mono [OF send]) (simp_all add: f cache_send_def sample_cache)
qed

section \<open>Receiving a reply\<close>

lemma transmits_all_to:
  assumes "transmits_all w w1 fs" and "tx_descriptors w' = tx_descriptors w1" and "tx_index w' = tx_index w1"
    and "packets w' = packets w1"
  shows "transmits_all w w' fs"
proof -
  have "tx_frame w' i = tx_frame w1 i" for i using assms(2,4) by (simp add: tx_frame_def split: option.splits)
  then show ?thesis using assms(1-3) by (simp add: transmits_all_def)
qed

lemma flush_refines:
  assumes "intrusive_list X ok" and "arp_inv X ok H w" and "find_arp_entry X a w = Some e" and "0 \<le> off"
    and "off + 6 \<le> int (length d)" and "\<not> contain_valid_mapping (arp_entries w e)"
  defines "m \<equiv> chunk (nat off) 6 d"
  shows "safe (update_arp_mapping X a d off True w) (\<lambda>w'. arp_inv X ok H w' \<and>
    cache_of X w' = (cache_of X w)(a \<mapsto> Resolved m) \<and>
    transmits_all w w' (map (\<lambda>p. ether_frame m (our_mac w) ETHER_TYPE_IPV4 (frame_of (packets w p))) (queue_of X w e)))"
proof -
  have u: "e \<in> set (used_list X w)" and ip: "entry_ip (arp_entries w e) = a" using find_arp_entry_Some [OF assms(3)] by simp_all
  have inv: "entries_inv X ok w" and g: "gmac_inv X ok H w" using assms(2) by (simp_all add: arp_inv_def)
  have e: "e < ARP_ENTRY_COUNT" using entries_inv_member(1) [OF inv] u by blast
  have lm: "length m = 6" using assms(4,5) by (simp add: m_def min_def) linarith
  have nv: "\<not> (True \<and> contain_valid_mapping (arp_entries w e))" using assms(6) by simp
  obtain t v where eq: "update_arp_mapping X a d off True w = send_packets_on_entry X e (resolved_entry e m t v w)"
    using intrusive_list.update_mapping_eq [OF assms(1) inv assms(3-5) nv] unfolding m_def by blast
  let ?w = "resolved_entry e m t v w"
  have r: "packets ?w = packets w" "queue_of X ?w e = queue_of X w e" "tx_descriptors ?w = tx_descriptors w"
    "tx_index ?w = tx_index w" "our_mac ?w = our_mac w" "slot ?w = slot w" "entry_mac (arp_entries ?w e) = m"
    by (simp_all add: resolved_entry_def queue_of_def slot_def fun_eq_iff)
  have g3: "gmac_inv X ok H ?w" using g by (simp add: gmac_inv_env resolved_entry_def)
  have q: "length (queue_of X w e) \<le> 2" "\<forall>p\<in>set (queue_of X w e). ready (packets w p)"
    using inv u e assms(6) by (auto simp: entries_inv_def entry_ok_def)
  show ?thesis
  proof (rule safe_mono [OF intrusive_list.update_mapping_flush [OF assms(1,2,3,4,5) nv]], elim conjE, intro conjI)
    fix w'
    assume run: "update_arp_mapping X a d off True w = Inr w'" and f: "used_list X w' = used_list X w"
      "contain_valid_mapping (arp_entries w' e)" "entry_mac (arp_entries w' e) = chunk (nat off) 6 d"
      "\<forall>i. i \<noteq> e \<longrightarrow> arp_entries w' i = arp_entries w i" "entry_ip (arp_entries w' e) = a" "untouched X {Entry_queue e} w w'"
    have "cache_of X w' = (cache_of X w)(a \<mapsto> resolution_of X w' e)"
      using cache_of_change [OF inv u f(1,4) _ f(6)] f(5) ip by simp
    then show "cache_of X w' = (cache_of X w)(a \<mapsto> Resolved m)" using f(2,3) by (simp add: resolution_of_def m_def)
    have "transmits_all ?w w' (map (\<lambda>p. ether_frame m (our_mac ?w) ETHER_TYPE_IPV4 (frame_of (packets ?w p))) (queue_of X ?w e))"
      unfolding transmits_all_def
    proof (rule impI)
      assume free: "slots_free ?w (length (map (\<lambda>p. ether_frame m (our_mac ?w) ETHER_TYPE_IPV4 (frame_of (packets ?w p))) (queue_of X ?w e)))"
      have le: "length (queue_of X ?w e) \<le> 8" using q(1) r(2) by simp
      have rd: "\<forall>p\<in>set (queue_of X ?w e). ready (packets ?w p)" using q(2) r(1,2) by simp
      from drain_wire [OF assms(1) g3 e lm r(7) rd le _ run [unfolded eq]] free
      show "tx_index w' = slot ?w (length (map (\<lambda>p. ether_frame m (our_mac ?w) ETHER_TYPE_IPV4 (frame_of (packets ?w p))) (queue_of X ?w e))) \<and>
        (\<forall>k<length (map (\<lambda>p. ether_frame m (our_mac ?w) ETHER_TYPE_IPV4 (frame_of (packets ?w p))) (queue_of X ?w e)).
          tx_frame w' (slot ?w k) = map (\<lambda>p. ether_frame m (our_mac ?w) ETHER_TYPE_IPV4 (frame_of (packets ?w p))) (queue_of X ?w e) ! k \<and>
          tx_owner (tx_descriptors w' ! slot ?w k) = OWNER_GMAC)"
        by simp
    qed
    then show "transmits_all w w' (map (\<lambda>p. ether_frame m (our_mac w) ETHER_TYPE_IPV4 (frame_of (packets w p))) (queue_of X w e))"
      unfolding r transmits_all_def slots_free_def .
  qed
qed

text \<open>
  Property C32: a well-formed reply to our address refines \<open>cache_reply\<close>.  If its sender is being
  resolved, the map gives its hardware address from then on, and the datagrams that waited go to it in
  one frame each, in the order they were sent, as long as the transmit ring has room.  Any other reply
  changes the map for no address and sends nothing.
\<close>

theorem arp_reply_refines:
  fixes w :: "('e, 'h, 'z) arp_state_scheme"
  assumes "intrusive_list X ok" and "arp_inv X ok (add_mset p H) w" and "packet_ok (packets w p)"
    and "28 \<le> plength (packets w p)" and "length sm = 6" and "length tm = 6" and "a \<noteq> our_ip w"
    and "take 28 (frame_of (packets w p)) = arp_message sm tm ARP_OPERATION_REPLY a (our_ip w)"
  shows "safe (handle_arp X p w) (\<lambda>w'. arp_inv X ok H w' \<and> cache_of X w' = cache_reply a sm (cache_of X w) \<and>
    (case cache_of X w a of
       Some (Waiting fs) \<Rightarrow> transmits_all w w' (map (ether_frame sm (our_mac w) ETHER_TYPE_IPV4) fs)
     | _ \<Rightarrow> tx_descriptors w' = tx_descriptors w))"
proof -
  define Q where "Q w' \<longleftrightarrow> cache_of X w' = cache_reply a sm (cache_of X w) \<and>
    (case cache_of X w a of
       Some (Waiting fs) \<Rightarrow> transmits_all w w' (map (ether_frame sm (our_mac w) ETHER_TYPE_IPV4) fs)
     | _ \<Rightarrow> tx_descriptors w' = tx_descriptors w)" for w' :: "('e, 'h, 'z) arp_state_scheme"
  note h = handle_arp_message [OF assms(3-6,8)]
  let ?d = "data (packets w p)" and ?off = "index (packets w p) + 8"
  have r: "handle_arp X p w = bindR (update_arp_mapping X a ?d ?off True w) (\<lambda>w. Inr (free_network_packet X p w))"
    using h(1) assms(7) by simp
  have b: "0 \<le> ?off" "?off + 6 \<le> int (length ?d)" using h(3,4) by simp_all
  have u: "safe (update_arp_mapping X a ?d ?off True w) (\<lambda>w'. arp_inv X ok (add_mset p H) w' \<and> Q w')"
  proof (cases "find_arp_entry X a w")
    case None
    then show ?thesis using assms(2) by (simp add: update_arp_mapping_def Q_def cache_of_def cache_reply_def)
  next
    case (Some e)
    show ?thesis
    proof (cases "contain_valid_mapping (arp_entries w e)")
      case True
      then show ?thesis
        using assms(2) Some by (simp add: update_arp_mapping_def Q_def cache_of_def cache_reply_def resolution_of_def)
    next
      case False
      have c: "cache_of X w a = Some (Waiting (map (\<lambda>p. frame_of (packets w p)) (queue_of X w e)))"
        using Some False by (simp add: cache_of_def resolution_of_def)
      show ?thesis
        by (rule safe_mono [OF flush_refines [OF assms(1,2) Some b False]])
          (use h(2) in \<open>simp add: Q_def c cache_reply_def comp_def\<close>)
    qed
  qed
  have release: "arp_inv X ok H (free_network_packet X p w') \<and> Q (free_network_packet X p w')"
    if i: "arp_inv X ok (add_mset p H) w'" and q: "Q w'" for w'
  proof -
    have g: "gmac_inv X ok (add_mset p H) w'" and inv: "entries_inv X ok w'" using i by (simp_all add: arp_inv_def)
    have "cache_of X (free_network_packet X p w') = cache_of X w'"
      using intrusive_list.gmac_untouched_free [OF assms(1) g] by (intro cache_of_same [OF inv]) (simp_all add: used_list_def)
    then show ?thesis
      using q intrusive_list.gmac_free_arp(1) [OF assms(1) i]
      by (auto simp: Q_def split: option.splits resolution.splits elim: transmits_all_to)
  qed
  have "safe (handle_arp X p w) (\<lambda>w'. arp_inv X ok H w' \<and> Q w')"
    unfolding r safe_bindR by (rule safe_mono [OF u]) (use release in simp)
  then show ?thesis by (simp only: Q_def)
qed

theorem arp_reply_refines_witness:
  "safe (handle_arp ref_libs 42 (arp_state_with
       (arp_message [2, 0, 0, 0, 0, 3] [2, 0, 0, 0, 0, 1] ARP_OPERATION_REPLY 0x0A000003 0x0A000001)))
     (\<lambda>w'. cache_of ref_libs w' 0x0A000003 = Some (Resolved [2, 0, 0, 0, 0, 3]) \<and>
        tx_frame w' 0 = mac_header [2, 0, 0, 0, 0, 3] [2, 0, 0, 0, 0, 1] ETHER_TYPE_IPV4 @ replicate 100 0)"
proof -
  let ?m = "arp_message [2, 0, 0, 0, 0, 3] [2, 0, 0, 0, 0, 1] ARP_OPERATION_REPLY 0x0A000003 0x0A000001"
  let ?w = "arp_state_with ?m"
  have l: "length ?m = 28" by (simp add: length_arp_message)
  note s = arp_state_with_ok [OF l]
  have "packets ?w 40 = sample_packet" "queue_of ref_libs ?w 1 = [40]" "frame_of sample_packet = replicate 100 0"
    by (simp_all add: arp_state_with_def queue_of_def) (simp_all add: sample_state_def sample_lists_def set_packet_def
        frame_of_def sample_packet_def chunk_def del: upt_rec_numeral)
  then have c: "cache_of ref_libs ?w 0x0A000003 = Some (Waiting [replicate 100 0])"
    using sample_find(2) [of 1] by (simp add: cache_of_def resolution_of_def s(5,6) sample_entry_def)
  have t: "slots_free ?w 1" "slot ?w 0 = 0" using s(9,10) by (simp_all add: slots_free_def slot_def)
  have ne: "0x0A000003 \<noteq> our_ip ?w" by (simp add: s(7))
  note r = arp_reply_refines [OF ref_contract s(1-3), of "[2, 0, 0, 0, 0, 3]" "[2, 0, 0, 0, 0, 1]", OF _ _ ne]
  show ?thesis
    using r s(4) t by (auto simp: s(7,8) c cache_reply_def transmits_all_def ether_frame_def elim!: safe_mono)
qed

end
