(* ===== verification/Address_Text.thy ===== *)
theory Address_Text
  imports Ip
begin

text \<open>
  IPv4 addresses as text: what \<open>ip_to_string\<close> writes, octet by octet, and that \<open>string_to_ip\<close> reads
  it back.
\<close>

section \<open>One octet\<close>

definition octet_digits :: "u8 \<Rightarrow> u8 list \<times> nat" where
  "octet_digits f =
     (let (buffer, digits) = (if f = 0 then ([0x30, 0, 0], 1) else ([0, 0, 0], 0)) in fragment_digits digits f buffer)"

definition octet_text :: "u8 \<Rightarrow> u8 list" where
  "octet_text f = (case octet_digits f of (buffer, digits) \<Rightarrow> rev (take digits buffer))"

definition is_digit :: "u8 \<Rightarrow> bool" where
  "is_digit c \<longleftrightarrow> 0x30 \<le> c \<and> c \<le> 0x39"

definition octet_value :: "u8 \<Rightarrow> u8 list \<Rightarrow> u8" where
  "octet_value n t = foldl (\<lambda>n c. n * 10 + c - 0x30) n t"

lemma digit_char:
  fixes f :: u8
  shows "is_digit (f mod 10 + 0x30)" and "is_digit 0x30"
proof -
  have m: "unat (f mod 10) < 10" by (simp add: unat_mod)
  then have "unat (f mod 10 + 0x30) = unat (f mod 10) + 48" by (subst unat_word_ariths) simp
  then show "is_digit (f mod 10 + 0x30)" using m by (simp add: is_digit_def word_le_nat_alt)
  show "is_digit 0x30" by (simp add: is_digit_def)
qed

text \<open>The text has one, two or three digits, which spell the octet.\<close>

lemma octet_cases:
  "octet_digits f = ([0x30, 0, 0], 1) \<and> f = 0 \<or>
   octet_digits f = ([f mod 10 + 0x30, 0, 0], 1) \<and> f div 10 = 0 \<or>
   octet_digits f = ([f mod 10 + 0x30, f div 10 mod 10 + 0x30, 0], 2) \<and> f div 10 div 10 = 0 \<or>
   octet_digits f = ([f mod 10 + 0x30, f div 10 mod 10 + 0x30, f div 10 div 10 mod 10 + 0x30], 3) \<and> f div 10 div 10 div 10 = 0"
proof -
  have "unat (f div 10 div 10 div 10) = 0" using unat_bound [of f] by (simp add: unat_div)
  then have "f div 10 div 10 div 10 = 0" by (simp only: unat_eq_zero)
  then show ?thesis
    by (cases "f = 0"; cases "f div 10 = 0"; cases "f div 10 div 10 = 0")
      (simp_all add: octet_digits_def fragment_digits.simps numeral_2_eq_2 numeral_3_eq_3)
qed

lemma octet_shape:
  "list_all is_digit (octet_text f)" "octet_value 0 (octet_text f) = f" "octet_text f \<noteq> []" "length (octet_text f) \<le> 3"
  "snd (octet_digits f) \<le> length (fst (octet_digits f))"
proof -
  have d: "g div 10 * 10 + g mod 10 = g" for g :: u8 by (rule div_mult_mod_eq)
  have z: "g mod 10 = g" if "g div 10 = 0" for g :: u8 using d [of g] that by simp
  show "octet_value 0 (octet_text f) = f"
    using octet_cases [of f] d [of f] d [of "f div 10"] z [of f] z [of "f div 10"] z [of "f div 10 div 10"]
    by (auto simp: octet_text_def octet_value_def)
  show "list_all is_digit (octet_text f)" "octet_text f \<noteq> []" "length (octet_text f) \<le> 3"
    "snd (octet_digits f) \<le> length (fst (octet_digits f))"
    using octet_cases [of f] digit_char by (auto simp: octet_text_def)
qed

section \<open>Writing\<close>

lemma write_reversed_ok:
  "off' = off + length as \<Longrightarrow> digits \<le> length buffer \<Longrightarrow> off' + digits \<le> length d \<Longrightarrow>
   write_reversed digits buffer (upd off as d) (int off') =
     Inr (upd off (as @ rev (take digits buffer)) d, int (off' + digits))"
proof (induction digits arbitrary: off' as)
  case 0
  then show ?case by simp
next
  case (Suc n)
  have "put_byte (buffer ! n) (upd off as d) (int off') = Inr (upd off (as @ [buffer ! n]) d)"
    using Suc.prems by (intro put_next_byte) simp_all
  moreover have "write_reversed n buffer (upd off (as @ [buffer ! n]) d) (int (Suc off')) =
      Inr (upd off ((as @ [buffer ! n]) @ rev (take n buffer)) d, int (Suc off' + n))"
    using Suc.prems by (intro Suc.IH) simp_all
  ultimately show ?case using Suc.prems by (simp add: take_Suc_conv_app_nth add.commute)
qed

definition ip_octet :: "u32 \<Rightarrow> nat \<Rightarrow> u8" where
  "ip_octet ip i = ucast (drop_bit ((3 - i) * 8) ip AND 0xFF)"

definition ip_text :: "u32 \<Rightarrow> u8 list" where
  "ip_text ip = octet_text (ip_octet ip 0) @ [0x2E] @ octet_text (ip_octet ip 1) @ [0x2E] @
     octet_text (ip_octet ip 2) @ [0x2E] @ octet_text (ip_octet ip 3)"

lemma ip_to_string_step:
  assumes "length as + 4 \<le> length d"
  shows "ip_to_string_loop (i # is) ip (upd 0 as d) (int (length as)) =
    (let t = octet_text (ip_octet ip i) @ (if i \<noteq> 3 then [0x2E] else []) in
     ip_to_string_loop is ip (upd 0 (as @ t) d) (int (length (as @ t))))"
proof -
  let ?f = "ip_octet ip i"
  obtain buffer digits where o: "octet_digits ?f = (buffer, digits)" by fastforce
  have l: "digits \<le> length buffer" "length (rev (take digits buffer)) \<le> 3" "octet_text ?f = rev (take digits buffer)"
    using octet_shape(4,5) [of ?f] by (simp_all add: o octet_text_def)
  have d3: "digits \<le> 3" using l by (simp add: min_def split: if_splits)
  have w: "write_reversed digits buffer (upd 0 as d) (int (length as)) =
      Inr (upd 0 (as @ rev (take digits buffer)) d, int (length as + digits))"
    using assms l by (intro write_reversed_ok) (simp_all add: min_def split: if_splits)
  have p: "put_byte 0x2E (upd 0 (as @ rev (take digits buffer)) d) (int (length as + digits)) =
      Inr (upd 0 (as @ rev (take digits buffer) @ [0x2E]) d)"
    using assms l(1) d3 by (subst put_next_byte) (simp_all add: min_def nat_add_distrib)
  have "ip_to_string_loop (i # is) ip (upd 0 as d) (int (length as)) =
      (let (buffer, digits) = octet_digits ?f in
       bindR (write_reversed digits buffer (upd 0 as d) (int (length as))) (\<lambda>(string, off).
         if i \<noteq> 3 then bindR (put_byte 0x2E string off) (\<lambda>string. ip_to_string_loop is ip string (off + 1))
         else ip_to_string_loop is ip string off))"
    by (simp add: octet_digits_def ip_octet_def Let_def split: prod.splits if_splits)
  also have "\<dots> = (let t = octet_text ?f @ (if i \<noteq> 3 then [0x2E] else []) in
     ip_to_string_loop is ip (upd 0 (as @ t) d) (int (length (as @ t))))"
    using w p l(1) by (simp add: o l(3) Let_def min_def ac_simps)
  finally show ?thesis .
qed

lemma length_ip_text: "length (ip_text ip) \<le> 15"
  using octet_shape(4) [of "ip_octet ip 0"] octet_shape(4) [of "ip_octet ip 1"] octet_shape(4) [of "ip_octet ip 2"]
    octet_shape(4) [of "ip_octet ip 3"] by (simp add: ip_text_def)

lemma ip_to_string_text:
  assumes "16 \<le> length d"
  shows "ip_to_string ip d = Inr (upd 0 (ip_text ip @ [0]) d)"
proof -
  let ?t = "\<lambda>i. octet_text (ip_octet ip i)"
  have l: "length (?t i) \<le> 3" for i by (rule octet_shape(4))
  have u: "[0..<4] = [0, 1, 2, 3]" by (simp add: upt_rec)
  have "ip_to_string_loop [0, 1, 2, 3] ip (upd 0 [] d) (int (length ([] :: u8 list))) =
      Inr (upd 0 (ip_text ip) d, int (length (ip_text ip)))"
    using l [of 0] l [of 1] l [of 2] assms
    by (subst ip_to_string_step, simp, simp only: Let_def append_Nil,
        subst ip_to_string_step, simp, simp only: Let_def,
        subst ip_to_string_step, simp, simp only: Let_def,
        subst ip_to_string_step, simp, simp add: ip_text_def Let_def)
  moreover have "put_byte 0 (upd 0 (ip_text ip) d) (int (length (ip_text ip))) = Inr (upd 0 (ip_text ip @ [0]) d)"
    using length_ip_text [of ip] assms by (intro put_next_byte) simp_all
  ultimately show ?thesis by (simp add: ip_to_string_def u)
qed

section \<open>Reading\<close>

lemma read_digits_text:
  "list_all is_digit t \<Longrightarrow> \<forall>i<length t. s ! (off + i) = t ! i \<Longrightarrow> off + length t < length s \<Longrightarrow>
   \<not> is_digit (s ! (off + length t)) \<Longrightarrow>
   read_digits s (int off) n = Inr (octet_value n t, int (off + length t))"
proof (induction t arbitrary: off n)
  case Nil
  then show ?case by (subst read_digits.simps) (auto simp: mem is_digit_def octet_value_def)
next
  case (Cons c t)
  have c: "s ! off = c" using Cons.prems(2) by auto
  have t: "\<forall>i<length t. s ! (Suc off + i) = t ! i" using Cons.prems(2) by (metis Suc_less_eq add_Suc_shift length_Cons nth_Cons_Suc)
  have "read_digits s (int (Suc off)) (n * 10 + c - 0x30) = Inr (octet_value (n * 10 + c - 0x30) t, int (Suc off + length t))"
    using Cons.prems t by (intro Cons.IH) simp_all
  then show ?case
    using Cons.prems(1,3) by (subst read_digits.simps) (simp add: mem is_digit_def c octet_value_def add.commute)
qed

lemma dot_no_digit: "\<not> is_digit 0x2E" "\<not> is_digit 0" by (simp_all add: is_digit_def)

lemma string_to_ip_step:
  assumes "s = as @ octet_text b @ c # rest" and "c = 0x2E \<or> c = 0" and "j = length as + length (octet_text b) + of_bool (c = 0x2E)"
  shows "string_to_ip_loop (i # is) s (int (length as)) ip =
    string_to_ip_loop is s (int j) (ip OR push_bit ((3 - i) * 8) (ucast b))"
proof -
  let ?t = "octet_text b"
  have n: "s ! (length as + length ?t) = c" "length as + length ?t < length s"
    "\<forall>i<length ?t. s ! (length as + i) = ?t ! i"
    by (simp_all add: assms(1) nth_append)
  then have "read_digits s (int (length as)) 0 = Inr (octet_value 0 ?t, int (length as + length ?t))"
    using assms(2) dot_no_digit by (intro read_digits_text octet_shape(1)) auto
  moreover have "get_byte s (int (length as + length ?t)) = Inr c" using n(1,2) by (simp add: mem nat_add_distrib)
  ultimately show ?thesis using assms(2,3) by (auto simp: octet_shape(2) ac_simps)
qed

lemma string_to_ip_text:
  assumes "16 \<le> length d"
  shows "string_to_ip (upd 0 (ip_text ip @ [0]) d) = Inr ip"
proof -
  let ?t = "\<lambda>i. octet_text (ip_octet ip i)"
  define s where "s = upd 0 (ip_text ip @ [0]) d"
  define rest where "rest = drop (length (ip_text ip) + 1) d"
  have u: "[0..<4] = [0, 1, 2, 3]" by (simp add: upt_rec)
  define a1 a2 a3 where "a1 = ?t 0 @ [0x2E]" and "a2 = a1 @ ?t 1 @ [0x2E]" and "a3 = a2 @ ?t 2 @ [0x2E]"
  have s: "s = [] @ ?t 0 @ 0x2E # (?t 1 @ [0x2E] @ ?t 2 @ [0x2E] @ ?t 3 @ [0] @ rest)"
    "s = a1 @ ?t 1 @ 0x2E # (?t 2 @ [0x2E] @ ?t 3 @ [0] @ rest)"
    "s = a2 @ ?t 2 @ 0x2E # (?t 3 @ [0] @ rest)" "s = a3 @ ?t 3 @ 0 # rest"
    by (simp_all add: s_def rest_def upd_def ip_text_def a1_def a2_def a3_def)
  have l: "length a1 = length [] + length (?t 0) + of_bool ((0x2E :: u8) = 0x2E)"
    "length a2 = length a1 + length (?t 1) + of_bool ((0x2E :: u8) = 0x2E)"
    "length a3 = length a2 + length (?t 2) + of_bool ((0x2E :: u8) = 0x2E)"
    by (simp_all add: a1_def a2_def a3_def)
  have dot: "(0x2E :: u8) = 0x2E \<or> (0x2E :: u8) = 0" by simp
  have "string_to_ip_loop [0, 1, 2, 3] s (int (length ([] :: u8 list))) 0 = Inr
      (0 OR push_bit 24 (ucast (ip_octet ip 0)) OR push_bit 16 (ucast (ip_octet ip 1)) OR push_bit 8 (ucast (ip_octet ip 2)) OR
        push_bit 0 (ucast (ip_octet ip 3)))"
    unfolding string_to_ip_step [OF s(1) dot l(1)] string_to_ip_step [OF s(2) dot l(2)]
      string_to_ip_step [OF s(3) dot l(3)] string_to_ip_step [OF s(4) disjI2 [OF refl] refl]
    by (simp add: or.assoc)
  moreover have "be32_bytes ip ! i = ip_octet ip i" if "i < 4" for i
    using that by (auto simp: be32_bytes_def ip_octet_def less_Suc_eq numeral_eq_Suc nth_Cons')
  ultimately show ?thesis
    using be32_of_bytes [of ip] by (simp add: string_to_ip_def u s_def)
qed

end
