(* ===== verification/Internet_Properties.thy ===== *)
theory Internet_Properties
  imports Samples Wire Address_Text
begin

text \<open>
  The properties of the Internet layer (\<open>ip.c\<close>, \<open>icmp.c\<close>): the checksum, the header that is sent
  and its reading, the checks on received packets and the echo reply, each with a witness.
\<close>

section \<open>The checksum\<close>

text \<open>The sum of 16-bit words with end-around carry, which RFC 1071 defines.\<close>

definition ones_complement_sum :: "nat \<Rightarrow> nat" where
  "ones_complement_sum s = (if s = 0 then 0 else (s - 1) mod 65535 + 1)"

lemma fold_carry_ones_complement:
  assumes "s < 2 ^ 32"
  shows "unat (fold_carry (of_nat s)) = ones_complement_sum s"
proof -
  let ?f = "unat (fold_carry (of_nat s))"
  have us: "unat (of_nat s :: u32) = s" using assms by (simp add: unat_of_nat take_bit_eq_mod)
  have b: "?f < 65536" by (rule fold_carry_bound)
  have m: "?f mod 65535 = s mod 65535" using fold_carry_mod [of "of_nat s"] us by simp
  have z: "?f = 0 \<longleftrightarrow> s = 0" using fold_carry_zero [of "of_nat s"] us by (metis unat_0 unat_eq_zero)
  show ?thesis
  proof (cases "s = 0")
    case True
    then show ?thesis using z by (simp add: ones_complement_sum_def)
  next
    case False
    then obtain t where t: "s = Suc t" by (cases s) auto
    obtain g where g: "?f = Suc g" using z False by (cases ?f) auto
    have "int (Suc g) mod 65535 = int (Suc t) mod 65535" using arg_cong [OF m [unfolded g, unfolded t], of int] by (simp only: zmod_int of_nat_numeral)
    then have "int g mod 65535 = int t mod 65535" by (simp add: mod_eq_dvd_iff)
    then have "int (g mod 65535) = int (t mod 65535)" by (simp only: zmod_int of_nat_numeral)
    then have "g mod 65535 = t mod 65535" by (simp only: of_nat_eq_iff)
    then show ?thesis using b g by (simp add: ones_complement_sum_def t)
  qed
qed

text \<open>
  Property C22: the checksum loops compute the RFC 1071 checksum.  For every run of fewer than 65536
  bytes inside the buffer, odd lengths included, the result is the one's complement of the one's
  complement sum of its big-endian words, the last byte padded with zero; the IP checksum is the same
  function on 20 bytes.
\<close>

theorem checksum_is_ones_complement:
  assumes "0 \<le> off" and "0 \<le> n" and "n < 65536" and "off + n \<le> int (length d)"
  shows "returns (compute_icmp_checksum d off n)
      (\<lambda>c. unat c = 65535 - ones_complement_sum (word_sum (chunk (nat off) (nat n) d))) \<and>
    (n = 20 \<longrightarrow> compute_ip_checksum d off = compute_icmp_checksum d off n)"
proof -
  let ?bs = "chunk (nat off) (nat n) d"
  have "length ?bs < 65536" using assms by (simp add: nat_less_iff)
  then have "word_sum ?bs < 2 ^ 32" using word_sum_bound [of ?bs] by simp
  note f = fold_carry_ones_complement [OF this]
  then have "unat (internet_checksum (word_sum ?bs)) = 65535 - ones_complement_sum (word_sum ?bs)"
    using unat_not_checksum [OF fold_carry_bound, of "of_nat (word_sum ?bs)"] by (simp add: internet_checksum_def)
  then show ?thesis using assms by (simp add: compute_icmp_checksum_ok compute_ip_checksum_ok)
qed

theorem checksum_is_ones_complement_witness:
  "returns (compute_icmp_checksum [0, 1, 0xF2, 0x03, 0xF4] 0 5) (\<lambda>c. unat c = 65535 - ones_complement_sum 124420)"
  using checksum_is_ones_complement [of 0 5 "[0, 1, 0xF2, 0x03, 0xF4]"] by (simp add: chunk_def)

section \<open>The header\<close>

lemma ip_header_fields:
  "chunk 0 1 (ip_header sender ip protocol n) = [0x45]" "chunk 2 2 (ip_header sender ip protocol n) = be16_bytes (word_of_int n)"
  "chunk 6 2 (ip_header sender ip protocol n) = be16_bytes IP_FLAG_DONT_FRAGMENT"
  "chunk 9 1 (ip_header sender ip protocol n) = [word_of_int protocol]"
  "chunk 12 4 (ip_header sender ip protocol n) = be32_bytes sender" "chunk 16 4 (ip_header sender ip protocol n) = be32_bytes ip"
proof -
  have "chunk 0 1 h = [0x45] \<and> chunk 2 2 h = be16_bytes (word_of_int n) \<and> chunk 6 2 h = be16_bytes IP_FLAG_DONT_FRAGMENT \<and>
    chunk 9 1 h = [word_of_int protocol] \<and> chunk 12 4 h = be32_bytes sender \<and> chunk 16 4 h = be32_bytes ip"
    if "h = ip_header_with c sender ip protocol n" for h c
    by (simp add: that ip_header_with_def chunk_def be16_bytes_def be32_bytes_def)
  from this [OF ip_header_def]
  show "chunk 0 1 (ip_header sender ip protocol n) = [0x45]" "chunk 2 2 (ip_header sender ip protocol n) = be16_bytes (word_of_int n)"
    "chunk 6 2 (ip_header sender ip protocol n) = be16_bytes IP_FLAG_DONT_FRAGMENT"
    "chunk 9 1 (ip_header sender ip protocol n) = [word_of_int protocol]"
    "chunk 12 4 (ip_header sender ip protocol n) = be32_bytes sender" "chunk 16 4 (ip_header sender ip protocol n) = be32_bytes ip"
    by simp_all
qed

text \<open>
  Property C21: the header that \<open>ip_send\<close> writes passes a receiver's check: its checksum verifies to
  zero, \<open>verify_ip_header\<close> accepts it for any packet longer than the header, and reading the fields
  back gives the addresses, the protocol and the length; no byte outside the 20 changes.
\<close>

theorem ip_header_roundtrip:
  assumes "0 \<le> off" and "off + 20 \<le> int (length d)"
  shows "returns (write_ip_header sender ip protocol n off d) (\<lambda>d'.
    compute_ip_checksum d' off = Inr 0 \<and> (\<forall>m. 20 < m \<and> m < 2 ^ 31 \<longrightarrow> verify_ip_header d' off m = Inr True) \<and>
    read_be32 d' (off + 12) = Inr sender \<and> read_be32 d' (off + 16) = Inr ip \<and>
    read_be16 d' (off + 2) = Inr (word_of_int n) \<and> get_byte d' (off + 9) = Inr (word_of_int protocol) \<and>
    length d' = length d \<and> take (nat off) d' = take (nat off) d \<and> drop (nat off + 20) d' = drop (nat off + 20) d)"
proof -
  let ?h = "ip_header sender ip protocol n"
  let ?s = "word_sum (ip_header_with 0 sender ip protocol n)"
  let ?d = "upd (nat off) ?h d"
  have len: "nat off + 20 \<le> length d" using assms by linarith
  have c: "chunk (nat off) 20 ?d = ?h" by (rule chunk_upd_same) (use len in simp_all)
  have "?s \<le> 65535 * 20" using word_sum_bound [of "ip_header_with 0 sender ip protocol n"] by simp
  then have "internet_checksum (word_sum ?h) = 0"
    unfolding ip_header_def word_sum_ip_header [of "internet_checksum _"] by (intro internet_checksum_verifies) simp
  then have k: "compute_ip_checksum ?d off = Inr 0" using assms len by (simp add: compute_ip_checksum_ok c)
  have sub: "chunk (nat (off + int i)) m ?d = chunk i m ?h" if "i + m \<le> 20" for i m
    using chunk_chunk [OF that, of "nat off" ?d] assms(1) by (simp add: c nat_add_distrib)
  have r: "read_be32 ?d (off + 12) = Inr sender" "read_be32 ?d (off + 16) = Inr ip"
    "read_be16 ?d (off + 2) = Inr (word_of_int n)" "read_be16 ?d (off + 6) = Inr IP_FLAG_DONT_FRAGMENT"
    using sub [of 12 4] sub [of 16 4] sub [of 2 2] sub [of 6 2] assms len by (simp_all add: be32.rd_enc be16.rd_enc ip_header_fields)
  have b: "get_byte ?d off = Inr 0x45" "get_byte ?d (off + 9) = Inr (word_of_int protocol)"
    using sub [of 0 1] sub [of 9 1] chunk_byte [of "nat off" ?d] chunk_byte [of "nat (off + 9)" ?d] assms len
    by (simp_all add: mem ip_header_fields [unfolded One_nat_def])
  have "verify_ip_header ?d off m = Inr True" if "20 < m" "m < 2 ^ 31" for m
  proof -
    have "\<not> size_t m \<le> 20" using that by (simp add: size_t_le)
    then show ?thesis by (simp add: verify_ip_header_def b r)
  qed
  moreover have "take (nat off) ?d = take (nat off) d" "drop (nat off + 20) ?d = drop (nat off + 20) d"
    using len by (simp_all add: upd_def)
  ultimately show ?thesis
    using assms len by (simp add: write_ip_header_ok k r b)
qed

theorem ip_header_roundtrip_witness:
  "returns (write_ip_header 0x0A000001 0x0A000002 17 128 4 (replicate 32 0xEE)) (\<lambda>d'. compute_ip_checksum d' 4 = Inr 0 \<and>
     verify_ip_header d' 4 128 = Inr True)"
  using ip_header_roundtrip [of 4 "replicate 32 0xEE" "0x0A000001" "0x0A000002" 17 128] by (auto elim: returns_mono)

section \<open>Sending\<close>

text \<open>
  \<open>ip_send\<close> of a packet with room for the headers, to a broadcast address of our subnet or
  to a resolved neighbour, hands the controller one Ethernet frame: the neighbour's hardware address
  or the broadcast one, then the IP header with checksum, then the packet's bytes.  The protocol
  invariants are kept and no packet is leaked.
\<close>

theorem ip_send_frame:
  assumes "intrusive_list X ok" and "arp_inv X ok (add_mset p H) w" and "packet_ok (packets w p)"
    and "34 \<le> index (packets w p)" and "next_hop X ip w = Some m"
  shows "safe (ip_send X p ip protocol w) (\<lambda>w'. arp_inv X ok H w' \<and>
    transmits w w' (ether_frame m (our_mac w) ETHER_TYPE_IPV4 (ip_datagram (our_ip w) ip protocol (frame_of (packets w p)))))"
proof -
  have "ip_room X ip w"
    using assms(5) by (auto simp: ip_room_def arp_room_def next_hop_def split: if_splits option.splits)
  from intrusive_list.ip_send_safe [OF assms(1-4) this, of protocol] show ?thesis
    by (rule safe_mono) (use ip_send_wire [OF assms] in blast)
qed

lemma sample_hop:
  "next_hop ref_libs 0x0A000002 (sample_state n) = Some [2, 0, 0, 0, 0, 2]"
  "next_hop ref_libs 0x0A0000FF (sample_state n) = Some BROADCAST_MAC"
proof -
  have m: "NOT 0xFFFFFF00 = (0xFF :: u32)" by simp
  have s: "our_netmask (sample_state n) = 0xFFFFFF00" "arp_entries (sample_state n) = sample_entry"
    "find_arp_entry ref_libs 0x0A000002 (sample_state n) = Some 0"
    by (simp_all add: sample_state_def find_arp_entry_def sample_entry_def del: upt_rec_numeral)
  show "next_hop ref_libs 0x0A000002 (sample_state n) = Some [2, 0, 0, 0, 0, 2]"
    "next_hop ref_libs 0x0A0000FF (sample_state n) = Some BROADCAST_MAC"
    by (simp_all add: next_hop_def should_broadcast_def get_our_netmask_def s m Let_def sample_entry_def)
qed

lemma sample_send:
  "arp_inv ref_libs ref_ok (add_mset 42 {#}) (sample_state 1)" "packet_ok (packets (sample_state 1) 42)"
  "tx_index (sample_state 1) = 0" "tx_owner (tx_descriptors (sample_state 1) ! 0) = OWNER_CPU"
  "our_mac (sample_state 1) = [2, 0, 0, 0, 0, 1]" "our_ip (sample_state 1) = 0x0A000001"
  "frame_of sample_packet = replicate 100 0" "index sample_packet = 74"
  using sample_arp [of 1]
  by (simp_all add: sample_packet_ok) (simp_all add: sample_state_def frame_of_def sample_packet_def chunk_def del: upt_rec_numeral)

theorem ip_send_frame_witness:
  "safe (ip_send ref_libs 42 0x0A000002 17 (sample_state 1)) (\<lambda>w'. tx_frame w' 0 =
     mac_header [2, 0, 0, 0, 0, 2] [2, 0, 0, 0, 0, 1] 0x800 @ ip_header 0x0A000001 0x0A000002 17 120 @ replicate 100 0)"
proof -
  have "34 \<le> index (packets (sample_state 1) 42)" by (simp add: sample_send(8))
  note p = ip_send_frame [OF ref_contract sample_send(1,2) this sample_hop(1), of 17]
  show ?thesis
    using p by (auto simp: sample_send [unfolded One_nat_def] transmits_def ether_frame_def ip_datagram_def elim!: safe_mono)
qed

section \<open>The echo reply\<close>

text \<open>
  Property C20: an ICMP echo request whose sender is a resolved neighbour is answered with one frame to
  that neighbour.  The reply has type 0 and code 0, repeats the identifier, sequence number and data
  of the request to the last byte, and its checksum verifies to zero.
\<close>

theorem echo_request_answered:
  assumes "intrusive_list X ok" and "arp_inv X ok (add_mset p H) w" and "packet_ok (packets w p)"
    and "34 \<le> index (packets w p)" and "next_hop X (senders_ip (packets w p)) w = Some m"
    and "8 \<le> plength (packets w p)" and "frame_of (packets w p) ! 0 = 8"
  defines "request \<equiv> frame_of (packets w p)"
  shows "safe (handle_icmp X p w) (\<lambda>w'. arp_inv X ok H w' \<and> (\<exists>checksum.
    let reply = [0, 0] @ be16_bytes checksum @ drop 4 request in
    internet_checksum (word_sum reply) = 0 \<and> length reply = length request \<and>
    transmits w w' (ether_frame m (our_mac w) ETHER_TYPE_IPV4
      (ip_datagram (our_ip w) (senders_ip (packets w p)) IP_PROTOCOL_ICMP reply))))"
proof -
  let ?k = "packets w p" and ?w = "set_packet p ping_answered w"
  note a = ping_answered_frame [OF assms(3,6)]
  have inv: "arp_inv X ok (add_mset p H) ?w"
    by (rule intrusive_list.arp_inv_set_packet(1) [where f = ping_answered, OF assms(1,2) a(4)])
  have len: "length request = nat (plength ?k)" using length_frame_of [OF assms(3)] by (simp add: request_def)
  have first: "data ?k ! nat (index ?k) = ICMP_TYPE_PING_REQUEST"
    using assms(3,6,7) nth_chunk [of 0 "nat (plength ?k)" "nat (index ?k)" "data ?k"]
    by (auto simp: frame_of_def packet_ok_def)
  have e: "handle_icmp X p w = ip_send X p (senders_ip ?k) IP_PROTOCOL_ICMP ?w"
    using first assms(6) by (simp add: handle_icmp_cases [OF assms(3)])
  let ?s = "word_sum (ping_reply_with 0 request)"
  have "length (ping_reply_with 0 request) \<le> 1024" using len assms(3,6) by (auto simp: packet_ok_def)
  then have "?s \<le> 65535 * 1024" using word_sum_bound [of "ping_reply_with 0 request"] by simp
  then have v: "internet_checksum (word_sum (ping_reply request)) = 0"
    unfolding ping_reply_def word_sum_ping_reply [of "internet_checksum _"] by (intro internet_checksum_verifies) simp
  have l: "length (ping_reply request) = length request" using len assms(6) by simp
  have "ip_room X (senders_ip ?k) ?w"
    using assms(5) by (auto simp: ip_room_def arp_room_def next_hop_def split: if_splits option.splits)
  then have s: "safe (ip_send X p (senders_ip ?k) IP_PROTOCOL_ICMP ?w) (\<lambda>w'. arp_inv X ok H w' \<and> arp_frame X ?w w')"
    using a assms(4) by (intro intrusive_list.ip_send_safe [OF assms(1) inv]) simp_all
  have wire: "transmits w w' (ether_frame m (our_mac w) ETHER_TYPE_IPV4
      (ip_datagram (our_ip w) (senders_ip ?k) IP_PROTOCOL_ICMP (ping_reply request)))"
    if "ip_send X p (senders_ip ?k) IP_PROTOCOL_ICMP ?w = Inr w'" for w'
  proof -
    have "packet_ok (packets ?w p)" "34 \<le> index (packets ?w p)" "next_hop X (senders_ip ?k) ?w = Some m"
      using a assms(4,5) by simp_all
    from ip_send_wire [OF assms(1) inv this that] show ?thesis
      by (simp add: a(1) transmits_def Let_def request_def)
  qed
  show ?thesis
    unfolding e using v l wire
    by (intro safe_mono [OF s] conjI exI [of _ "internet_checksum ?s"])
      (simp_all add: Let_def ping_reply_def ping_reply_with_def)
qed

text \<open>An echo request of twelve bytes from the resolved neighbour 10.0.0.2, in packet 42.\<close>

definition ping_state :: "(ref_env, list_head \<Rightarrow> nat list) dhcp_state" where
  "ping_state = set_packet 42 (put_message [8, 0, 0xE5, 0xCA, 0x12, 0x34, 0, 1, 1, 2, 3, 4]) (sample_state 1)"

theorem echo_request_answered_witness:
  "safe (handle_icmp ref_libs 42 ping_state) (\<lambda>w'. length (tx_frame w' 0) = 46 \<and> drop 38 (tx_frame w' 0) = [0x12, 0x34, 0, 1, 1, 2, 3, 4])"
proof -
  let ?bs = "[8, 0, 0xE5, 0xCA, 0x12, 0x34, 0, 1, 1, 2, 3, 4] :: u8 list"
  have k: "length (data sample_packet) = 1024" "0 \<le> index sample_packet" "index sample_packet + int (length ?bs) \<le> 1024"
    by (simp_all add: sample_packet_def)
  note f = put_message_frame [OF k]
  have i: "arp_inv ref_libs ref_ok (add_mset 42 {#}) ping_state"
    unfolding ping_state_def
    by (rule ref.arp_inv_set_packet(1) [OF sample_send(1)]) (use f(2) k in \<open>simp add: packet_ok_def\<close>)
  have p: "packets ping_state 42 = put_message ?bs sample_packet" by (simp add: ping_state_def)
  have s: "senders_ip sample_packet = 0x0A000002" by (simp add: sample_packet_def)
  have "safe (handle_icmp ref_libs 42 ping_state) (\<lambda>w'. arp_inv ref_libs ref_ok {#} w' \<and> (\<exists>checksum.
    let reply = [0, 0] @ be16_bytes checksum @ drop 4 ?bs in
    internet_checksum (word_sum reply) = 0 \<and> length reply = length ?bs \<and>
    transmits ping_state w' (ether_frame [2, 0, 0, 0, 0, 2] (our_mac ping_state) ETHER_TYPE_IPV4
      (ip_datagram (our_ip ping_state) 0x0A000002 IP_PROTOCOL_ICMP reply))))"
    using echo_request_answered [OF ref_contract i, of "[2, 0, 0, 0, 0, 2]"] f
    by (simp add: p put_message_def s sample_send(8)) (simp add: ping_state_def sample_hop)
  then show ?thesis
    by (rule safe_mono) (auto simp: transmits_def ping_state_def sample_send [unfolded One_nat_def] Let_def ether_frame_def
        mac_header_def ip_datagram_def be16_bytes_def)
qed

section \<open>Checks on received packets\<close>

text \<open>
  A packet \<open>handle_ip\<close> passes on: an unfragmented version 4 header that lies inside the packet, for
  our address or everyone (or before we have an address), with UDP or ICMP inside.
\<close>

definition ip_accepted :: "u32 \<Rightarrow> packet \<Rightarrow> bool" where
  "ip_accepted our k \<longleftrightarrow> 20 < plength k \<and>
     (\<exists>b n fragment target protocol. get_byte (data k) (index k) = Inr b \<and> read_be16 (data k) (index k + 2) = Inr n \<and>
       read_be16 (data k) (index k + 6) = Inr fragment \<and> read_be32 (data k) (index k + 16) = Inr target \<and>
       get_byte (data k) (index k + 9) = Inr protocol \<and>
       drop_bit 4 b = 4 \<and> fragment AND IP_FLAG_MORE_FRAGMENTS = 0 \<and> 4 * uint (take_bit 4 b) < min (plength k) (uint n) \<and>
       (our = 0 \<or> target = our \<or> target = 0xFFFFFFFF) \<and> (uint protocol = 17 \<or> uint protocol = 1))"

text \<open>What \<open>handle_ip\<close> reads from a packet that is long enough.\<close>

lemma ip_reads:
  assumes "packet_ok k" and "20 < plength k"
  obtains b n fragment sender target protocol where "get_byte (data k) (index k) = Inr b" and "read_be16 (data k) (index k + 2) = Inr n"
    and "read_be16 (data k) (index k + 6) = Inr fragment" and "read_be32 (data k) (index k + 12) = Inr sender"
    and "read_be32 (data k) (index k + 16) = Inr target" and "get_byte (data k) (index k + 9) = Inr protocol"
proof -
  have r: "0 \<le> index k" "index k + 20 < int (length (data k))" using assms by (auto simp: packet_ok_def)
  show thesis
    using be16.rd_in [of "index k + 2" "data k"] be16.rd_in [of "index k + 6" "data k"] be32.rd_in [of "index k + 12" "data k"]
      be32.rd_in [of "index k + 16" "data k"] r that by (auto simp: mem)
qed

lemma handle_ip_eq:
  fixes w :: "('e, 'h, 'z) udp_state_scheme" and p :: nat
  defines "k \<equiv> packets w p"
  assumes "packet_ok k" and "20 < plength k" and "get_byte (data k) (index k) = Inr b" and "read_be16 (data k) (index k + 2) = Inr n"
    and "read_be16 (data k) (index k + 6) = Inr fragment" and "read_be32 (data k) (index k + 12) = Inr sender"
    and "read_be32 (data k) (index k + 16) = Inr target" and "get_byte (data k) (index k + 9) = Inr protocol"
  shows "handle_ip X p w =
    (let w1 = set_packet p (ip_parsed sender target n) w; w2 = set_packet p (ip_payload sender target n b) w in
     if \<not> (drop_bit 4 b = 4 \<and> fragment AND IP_FLAG_MORE_FRAGMENTS = 0 \<and> 4 * uint (take_bit 4 b) < min (plength k) (uint n))
     then Inr (free_network_packet X p w1)
     else if \<not> (our_ip w = 0 \<or> target = our_ip w \<or> target = 0xFFFFFFFF) then Inr (free_network_packet X p w2)
     else if uint protocol = 17 then handle_udp X p w2
     else if uint protocol = 1 then handle_icmp X p w2
     else Inr (free_network_packet X p w2))"
proof -
  have l: "plength k \<le> 1024" using assms(2) by (auto simp: packet_ok_def)
  let ?m = "plength (ip_parsed sender target n k)"
  have m: "?m = min (plength k) (uint n)" by (simp add: ip_parsed_def)
  have "0 \<le> ?m" "?m < 2 ^ 31" using l assms(3) by (auto simp: m min_def)
  then have "size_t ?m \<le> 4 * ucast (take_bit 4 b) \<longleftrightarrow> ?m \<le> 4 * uint (take_bit 4 b)"
    using header_words(2) [of b] by (simp add: size_t_le)
  then have v: "verify_ip_header (data k) (index k) ?m = Inr (drop_bit 4 b = 4 \<and> fragment AND IP_FLAG_MORE_FRAGMENTS = 0 \<and>
      4 * uint (take_bit 4 b) < min (plength k) (uint n))"
    using assms(4,6) by (auto simp: verify_ip_header_def m)
  have f: "should_filter_away p (set_packet p (ip_payload sender target n b) w) \<longleftrightarrow>
      \<not> (our_ip w = 0 \<or> target = our_ip w \<or> target = 0xFFFFFFFF)"
    by (auto simp: should_filter_away_def get_our_ip_def ip_payload_def ip_parsed_def)
  show ?thesis
    unfolding handle_ip_unfold [OF assms(3) [unfolded k_def] l [unfolded k_def] assms(7,8,5) [unfolded k_def] v [unfolded k_def]
        assms(4,9) [unfolded k_def]]
    by (simp only: k_def f Let_def)
qed

text \<open>
  Every other packet is only released: a short or cut header, another IP version, a set
  top fragment bit, a foreign address, an unknown protocol.  Nothing but the buffer's own record
  changes before it goes back to the pool.
\<close>

theorem ip_others_released:
  assumes "packet_ok (packets w p)" and "\<not> ip_accepted (our_ip w) (packets w p)"
  shows "\<exists>k. handle_ip X p w = Inr (free_network_packet X p (set_packet p (\<lambda>_. k) w))"
proof (cases "20 < plength (packets w p)")
  case False
  then have "size_t (plength (packets w p)) \<le> size_t IP_HEADER_SIZE"
    using assms(1) by (auto simp: packet_ok_def size_t_le uint_size_t)
  moreover have "set_packet p (\<lambda>_. packets w p) w = w" by (simp add: set_packet_def)
  ultimately show ?thesis by (intro exI [of _ "packets w p"]) (simp add: handle_ip_def)
next
  case True
  obtain b n fragment sender target protocol where r: "get_byte (data (packets w p)) (index (packets w p)) = Inr b"
    "read_be16 (data (packets w p)) (index (packets w p) + 2) = Inr n"
    "read_be16 (data (packets w p)) (index (packets w p) + 6) = Inr fragment"
    "read_be32 (data (packets w p)) (index (packets w p) + 12) = Inr sender"
    "read_be32 (data (packets w p)) (index (packets w p) + 16) = Inr target"
    "get_byte (data (packets w p)) (index (packets w p) + 9) = Inr protocol"
    using ip_reads [OF assms(1) True] by blast
  have c: "set_packet p f w = set_packet p (\<lambda>_. f (packets w p)) w" for f by (simp add: set_packet_def)
  note e = handle_ip_eq [OF assms(1) True r, of X, unfolded Let_def c [of "ip_parsed _ _ _"] c [of "ip_payload _ _ _ _"]]
  from assms(2) True r show ?thesis unfolding e by (auto simp: ip_accepted_def)
qed

theorem ip_others_released_witness:
  "\<exists>k. handle_ip ref_libs 42 (sample_state 1) = Inr (free_network_packet ref_libs 42 (set_packet 42 (\<lambda>_. k) (sample_state 1)))"
proof (rule ip_others_released)
  have "get_byte (data sample_packet) (index sample_packet) = Inr 0" by (simp add: sample_packet_def mem)
  then show "\<not> ip_accepted (our_ip (sample_state 1)) (packets (sample_state 1) 42)" by (simp add: ip_accepted_def)
qed (simp add: sample_packet_ok)

section \<open>Short header lengths\<close>

lemma ip_send_out_of_room:
  "index (packets w p) < 20 \<Longrightarrow> ip_send X p ip protocol w = Inl Fault"
  by (simp add: ip_send_def Let_def with_data_def write_ip_header_def put_bits_def get_byte_fault)

lemma mac_send_no_room:
  assumes "index (packets w p) < 14"
  shows "mac_send X p m ether_type w = Inl Fault"
proof -
  have "memory_copy m 0 d off 6 = Inl Fault" if "off < 0" for d off
    using that by (auto simp: memory_copy_def copy_up.simps [of 0] put_byte_fault get_byte_def)
  then show ?thesis using assms by (simp add: mac_send_def Let_def with_data_def write_mac_header_def)
qed

lemma ip_send_no_room_for_mac:
  assumes "packet_ok (packets w p)" and "index (packets w p) < 34" and "next_hop X ip w \<noteq> None"
  shows "ip_send X p ip protocol w = Inl Fault"
proof (cases "index (packets w p) < 20")
  case True
  then show ?thesis by (rule ip_send_out_of_room)
next
  case False
  then have i: "20 \<le> index (packets w p)" by simp
  let ?w = "set_packet p (ip_framed (our_ip w) ip protocol) w"
  have m: "mac_send X p m ether_type ?w = Inl Fault" for m ether_type
    using ip_framed_frame(3) [OF assms(1) i] assms(2) by (intro mac_send_no_room) simp
  have "should_broadcast ip ?w = should_broadcast ip w" by (rule should_broadcast_cong) simp
  then show ?thesis
    using assms(3) m unfolding ip_send_eq [OF assms(1) i] Let_def
    by (auto simp: mac_broadcast_def next_hop_def arp_send_def find_arp_entry_def split: option.splits if_splits)
qed

text \<open>
  Property C39: \<open>verify_ip_header\<close> accepts a header length below five words, and the payload then seems
  to start inside the IP header.  When that is an echo request, the reply's headers are written before
  the start of the buffer: the IP header with a length of one word, whoever the sender is, and the
  Ethernet header with two to four words, when the sender's hardware address is known.  One received
  frame is enough.
\<close>

theorem short_header_ping_faults:
  fixes w :: "('e, 'h, 'z) udp_state_scheme"
  assumes "packet_ok (packets w p)" and "index (packets w p) = 14" and "20 < plength (packets w p)"
  defines "d \<equiv> data (packets w p)"
  defines "h \<equiv> 4 * uint (take_bit 4 (d ! 14))"
  assumes "drop_bit 4 (d ! 14) = 4" and "h < 20"
    and "d ! nat (14 + h) = ICMP_TYPE_PING_REQUEST" and "h + 8 \<le> plength (packets w p)" and "d ! 23 = 1"
    and "read_be16 d 16 = Inr n" and "h + 8 \<le> uint n"
    and "read_be16 d 20 = Inr fragment" and "fragment AND IP_FLAG_MORE_FRAGMENTS = 0"
    and "our_ip w = 0 \<or> read_be32 d 30 = Inr (our_ip w)"
    and "read_be32 d 26 = Inr sender" and "h = 4 \<or> next_hop X sender w \<noteq> None"
  shows "handle_ip X p w = Inl Fault"
proof -
  let ?k = "packets w p" and ?b = "d ! 14"
  have len: "length d = 1024" "plength ?k \<le> 1010" using assms(1,2) by (auto simp: packet_ok_def d_def)
  obtain target where a: "read_be32 d 30 = Inr target" using be32.rd_in [of 30 d] len by auto
  have b: "get_byte d 14 = Inr ?b" "get_byte d 23 = Inr 1" using len assms(10) by (simp_all add: mem)
  let ?w = "set_packet p (ip_payload sender target n ?b) w"
  have t: "our_ip w = 0 \<or> target = our_ip w \<or> target = 0xFFFFFFFF" using assms(15) a by auto
  have h0: "0 \<le> h" by (simp add: h_def)
  have "handle_ip X p w = handle_icmp X p ?w"
    using handle_ip_eq [where w = w and p = p and b = ?b and n = n and fragment = fragment and sender = sender and target = target
        and protocol = 1 and X = X] assms(1-3,6,9,11-14,16) a b t by (simp add: Let_def flip: d_def h_def)
  moreover have k: "index (packets ?w p) = 14 + h" "8 \<le> plength (packets ?w p)" "data (packets ?w p) = d"
    "plength (packets ?w p) \<le> plength ?k - h" "senders_ip (packets ?w p) = sender"
    using assms(2,9,12) by (simp_all add: ip_payload_def ip_parsed_def d_def h_def)
  moreover have ok: "packet_ok (packets ?w p)" using k h0 len assms(1,2) by (simp add: packet_ok_def d_def)
  note pa = ping_answered_frame [OF ok k(2)]
  have "ip_send X p sender IP_PROTOCOL_ICMP (set_packet p ping_answered ?w) = Inl Fault"
  proof (cases "h = 4")
    case True
    then show ?thesis using pa(3) k(1) by (intro ip_send_out_of_room) simp
  next
    case False
    then have "next_hop X sender w \<noteq> None" using assms(17) by simp
    moreover have "next_hop X sender (set_packet p ping_answered ?w) = next_hop X sender w" by simp
    ultimately show ?thesis using pa(2,3) k(1) assms(7) by (intro ip_send_no_room_for_mac) simp_all
  qed
  ultimately show ?thesis using assms(8) by (simp add: handle_icmp_cases [OF ok])
qed

definition short_header_state :: "u8 list \<Rightarrow> (ref_env, list_head \<Rightarrow> nat list) dhcp_state" where
  "short_header_state header = set_packet 42 (\<lambda>k. k\<lparr>index := 14, plength := 64, data := upd 14 header (data k)\<rparr>) (sample_state 1)"

theorem short_header_ping_faults_witness:
  "handle_ip ref_libs 42 (short_header_state [0x41, 0, 0, 64, 8, 0, 0, 0, 64, 1, 0, 0, 10, 0, 0, 2, 10, 0, 0, 1]) = Inl Fault \<and>
   handle_ip ref_libs 42 (short_header_state [0x42, 0, 0, 64, 0, 0, 0, 0, 8, 1, 0, 0, 10, 0, 0, 2, 10, 0, 0, 1]) = Inl Fault"
proof
  let ?h = "[0x41, 0, 0, 64, 8, 0, 0, 0, 64, 1, 0, 0, 10, 0, 0, 2, 10, 0, 0, 1] :: u8 list"
  have d: "data (packets (short_header_state ?h) 42) = replicate 14 0 @ ?h @ replicate 990 0"
    by (simp add: short_header_state_def sample_packet_def upd_def)
  have f: "packet_ok (packets (short_header_state ?h) 42)" "index (packets (short_header_state ?h) 42) = 14"
    "plength (packets (short_header_state ?h) 42) = 64" "our_ip (short_header_state ?h) = 0x0A000001"
    by (simp_all add: short_header_state_def packet_ok_def sample_packet_def sample_state_def)
  show "handle_ip ref_libs 42 (short_header_state ?h) = Inl Fault"
    by (rule short_header_ping_faults [where n = 64 and fragment = 0 and sender = "0x0A000002"])
      (simp_all add: f, simp_all add: d nth_append mem)
next
  let ?h = "[0x42, 0, 0, 64, 0, 0, 0, 0, 8, 1, 0, 0, 10, 0, 0, 2, 10, 0, 0, 1] :: u8 list"
  have d: "data (packets (short_header_state ?h) 42) = replicate 14 0 @ ?h @ replicate 990 0"
    by (simp add: short_header_state_def sample_packet_def upd_def)
  have f: "packet_ok (packets (short_header_state ?h) 42)" "index (packets (short_header_state ?h) 42) = 14"
    "plength (packets (short_header_state ?h) 42) = 64" "our_ip (short_header_state ?h) = 0x0A000001"
    by (simp_all add: short_header_state_def packet_ok_def sample_packet_def sample_state_def)
  have n: "next_hop ref_libs 0x0A000002 (short_header_state ?h) = Some [2, 0, 0, 0, 0, 2]"
    by (simp add: short_header_state_def next_hop_def should_broadcast_def get_our_netmask_def find_arp_entry_def sample_state_def
        sample_entry_def used_list_def)
  show "handle_ip ref_libs 42 (short_header_state ?h) = Inl Fault"
    by (rule short_header_ping_faults [where n = 64 and fragment = 0 and sender = "0x0A000002"])
      (simp_all add: f n, simp_all add: d nth_append mem)
qed

section \<open>Addresses as text\<close>

text \<open>
  Property C37: \<open>string_to_ip\<close> reads back every address that \<open>ip_to_string\<close> writes.  The text has at
  most 15 characters, none of them zero, and a buffer of 16 bytes is enough for it.
\<close>

theorem ip_text_roundtrip:
  assumes "16 \<le> length string"
  shows "bindR (ip_to_string ip string) string_to_ip = Inr ip \<and>
    (\<exists>t. ip_to_string ip string = Inr (t @ [0] @ drop (length t + 1) string) \<and> length t \<le> 15 \<and> 0 \<notin> set t)"
proof -
  have "0 \<notin> set (octet_text b)" for b
    using octet_shape(1) [of b] dot_no_digit(2) by (auto simp: list_all_iff)
  then have "0 \<notin> set (ip_text ip)" by (simp add: ip_text_def)
  moreover have "upd 0 (ip_text ip @ [0]) string = ip_text ip @ [0] @ drop (length (ip_text ip) + 1) string"
    by (simp add: upd_def)
  ultimately show ?thesis
    using ip_to_string_text [OF assms, of ip] string_to_ip_text [OF assms, of ip] length_ip_text [of ip] by auto
qed

theorem ip_text_roundtrip_witness:
  "bindR (ip_to_string 0xC0A80A01 (replicate 16 0x58)) string_to_ip = Inr 0xC0A80A01"
  using ip_text_roundtrip [of "replicate 16 0x58" "0xC0A80A01"] by simp

end
