(* ===== verification/Udp_Properties.thy ===== *)
theory Udp_Properties
  imports Samples Wire
begin

text \<open>
  The properties of UDP (\<open>udp.c\<close>): connections as bounded queues of datagrams, which delivery and
  reception refine, opening a connection, and the datagrams that are sent, each with a witness.
\<close>

section \<open>Connections as bounded queues\<close>

text \<open>
  The abstract view of a connection: its waiting datagrams in order of arrival, each with the port it
  came from and its payload.  A queue that is full loses its oldest datagram.
\<close>

definition inbox :: "('e, 'h) libs \<Rightarrow> ('e, 'h, 'z) net_state_scheme \<Rightarrow> nat \<Rightarrow> (u16 \<times> u8 list) list" where
  "inbox X w c = map (\<lambda>p. (source_port (packets w p), frame_of (packets w p))) (datagrams X w c)"

definition fifo_put :: "int \<Rightarrow> 'a list \<Rightarrow> 'a \<Rightarrow> 'a list" where
  "fifo_put m q x = (if int (length q) < m then q @ [x] else tl (q @ [x]))"

lemma inbox_frame:
  "datagrams X w' c = datagrams X w c \<Longrightarrow> \<forall>p\<in>set (datagrams X w c). packets w' p = packets w p \<Longrightarrow> inbox X w' c = inbox X w c"
  by (simp add: inbox_def)

lemma inbox_others:
  assumes "untouched X {Connection_queue c} w w'" and "c' < UDP_CONNECTION_COUNT" and "c' \<noteq> c"
  shows "inbox X w' c' = inbox X w c'"
  using assms untouched_queue [OF assms(1), of "Connection_queue c'"] untouched_packet [OF assms(1), of "Connection_queue c'"]
  by (intro inbox_frame) (simp_all add: datagrams_def)

lemma inbox_local [simp]:
  "inbox X (w\<lparr>env := v\<rparr>) c = inbox X w c" "find_connection X prt (w\<lparr>env := v\<rparr>) = find_connection X prt w"
  "inbox X (set_dhcp f u) c = inbox X u c" "find_connection X prt (set_dhcp f u) = find_connection X prt u"
  by (simp_all add: inbox_def find_connection_def datagrams_def set_dhcp_def)

text \<open>Sending changes no queue.\<close>

context intrusive_list
begin

lemma arp_frame_inbox:
  assumes "arp_frame X w w'" and "udp_inv X ok H w" and "find_connection X prt w = Some c"
  shows "find_connection X prt w' = Some c \<and> inbox X w' c = inbox X w c"
proof -
  have "connections w' = connections w" "connection_lists w' = connection_lists w"
    using assms(1) udp_fields_of_more [of w' w] by (auto simp: arp_frame_def)
  then have f: "find_connection X prt w' = find_connection X prt w" by (simp add: find_connection_def)
  have "c < UDP_CONNECTION_COUNT"
    using find_connection_Some [OF assms(3)] assms(2) connections_inv_member(1) by (auto simp: udp_inv_def)
  then have k: "Connection_queue c \<in> packet_heads" "Connection_queue c \<notin> arp_heads" by auto
  have u: "untouched X arp_heads w w'" using assms(1) by (simp add: arp_frame_def)
  have "inbox X w' c = inbox X w c"
    using untouched_queue [OF u k(1) _ k(2)] untouched_packet [OF u k(1) _ k(2)]
    by (intro inbox_frame) (simp_all add: datagrams_def)
  then show ?thesis using f assms(3) by simp
qed

end

text \<open>Reading a datagram in its buffer.\<close>

context be_field
begin

lemma rd_ahead:
  assumes "ahead d off (enc v @ cs)" and "0 < width"
  shows "rd d off = Inr v"
proof -
  have o: "0 \<le> off" "drop (nat off) d = enc v @ cs" using assms by (simp_all add: ahead_def)
  have "length (drop (nat off) d) = width + length cs" using o(2) enc_width [of v] by simp
  moreover have "chunk (nat off) width d = enc v" using o(2) enc_width [of v] by (simp add: chunk_def)
  ultimately show ?thesis using o(1) assms(2) by (subst rd_enc) auto
qed

end

lemma frame_ahead:
  assumes "packet_ok k"
  shows "ahead (data k) (index k) (frame_of k @ drop (nat (index k + plength k)) (data k))"
proof -
  have n: "nat (index k + plength k) = nat (plength k) + nat (index k)" and o: "0 \<le> index k"
    using assms by (simp_all add: packet_ok_def nat_add_distrib)
  show ?thesis
    unfolding ahead_def frame_of_def chunk_def n drop_drop [symmetric] append_take_drop_id using o by simp
qed

lemma handle_udp_put:
  assumes "intrusive_list X ok" and "udp_inv X ok (add_mset p H) w" and "packet_ok (packets w p)"
    and "index (packets w p) \<le> 74" and "index (packets w p) + plength (packets w p) < 1024" and "8 < plength (packets w p)"
    and "chunk 0 4 (frame_of (packets w p)) = be16_bytes source @ be16_bytes dest"
  shows "returns (handle_udp X p w) (\<lambda>w'. udp_inv X ok H w' \<and>
    (\<forall>c<UDP_CONNECTION_COUNT. inbox X w' c =
      (if find_connection X dest w = Some c
       then fifo_put (max_packet_count (connections w c)) (inbox X w c) (source, drop 8 (frame_of (packets w p)))
       else inbox X w c)))"
proof -
  let ?k = "packets w p"
  have f: "frame_of ?k = chunk (nat (index ?k)) (nat (plength ?k)) (data ?k)" by (simp add: frame_of_def)
  have r: "0 \<le> index ?k" "index ?k + 4 \<le> int (length (data ?k))" "4 \<le> nat (plength ?k)"
    using assms(3,6) by (auto simp: packet_ok_def)
  have c4: "chunk (nat (index ?k)) 4 (data ?k) = be16_bytes source @ be16_bytes dest"
    using assms(7) chunk_chunk [of 0 4 "nat (plength ?k)" "nat (index ?k)" "data ?k"] r(3) by (simp add: f)
  have "chunk 0 2 (be16_bytes source @ be16_bytes dest) = be16_bytes source" "chunk 2 2 (be16_bytes source @ be16_bytes dest) = be16_bytes dest"
    by (simp_all add: chunk_def be16_bytes_def)
  then have "chunk (nat (index ?k)) 2 (data ?k) = be16_bytes source" "chunk (nat (index ?k) + 2) 2 (data ?k) = be16_bytes dest"
    using chunk_chunk [of 0 2 4 "nat (index ?k)" "data ?k"] chunk_chunk [of 2 2 4 "nat (index ?k)" "data ?k"]
    by (simp_all add: c4)
  then have rd: "read_be16 (data ?k) (index ?k + 2) = Inr dest" "read_be16 (data ?k) (index ?k) = Inr source"
    using r by (simp_all add: be16.rd_enc nat_add_distrib)
  have pay: "frame_of (udp_payload source ?k) = drop 8 (frame_of ?k)" "source_port (udp_payload source ?k) = source"
    using r(1) assms(6) by (simp_all add: udp_payload_def frame_of_def chunk_def nat_add_distrib nat_diff_distrib drop_take add.commute)
  have pool: "pool X ok (add_mset p (H + rings w)) (packet_lists w)"
    using assms(2) by (simp add: udp_inv_def arp_inv_def gmac_inv_def)
  have fresh: "p \<notin> set (datagrams X w c)" if "c < UDP_CONNECTION_COUNT" for c
    using pool_fresh [OF pool] that by (simp add: datagrams_def)
  show ?thesis
  proof (rule returns_mono [OF intrusive_list.handle_udp_delivers [OF assms(1-6) rd]], elim conjE, intro conjI allI impI)
    fix w' c
    assume pk: "packets w' = (packets w)(p := udp_payload source ?k)" and c: "c < UDP_CONNECTION_COUNT"
      and cs: "case find_connection X dest w of None \<Rightarrow> untouched X {} w w'
        | Some c \<Rightarrow> untouched X {Connection_queue c} w w' \<and> datagrams X w' c = (let q = datagrams X w c @ [p] in
            if int (length q) > max_packet_count (connections w c) then tl q else q)"
    show "inbox X w' c = (if find_connection X dest w = Some c
       then fifo_put (max_packet_count (connections w c)) (inbox X w c) (source, drop 8 (frame_of ?k)) else inbox X w c)"
    proof (cases "find_connection X dest w = Some c")
      case True
      have q: "datagrams X w' c = (let q = datagrams X w c @ [p] in
          if int (length q) > max_packet_count (connections w c) then tl q else q)" using cs True by simp
      let ?g = "\<lambda>p. (source_port (packets w' p), frame_of (packets w' p))"
      have m: "map ?g (datagrams X w c @ [p]) = inbox X w c @ [(source, drop 8 (frame_of ?k))]"
        using fresh [OF c] by (auto simp: inbox_def pk pay)
      have "inbox X w' c = (if int (length (datagrams X w c)) < max_packet_count (connections w c)
          then map ?g (datagrams X w c @ [p]) else tl (map ?g (datagrams X w c @ [p])))"
        by (simp add: inbox_def [of X w'] q Let_def map_tl)
      then show ?thesis
        using True unfolding m by (simp add: fifo_put_def inbox_def)
    next
      case False
      have "untouched X {Connection_queue (the (find_connection X dest w))} w w'"
        using cs by (cases "find_connection X dest w") (auto intro: untouched_mono)
      moreover have "untouched X {} w w'" if "find_connection X dest w = None" using cs that by simp
      ultimately have "inbox X w' c = inbox X w c"
        using False c inbox_others [of X "the (find_connection X dest w)" w w' c]
        by (cases "find_connection X dest w")
          (auto intro!: inbox_frame simp: datagrams_def dest: untouched_queue untouched_packet)
      then show ?thesis using False by simp
    qed
  qed
qed

text \<open>
  Property C10: delivering a UDP packet refines putting a datagram into a bounded queue.  The datagram
  is the packet without its eight header bytes, marked with the source port of the header; it goes to
  the connection that listens on the destination port, and if that one is full its oldest datagram is
  dropped.  No other connection changes, and without a listener the packet is only released.
\<close>

theorem handle_udp_refines_put:
  assumes "intrusive_list X ok" and "udp_inv X ok (add_mset p H) w" and "packet_ok (packets w p)"
    and "index (packets w p) \<le> 74" and "index (packets w p) + plength (packets w p) < 1024" and "8 < plength (packets w p)"
    and "chunk 0 4 (frame_of (packets w p)) = be16_bytes source @ be16_bytes dest"
  shows "returns (handle_udp X p w) (\<lambda>w'. udp_inv X ok H w' \<and>
    (\<forall>c<UDP_CONNECTION_COUNT. inbox X w' c =
      (if find_connection X dest w = Some c
       then fifo_put (max_packet_count (connections w c)) (inbox X w c) (source, drop 8 (frame_of (packets w p)))
       else inbox X w c)))"
  using assms by (rule handle_udp_put)

text \<open>A UDP packet for port 1000 from port 53 with four bytes of payload, in packet 42.\<close>

definition udp_bytes :: "u8 list" where
  "udp_bytes = [0, 53, 3, 0xE8, 0, 12, 0, 0, 1, 2, 3, 4]"

definition arrived :: "(ref_env, list_head \<Rightarrow> nat list) dhcp_state" where
  "arrived = set_packet 42 (\<lambda>k. put_message udp_bytes (k\<lparr>index := 34\<rparr>)) (sample_state 1)"

lemma arrived_ok:
  "udp_inv ref_libs ref_ok (add_mset 42 {#}) arrived" "packet_ok (packets arrived 42)" "index (packets arrived 42) = 34"
  "plength (packets arrived 42) = 12" "frame_of (packets arrived 42) = udp_bytes"
  "find_connection ref_libs 1000 arrived = Some 1" "max_packet_count (connections arrived 1) = 2"
  "inbox ref_libs arrived 1 = [(1000, replicate 100 0)]"
proof -
  let ?k = "sample_packet\<lparr>index := 34\<rparr>"
  have k: "length (data ?k) = 1024" "0 \<le> index ?k" "index ?k + int (length udp_bytes) \<le> 1024"
    by (simp_all add: sample_packet_def udp_bytes_def)
  note f = put_message_frame [OF k]
  have p: "packets arrived 42 = put_message udp_bytes ?k" by (simp add: arrived_def)
  have i: "udp_inv ref_libs ref_ok (add_mset 42 {#}) (sample_state 1)" using sample_udp [of 1] by simp
  show "udp_inv ref_libs ref_ok (add_mset 42 {#}) arrived"
    unfolding arrived_def by (rule ref.udp_inv_set_packet(1) [OF i]) (use f(2) k in \<open>simp add: packet_ok_def\<close>)
  show "packet_ok (packets arrived 42)" "index (packets arrived 42) = 34" "frame_of (packets arrived 42) = udp_bytes"
    using f by (simp_all add: p)
  show "plength (packets arrived 42) = 12" by (simp add: p put_message_def udp_bytes_def)
  have d: "connections arrived = sample_connection" "datagrams ref_libs arrived 1 = [41]" "packets arrived 41 = sample_packet"
    "connection_lists arrived Used_connections = [0, 1]"
    by (simp_all add: arrived_def datagrams_def) (simp_all add: sample_state_def sample_lists_def set_packet_def del: upt_rec_numeral)
  show "find_connection ref_libs 1000 arrived = Some 1" "max_packet_count (connections arrived 1) = 2"
    by (simp_all add: find_connection_def d [unfolded One_nat_def] sample_connection_def)
  show "inbox ref_libs arrived 1 = [(1000, replicate 100 0)]"
    unfolding inbox_def d by (simp add: d frame_of_def sample_packet_def chunk_def)
qed

theorem handle_udp_refines_put_witness:
  "returns (handle_udp ref_libs 42 arrived) (\<lambda>w'. inbox ref_libs w' 1 = [(1000, replicate 100 0), (53, [1, 2, 3, 4])])"
proof -
  have "chunk 0 4 (frame_of (packets arrived 42)) = be16_bytes 53 @ be16_bytes 1000"
    by (simp add: arrived_ok(5) udp_bytes_def chunk_def be16_bytes_def)
  note p = handle_udp_refines_put [OF ref_contract arrived_ok(1,2) _ _ _ this]
  have "fifo_put 2 [(1000, replicate 100 0)] (53, drop 8 udp_bytes) = [(1000, replicate 100 0), (53 :: u16, [1, 2, 3, 4])]"
    by (simp add: fifo_put_def udp_bytes_def)
  then show ?thesis
    using p by (auto simp: arrived_ok [unfolded One_nat_def] elim!: returns_mono)
qed

text \<open>
  Property C11: \<open>udp_receive\<close> refines taking from the queue.  With a datagram waiting on the port it
  returns the oldest one: at most \<open>size\<close> bytes of its payload at the start of the caller's buffer,
  their number, nothing written behind them, and the datagram removed.  Without a connection or a
  datagram it returns 0 and changes nothing; it never faults when the buffer is as long as \<open>size\<close>.
\<close>

theorem udp_receive_refines_take:
  assumes "intrusive_list X ok" and "udp_inv X ok H w" and "0 \<le> n" and "n \<le> int (length buffer)"
  shows "returns (udp_receive X buffer n prt w) (\<lambda>(m, buffer', w'). udp_inv X ok H w' \<and>
    (case find_connection X prt w of
       None \<Rightarrow> m = 0 \<and> buffer' = buffer \<and> w' = w
     | Some c \<Rightarrow> (case inbox X w c of
          [] \<Rightarrow> m = 0 \<and> buffer' = buffer \<and> w' = w
        | (_, payload) # rest \<Rightarrow> inbox X w' c = rest \<and> m = int (length (take (nat n) payload)) \<and>
            buffer' = take (nat n) payload @ drop (nat m) buffer)))"
proof -
  obtain m buffer' w' where u: "udp_receive X buffer n prt w = Inr (m, buffer', w')" and inv: "udp_inv X ok H w'"
    and pk: "packets w' = packets w"
    and r: "case find_connection X prt w of
       None \<Rightarrow> m = 0 \<and> buffer' = buffer \<and> w' = w
     | Some c \<Rightarrow> (case datagrams X w c of
          [] \<Rightarrow> m = 0 \<and> buffer' = buffer \<and> w' = w
        | p # q \<Rightarrow> datagrams X w' c = q \<and> m = min n (plength (packets w p)) \<and>
            buffer' = upd 0 (take (nat n) (frame_of (packets w p))) buffer)"
    using intrusive_list.udp_receive_returns [OF assms, of prt] unfolding returns_iff by blast
  have "case find_connection X prt w of
       None \<Rightarrow> m = 0 \<and> buffer' = buffer \<and> w' = w
     | Some c \<Rightarrow> (case inbox X w c of
          [] \<Rightarrow> m = 0 \<and> buffer' = buffer \<and> w' = w
        | (_, payload) # rest \<Rightarrow> inbox X w' c = rest \<and> m = int (length (take (nat n) payload)) \<and>
            buffer' = take (nat n) payload @ drop (nat m) buffer)"
  proof (cases "find_connection X prt w")
    case None
    then show ?thesis using r by simp
  next
    case (Some c)
    show ?thesis
    proof (cases "datagrams X w c")
      case Nil
      then show ?thesis using r Some by (simp add: inbox_def)
    next
      case (Cons p q)
      have "c < UDP_CONNECTION_COUNT"
        using find_connection_Some [OF Some] assms(2) connections_inv_member(1) [of X ok w c] by (auto simp: udp_inv_def)
      then have "deliverable (packets w p)" using assms(2) Cons by (auto simp: udp_inv_def connections_inv_def)
      then have k: "packet_ok (packets w p)" by (simp add: deliverable_def)
      have l: "length (frame_of (packets w p)) = nat (plength (packets w p))" "0 \<le> plength (packets w p)"
        using length_frame_of [OF k] k by (simp_all add: packet_ok_def)
      have m: "m = int (length (take (nat n) (frame_of (packets w p))))"
        using r Some Cons l assms(3) by simp
      have "datagrams X w' c = q" "buffer' = upd 0 (take (nat n) (frame_of (packets w p))) buffer"
        using r Some Cons by simp_all
      then show ?thesis
        using Some Cons by (simp add: inbox_def pk upd_def m)
    qed
  qed
  with u inv show ?thesis by simp
qed

theorem udp_receive_refines_take_witness:
  "returns (udp_receive ref_libs [9, 9, 9, 9] 3 1000 arrived) (\<lambda>(m, buffer, w'). m = 3 \<and> buffer = [0, 0, 0, 9] \<and>
     inbox ref_libs w' 1 = [])"
proof -
  have "(0::int) \<le> 3" "(3::int) \<le> int (length [9, 9, 9, 9 :: u8])" by simp_all
  from udp_receive_refines_take [OF ref_contract arrived_ok(1) this, of 1000] show ?thesis
    by (auto simp: arrived_ok [unfolded One_nat_def] numeral_3_eq_3 elim!: returns_mono)
qed

text \<open>
  Property C36: \<open>udp_listen\<close> opens the first free connection: it is empty, bounded by the given count,
  and from then on the one that receives on the port, before any older connection on it.  When all
  sixteen are open it dereferences a null pointer.
\<close>

theorem udp_listen_opens:
  assumes "intrusive_list X ok" and "udp_inv X ok H w"
  shows "case free_connections X w of
      [] \<Rightarrow> udp_listen X prt m w = Inl Fault
    | c # cs \<Rightarrow> returns (udp_listen X prt m w) (\<lambda>w'. udp_inv X ok H w' \<and> free_connections X w' = cs \<and>
        find_connection X prt w' = Some c \<and> inbox X w' c = [] \<and> max_packet_count (connections w' c) = m \<and>
        packet_lists w' = packet_lists w)"
proof (cases "free_connections X w")
  case Nil
  then show ?thesis using intrusive_list.udp_listen_cases(1) [OF assms Nil] by simp
next
  case (Cons c cs)
  then have "datagrams X w c = []" using assms(2) by (simp add: udp_inv_def connections_inv_def)
  then have "inbox X w' c = []" if "packet_lists w' = packet_lists w" for w'
    using that by (simp add: inbox_def datagrams_def)
  then show ?thesis
    using intrusive_list.udp_listen_cases(2) [OF assms, of prt m] Cons by (auto elim!: returns_mono)
qed

theorem udp_listen_opens_witness:
  "returns (udp_listen ref_libs 1000 5 arrived) (\<lambda>w'. find_connection ref_libs 1000 w' = Some 2 \<and> inbox ref_libs w' 2 = [])"
proof -
  have "free_connections ref_libs arrived = 2 # [3..<16]"
    by (simp add: arrived_def free_connections_def set_packet_def sample_state_def)
  then show ?thesis
    using udp_listen_opens [OF ref_contract arrived_ok(1), of 1000 5] by (auto elim!: returns_mono)
qed

section \<open>Sending\<close>

text \<open>
  Property C19: \<open>udp_send\<close> to a reachable host puts one frame on the wire: Ethernet, IP and UDP headers
  and then the caller's bytes, of which it silently keeps only the first 880.  It returns without
  leaking a packet unless the link or the pool makes it wait.
\<close>

theorem udp_send_frame:
  assumes "intrusive_list X ok" and "arp_inv X ok H w" and "0 \<le> n" and "n \<le> int (length payload)"
    and "next_hop X ip w = Some m"
  shows "safe (udp_send X payload n source dest ip w) (\<lambda>w'. arp_inv X ok H w' \<and>
    transmits w w' (udp_frame_bytes m (our_mac w) source dest (our_ip w) ip (take (min (nat n) 880) payload)))"
proof -
  have "ip_room X ip w"
    using assms(5) by (auto simp: ip_room_def arp_room_def next_hop_def split: if_splits option.splits)
  from intrusive_list.udp_send_safe [OF assms(1-4) this] show ?thesis
    by (rule safe_mono) (use udp_send_wire [OF assms] in blast)
qed

theorem udp_send_frame_witness:
  "safe (udp_send ref_libs [1, 2, 3, 4] 4 53 1000 0x0A0000FF (sample_state 0)) (\<lambda>w'.
     length (tx_frame w' 0) = 46 \<and> drop 42 (tx_frame w' 0) = [1, 2, 3, 4])"
proof -
  have s: "our_netmask (sample_state 0) = 0xFFFFFF00" "our_mac (sample_state 0) = [2, 0, 0, 0, 0, 1]"
    "tx_index (sample_state 0) = 0" "tx_owner (tx_descriptors (sample_state 0) ! 0) = OWNER_CPU"
    by (simp_all add: sample_state_def del: upt_rec_numeral)
  have h: "next_hop ref_libs 0x0A0000FF (sample_state 0) = Some BROADCAST_MAC"
    by (simp add: next_hop_def should_broadcast_def get_our_netmask_def s)
  show ?thesis
    using udp_send_frame [OF ref_contract sample_arp [of 0] _ _ h, of 4 "[1, 2, 3, 4]" 53 1000]
    by (auto simp: s transmits_def udp_frame_bytes_def ether_frame_def ip_datagram_def udp_datagram_def length_mac_header
        elim!: safe_mono)
qed

text \<open>
  Property C35: the header that \<open>udp_send_zero_copy\<close> writes carries both ports and the length in network
  order, and a receiver that computes the checksum over the pseudo header and the whole datagram gets
  zero; neither the payload nor any other byte changes.
\<close>

theorem udp_header_verifies:
  assumes "0 \<le> off" and "8 \<le> n" and "n < 65536" and "off + n \<le> int (length d)"
  shows "returns (write_udp_header source dest sender ip n off d) (\<lambda>d'.
    compute_udp_checksum d' off n sender ip = Inr 0 \<and> read_be16 d' off = Inr source \<and> read_be16 d' (off + 2) = Inr dest \<and>
    read_be16 d' (off + 4) = Inr (word_of_int n) \<and> take (nat off) d' = take (nat off) d \<and>
    drop (nat off + 8) d' = drop (nat off + 8) d)"
proof -
  define payload where "payload = chunk (nat off + 8) (nat n - 8) d"
  let ?h = "udp_header source dest sender ip payload"
  let ?d = "upd (nat off) ?h d"
  have len: "nat off + nat n \<le> length d" "8 \<le> nat n" using assms by linarith+
  have lp: "8 + int (length payload) = n" using len assms(2) by (simp add: payload_def)
  have c: "chunk (nat off) 8 ?d = ?h" by (rule chunk_upd_same) (use len in simp_all)
  have "chunk (nat off + 8) (nat n - 8) ?d = payload"
    unfolding payload_def by (rule chunk_upd_after) (use len in simp_all)
  then have all: "chunk (nat off) (nat n) ?d = ?h @ payload"
    using chunk_append_chunk [of "nat off" 8 ?d "nat n - 8"] len(2) by (simp add: c)
  let ?p = "udp_pseudo_header sender ip n"
  let ?s = "word_sum (?p @ udp_header_with 0 source dest n @ payload)"
  have sum: "word_sum (?p @ udp_header_with k source dest n @ payload) = ?s + unat k" for k
    by (simp add: word_sum_append word_sum_udp_header [of k])
  let ?bs = "?p @ udp_header_with 0 source dest n @ payload"
  have "length ?bs + 1 \<le> 65549" using lp assms(3) by simp
  then have "65535 * (length ?bs + 1) \<le> 65535 * 65549" by (rule mult_le_mono2)
  with word_sum_bound_pairs [of ?bs] have "2 * ?s \<le> 65535 * 65549" by (rule order_trans)
  then have "internet_checksum (?s + unat (internet_checksum ?s)) = 0"
    by (intro internet_checksum_verifies) simp
  moreover have "?h = udp_header_with (internet_checksum ?s) source dest n"
    by (simp add: udp_header_def lp udp_checksum_def Let_def)
  ultimately have "internet_checksum (word_sum (?p @ ?h @ payload)) = 0"
    by (simp only: sum [of "internet_checksum ?s"])
  moreover have "compute_udp_checksum ?d off n sender ip = Inr (internet_checksum (word_sum (?p @ ?h @ payload)))"
    using assms len by (subst compute_udp_checksum_ok) (simp_all add: all)
  moreover have sub: "chunk (nat (off + int i)) 2 ?d = chunk i 2 ?h" if "i + 2 \<le> 8" for i
    using chunk_chunk [OF that, of "nat off" ?d] assms(1) by (simp add: c nat_add_distrib)
  have "chunk 0 2 ?h = be16_bytes source" "chunk 2 2 ?h = be16_bytes dest" "chunk 4 2 ?h = be16_bytes (word_of_int n)"
    by (simp_all add: udp_header_def lp udp_header_with_def chunk_def be16_bytes_def)
  then have "read_be16 ?d off = Inr source" "read_be16 ?d (off + 2) = Inr dest" "read_be16 ?d (off + 4) = Inr (word_of_int n)"
    using sub [of 0] sub [of 2] sub [of 4] assms len by (simp_all add: be16.rd_enc)
  moreover have "take (nat off) ?d = take (nat off) d" "drop (nat off + 8) ?d = drop (nat off + 8) d"
    using len by (simp_all add: upd_def)
  moreover have "write_udp_header source dest sender ip n off d = Inr ?d"
    unfolding payload_def using assms by (rule write_udp_header_ok)
  ultimately show ?thesis by simp
qed

theorem udp_header_verifies_witness:
  "returns (write_udp_header 53 1000 0x0A000001 0x0A000002 13 2 (replicate 20 7)) (\<lambda>d'.
     compute_udp_checksum d' 2 13 0x0A000001 0x0A000002 = Inr 0)"
  using udp_header_verifies [of 2 13 "replicate 20 7" 53 1000 "0x0A000001" "0x0A000002"] by (auto elim: returns_mono)

end
