(* ===== verification/Dhcp_Properties.thy ===== *)
theory Dhcp_Properties
  imports Udp_Properties Tftp
begin

text \<open>
  The DHCP client: the options it parses, the messages it sends, and the steps of its state machine
  on offers, acknowledgements and refusals, together with the retransmission timer.
\<close>

section \<open>Options\<close>

text \<open>The options a reply carries, as values, and how a server writes them.\<close>

datatype dhcp_option = Netmask u32 | Lease_time u32 | Server_identifier u32 | Message_type u8 | Other u8 "u8 list"

fun option_bytes :: "dhcp_option \<Rightarrow> u8 list" where
  "option_bytes (Netmask ip) = [DHCP_OPTION_SUBNET_MASK, 4] @ be32_bytes ip"
| "option_bytes (Lease_time t) = [DHCP_OPTION_LEASE_TIME, 4] @ be32_bytes t"
| "option_bytes (Server_identifier ip) = [DHCP_OPTION_SERVER_IDENTIFIER, 4] @ be32_bytes ip"
| "option_bytes (Message_type t) = [DHCP_OPTION_MESSAGE_TYPE, 1, t]"
| "option_bytes (Other type bs) = [type, of_nat (length bs)] @ bs"

fun option_ok :: "dhcp_option \<Rightarrow> bool" where
  "option_ok (Other type bs) \<longleftrightarrow> length bs < 256 \<and> type \<notin> {0, DHCP_OPTION_SUBNET_MASK, DHCP_OPTION_LEASE_TIME,
     DHCP_OPTION_MESSAGE_TYPE, DHCP_OPTION_SERVER_IDENTIFIER, DHCP_OPTION_END}"
| "option_ok _ \<longleftrightarrow> True"

text \<open>What the client keeps of an option: the last value of each kind, and a bit that it was there.\<close>

fun keep_option :: "dhcp_option \<Rightarrow> dhcp_options \<Rightarrow> dhcp_options" where
  "keep_option (Netmask ip) opts = opts\<lparr>option_mask := option_mask opts OR OPTION_NETMASK, option_netmask := ip\<rparr>"
| "keep_option (Lease_time t) opts = opts\<lparr>option_mask := option_mask opts OR OPTION_LEASE_TIME, option_lease_time := t\<rparr>"
| "keep_option (Server_identifier ip) opts = opts\<lparr>option_mask := option_mask opts OR OPTION_SERVER_IP, option_server_ip := ip\<rparr>"
| "keep_option (Message_type t) opts = opts\<lparr>option_mask := option_mask opts OR OPTION_MESSAGE_TYPE, option_message_type := uint t\<rparr>"
| "keep_option (Other _ _) opts = opts"

text \<open>Options with the number of zero bytes that pad each, and the end mark.\<close>

definition options_bytes :: "(dhcp_option \<times> nat) list \<Rightarrow> u8 list" where
  "options_bytes xs = concat (map (\<lambda>(x, k). option_bytes x @ replicate k 0) xs) @ [DHCP_OPTION_END]"

definition keep_options :: "dhcp_option list \<Rightarrow> dhcp_options \<Rightarrow> dhcp_options" where
  "keep_options xs opts = fold keep_option xs opts"

lemma options_bytes_simps:
  "options_bytes [] = [DHCP_OPTION_END]"
  "options_bytes ((x, k) # xs) = option_bytes x @ replicate k 0 @ options_bytes xs"
  by (simp_all add: options_bytes_def)

lemma skip_padding_zeros:
  assumes "ahead d off (replicate k 0 @ c # cs)" and "c \<noteq> 0" and "int k < n"
  shows "skip_padding d off n = Inr (off + int k, n - int k)"
  using assms(1,3)
proof (induction k arbitrary: off n)
  case 0
  then show ?case using assms(2) by (subst skip_padding.simps) simp
next
  case (Suc k)
  then have "ahead d (off + 1) (replicate k 0 @ c # cs)" using ahead_next by fastforce
  from Suc.IH [OF this, of "n - 1"] Suc.prems show ?case by (subst skip_padding.simps) (simp add: algebra_simps)
qed

text \<open>An option on the wire: type, length, and a value that \<open>read_option\<close> understands.\<close>

lemma option_parts:
  assumes "option_ok x"
  shows "\<exists>type bs. option_bytes x = type # of_nat (length bs) # bs \<and> type \<noteq> 0 \<and> type \<noteq> DHCP_OPTION_END \<and> length bs < 256 \<and>
    (\<forall>d off cs opts. ahead d off (bs @ cs) \<longrightarrow> read_option d type (int (length bs)) off opts = Inr (True, keep_option x opts))"
proof (cases x)
  case (Netmask ip)
  then show ?thesis
    by (intro exI [of _ DHCP_OPTION_SUBNET_MASK] exI [of _ "be32_bytes ip"]) (auto simp: read_option_def be32.rd_ahead)
next
  case (Lease_time t)
  then show ?thesis
    by (intro exI [of _ DHCP_OPTION_LEASE_TIME] exI [of _ "be32_bytes t"]) (auto simp: read_option_def be32.rd_ahead)
next
  case (Server_identifier ip)
  then show ?thesis
    by (intro exI [of _ DHCP_OPTION_SERVER_IDENTIFIER] exI [of _ "be32_bytes ip"]) (auto simp: read_option_def be32.rd_ahead)
next
  case (Message_type t)
  then show ?thesis
    by (intro exI [of _ DHCP_OPTION_MESSAGE_TYPE] exI [of _ "[t]"]) (auto simp: read_option_def)
next
  case (Other type bs)
  then show ?thesis using assms by (intro exI [of _ type] exI [of _ bs]) (auto simp: read_option_def)
qed

lemma options_bytes_head:
  assumes "\<forall>(x, k)\<in>set xs. option_ok x"
  shows "\<exists>c cs. options_bytes xs = c # cs \<and> c \<noteq> 0"
proof (cases xs)
  case (Cons y ys)
  obtain x k where y: "y = (x, k)" by fastforce
  then obtain type bs where "option_bytes x = type # of_nat (length bs) # bs" "type \<noteq> 0"
    using assms Cons option_parts [of x] by auto
  then show ?thesis using Cons y by (simp add: options_bytes_simps)
qed (simp add: options_bytes_simps)

lemma read_options_bytes:
  assumes "\<forall>(x, k)\<in>set xs. option_ok x" and "ahead d off (options_bytes xs @ rest)" and "int (length (options_bytes xs)) \<le> n"
  shows "read_options d off n opts = Inr (True, keep_options (map fst xs) opts)"
  using assms
proof (induction xs arbitrary: off n opts)
  case Nil
  then show ?case by (subst read_options.simps) (simp add: options_bytes_simps keep_options_def)
next
  case (Cons y xs)
  obtain x k where y: "y = (x, k)" by fastforce
  obtain type bs where p: "option_bytes x = type # of_nat (length bs) # bs" "type \<noteq> DHCP_OPTION_END" "length bs < 256"
    "\<And>d off cs opts. ahead d off (bs @ cs) \<Longrightarrow> read_option d type (int (length bs)) off opts = Inr (True, keep_option x opts)"
    using option_parts [of x] Cons.prems(1) y by fastforce
  have xs: "\<forall>(x, k)\<in>set xs. option_ok x" using Cons.prems(1) by simp
  obtain c cs where c: "options_bytes xs = c # cs" "c \<noteq> 0" using options_bytes_head [OF xs] by blast
  have a0: "ahead d off (type # of_nat (length bs) # bs @ replicate k 0 @ options_bytes xs @ rest)"
    using Cons.prems(2) by (simp add: y options_bytes_simps p(1))
  note a1 = ahead_next [OF a0]
  note a2 = ahead_next [OF a1]
  have a3: "ahead d (off + 2 + int (length bs)) (replicate k 0 @ c # cs @ rest)"
    using ahead_skip [OF a2] c(1) by (simp add: algebra_simps)
  from ahead_skip [OF a3] have a4: "ahead d (off + 2 + int (length bs) + int k) (options_bytes xs @ rest)" using c(1) by simp
  have u: "uint (of_nat (length bs) :: u8) = int (length bs)" using p(3) by (simp add: unsigned_of_nat take_bit_nat_eq_self)
  have n: "2 + int (length bs) + int k + int (length (options_bytes xs)) \<le> n"
    using Cons.prems(3) by (simp add: y options_bytes_simps p(1))
  have s: "skip_padding d (off + 2 + int (length bs)) (n - 2 - int (length bs)) =
      Inr (off + 2 + int (length bs) + int k, n - 2 - int (length bs) - int k)"
    using n c(1) by (intro skip_padding_zeros [OF a3 c(2)]) simp
  have ih: "read_options d (off + 2 + int (length bs) + int k) (n - 2 - int (length bs) - int k) (keep_option x opts) =
      Inr (True, keep_options (map fst xs) (keep_option x opts))"
    using n by (intro Cons.IH [OF xs a4]) simp
  have "off + 1 + 1 = off + 2" by simp
  with p(4) [OF a2] have r: "read_option d type (int (length bs)) (off + 2) opts = Inr (True, keep_option x opts)" by simp
  show ?case
    using ahead_get [OF a0] ahead_get [OF a1] p(2) n c(1) r s ih u
    by (subst read_options.simps) (simp add: y keep_options_def Let_def)
qed

text \<open>
  Property C16: the option parser of \<open>dhcp_read\<close> reads back what a server encodes.  For every list of
  options, known and unknown, each padded with any number of zeros and closed by the end mark within
  the packet, it succeeds and has kept exactly the values of the options it knows.
\<close>

theorem dhcp_options_roundtrip:
  assumes "\<forall>(x, k)\<in>set xs. option_ok x" and "0 \<le> off" and "drop (nat off) d = options_bytes xs @ rest"
    and "int (length (options_bytes xs)) \<le> n"
  shows "read_options d off n opts = Inr (True, keep_options (map fst xs) opts)"
  using assms by (intro read_options_bytes) (simp_all add: ahead_def)

theorem dhcp_options_roundtrip_witness:
  "read_options (7 # options_bytes [(Message_type 2, 1), (Other 12 [65, 66], 0)]) 1 10
       \<lparr>option_mask = 0, option_your_ip = 5, option_server_ip = 0, option_netmask = 0, option_message_type = 0, option_lease_time = 0\<rparr> =
     Inr (True, \<lparr>option_mask = OPTION_MESSAGE_TYPE, option_your_ip = 5, option_server_ip = 0, option_netmask = 0,
       option_message_type = 2, option_lease_time = 0\<rparr>)"
  using dhcp_options_roundtrip [of "[(Message_type 2, 1), (Other 12 [65, 66], 0)]" 1
      "7 # options_bytes [(Message_type 2, 1), (Other 12 [65, 66], 0)]" "[]" 10
      "\<lparr>option_mask = 0, option_your_ip = 5, option_server_ip = 0, option_netmask = 0, option_message_type = 0, option_lease_time = 0\<rparr>"]
  by (simp add: options_bytes_def keep_options_def)

section \<open>Replies\<close>

text \<open>A reply of a server: its fixed fields, arbitrary bytes in those the client ignores, the options.\<close>

definition dhcp_reply_head :: "u32 \<Rightarrow> u32 \<Rightarrow> mac \<Rightarrow> u8 \<Rightarrow> u8 list \<Rightarrow> u8 list \<Rightarrow> u8 list \<Rightarrow> u8 list" where
  "dhcp_reply_head xid your_ip mac b bs1 bs2 bs3 =
     [2, 1, 6, b] @ be32_bytes xid @ bs1 @ be32_bytes your_ip @ bs2 @ mac @ bs3 @ be32_bytes MAGIC_COOKIE"

definition dhcp_reply :: "u32 \<Rightarrow> u32 \<Rightarrow> mac \<Rightarrow> (dhcp_option \<times> nat) list \<Rightarrow> u8 list \<Rightarrow> bool" where
  "dhcp_reply xid your_ip mac xs bs \<longleftrightarrow> (\<forall>(x, k)\<in>set xs. option_ok x) \<and> (\<exists>b bs1 bs2 bs3 rest.
     length bs1 = 8 \<and> length bs2 = 8 \<and> length bs3 = 202 \<and>
     bs = dhcp_reply_head xid your_ip mac b bs1 bs2 bs3 @ options_bytes xs @ rest)"

lemma verify_reply:
  assumes "ahead d off (dhcp_reply_head xid your_ip mac b bs1 bs2 bs3 @ cs)" and "length mac = 6"
    and "length bs1 = 8" and "length bs2 = 8" and "length bs3 = 202"
  shows "verify_dhcp_header xid mac off d = Inr True" and "read_be32 d (off + 16) = Inr your_ip" and "ahead d (off + 240) cs"
proof -
  let ?id = "be32_bytes xid" and ?ip = "be32_bytes your_ip" and ?mc = "be32_bytes MAGIC_COOKIE"
  have a: "ahead d off ([2, 1, 6, b] @ ?id @ bs1 @ ?ip @ bs2 @ mac @ bs3 @ ?mc @ cs)"
    using assms(1) by (simp add: dhcp_reply_head_def)
  have b: "ahead d off (2 # 1 # 6 # b # ?id @ bs1 @ ?ip @ bs2 @ mac @ bs3 @ ?mc @ cs)"
    using a by simp
  note b1 = ahead_next [OF b]
  have b2: "ahead d (off + 2) (6 # b # ?id @ bs1 @ ?ip @ bs2 @ mac @ bs3 @ ?mc @ cs)"
    using ahead_next [OF b1] by (simp add: add.commute)
  have a4: "ahead d (off + 4) (?id @ bs1 @ ?ip @ bs2 @ mac @ bs3 @ ?mc @ cs)"
    using ahead_skip [OF a] by simp
  have a16: "ahead d (off + 16) (?ip @ bs2 @ mac @ bs3 @ ?mc @ cs)"
    using ahead_skip [of d off "[2, 1, 6, b] @ ?id @ bs1"] a assms by simp
  have a28: "ahead d (off + 28) (mac @ bs3 @ ?mc @ cs)"
    using ahead_skip [of d off "[2, 1, 6, b] @ ?id @ bs1 @ ?ip @ bs2"] a assms by simp
  have a236: "ahead d (off + 236) (?mc @ cs)"
    using ahead_skip [of d off "[2, 1, 6, b] @ ?id @ bs1 @ ?ip @ bs2 @ mac @ bs3"] a assms by simp
  show "ahead d (off + 240) cs" using ahead_skip [OF a236] by (simp add: add.commute)
  show ip: "read_be32 d (off + 16) = Inr your_ip" using be32.rd_ahead [OF a16] by simp
  have "0 \<le> off" using a by (simp add: ahead_def)
  moreover have dr: "drop (nat (off + 28)) d = mac @ bs3 @ ?mc @ cs" using a28 by (simp add: ahead_def)
  moreover have "6 \<le> length d - nat (off + 28)" using arg_cong [OF dr, of length] assms(2) by simp
  ultimately have le: "off + 28 + 6 \<le> int (length d)" by arith
  have "memory_compare d (off + 28) mac 0 6 = Inr True"
    using assms(2) dr le \<open>0 \<le> off\<close>
    by (subst memory_compare_ok) (auto simp: chunk_def)
  then show "verify_dhcp_header xid mac off d = Inr True"
    using ahead_get [OF b] ahead_get [OF b1] ahead_get [OF b2] be32.rd_ahead [OF a4] be32.rd_ahead [OF a236]
    by (simp add: verify_dhcp_header_def)
qed

context intrusive_list
begin

lemma dhcp_read_reply:
  fixes w :: "('e, 'h, 'z) dhcp_state_scheme"
  assumes "udp_inv X ok H w" and "find_connection X DHCP_CLIENT_PORT w = Some c" and "inbox X w c = (s, m) # rest"
    and "dhcp_reply (transaction_id (dhcp w)) your_ip (our_mac w) xs m"
  shows "returns (dhcp_read X w) (\<lambda>(r, w'). r \<and> udp_inv X ok H w' \<and> same_config w w' \<and> dhcp w' = dhcp w \<and>
    options w' = keep_options (map fst xs) ((options w)\<lparr>option_your_ip := your_ip, option_mask := 0\<rparr>))"
  unfolding dhcp_read_def returns_bindR
proof (rule returns_mono [OF udp_receive_zero_copy_returns [OF assms(1)]], clarify)
  fix r w1
  assume rc: "udp_receive_zero_copy X DHCP_CLIENT_PORT w = Inr (r, w1)"
    and post: "case r of None \<Rightarrow> w1 = w
     | Some p \<Rightarrow> udp_inv X ok (add_mset p H) w1 \<and> deliverable (packets w1 p) \<and> packets w1 = packets w \<and> udp_frame w w1 \<and>
         (\<exists>c. find_connection X DHCP_CLIENT_PORT w = Some c \<and> datagrams X w c = p # datagrams X w1 c \<and>
            untouched X {Connection_queue c} w w1)"
  have count: "queue_count (connections w c) = int (length (datagrams X w c))"
    using assms(1) find_connection_Some [OF assms(2)] by (auto simp: udp_inv_def connections_inv_def connection_ok_def)
  obtain p where p: "r = Some p"
    using rc assms(2,3) count by (cases r) (auto simp: udp_receive_zero_copy_def inbox_def split: if_splits option.splits prod.splits)
  show "returns (case r of None \<Rightarrow> Inr (False, w1)
      | Some p \<Rightarrow>
         let d = data (packets w1 p); off = index (packets w1 p) in
         bindR (verify_dhcp_header (transaction_id (dhcp w1)) (get_our_mac w1) off d) (\<lambda>valid.
         if \<not> valid then Inr (False, free_network_packet X p w1)
         else
           let n = plength (packets w1 p) - DHCP_HEADER_SIZE in
           bindR (read_be32 d (off + 16)) (\<lambda>your_ip.
           bindR (read_options d (off + DHCP_HEADER_SIZE) n ((options w1)\<lparr>option_your_ip := your_ip, option_mask := 0\<rparr>)) (\<lambda>(ok, opts).
           Inr (ok, free_network_packet X p (w1\<lparr>options := opts\<rparr>))))))
     (\<lambda>(r, w'). r \<and> udp_inv X ok H w' \<and> same_config w w' \<and> dhcp w' = dhcp w \<and>
        options w' = keep_options (map fst xs) ((options w)\<lparr>option_your_ip := your_ip, option_mask := 0\<rparr>))"
  proof -
    from post p assms(2,3) have inv: "udp_inv X ok (add_mset p H) w1" and dl: "deliverable (packets w1 p)"
      and fr: "udp_frame w w1" and m: "frame_of (packets w1 p) = m"
      by (auto simp: inbox_def)
    let ?d = "data (packets w1 p)" and ?off = "index (packets w1 p)"
    have same: "same_config w w1" "dhcp w1 = dhcp w" "options w1 = options w" using fr dhcp_of_more by (auto simp: udp_frame_def)
    have mac: "length (our_mac w1) = 6" using inv by (auto simp: udp_inv_def arp_inv_def intro: our_mac_length)
    have our: "our_mac w1 = our_mac w" using same by (simp add: same_config_def)
    have k: "packet_ok (packets w1 p)" using dl by (simp add: deliverable_def)
    obtain b bs1 bs2 bs3 tl where xs: "\<forall>(x, k)\<in>set xs. option_ok x" and len: "length bs1 = 8" "length bs2 = 8" "length bs3 = 202"
      and head: "m = dhcp_reply_head (transaction_id (dhcp w)) your_ip (our_mac w1) b bs1 bs2 bs3 @ options_bytes xs @ tl"
      using assms(4) our unfolding dhcp_reply_def by auto
    have "ahead ?d ?off (dhcp_reply_head (transaction_id (dhcp w)) your_ip (our_mac w1) b bs1 bs2 bs3 @
        options_bytes xs @ tl @ drop (nat (?off + plength (packets w1 p))) ?d)"
      using frame_ahead [OF k] by (simp add: m head)
    note v = verify_reply [OF this mac len]
    have "length m = nat (plength (packets w1 p))" using k by (auto simp: packet_ok_def frame_of_def simp flip: m)
    moreover have "length m = 240 + length (options_bytes xs @ tl)" using len mac by (simp add: head dhcp_reply_head_def)
    ultimately have n: "int (length (options_bytes xs)) \<le> plength (packets w1 p) - 240" by simp
    have inv2: "udp_inv X ok (add_mset p H) (w1\<lparr>options := opts\<rparr>)" for opts using inv by simp
    have d: "dhcp (free_network_packet X p u) = dhcp u" "options (free_network_packet X p u) = options u" for u :: "('e, 'h, 'z) dhcp_state_scheme"
      by (simp_all add: free_network_packet_def)
    show ?thesis
      using p v same udp_inv_free [OF inv2] read_options_bytes [OF xs v(3) n]
      by (auto simp: Let_def get_our_mac_def d same_config_def udp_frame_def free_network_packet_def)
  qed
qed

text \<open>Sending again changes no queue.\<close>

lemma resend_inbox:
  assumes "udp_inv X ok H w" and "find_connection X prt w = Some c" and "resend X t w = Inr w'"
  shows "find_connection X prt w' = Some c \<and> inbox X w' c = inbox X w c"
proof -
  obtain expired w1 where b: "backoff_timeout X (dhcp_backoff (dhcp w)) w = (expired, w1)" by fastforce
  have e: "w1 = w\<lparr>env := env w1\<rparr>" by (rule backoff_timeout_env [OF b])
  have w1: "udp_inv X ok H w1" "find_connection X prt w1 = Some c" "inbox X w1 c = inbox X w c"
    by (subst e, simp add: assms)+
  show ?thesis
  proof (cases expired)
    case False
    then show ?thesis using assms(3) b w1 by (simp add: resend_def)
  next
    case True
    then obtain w2 bk w3 where s: "dhcp_send_packet X t w1 = Inr w2" "next_backoff X (dhcp_backoff (dhcp w2)) w2 = Inr (bk, w3)"
      "w' = set_dhcp (\<lambda>k. k\<lparr>dhcp_backoff := bk\<rparr>) w3"
      using assms(3) b by (auto simp: resend_def bindR_eq_Inr_iff simp del: dhcp_send_packet_eq)
    have a: "arp_inv X ok H w1" using w1(1) by (simp add: udp_inv_def)
    from safeD [OF dhcp_send_packet_safe [OF a] s(1)] have "arp_frame X w1 w2" by simp
    note w2 = arp_frame_inbox [OF this w1(1,2)]
    have e3: "w3 = w2\<lparr>env := env w3\<rparr>" by (rule next_backoff_env [OF s(2)])
    show ?thesis unfolding s(3) by (subst (1 2) e3) (use w2 w1(3) in simp)
  qed
qed

text \<open>A step sends if its timer says so, and then reads the reply that waits for it.\<close>

lemma resend_then_read:
  assumes "dhcp_inv X ok H w" and "dhcp_status (dhcp w) \<noteq> DHCP_DISABLED" and "find_connection X DHCP_CLIENT_PORT w = Some c"
    and "inbox X w c = (s, m) # rest" and "dhcp_reply (transaction_id (dhcp w)) your_ip (our_mac w) xs m"
  shows "safe (bindR (resend X t w) (dhcp_read X)) (\<lambda>(r, w'). r \<and> udp_inv X ok H w' \<and> same_config w w' \<and>
    (\<exists>b. backoff_ok X b \<and> dhcp w' = (dhcp w)\<lparr>dhcp_backoff := b\<rparr>) \<and>
    (\<exists>old. options w' = keep_options (map fst xs) (old\<lparr>option_your_ip := your_ip, option_mask := 0\<rparr>)))"
proof -
  have i: "udp_inv X ok H w" "backoff_ok X (dhcp_backoff (dhcp w))" using assms(1,2) by (simp_all add: dhcp_inv_def)
  have f: "replies_fit X w" by (rule udp_inv_replies_fit [OF i(1)])
  have read: "returns (dhcp_read X w1) (\<lambda>(r, w'). r \<and> udp_inv X ok H w' \<and> same_config w w' \<and>
      (\<exists>b. backoff_ok X b \<and> dhcp w' = (dhcp w)\<lparr>dhcp_backoff := b\<rparr>) \<and>
      (\<exists>old. options w' = keep_options (map fst xs) (old\<lparr>option_your_ip := your_ip, option_mask := 0\<rparr>)))"
    if r: "resend X t w = Inr w1" and p: "udp_inv X ok H w1" "same_config w w1" "backoff_ok X (dhcp_backoff (dhcp w1))"
      "dhcp w1 = (dhcp w)\<lparr>dhcp_backoff := dhcp_backoff (dhcp w1)\<rparr>" for w1
  proof -
    note q = resend_inbox [OF i(1) assms(3) r]
    have "transaction_id (dhcp w1) = transaction_id (dhcp w)" by (subst p(4)) simp
    moreover have "our_mac w1 = our_mac w" using p(2) by (simp add: same_config_def)
    ultimately have "dhcp_reply (transaction_id (dhcp w1)) your_ip (our_mac w1) xs m" using assms(5) by simp
    from dhcp_read_reply [OF p(1) conjunct1 [OF q] _ this, of s rest] q assms(4)
    have "returns (dhcp_read X w1) (\<lambda>(r, w'). r \<and> udp_inv X ok H w' \<and> same_config w1 w' \<and> dhcp w' = dhcp w1 \<and>
      options w' = keep_options (map fst xs) ((options w1)\<lparr>option_your_ip := your_ip, option_mask := 0\<rparr>))" by simp
    then show ?thesis
      by (rule returns_mono) (use p(3,4) in \<open>auto intro: same_config_trans [OF p(2)]\<close>)
  qed
  show ?thesis unfolding safe_bindR
    by (rule safe_mono [OF resend_safe [OF i f]]) (use read in \<open>auto intro: returns_safe\<close>)
qed

end

section \<open>What a reply carries\<close>

text \<open>The value of the last option of a kind.\<close>

definition last_value :: "(dhcp_option \<Rightarrow> 'v option) \<Rightarrow> dhcp_option list \<Rightarrow> 'v option" where
  "last_value pick xs = fold (\<lambda>x v. case pick x of None \<Rightarrow> v | Some y \<Rightarrow> Some y) xs None"

definition netmask_of :: "dhcp_option \<Rightarrow> u32 option" where
  "netmask_of x = (case x of Netmask ip \<Rightarrow> Some ip | _ \<Rightarrow> None)"

definition lease_of :: "dhcp_option \<Rightarrow> u32 option" where
  "lease_of x = (case x of Lease_time t \<Rightarrow> Some t | _ \<Rightarrow> None)"

definition server_of :: "dhcp_option \<Rightarrow> u32 option" where
  "server_of x = (case x of Server_identifier ip \<Rightarrow> Some ip | _ \<Rightarrow> None)"

definition message_of :: "dhcp_option \<Rightarrow> u8 option" where
  "message_of x = (case x of Message_type t \<Rightarrow> Some t | _ \<Rightarrow> None)"

text \<open>A complete reply: its type, server, lease time and netmask.\<close>

definition carries :: "(dhcp_option \<times> nat) list \<Rightarrow> u8 \<Rightarrow> u32 \<Rightarrow> u32 \<Rightarrow> u32 \<Rightarrow> bool" where
  "carries xs t server lease subnet \<longleftrightarrow> last_value message_of (map fst xs) = Some t \<and> last_value server_of (map fst xs) = Some server \<and>
     last_value lease_of (map fst xs) = Some lease \<and> last_value netmask_of (map fst xs) = Some subnet"

lemma last_value_snoc: "last_value pick (xs @ [x]) = (case pick x of None \<Rightarrow> last_value pick xs | Some y \<Rightarrow> Some y)"
  unfolding last_value_def by simp

lemma last_value_Nil [simp]: "last_value pick [] = None"
  by (simp add: last_value_def)

lemma keep_options_snoc: "keep_options (xs @ [x]) opts = keep_option x (keep_options xs opts)"
  by (simp add: keep_options_def)

lemma keep_options_Nil [simp]: "keep_options [] opts = opts"
  by (simp add: keep_options_def)

lemmas keep_options_step = last_value_snoc keep_options_snoc

lemma kept_netmask: "last_value netmask_of xs = Some m \<Longrightarrow> option_netmask (keep_options xs opts) = m"
proof (induction xs rule: rev_induct)
  case (snoc x xs)
  then show ?case by (cases x) (simp_all add: keep_options_step netmask_of_def)
qed simp

lemma kept_lease: "last_value lease_of xs = Some t \<Longrightarrow> option_lease_time (keep_options xs opts) = t"
proof (induction xs rule: rev_induct)
  case (snoc x xs)
  then show ?case by (cases x) (simp_all add: keep_options_step lease_of_def)
qed simp

lemma kept_server: "last_value server_of xs = Some m \<Longrightarrow> option_server_ip (keep_options xs opts) = m"
proof (induction xs rule: rev_induct)
  case (snoc x xs)
  then show ?case by (cases x) (simp_all add: keep_options_step server_of_def)
qed simp

lemma kept_message: "last_value message_of xs = Some b \<Longrightarrow> option_message_type (keep_options xs opts) = uint b"
proof (induction xs rule: rev_induct)
  case (snoc x xs)
  then show ?case by (cases x) (simp_all add: keep_options_step message_of_def)
qed simp

lemma kept_your_ip: "option_your_ip (keep_options xs opts) = option_your_ip opts"
proof (induction xs rule: rev_induct)
  case (snoc x xs)
  then show ?case by (cases x) (simp_all add: keep_options_step)
qed simp

lemma kept_mask:
  "last_value lease_of xs \<noteq> None \<Longrightarrow> bit (option_mask (keep_options xs opts)) 4"
  "last_value server_of xs \<noteq> None \<Longrightarrow> bit (option_mask (keep_options xs opts)) 0"
  "last_value message_of xs \<noteq> None \<Longrightarrow> bit (option_mask (keep_options xs opts)) 3"
proof -
  show "last_value lease_of xs \<noteq> None \<Longrightarrow> bit (option_mask (keep_options xs opts)) 4"
  proof (induction xs rule: rev_induct)
    case (snoc x xs)
    then show ?case by (cases x) (auto simp: keep_options_step lease_of_def bit_or_iff)
  qed simp
  show "last_value server_of xs \<noteq> None \<Longrightarrow> bit (option_mask (keep_options xs opts)) 0"
  proof (induction xs rule: rev_induct)
    case (snoc x xs)
    then show ?case by (cases x) (auto simp: keep_options_step server_of_def bit_or_iff)
  qed simp
  show "last_value message_of xs \<noteq> None \<Longrightarrow> bit (option_mask (keep_options xs opts)) 3"
  proof (induction xs rule: rev_induct)
    case (snoc x xs)
    then show ?case by (cases x) (auto simp: keep_options_step message_of_def bit_or_iff)
  qed simp
qed

lemma has_options_bits:
  assumes "bit (option_mask opts) 4" and "bit (option_mask opts) 0" and "bit (option_mask opts) 3"
  shows "has_options (OPTION_LEASE_TIME OR OPTION_SERVER_IP OR OPTION_MESSAGE_TYPE) opts"
proof -
  have b: "(OPTION_LEASE_TIME OR OPTION_SERVER_IP OR OPTION_MESSAGE_TYPE :: u32) = push_bit 4 1 OR push_bit 0 1 OR push_bit 3 1"
    by simp
  have n: "n = 4 \<or> n = 0 \<or> n = 3" if "bit (OPTION_LEASE_TIME OR OPTION_SERVER_IP OR OPTION_MESSAGE_TYPE :: u32) n" for n
    using that unfolding b by (simp only: bit_or_iff bit_push_bit_iff bit_1_iff) linarith
  show ?thesis unfolding has_options_def
    by (rule bit_word_eqI) (use assms n in \<open>auto simp only: bit_and_iff\<close>)
qed

lemma carries_options:
  assumes "carries xs t server lease subnet"
  shows "has_options (OPTION_LEASE_TIME OR OPTION_SERVER_IP OR OPTION_MESSAGE_TYPE)
      (keep_options (map fst xs) (old\<lparr>option_your_ip := ip, option_mask := 0\<rparr>))"
    and "option_netmask (keep_options (map fst xs) (old\<lparr>option_your_ip := ip, option_mask := 0\<rparr>)) = subnet"
    and "option_lease_time (keep_options (map fst xs) (old\<lparr>option_your_ip := ip, option_mask := 0\<rparr>)) = lease"
    and "option_server_ip (keep_options (map fst xs) (old\<lparr>option_your_ip := ip, option_mask := 0\<rparr>)) = server"
    and "option_message_type (keep_options (map fst xs) (old\<lparr>option_your_ip := ip, option_mask := 0\<rparr>)) = uint t"
    and "option_your_ip (keep_options (map fst xs) (old\<lparr>option_your_ip := ip, option_mask := 0\<rparr>)) = ip"
  using assms by (auto simp only: carries_def intro!: has_options_bits kept_mask)
    (simp_all add: carries_def kept_netmask kept_lease kept_server kept_message kept_your_ip)

section \<open>Steps of the client\<close>

lemma backoff_count_reset [simp]: "backoff_count (backoff_reset b) = 0"
  by (simp add: backoff_reset_def)

text \<open>
  A state for the witnesses: the sample state with the message \<open>m\<close> waiting on port 68 in packet 42.
\<close>

definition waiting :: "u8 list \<Rightarrow> (ref_env, list_head \<Rightarrow> nat list) dhcp_state" where
  "waiting m = set_connection 0 (\<lambda>k. k\<lparr>queue_count := 1\<rparr>)
     (set_packet 42 (\<lambda>k. k\<lparr>data := upd 82 m (data k), index := 82, plength := int (length m), source_port := 67\<rparr>)
       ((sample_state 1)\<lparr>packet_lists := (sample_lists 1)(Connection_queue 0 := [42])\<rparr>))"

lemma waiting_fields:
  "packet_lists (waiting m) = (sample_lists 1)(Connection_queue 0 := [42])"
  "packets (waiting m) = (packets (sample_state 1))(42 := sample_packet\<lparr>data := upd 82 m (replicate 1024 0), index := 82,
     plength := int (length m), source_port := 67\<rparr>)"
  "connections (waiting m) = sample_connection(0 := \<lparr>port = 68, queue_count = 1, max_packet_count = 1\<rparr>)"
  "connection_lists (waiting m) = connection_lists (sample_state 1)"
  "dhcp (waiting m) = dhcp (sample_state 1)" "our_mac (waiting m) = [2, 0, 0, 0, 0, 1]"
  by (simp_all add: waiting_def set_connection_def set_packet_def sample_state_def sample_connection_def sample_packet_def
      del: upt_rec_numeral)

lemma waiting_pool: "pool ref_libs ref_ok (mset [0..<8] + mset [8..<40]) ((sample_lists 1)(Connection_queue 0 := [42]))"
proof -
  let ?l = "(sample_lists 1)(Connection_queue 0 := [42])"
  have "listed ref_libs ?l = (\<Sum>l\<in>{Free_packets, Entry_queue 1, Connection_queue 1, Connection_queue 0}. mset (?l l))"
    unfolding listed_def ref_elements
    by (rule sum.mono_neutral_right) (auto simp: packet_heads_def sample_lists_def)
  then have l: "listed ref_libs ?l = mset [43..<96] + {#40#} + {#41#} + {#42#}"
    by (simp add: sample_lists_def del: upt_rec_numeral)
  have "mset [43..<96] + {#40#} + {#41#} + {#42#} + (mset [0..<8] + mset [8..<40]) = mset [0..<96]"
    by (rule multiset_eqI) (auto simp only: count_upt count_union count_single split: if_splits)
  then show ?thesis
    by (simp add: pool_def l [unfolded One_nat_def] all_packets_def ref_ok_def atLeast0LessThan del: upt_rec_numeral)
qed

lemma waiting_ok:
  assumes "0 < length m" and "length m \<le> 900"
  shows "udp_inv ref_libs ref_ok {#} (waiting m)"
proof -
  have p: "packet_ok (packets (waiting m) p)" for p
    using assms by (auto simp: waiting_fields packet_ok_def sample_packet_def)
  have g: "gmac_inv ref_libs ref_ok {#} (waiting m)"
    using waiting_pool p assms by (auto simp: gmac_inv_def rings_def buffers_ok_def rings_ok_def waiting_def set_connection_def
        set_packet_def sample_state_def sample_packet_def simp del: upt_rec_numeral)
  have u: "untouched ref_libs {Connection_queue 0} (sample_state 1) (waiting m)"
    by (auto simp: untouched_def waiting_fields sample_lists_def sample_state_def)
  have e: "entries_inv ref_libs ref_ok (waiting m)"
    by (rule entries_inv_other_queues [OF sample_entries _ _ u]) (auto simp: waiting_def set_connection_def set_packet_def)
  have c: "connections_inv ref_libs ref_ok (waiting m)"
    unfolding connections_inv_def
  proof (intro conjI)
    show "mset (free_connections ref_libs (waiting m)) + mset (used_connections ref_libs (waiting m)) = mset_set {..<16}"
      unfolding lessThan_mset by (simp add: free_connections_def used_connections_def waiting_fields sample_state_def upt_conv_Cons eval_nat_numeral)
    show "\<forall>c<16. \<forall>p\<in>set (datagrams ref_libs (waiting m) c). deliverable (packets (waiting m) p)"
      using p assms by (auto simp: datagrams_def waiting_fields deliverable_def sample_lists_def sample_packet_def)
  qed (auto simp: free_connections_def used_connections_def datagrams_def connection_ok_def waiting_fields sample_state_def
      sample_connection_def sample_lists_def ref_ok_def)
  show ?thesis using g e c by (simp add: udp_inv_def arp_inv_def)
qed

lemma waiting_inbox:
  assumes "length m \<le> 900"
  shows "find_connection ref_libs DHCP_CLIENT_PORT (waiting m) = Some 0" "inbox ref_libs (waiting m) 0 = [(67, m)]"
  using assms by (simp_all add: find_connection_def inbox_def datagrams_def waiting_fields sample_state_def sample_connection_def
      frame_of_def chunk_upd_same del: upt_rec_numeral)

text \<open>A server's reply of type \<open>t\<close> with the address 10.0.0.50 for a minute.\<close>

definition reply_options :: "u8 \<Rightarrow> (dhcp_option \<times> nat) list" where
  "reply_options t = [(Message_type t, 0), (Server_identifier 0x0A0000FE, 0), (Lease_time 60, 1), (Netmask 0xFFFFFF00, 0)]"

definition reply_message :: "u8 \<Rightarrow> u8 list" where
  "reply_message t = dhcp_reply_head 0 0x0A000032 [2, 0, 0, 0, 0, 1] 0 (replicate 8 0) (replicate 8 0) (replicate 202 0) @
     options_bytes (reply_options t)"

lemma reply_message_ok:
  "dhcp_reply 0 0x0A000032 [2, 0, 0, 0, 0, 1] (reply_options t) (reply_message t)"
  "carries (reply_options t) t 0x0A0000FE 60 0xFFFFFF00" "length (reply_message t) = 263"
proof -
  show "dhcp_reply 0 0x0A000032 [2, 0, 0, 0, 0, 1] (reply_options t) (reply_message t)"
    unfolding dhcp_reply_def
    by (intro conjI exI [of _ 0] exI [of _ "replicate 8 0"] exI [of _ "replicate 202 0"] exI [of _ "[]"])
      (simp_all add: reply_message_def reply_options_def)
  show "carries (reply_options t) t 0x0A0000FE 60 0xFFFFFF00"
    by (simp add: carries_def reply_options_def last_value_def message_of_def server_of_def lease_of_def netmask_of_def)
  show "length (reply_message t) = 263"
    by (simp add: reply_message_def dhcp_reply_head_def options_bytes_def reply_options_def)
qed

lemma sample_backoff_ok: "backoff_ok X sample_backoff"
  by (simp add: backoff_ok_def sample_backoff_def)

lemma waiting_reply:
  "dhcp_inv ref_libs ref_ok {#} (waiting (reply_message t))"
  "dhcp (waiting m) = \<lparr>dhcp_status = DHCP_DISCOVER, transaction_id = 0, dhcp_time = 0, lease_time = 0, leased_ip = 0,
     server_ip = 0, netmask = 0, dhcp_backoff = sample_backoff, aquisition_count = 0\<rparr>"
proof -
  show d: "dhcp (waiting m) = \<lparr>dhcp_status = DHCP_DISCOVER, transaction_id = 0, dhcp_time = 0, lease_time = 0, leased_ip = 0,
     server_ip = 0, netmask = 0, dhcp_backoff = sample_backoff, aquisition_count = 0\<rparr>" for m
    by (simp add: waiting_fields sample_state_def del: upt_rec_numeral)
  show "dhcp_inv ref_libs ref_ok {#} (waiting (reply_message t))"
    using waiting_ok [of "reply_message t"] by (simp add: dhcp_inv_def d sample_backoff_ok reply_message_ok(3) length_greater_0_conv [symmetric] del: length_greater_0_conv)
qed

text \<open>
  A discovering client with a complete offer waiting on its port, whatever else the
  server put into it, requests the offered address: it takes over the address, the server and the
  netmask, keeps our configuration, and restarts its timer.
\<close>

lemma dhcp_offer:
  assumes "intrusive_list X ok" and "dhcp_inv X ok H w" and "dhcp_status (dhcp w) = DHCP_DISCOVER"
    and "find_connection X DHCP_CLIENT_PORT w = Some c" and "inbox X w c = (s, m) # rest"
    and "dhcp_reply (transaction_id (dhcp w)) your_ip (our_mac w) xs m" and "carries xs 2 server lease subnet"
  shows "safe (dhcp_task X w) (\<lambda>w'. dhcp_inv X ok H w' \<and> same_config w w' \<and>
    (\<exists>b. backoff_count b = 0 \<and> dhcp w' = (dhcp w)\<lparr>dhcp_status := DHCP_REQUESTING, leased_ip := your_ip, server_ip := server,
       netmask := subnet, dhcp_backoff := b\<rparr>))"
proof -
  have "dhcp_status (dhcp w) \<noteq> DHCP_DISABLED" using assms(3) by simp
  note r = intrusive_list.resend_then_read [OF assms(1,2) this assms(4-6)]
  note c = carries_options(1) [OF assms(7), simplified] carries_options(2-6) [OF assms(7)]
  have eq: "k\<lparr>netmask := n, server_ip := i, leased_ip := l, dhcp_status := t, dhcp_backoff := b\<rparr> =
      k\<lparr>dhcp_status := t, leased_ip := l, server_ip := i, netmask := n, dhcp_backoff := b\<rparr>" for k n i l t b
    by (cases k) simp
  show ?thesis
    unfolding dhcp_task_def assms(3) dhcp_status.case safe_bindR [of "resend _ _ _"]
  proof (rule safe_mono [OF r [unfolded safe_bindR [of "resend _ _ _"]]])
    fix w1
    assume "safe (dhcp_read X w1) (\<lambda>(r, w'). r \<and> udp_inv X ok H w' \<and> same_config w w' \<and>
      (\<exists>b. backoff_ok X b \<and> dhcp w' = (dhcp w)\<lparr>dhcp_backoff := b\<rparr>) \<and>
      (\<exists>old. options w' = keep_options (map fst xs) (old\<lparr>option_your_ip := your_ip, option_mask := 0\<rparr>)))"
    then show "safe (bindR (try_read_offer X w1) (\<lambda>(offer, w). if offer then Inr (reset_backoff (enter DHCP_REQUESTING w)) else Inr w))
      (\<lambda>w'. dhcp_inv X ok H w' \<and> same_config w w' \<and>
        (\<exists>b. backoff_count b = 0 \<and> dhcp w' = (dhcp w)\<lparr>dhcp_status := DHCP_REQUESTING, leased_ip := your_ip, server_ip := server,
           netmask := subnet, dhcp_backoff := b\<rparr>))"
      unfolding try_read_offer_def bindR_assoc safe_bindR [of "dhcp_read _ _"]
      by (rule safe_mono)
        (auto simp: c eq Let_def reset_backoff_def enter_def dhcp_inv_def backoff_reset_ok
          intro!: exI [of _ "backoff_reset _"])
  qed
qed

text \<open>A requesting client with a complete answer waiting on its port.\<close>

lemma dhcp_answer:
  assumes "intrusive_list X ok" and "dhcp_inv X ok H w" and "dhcp_status (dhcp w) = DHCP_REQUESTING"
    and "find_connection X DHCP_CLIENT_PORT w = Some c" and "inbox X w c = (s, m) # rest"
    and "dhcp_reply (transaction_id (dhcp w)) your_ip (our_mac w) xs m" and "carries xs t server lease subnet"
    and "t = 5 \<longrightarrow> your_ip = leased_ip (dhcp w) \<and> server = server_ip (dhcp w) \<and> subnet = netmask (dhcp w)"
    and "t = 5 \<or> t = 6"
  shows "safe (dhcp_task X w) (\<lambda>w'. dhcp_inv X ok H w' \<and> our_mac w' = our_mac w \<and>
    (if t = 5
     then dhcp_status (dhcp w') = DHCP_BOUND \<and> our_ip w' = leased_ip (dhcp w) \<and> our_netmask w' = netmask (dhcp w) \<and>
       lease_time (dhcp w') = lease * 1000
     else dhcp_status (dhcp w') = DHCP_DISCOVER \<and> our_ip w' = our_ip w \<and> our_netmask w' = our_netmask w \<and>
       backoff_count (dhcp_backoff (dhcp w')) = 0 \<and> aquisition_count (dhcp w') = aquisition_count (dhcp w) + 1))"
proof -
  have "dhcp_status (dhcp w) \<noteq> DHCP_DISABLED" using assms(3) by simp
  note r = intrusive_list.resend_then_read [OF assms(1,2) this assms(4-6)]
  have o: "(OPTION_LEASE_TIME OR OPTION_MESSAGE_TYPE OR OPTION_SERVER_IP :: u32) = OPTION_LEASE_TIME OR OPTION_SERVER_IP OR OPTION_MESSAGE_TYPE"
    by simp
  note c = carries_options(1) [OF assms(7), simplified] carries_options(2-6) [OF assms(7)]
  show ?thesis
    unfolding dhcp_task_def assms(3) dhcp_status.case safe_bindR [of "resend _ _ _"]
  proof (rule safe_mono [OF r [unfolded safe_bindR [of "resend _ _ _"]]])
    fix w1
    assume "safe (dhcp_read X w1) (\<lambda>(r, w'). r \<and> udp_inv X ok H w' \<and> same_config w w' \<and>
      (\<exists>b. backoff_ok X b \<and> dhcp w' = (dhcp w)\<lparr>dhcp_backoff := b\<rparr>) \<and>
      (\<exists>old. options w' = keep_options (map fst xs) (old\<lparr>option_your_ip := your_ip, option_mask := 0\<rparr>)))"
    then have "safe (try_read_ack X w1) (\<lambda>(r, w'). udp_inv X ok H w' \<and> same_config w w' \<and> r = Some (t = 5) \<and>
      backoff_ok X (dhcp_backoff (dhcp w')) \<and> leased_ip (dhcp w') = leased_ip (dhcp w) \<and> netmask (dhcp w') = netmask (dhcp w) \<and>
      aquisition_count (dhcp w') = aquisition_count (dhcp w) \<and> (t = 5 \<longrightarrow> lease_time (dhcp w') = lease * 1000))"
      unfolding try_read_ack_def o safe_bindR [of "dhcp_read _ _"]
    proof (rule safe_mono, goal_cases)
      case (1 x)
      obtain w2 b old where x: "x = (True, w2)" "udp_inv X ok H w2" "same_config w w2" "backoff_ok X b"
        "dhcp w2 = (dhcp w)\<lparr>dhcp_backoff := b\<rparr>"
        "options w2 = keep_options (map fst xs) (old\<lparr>option_your_ip := your_ip, option_mask := 0\<rparr>)"
        using 1(2) by auto
      obtain u w3 where n: "now X w2 = (u, w3)" by fastforce
      note e = intrusive_list.now_env [OF assms(1) n]
      have w3: "udp_inv X ok H w3" "same_config w w3" "dhcp w3 = (dhcp w)\<lparr>dhcp_backoff := b\<rparr>" "options w3 = options w2"
        by (subst e, simp add: x)+
      consider "t = 5" | "t = 6" using assms(9) by blast
      then show ?case
        by cases (use assms(8) x w3 in \<open>simp_all add: c n Let_def\<close>)
    qed
    then show "safe (bindR (try_read_ack X w1) (\<lambda>(r, w).
          case r of
            None \<Rightarrow> Inr w
          | Some True \<Rightarrow>
              let w = enter DHCP_BOUND w in
              Inr (set_our_netmask (netmask (dhcp w)) (set_our_ip (leased_ip (dhcp w)) w))
          | Some False \<Rightarrow>
              Inr (reset_backoff (enter DHCP_DISCOVER
                (set_dhcp (\<lambda>k. k\<lparr>aquisition_count := aquisition_count k + 1\<rparr>) w)))))
      (\<lambda>w'. dhcp_inv X ok H w' \<and> our_mac w' = our_mac w \<and>
        (if t = 5
         then dhcp_status (dhcp w') = DHCP_BOUND \<and> our_ip w' = leased_ip (dhcp w) \<and> our_netmask w' = netmask (dhcp w) \<and>
           lease_time (dhcp w') = lease * 1000
         else dhcp_status (dhcp w') = DHCP_DISCOVER \<and> our_ip w' = our_ip w \<and> our_netmask w' = our_netmask w \<and>
           backoff_count (dhcp_backoff (dhcp w')) = 0 \<and> aquisition_count (dhcp w') = aquisition_count (dhcp w) + 1))"
      unfolding safe_bindR by (rule safe_mono) (cases "t = 5"; auto simp: dhcp_step_simps Let_def)
  qed
qed

text \<open>
  Property C15: a requesting client with a complete answer waiting on its port.  An acknowledgement that
  repeats the offered address, server and netmask binds the lease: our address and netmask are set and
  the lease runs for the given time, counted in milliseconds modulo \<open>2 ^ 32\<close>.  A refusal of any
  server starts a new discovery with a fresh timer and leaves our configuration alone.
\<close>

theorem dhcp_answer_taken:
  assumes "intrusive_list X ok" and "dhcp_inv X ok H w" and "dhcp_status (dhcp w) = DHCP_REQUESTING"
    and "find_connection X DHCP_CLIENT_PORT w = Some c" and "inbox X w c = (s, m) # rest"
    and "dhcp_reply (transaction_id (dhcp w)) your_ip (our_mac w) xs m" and "carries xs t server lease subnet"
    and "t = 5 \<longrightarrow> your_ip = leased_ip (dhcp w) \<and> server = server_ip (dhcp w) \<and> subnet = netmask (dhcp w)"
    and "t = 5 \<or> t = 6"
  shows "safe (dhcp_task X w) (\<lambda>w'. dhcp_inv X ok H w' \<and> our_mac w' = our_mac w \<and>
    (if t = 5
     then dhcp_status (dhcp w') = DHCP_BOUND \<and> our_ip w' = leased_ip (dhcp w) \<and> our_netmask w' = netmask (dhcp w) \<and>
       lease_time (dhcp w') = lease * 1000
     else dhcp_status (dhcp w') = DHCP_DISCOVER \<and> our_ip w' = our_ip w \<and> our_netmask w' = our_netmask w \<and>
       backoff_count (dhcp_backoff (dhcp w')) = 0 \<and> aquisition_count (dhcp w') = aquisition_count (dhcp w) + 1))"
  by (rule dhcp_answer [OF assms])

theorem dhcp_answer_taken_witness:
  "safe (dhcp_task ref_libs (set_dhcp (\<lambda>k. k\<lparr>dhcp_status := DHCP_REQUESTING, leased_ip := 0x0A000032, server_ip := 0x0A0000FE,
       netmask := 0xFFFFFF00\<rparr>) (waiting (reply_message 5)))) (\<lambda>w'. dhcp_status (dhcp w') = DHCP_BOUND \<and>
     our_ip w' = 0x0A000032 \<and> our_netmask w' = 0xFFFFFF00 \<and> lease_time (dhcp w') = 60000)"
proof -
  let ?w = "set_dhcp (\<lambda>k. k\<lparr>dhcp_status := DHCP_REQUESTING, leased_ip := 0x0A000032, server_ip := 0x0A0000FE,
       netmask := 0xFFFFFF00\<rparr>) (waiting (reply_message 5))"
  have l: "length (reply_message 5) \<le> 900" by (simp add: reply_message_ok)
  have i: "dhcp_inv ref_libs ref_ok {#} ?w" using waiting_reply(1) [of 5] by (simp add: dhcp_inv_def waiting_reply(2))
  have r: "dhcp_reply (transaction_id (dhcp ?w)) 0x0A000032 (our_mac ?w) (reply_options 5) (reply_message 5)"
    by (simp add: waiting_reply(2) waiting_fields(6) reply_message_ok(1))
  have b: "find_connection ref_libs DHCP_CLIENT_PORT ?w = Some 0" "inbox ref_libs ?w 0 = [(67, reply_message 5)]"
    using waiting_inbox [OF l] by simp_all
  have d: "dhcp_status (dhcp ?w) = DHCP_REQUESTING" "leased_ip (dhcp ?w) = 0x0A000032" "server_ip (dhcp ?w) = 0x0A0000FE"
    "netmask (dhcp ?w) = 0xFFFFFF00" by simp_all
  show ?thesis
    by (rule safe_mono [OF dhcp_answer_taken [OF ref_contract i d(1) b r reply_message_ok(2)]]) (simp_all add: d)
qed

section \<open>Messages\<close>

text \<open>
  Property C26: \<open>dhcp_send_packet\<close> broadcasts one frame from port 68 to port 67.  Its message is a BOOTP
  request of 240 header bytes with our hardware address, the transaction and the seconds since the
  start, and the options of its kind; the lease's address is the client address exactly when it is
  renewed or released.  The 202 bytes of padding and names are whatever the buffer held before.
\<close>

theorem dhcp_message_sent:
  assumes "intrusive_list X ok" and "arp_inv X ok H w"
  shows "safe (dhcp_send_packet X t w) (\<lambda>w'. arp_inv X ok H w' \<and> (\<exists>old. length old = 202 \<and>
    transmits w w' (udp_frame_bytes BROADCAST_MAC (our_mac w) 68 67 (our_ip w) 0xFFFFFFFF
      (dhcp_header (transaction_id (dhcp w))
         (if t = DHCP_PACKET_RELEASE then 0 else ucast (time_div X (get_elapsed X (dhcp_time (dhcp w)) (fst (now X w))) 1000))
         (if t = DHCP_PACKET_RENEW \<or> t = DHCP_PACKET_RELEASE then leased_ip (dhcp w) else 0) (our_mac w) old @
       dhcp_option_bytes t (leased_ip (dhcp w)) (server_ip (dhcp w))))))"
  by (rule safe_mono [OF intrusive_list.dhcp_send_packet_safe [OF assms]])
    (use dhcp_send_wire [OF assms] in \<open>auto simp: dhcp_message_def\<close>)

theorem dhcp_message_sent_witness:
  "safe (dhcp_send_packet ref_libs DHCP_PACKET_RENEW (sample_state 0)) (\<lambda>w'. length (tx_frame w' 0) = 286)"
proof -
  have s: "our_mac (sample_state 0) = [2, 0, 0, 0, 0, 1]" "tx_index (sample_state 0) = 0"
    "tx_owner (tx_descriptors (sample_state 0) ! 0) = OWNER_CPU"
    by (simp_all add: sample_state_def del: upt_rec_numeral)
  have l: "length (dhcp_header xid seconds client [2, 0, 0, 0, 0, 1] old) = 240" if "length old = 202" for xid seconds client old
    using that by simp
  show ?thesis
    by (rule safe_mono [OF dhcp_message_sent [OF ref_contract sample_arp [OF le0]]]) (auto simp: s transmits_def udp_frame_bytes_def ether_frame_def ip_datagram_def udp_datagram_def
        length_mac_header dhcp_option_bytes_def message_option_def l)
qed

section \<open>The retransmission timer\<close>

text \<open>
  Property C27: as long as the fields are in their bounds, as \<open>backoff_init\<close> sets them with the values of
  both clients, \<open>next_backoff\<close> returns, takes the time and doubles the timeout up to the maximum.  The
  jitter is less than the given fraction of it.  If \<open>Time\<close> has a sign, the jitter has that of the random
  number and is added or subtracted; if it has none, the remainder is taken in unsigned numbers and the
  jitter only lengthens the timeout.
\<close>

theorem next_backoff_doubles:
  assumes "backoff_ok X b"
  shows "returns (next_backoff X b w) (\<lambda>(b', w'). backoff_ok X b' \<and> backoff_count b' = backoff_count b + 1 \<and>
      backoff_time b' = fst (now X w) \<and>
      uint (timeout b') = min (2 * uint (timeout b)) (uint (max_timeout b)) \<and>
      (let jitter = uint (timeout_with_jitter b') - uint (timeout b') in
         \<bar>jitter\<bar> < uint (timeout b') div jitter_fraction b \<and>
         (if time_signed X \<and> sint (fst (draw_random X (snd (now X w)))) < 0 then jitter \<le> 0 else 0 \<le> jitter)) \<and>
      w' = w\<lparr>env := env w'\<rparr>) \<and>
    backoff_ok X (backoff_init c DHCP_START_TIMEOUT DHCP_MAX_TIMEOUT DHCP_JITTER_FRACTION) \<and>
    backoff_ok X (backoff_init c TFTP_BACKOFF_START_TIMEOUT TFTP_BACKOFF_MAX_TIMEOUT TFTP_BACKOFF_JITTER_FRACTION)"
proof (intro conjI)
  obtain b' w' where n: "next_backoff X b w = Inr (b', w')" "backoff_ok X b'" "backoff_count b' = backoff_count b + 1"
    "backoff_time b' = fst (now X w)" "uint (timeout b') = min (2 * uint (timeout b)) (uint (max_timeout b))"
    "uint (timeout_with_jitter b') = uint (timeout b') +
       jitter_of X (fst (draw_random X (snd (now X w)))) (uint (timeout b') div jitter_fraction b)"
    "0 < uint (timeout b') div jitter_fraction b"
    using next_backoff_step [OF assms, of w] by blast
  note j = jitter_of_bounds [OF n(7), of X "fst (draw_random X (snd (now X w)))"]
  show "returns (next_backoff X b w) (\<lambda>(b', w'). backoff_ok X b' \<and> backoff_count b' = backoff_count b + 1 \<and>
      backoff_time b' = fst (now X w) \<and>
      uint (timeout b') = min (2 * uint (timeout b)) (uint (max_timeout b)) \<and>
      (let jitter = uint (timeout_with_jitter b') - uint (timeout b') in
         \<bar>jitter\<bar> < uint (timeout b') div jitter_fraction b \<and>
         (if time_signed X \<and> sint (fst (draw_random X (snd (now X w)))) < 0 then jitter \<le> 0 else 0 \<le> jitter)) \<and>
      w' = w\<lparr>env := env w'\<rparr>)"
    using n next_backoff_env [OF n(1)] j by (cases "time_signed X") (simp_all add: Let_def split: if_splits)
qed (rule backoff_init_ok; simp)+

theorem next_backoff_doubles_witness:
  "returns (next_backoff ref_libs sample_backoff (sample_state 0)) (\<lambda>(b, w'). uint (timeout b) = 1000 \<and> backoff_count b = 1)"
proof -
  have "uint (timeout sample_backoff) = 500" "uint (max_timeout sample_backoff) = 60000" "backoff_count sample_backoff = 0"
    by (simp_all add: sample_backoff_def)
  then show ?thesis
    by (intro returns_mono [OF conjunct1 [OF next_backoff_doubles [OF sample_backoff_ok]]]) auto
qed

end
