(* ===== verification/Format.thy ===== *)
theory Format
  imports Utilities
begin

text \<open>
  \<open>format_string\<close> of \<open>utilities.c\<close>, the formatter of text and numbers.  The output pointer is the
  pair of the buffer and the offset of the next character; \<open>fin\<close> is the pointer \<open>end\<close>.  The
  variable arguments are a list of typed values: fetching one that is missing or of another type is
  undefined in C and a \<open>Fault\<close> here.  Widths are \<open>int\<close>s of 32 bits; where computing one overflows, which C
  leaves undefined, the model wraps around as two's complement does.
\<close>

section \<open>Data\<close>

datatype va_value = Va_int u32 | Va_long u64 | Va_text "u8 list option"

abbreviation FORMAT_FLAG_ZERO_PAD :: u32 where "FORMAT_FLAG_ZERO_PAD \<equiv> push_bit 0 1"
abbreviation FORMAT_FLAG_NO_SIGN :: u32 where "FORMAT_FLAG_NO_SIGN \<equiv> push_bit 1 1"
abbreviation FORMAT_FLAG_ALWAYS_SIGN :: u32 where "FORMAT_FLAG_ALWAYS_SIGN \<equiv> push_bit 2 1"
abbreviation FORMAT_FLAG_LEFT_JUSTIFY :: u32 where "FORMAT_FLAG_LEFT_JUSTIFY \<equiv> push_bit 3 1"
abbreviation FORMAT_FLAG_SIZE_GIVEN :: u32 where "FORMAT_FLAG_SIZE_GIVEN \<equiv> push_bit 4 1"
abbreviation FORMAT_FLAG_UPPERCASE :: u32 where "FORMAT_FLAG_UPPERCASE \<equiv> push_bit 5 1"
abbreviation FORMAT_FLAG_HEX :: u32 where "FORMAT_FLAG_HEX \<equiv> push_bit 6 1"
abbreviation FORMAT_FLAG_SIGNED :: u32 where "FORMAT_FLAG_SIGNED \<equiv> push_bit 7 1"
abbreviation FORMAT_FLAG_BINARY :: u32 where "FORMAT_FLAG_BINARY \<equiv> push_bit 8 1"
abbreviation FORMAT_FLAG_BIG_NUMBER :: u32 where "FORMAT_FLAG_BIG_NUMBER \<equiv> push_bit 9 1"

definition flag :: "u32 \<Rightarrow> u32 \<Rightarrow> bool" where
  "flag flags f \<longleftrightarrow> flags AND f \<noteq> 0"

definition va_int :: "va_value list \<Rightarrow> (u32 \<times> va_value list) result" where
  "va_int args = (case args of Va_int v # rest \<Rightarrow> Inr (v, rest) | _ \<Rightarrow> Inl Fault)"

definition va_long :: "va_value list \<Rightarrow> (u64 \<times> va_value list) result" where
  "va_long args = (case args of Va_long v # rest \<Rightarrow> Inr (v, rest) | _ \<Rightarrow> Inl Fault)"

definition va_text :: "va_value list \<Rightarrow> (u8 list option \<times> va_value list) result" where
  "va_text args = (case args of Va_text v # rest \<Rightarrow> Inr (v, rest) | _ \<Rightarrow> Inl Fault)"

text \<open>A C \<open>int\<close> after an operation, and the number of rounds of \<open>while (pad--)\<close>.\<close>

definition c_int :: "int \<Rightarrow> int" where
  "c_int i = sint (word_of_int i :: u32)"

definition countdown :: "int \<Rightarrow> nat" where
  "countdown pad = unat (word_of_int pad :: u32)"

lemma c_int_small: "0 \<le> i \<Longrightarrow> i < 2 ^ 31 \<Longrightarrow> c_int i = i"
  by (simp add: c_int_def signed_of_int signed_take_bit_int_eq_self)

lemma countdown_small: "0 \<le> i \<Longrightarrow> i < 2 ^ 32 \<Longrightarrow> countdown i = nat i"
  by (simp add: countdown_def unat_eq_nat_uint uint_word_of_int_eq take_bit_int_eq_self)

lemma countdown_0 [simp]: "countdown 0 = 0"
  by (simp add: countdown_def)

type_synonym out_ptr = "u8 list \<times> int"

section \<open>Characters and numbers\<close>

definition write_char :: "u8 \<Rightarrow> int \<Rightarrow> out_ptr \<Rightarrow> out_ptr result" where
  "write_char c fin = (\<lambda>(d, off).
     if off \<noteq> fin then bindR (put_byte c d off) (\<lambda>d. Inr (d, off + 1)) else Inr (d, off))"

fun write_chars :: "u8 list \<Rightarrow> int \<Rightarrow> out_ptr \<Rightarrow> out_ptr result" where
  "write_chars [] fin b = Inr b"
| "write_chars (c # cs) fin b = bindR (write_char c fin b) (write_chars cs fin)"

text \<open>The digits in \<open>number_buffer\<close>, least significant first; the buffer has 64 places.\<close>

function number_digits :: "u8 list \<Rightarrow> u64 \<Rightarrow> u64 \<Rightarrow> u8 list \<Rightarrow> (u8 list) result" where
  "number_digits table base v number_buffer =
     (if \<not> length number_buffer < 64 then Inl Fault
      else
        let number_buffer = number_buffer @ [table ! unat (v mod base)]; v = v div base in
        if v \<noteq> 0 then number_digits table base v number_buffer else Inr number_buffer)"
  by pat_completeness auto
termination by (relation "measure (\<lambda>(_, _, _, number_buffer). 64 - length number_buffer)") auto

declare number_digits.simps [simp del]

definition hex_upper :: "u8 list" where
  "hex_upper = [0x30, 0x31, 0x32, 0x33, 0x34, 0x35, 0x36, 0x37, 0x38, 0x39, 0x41, 0x42, 0x43, 0x44, 0x45, 0x46]"

definition hex_lower :: "u8 list" where
  "hex_lower = [0x30, 0x31, 0x32, 0x33, 0x34, 0x35, 0x36, 0x37, 0x38, 0x39, 0x61, 0x62, 0x63, 0x64, 0x65, 0x66]"

definition write_number :: "u64 \<Rightarrow> int \<Rightarrow> u32 \<Rightarrow> int \<Rightarrow> out_ptr \<Rightarrow> out_ptr result" where
  "write_number v width flags fin b =
     (let table = (if flag flags FORMAT_FLAG_UPPERCASE then hex_upper else hex_lower);
          base = (if flag flags FORMAT_FLAG_HEX then 16 else if flag flags FORMAT_FLAG_BINARY then 2 else 10);
          left = flag flags FORMAT_FLAG_LEFT_JUSTIFY;
          pad_char = (if flag flags FORMAT_FLAG_ZERO_PAD then 0x30 else 0x20);
          (sign, v) = (if flag flags FORMAT_FLAG_SIGNED \<and> \<not> flag flags FORMAT_FLAG_NO_SIGN \<and> v <s 0
                       then (0x2D, - v) else (0, v));
          sign = (if \<not> flag flags FORMAT_FLAG_SIGNED \<and> flag flags FORMAT_FLAG_ALWAYS_SIGN then 0x2B else sign);
          unsigned_value = (if flag flags FORMAT_FLAG_BIG_NUMBER then v else ucast (ucast v :: u32))
      in bindR (number_digits table base unsigned_value []) (\<lambda>number_buffer.
         let n = int (length number_buffer) + (if sign \<noteq> 0 then 1 else 0);
             pad = countdown (if width > n then width - n else 0)
         in bindR (write_chars (if \<not> left then replicate pad pad_char else []) fin b) (\<lambda>b.
            bindR (if sign \<noteq> 0 then write_char sign fin b else Inr b) (\<lambda>b.
            bindR (write_chars (rev number_buffer) fin b) (\<lambda>b.
            write_chars (if left then replicate pad pad_char else []) fin b)))))"

definition read_number :: "u32 \<Rightarrow> va_value list \<Rightarrow> (u64 \<times> va_value list) result" where
  "read_number flags args =
     (if flag flags FORMAT_FLAG_BIG_NUMBER then va_long args
      else bindR (va_int args) (\<lambda>(v, args). Inr (scast v, args)))"

section \<open>The directives\<close>

text \<open>
  The loop over the flags after a brace: \<open>off\<close> is the position before the increment, the result
  the position of the first character that is not a flag.
\<close>

function read_flags :: "u8 list \<Rightarrow> int \<Rightarrow> u32 \<Rightarrow> int \<Rightarrow> va_value list \<Rightarrow> (int \<times> u32 \<times> int \<times> va_value list) result" where
  "read_flags string off flags width args =
     bindR (get_byte string (off + 1)) (\<lambda>c.
     if c = 0x30 then read_flags string (off + 1) (flags OR FORMAT_FLAG_ZERO_PAD) width args
     else if c = 0x3C then read_flags string (off + 1) (flags OR FORMAT_FLAG_LEFT_JUSTIFY) width args
     else if c = 0x2B then read_flags string (off + 1) (flags OR FORMAT_FLAG_ALWAYS_SIGN) width args
     else if c = 0x20 then read_flags string (off + 1) (flags OR FORMAT_FLAG_NO_SIGN) width args
     else if c = 0x5F then
       bindR (va_int args) (\<lambda>(v, args).
       if sint v < 0 then
         read_flags string (off + 1) (flags OR FORMAT_FLAG_SIZE_GIVEN OR FORMAT_FLAG_LEFT_JUSTIFY) (c_int (- sint v)) args
       else read_flags string (off + 1) flags (sint v) args)
     else Inr (off + 1, flags, width, args))"
  by pat_completeness auto
termination
  by (relation "measure (\<lambda>(string, off, _). nat (int (length string) - off))")
    (auto simp: get_byte_def in_range_def split: if_splits)

function read_width :: "u8 list \<Rightarrow> int \<Rightarrow> int \<Rightarrow> (int \<times> int) result" where
  "read_width string off width =
     bindR (get_byte string off) (\<lambda>c.
     if 0x30 \<le> c \<and> c \<le> 0x39 then read_width string (off + 1) (c_int (10 * width + (uint c - 0x30)))
     else Inr (off, width))"
  by pat_completeness auto
termination
  by (relation "measure (\<lambda>(string, off, _). nat (int (length string) - off))")
    (auto simp: get_byte_def in_range_def split: if_splits)

declare read_flags.simps [simp del] read_width.simps [simp del]

text \<open>The characters \<open>{t}\<close> prints: all up to the zero, or up to the width that was given.\<close>

function text_length :: "u8 list \<Rightarrow> int option \<Rightarrow> int \<Rightarrow> int result" where
  "text_length string limit i =
     bindR (get_byte string i) (\<lambda>c.
     if c \<noteq> 0 \<and> (case limit of None \<Rightarrow> True | Some width \<Rightarrow> i < width) then text_length string limit (i + 1)
     else Inr i)"
  by pat_completeness auto
termination
  by (relation "measure (\<lambda>(string, _, i). nat (int (length string) - i))")
    (auto simp: get_byte_def in_range_def split: if_splits)

declare text_length.simps [simp del]

definition str_nullptr :: "u8 list" where
  "str_nullptr = [0x6E, 0x75, 0x6C, 0x6C, 0x70, 0x74, 0x72, 0]"

definition write_text :: "u8 list option \<Rightarrow> int \<Rightarrow> u32 \<Rightarrow> int \<Rightarrow> out_ptr \<Rightarrow> out_ptr result" where
  "write_text txt width flags fin b =
     (let left = flag flags FORMAT_FLAG_LEFT_JUSTIFY;
          pad_char = (if flag flags FORMAT_FLAG_ZERO_PAD then 0x30 else 0x20);
          txt = (case txt of None \<Rightarrow> str_nullptr | Some t \<Rightarrow> t);
          limit = (if flag flags FORMAT_FLAG_SIZE_GIVEN then Some width else None)
      in bindR (text_length txt limit 0) (\<lambda>n.
         let pad = countdown (if flag flags FORMAT_FLAG_SIZE_GIVEN then c_int (width - n) else 0) in
         bindR (write_chars (if \<not> left then replicate pad pad_char else []) fin b) (\<lambda>b.
         bindR (write_chars (take (nat n) txt) fin b) (\<lambda>b.
         write_chars (if left then replicate pad pad_char else []) fin b))))"

text \<open>One directive, after its flags and width: the letter \<open>c\<close> decides.\<close>

definition write_directive ::
  "u8 \<Rightarrow> u32 \<Rightarrow> int \<Rightarrow> va_value list \<Rightarrow> int \<Rightarrow> out_ptr \<Rightarrow> (va_value list \<times> out_ptr) result" where
  "write_directive c flags width args fin b =
     (if c = 0x74 then
        bindR (va_text args) (\<lambda>(txt, args). bindR (write_text txt width flags fin b) (\<lambda>b. Inr (args, b)))
      else if c = 0x63 then
        bindR (va_int args) (\<lambda>(v, args). bindR (write_char (ucast v) fin b) (\<lambda>b. Inr (args, b)))
      else if c = 0x75 then
        bindR (if flag flags FORMAT_FLAG_BIG_NUMBER then va_long args
               else bindR (va_int args) (\<lambda>(v, args). Inr (ucast v, args))) (\<lambda>(v, args).
        bindR (write_number v width flags fin b) (\<lambda>b. Inr (args, b)))
      else if c = 0x73 then
        let flags = flags OR FORMAT_FLAG_SIGNED in
        bindR (read_number flags args) (\<lambda>(v, args). bindR (write_number v width flags fin b) (\<lambda>b. Inr (args, b)))
      else if c = 0x68 \<or> c = 0x48 then
        let flags = flags OR FORMAT_FLAG_HEX;
            flags = (if c = 0x48 then flags OR FORMAT_FLAG_UPPERCASE else flags) in
        bindR (read_number flags args) (\<lambda>(v, args). bindR (write_number v width flags fin b) (\<lambda>b. Inr (args, b)))
      else if c = 0x62 then
        let flags = flags OR FORMAT_FLAG_BINARY in
        bindR (read_number flags args) (\<lambda>(v, args). bindR (write_number v width flags fin b) (\<lambda>b. Inr (args, b)))
      else if c = 0x7B then bindR (write_char 0x7B fin b) (\<lambda>b. Inr (args, b))
      else Inr (args, b))"

lemma read_flags_advance: "read_flags string off flags width args = Inr (off', r) \<Longrightarrow> off < off' \<and> off' < int (length string)"
proof (induction string off flags width args rule: read_flags.induct)
  case (1 string off flags width args)
  from "1.prems" obtain c where c: "get_byte string (off + 1) = Inr c"
    by (subst (asm) read_flags.simps) (auto elim: bindR_InrE)
  then have lt: "off + 1 < int (length string)" by (auto simp: get_byte_def in_range_def split: if_splits)
  consider "c = 0x30" | "c = 0x3C" | "c = 0x2B" | "c = 0x20" | "c = 0x5F"
    | "c \<notin> {0x30, 0x3C, 0x2B, 0x20, 0x5F}" by auto
  then show ?case
  proof cases
    case 5
    show ?thesis
    proof (cases "va_int args")
      case (Inl e)
      with 5 c "1.prems" show ?thesis by (subst (asm) read_flags.simps) simp
    next
      case (Inr va)
      obtain v rest where va: "va = (v, rest)" by (cases va)
      show ?thesis
        using "1.prems" "1.IH"(5,6) [OF c _ _ _ _ _ Inr va [symmetric]] 5 c Inr va
        by (subst (asm) read_flags.simps) (auto split: if_splits)
    qed
  next
    case 6
    then show ?thesis using "1.prems" c lt by (subst (asm) read_flags.simps) auto
  qed (use "1.prems" "1.IH"(1-4) [OF c] c lt in \<open>subst (asm) read_flags.simps; force\<close>)+
qed

lemma read_width_advance: "read_width string off width = Inr (off', r) \<Longrightarrow> off \<le> off'"
proof (induction string off width rule: read_width.induct)
  case (1 string off width)
  from "1.prems" obtain c where c: "get_byte string off = Inr c"
    by (subst (asm) read_width.simps) (auto elim: bindR_InrE)
  show ?case
  proof (cases "0x30 \<le> c \<and> c \<le> 0x39")
    case True
    then show ?thesis using "1.IH" [OF c True] "1.prems" c by (subst (asm) read_width.simps) simp
  next
    case False
    then show ?thesis using "1.prems" c by (subst (asm) read_width.simps) (auto split: if_splits)
  qed
qed

section \<open>format_string\<close>

function format_loop :: "u8 list \<Rightarrow> int \<Rightarrow> va_value list \<Rightarrow> int \<Rightarrow> out_ptr \<Rightarrow> out_ptr result" where
  "format_loop string off args fin b =
     bindR (get_byte string off) (\<lambda>c.
     if c = 0 then Inr b
     else if c \<noteq> 0x7B then bindR (write_char c fin b) (\<lambda>b. format_loop string (off + 1) args fin b)
     else
       bindR (read_flags string off 0 0 args) (\<lambda>(off1, flags, width, args).
       bindR (get_byte string off1) (\<lambda>c.
       let flags = (if 0x30 \<le> c \<and> c \<le> 0x39 then flags OR FORMAT_FLAG_SIZE_GIVEN else flags) in
       bindR (read_width string off1 width) (\<lambda>(off2, width).
       bindR (get_byte string off2) (\<lambda>c.
       bindR (get_byte string (off2 + 1)) (\<lambda>l.
       let (flags, off3) = (if l = 0x6C then (flags OR FORMAT_FLAG_BIG_NUMBER, off2 + 2) else (flags, off2 + 1)) in
       bindR (write_directive c flags width args fin b) (\<lambda>(args, b).
       bindR (get_byte string off3) (\<lambda>e.
       format_loop string (if e = 0x7D then off3 + 1 else off3) args fin b))))))))"
  by pat_completeness auto
termination
proof (relation "measure (\<lambda>(string, off, _). nat (int (length string) - off))", goal_cases)
  case 1
  show ?case by simp
next
  case (2 string off args fin b c b')
  then show ?case by (simp add: get_byte_def in_range_def split: if_splits)
next
  case (3 string off)
  then show ?case
    by (auto dest!: read_flags_advance read_width_advance simp: get_byte_def in_range_def split: if_splits)
qed

declare format_loop.simps [simp del]

definition format_string :: "u8 list \<Rightarrow> u8 list \<Rightarrow> int \<Rightarrow> va_value list \<Rightarrow> (u8 list \<times> int) result" where
  "format_string string buffer buffer_size args = format_loop string 0 args buffer_size (buffer, 0)"

end
