(* ===== verification/Format_Properties.thy ===== *)
theory Format_Properties
  imports Format
begin

text \<open>
  What \<open>format_string\<close> prints.  A format is described as a list of pieces; \<open>piece_bytes\<close> is how a piece
  is written in the format string, \<open>piece_args\<close> the arguments it takes and \<open>piece_text\<close> the text it
  stands for, computed with natural numbers and without a buffer.
\<close>

section \<open>Output\<close>

definition out_ok :: "int \<Rightarrow> out_ptr \<Rightarrow> bool" where
  "out_ok fin b \<longleftrightarrow> 0 \<le> snd b \<and> snd b \<le> fin \<and> fin \<le> int (length (fst b))"

text \<open>Writing stops silently at the end of the buffer.\<close>

definition emit :: "u8 list \<Rightarrow> int \<Rightarrow> out_ptr \<Rightarrow> out_ptr" where
  "emit cs fin b = (let t = take (nat (fin - snd b)) cs in (upd (nat (snd b)) t (fst b), snd b + int (length t)))"

lemma emit_Nil [simp]: "emit [] fin b = b"
  by (simp add: emit_def)

lemma emit_ok [simp]: "out_ok fin b \<Longrightarrow> out_ok fin (emit cs fin b)"
  by (auto simp: out_ok_def emit_def Let_def)

lemma emit_emit: "out_ok fin b \<Longrightarrow> emit ys fin (emit xs fin b) = emit (xs @ ys) fin b"
proof -
  assume ok: "out_ok fin b"
  let ?t = "take (nat (fin - snd b)) xs"
  have t: "take (nat (fin - snd b)) (xs @ ys) = ?t @ take (nat (fin - (snd b + int (length ?t)))) ys"
    using ok by (auto simp: out_ok_def nat_diff_distrib' nat_add_distrib min_def)
  have "upd (nat (snd b + int (length ?t))) (take (nat (fin - (snd b + int (length ?t)))) ys) (upd (nat (snd b)) ?t (fst b)) =
      upd (nat (snd b)) (?t @ take (nat (fin - (snd b + int (length ?t)))) ys) (fst b)"
    using ok by (intro upd_append) (auto simp: out_ok_def)
  then show ?thesis unfolding emit_def Let_def t by simp
qed

lemma write_char_emit: "out_ok fin b \<Longrightarrow> write_char c fin b = Inr (emit [c] fin b)"
  by (cases b) (auto simp: write_char_def out_ok_def emit_def Let_def put_byte_ok take_Cons')

lemma write_chars_emit: "out_ok fin b \<Longrightarrow> write_chars cs fin b = Inr (emit cs fin b)"
proof (induction cs arbitrary: b)
  case (Cons c cs)
  then show ?case by (simp add: write_char_emit emit_emit)
qed simp

section \<open>Numbers\<close>

fun numeral_digits :: "nat \<Rightarrow> nat \<Rightarrow> nat list" where
  "numeral_digits b n = (if n < b \<or> b < 2 then [n] else numeral_digits b (n div b) @ [n mod b])"

declare numeral_digits.simps [simp del]

lemma numeral_digits_value: "foldl (\<lambda>v d. b * v + d) 0 (numeral_digits b n) = n"
  by (induction b n rule: numeral_digits.induct) (subst numeral_digits.simps, auto)

lemma numeral_digits_length: "n < b ^ k \<Longrightarrow> 0 < k \<Longrightarrow> 1 < b \<Longrightarrow> length (numeral_digits b n) \<le> k"
proof (induction b n arbitrary: k rule: numeral_digits.induct)
  case (1 b n)
  show ?case
  proof (cases "n < b")
    case True
    then show ?thesis using "1.prems" by (subst numeral_digits.simps) simp
  next
    case False
    with "1.prems" have "k \<noteq> 1" by auto
    with "1.prems" obtain j where k: "k = Suc j" "0 < j" by (cases k) auto
    then have "n div b < b ^ j" using "1.prems" by (simp add: less_mult_imp_div_less mult.commute)
    then show ?thesis using "1.IH" [of j] False "1.prems" k by (subst numeral_digits.simps) simp
  qed
qed

lemma number_digits_ok:
  assumes "1 < base" and "length acc + length (numeral_digits (unat base) (unat v)) \<le> 64"
  shows "number_digits table base v acc =
    Inr (acc @ rev (map ((!) table) (numeral_digits (unat base) (unat v))))"
  using assms
proof (induction table base v acc rule: number_digits.induct)
  case (1 table base v acc)
  have b: "1 < unat base" using "1.prems"(1) by (simp add: word_less_nat_alt)
  have z: "v div base = 0 \<longleftrightarrow> unat v < unat base"
    using b by (simp add: unat_eq_0 [symmetric] unat_div div_eq_0_iff)
  have len: "length acc < 64" using "1.prems"(2) b
    by (subst (asm) numeral_digits.simps) (auto split: if_splits)
  show ?case
  proof (cases "unat v < unat base")
    case True
    then have "unat (v mod base) = unat v" by (simp add: unat_mod)
    then show ?thesis using True len z b
      by (subst number_digits.simps, subst numeral_digits.simps) simp
  next
    case False
    have n: "numeral_digits (unat base) (unat v) = numeral_digits (unat base) (unat (v div base)) @ [unat (v mod base)]"
      using False b by (subst numeral_digits.simps) (simp add: unat_div unat_mod)
    show ?thesis
      using "1.IH" [OF _ refl refl] "1.prems" len z False b
      by (subst number_digits.simps) (simp add: n)
  qed
qed

lemma number_digits_64:
  assumes "1 < base"
  shows "number_digits table base v [] = Inr (rev (map ((!) table) (numeral_digits (unat base) (unat v))))"
proof -
  have b: "1 < unat base" using assms by (simp add: word_less_nat_alt)
  have "unat v < 2 ^ 64" using unsigned_less [of v] by simp
  also have "(2 :: nat) ^ 64 \<le> unat base ^ 64" using b by (intro power_mono) simp_all
  finally have "length (numeral_digits (unat base) (unat v)) \<le> 64" by (rule numeral_digits_length) (use b in simp_all)
  then show ?thesis using number_digits_ok [OF assms, of "[]" v table] by simp
qed

lemma nat_int_minus: "nat (int m - int n) = m - n"
  by (simp add: nat_diff_distrib')

section \<open>Flags and widths\<close>

lemma flag_or [simp]: "flag (a OR b) f \<longleftrightarrow> flag a f \<or> flag b f"
  by (auto simp: flag_def bit.conj_disj_distrib2 or_eq_0_iff)

lemma flag_zero [simp]: "\<not> flag 0 f"
  by (simp add: flag_def)

lemma flag_literal [simp]: "flag (numeral a) f \<longleftrightarrow> numeral a AND f \<noteq> 0" "flag 1 f \<longleftrightarrow> 1 AND f \<noteq> 0"
  by (simp_all add: flag_def)

text \<open>The flags of a directive: zero padding, left justification, a plus sign, no sign.\<close>

record format_flags =
  zeros :: bool
  left :: bool
  plus :: bool
  no_sign :: bool

definition flag_bytes :: "format_flags \<Rightarrow> u8 list" where
  "flag_bytes f = (if zeros f then [0x30] else []) @ (if left f then [0x3C] else []) @
     (if plus f then [0x2B] else []) @ (if no_sign f then [0x20] else [])"

definition flag_word :: "format_flags \<Rightarrow> u32" where
  "flag_word f = (if zeros f then FORMAT_FLAG_ZERO_PAD else 0) OR (if left f then FORMAT_FLAG_LEFT_JUSTIFY else 0) OR
     (if plus f then FORMAT_FLAG_ALWAYS_SIGN else 0) OR (if no_sign f then FORMAT_FLAG_NO_SIGN else 0)"

lemma read_flags_stop:
  "ahead string (off + 1) (c # cs) \<Longrightarrow> c \<notin> {0x30, 0x3C, 0x2B, 0x20, 0x5F} \<Longrightarrow>
   read_flags string off flags width args = Inr (off + 1, flags, width, args)"
  by (subst read_flags.simps) simp

lemma read_flags_step:
  assumes "ahead string (off + 1) (c # cs)" and "(c, f) \<in> {(0x30, FORMAT_FLAG_ZERO_PAD), (0x3C, FORMAT_FLAG_LEFT_JUSTIFY),
    (0x2B, FORMAT_FLAG_ALWAYS_SIGN), (0x20, FORMAT_FLAG_NO_SIGN)}"
  shows "read_flags string off flags width args = read_flags string (off + 1) (flags OR f) width args"
  using assms by (subst read_flags.simps) auto

lemma read_flags_optional:
  assumes "ahead string (off + 1) ((if x then [c] else []) @ cs)" and "(c, f) \<in> {(0x30, FORMAT_FLAG_ZERO_PAD), (0x3C, FORMAT_FLAG_LEFT_JUSTIFY),
    (0x2B, FORMAT_FLAG_ALWAYS_SIGN), (0x20, FORMAT_FLAG_NO_SIGN)}"
  shows "\<exists>off'. off' = off + int (length (if x then [c] else [])) \<and> ahead string (off' + 1) cs \<and>
    read_flags string off flags width args = read_flags string off' (flags OR (if x then f else 0)) width args"
  using assms read_flags_step [OF _ assms(2), of string off] by (cases x) (auto dest: ahead_next)

lemma read_flags_bytes:
  assumes "ahead string (off + 1) (flag_bytes f @ c # cs)" and "c \<notin> {0x30, 0x3C, 0x2B, 0x20, 0x5F}"
  shows "\<exists>off'. read_flags string off 0 0 args = Inr (off', flag_word f, 0, args) \<and> ahead string off' (c # cs)"
proof -
  let ?o = "\<lambda>x (c :: u8). if x then [c] else []"
  have a: "ahead string (off + 1) (?o (zeros f) 0x30 @ ?o (left f) 0x3C @ ?o (plus f) 0x2B @ ?o (no_sign f) 0x20 @ c # cs)"
    using assms(1) by (simp only: flag_bytes_def append_assoc)
  obtain o1 where 1: "ahead string (o1 + 1) (?o (left f) 0x3C @ ?o (plus f) 0x2B @ ?o (no_sign f) 0x20 @ c # cs)"
    "read_flags string off 0 0 args = read_flags string o1 (0 OR (if zeros f then FORMAT_FLAG_ZERO_PAD else 0)) 0 args"
    using read_flags_optional [OF a, of FORMAT_FLAG_ZERO_PAD 0 0 args] by blast
  obtain o2 where 2: "ahead string (o2 + 1) (?o (plus f) 0x2B @ ?o (no_sign f) 0x20 @ c # cs)"
    "read_flags string o1 fl 0 args = read_flags string o2 (fl OR (if left f then FORMAT_FLAG_LEFT_JUSTIFY else 0)) 0 args" for fl
    using read_flags_optional [OF 1(1), of FORMAT_FLAG_LEFT_JUSTIFY _ 0 args] by blast
  obtain o3 where 3: "ahead string (o3 + 1) (?o (no_sign f) 0x20 @ c # cs)"
    "read_flags string o2 fl 0 args = read_flags string o3 (fl OR (if plus f then FORMAT_FLAG_ALWAYS_SIGN else 0)) 0 args" for fl
    using read_flags_optional [OF 2(1), of FORMAT_FLAG_ALWAYS_SIGN _ 0 args] by blast
  obtain o4 where 4: "ahead string (o4 + 1) (c # cs)"
    "read_flags string o3 fl 0 args = read_flags string o4 (fl OR (if no_sign f then FORMAT_FLAG_NO_SIGN else 0)) 0 args" for fl
    using read_flags_optional [OF 3(1), of FORMAT_FLAG_NO_SIGN _ 0 args] by blast
  show ?thesis
    using 4(1) read_flags_stop [OF 4(1) assms(2)] unfolding 1(2) 2(2) 3(2) 4(2)
    by (auto simp: flag_word_def or.assoc)
qed

text \<open>A width is written in decimal; the width zero is no width.\<close>

definition digit :: "nat \<Rightarrow> u8" where "digit d = 0x30 + of_nat d"

definition width_bytes :: "nat \<Rightarrow> u8 list" where
  "width_bytes n = (if n = 0 then [] else map digit (numeral_digits 10 n))"

lemma decimal_char: "d < 10 \<Longrightarrow> 0x30 \<le> digit d \<and> digit d \<le> 0x39 \<and> uint (digit d) = 48 + int d"
proof -
  assume "d < 10"
  then have "d \<in> {0, 1, 2, 3, 4, 5, 6, 7, 8, 9}" by auto
  then show ?thesis by (auto simp: digit_def)
qed

lemma foldl_digits_mono: "v \<le> foldl (\<lambda>v d. 10 * v + d) v ds" for v :: nat
proof (induction ds arbitrary: v)
  case (Cons d ds)
  have "v \<le> 10 * v + d" by simp
  also have "\<dots> \<le> foldl (\<lambda>v d. 10 * v + d) (10 * v + d) ds" by (rule Cons.IH)
  finally show ?case by simp
qed simp

lemma read_width_digits:
  assumes "ahead string off (map digit ds @ c # cs)" and "\<forall>d\<in>set ds. d < 10" and "\<not> (0x30 \<le> c \<and> c \<le> 0x39)"
    and "foldl (\<lambda>v d. 10 * v + d) v ds < 2 ^ 31"
  shows "read_width string off (int v) = Inr (off + int (length ds), int (foldl (\<lambda>v d. 10 * v + d) v ds))"
  using assms(1,2,4)
proof (induction ds arbitrary: off v)
  case Nil
  then show ?case using assms(3) by (subst read_width.simps) (auto simp del: not_le not_less)
next
  case (Cons d ds)
  have d: "0x30 \<le> digit d \<and> digit d \<le> 0x39 \<and> uint (digit d) = 48 + int d" using Cons.prems(2) by (intro decimal_char) simp
  have "ahead string (off + 1) (map digit ds @ c # cs)" using Cons.prems(1) ahead_next by fastforce
  moreover have "10 * int v + (uint (digit d) - 0x30) = int (10 * v + d)" using d by simp
  moreover have "c_int (int (10 * v + d)) = int (10 * v + d)"
    using Cons.prems(3) foldl_digits_mono [of "10 * v + d" ds] by (intro c_int_small) simp_all
  ultimately show ?case using Cons.IH [of "off + 1" "10 * v + d"] Cons.prems d
    by (subst read_width.simps) (simp add: add.assoc)
qed

lemma numeral_digits_below: "1 < b \<Longrightarrow> \<forall>d\<in>set (numeral_digits b n). d < b"
proof (induction b n rule: numeral_digits.induct)
  case (1 b n)
  then show ?case by (subst numeral_digits.simps) auto
qed

lemma numeral_digits_hd: "0 < n \<Longrightarrow> 1 < b \<Longrightarrow> numeral_digits b n \<noteq> [] \<and> hd (numeral_digits b n) \<noteq> 0"
proof (induction b n rule: numeral_digits.induct)
  case (1 b n)
  show ?case
  proof (cases "n < b")
    case False
    then have "0 < n div b" using "1.prems" by (simp add: div_greater_zero_iff)
    then show ?thesis using "1.IH" "1.prems" False by (subst (1 2) numeral_digits.simps) auto
  qed (use "1.prems" in \<open>subst (1 2) numeral_digits.simps; simp\<close>)
qed

section \<open>Pieces of a format\<close>

datatype number_kind = Unsigned | Signed | Hex | Hex_capital | Binary

datatype piece =
  Literal u8
| Brace
| Character u8
| Text format_flags nat "u8 list"
| Number format_flags nat number_kind bool u64

fun kind_byte :: "number_kind \<Rightarrow> u8" where
  "kind_byte Unsigned = 0x75"
| "kind_byte Signed = 0x73"
| "kind_byte Hex = 0x68"
| "kind_byte Hex_capital = 0x48"
| "kind_byte Binary = 0x62"

fun kind_base :: "number_kind \<Rightarrow> nat" where
  "kind_base Hex = 16"
| "kind_base Hex_capital = 16"
| "kind_base Binary = 2"
| "kind_base _ = 10"

fun kind_table :: "number_kind \<Rightarrow> u8 list" where
  "kind_table Hex_capital = hex_upper"
| "kind_table _ = hex_lower"

text \<open>How a piece is written in a format string, and the arguments it takes.\<close>

fun piece_bytes :: "piece \<Rightarrow> u8 list" where
  "piece_bytes (Literal c) = [c]"
| "piece_bytes Brace = [0x7B, 0x7B, 0x7D]"
| "piece_bytes (Character c) = [0x7B, 0x63, 0x7D]"
| "piece_bytes (Text f n t) = [0x7B] @ flag_bytes f @ width_bytes n @ [0x74, 0x7D]"
| "piece_bytes (Number f n kind big v) =
     [0x7B] @ flag_bytes f @ width_bytes n @ [kind_byte kind] @ (if big then [0x6C] else []) @ [0x7D]"

fun piece_args :: "piece \<Rightarrow> va_value list" where
  "piece_args (Literal c) = []"
| "piece_args Brace = []"
| "piece_args (Character c) = [Va_int (ucast c)]"
| "piece_args (Text f n t) = [Va_text (Some (t @ [0]))]"
| "piece_args (Number f n kind big v) = [if big then Va_long v else Va_int (ucast v)]"

fun piece_ok :: "piece \<Rightarrow> bool" where
  "piece_ok (Literal c) \<longleftrightarrow> c \<noteq> 0 \<and> c \<noteq> 0x7B"
| "piece_ok (Text f n t) \<longleftrightarrow> 0 \<notin> set t \<and> n < 2 ^ 31"
| "piece_ok (Number f n kind big v) \<longleftrightarrow> n < 2 ^ 31"
| "piece_ok _ \<longleftrightarrow> True"

text \<open>What it stands for.\<close>

definition padded :: "format_flags \<Rightarrow> nat \<Rightarrow> u8 list \<Rightarrow> u8 list" where
  "padded f n t = (let pad = replicate (n - length t) (if zeros f then 0x30 else 0x20) in
     if left f then t @ pad else pad @ t)"

definition number_value :: "bool \<Rightarrow> u64 \<Rightarrow> int" where
  "number_value big v = (if big then sint v else sint (ucast v :: u32))"

definition number_size :: "bool \<Rightarrow> u64 \<Rightarrow> nat" where
  "number_size big v = (if big then unat v else unat (ucast v :: u32))"

definition number_text :: "format_flags \<Rightarrow> number_kind \<Rightarrow> bool \<Rightarrow> u64 \<Rightarrow> u8 list" where
  "number_text f kind big v =
     (if kind = Signed \<and> \<not> no_sign f \<and> number_value big v < 0
      then 0x2D # map digit (numeral_digits 10 (nat (- number_value big v)))
      else (if kind \<noteq> Signed \<and> plus f then [0x2B] else []) @
        map ((!) (kind_table kind)) (numeral_digits (kind_base kind) (number_size big v)))"

fun piece_text :: "piece \<Rightarrow> u8 list" where
  "piece_text (Literal c) = [c]"
| "piece_text Brace = [0x7B]"
| "piece_text (Character c) = [c]"
| "piece_text (Text f n t) = (if n = 0 then t else padded f n (take n t))"
| "piece_text (Number f n kind big v) =
     padded f n (number_text f kind big v)"

section \<open>Writing numbers\<close>

definition number_arg :: "number_kind \<Rightarrow> bool \<Rightarrow> u64 \<Rightarrow> u64" where
  "number_arg kind big v =
     (if big then v else if kind = Unsigned then ucast (ucast v :: u32) else scast (ucast v :: u32))"

text \<open>The flags word of a number's directive, whatever other bits it has.\<close>

definition number_flags :: "u32 \<Rightarrow> format_flags \<Rightarrow> number_kind \<Rightarrow> bool \<Rightarrow> bool" where
  "number_flags fl f kind big \<longleftrightarrow>
     flag fl FORMAT_FLAG_ZERO_PAD = zeros f \<and> flag fl FORMAT_FLAG_LEFT_JUSTIFY = left f \<and>
     flag fl FORMAT_FLAG_ALWAYS_SIGN = plus f \<and> flag fl FORMAT_FLAG_NO_SIGN = no_sign f \<and>
     flag fl FORMAT_FLAG_SIGNED = (kind = Signed) \<and> flag fl FORMAT_FLAG_HEX = (kind = Hex \<or> kind = Hex_capital) \<and>
     flag fl FORMAT_FLAG_UPPERCASE = (kind = Hex_capital) \<and> flag fl FORMAT_FLAG_BINARY = (kind = Binary) \<and>
     flag fl FORMAT_FLAG_BIG_NUMBER = big"

lemma unat_uminus_signed:
  fixes x :: "'a::len word"
  assumes "sint x < 0"
  shows "unat (- x) = nat (- sint x)"
proof -
  have "x \<noteq> 0" using assms by auto
  then have "uint (- x) = 2 ^ LENGTH('a) - uint x"
    by (simp add: uint_word_ariths zmod_zminus1_eq_if uint_0_iff)
  moreover have "sint x = uint x - 2 ^ LENGTH('a)"
    using assms take_bit_int_eq_self [OF uint_ge_0 uint_lt2p, of x] uint_ge_0 [of x]
    by (cases "bit (uint x) (LENGTH('a) - Suc 0)") (simp_all add: sint_uint signed_take_bit_eq_take_bit_minus)
  ultimately show ?thesis by (simp add: unat_eq_nat_uint)
qed

lemma sint_scast: "sint (scast (x :: u32) :: u64) = sint x"
  using sint_greater_eq [of x] sint_less [of x] by (simp add: signed_scast_eq signed_take_bit_int_eq_self)

lemma ucast_minus_scast: "ucast (- scast (x :: u32) :: u64) = (- x :: u32)"
proof -
  have "take_bit 32 (- signed_take_bit 31 k) = take_bit 32 (- k)" for k :: int
  proof -
    have "take_bit 32 (signed_take_bit 31 k) = take_bit 32 k" by (rule take_bit_signed_take_bit) simp
    then show ?thesis using take_bit_minus [of 32 "signed_take_bit 31 k"] take_bit_minus [of 32 k] by simp
  qed
  then show ?thesis by transfer (simp add: take_bit_take_bit)
qed

lemma digit_tables: "d < 10 \<Longrightarrow> hex_lower ! d = digit d"
proof -
  assume "d < 10"
  then have "d \<in> {0, 1, 2, 3, 4, 5, 6, 7, 8, 9}" by auto
  then show ?thesis by (auto simp: digit_def hex_lower_def)
qed

text \<open>The sign and the digits that \<open>write_number\<close> works out before it pads them.\<close>

definition number_sign :: "format_flags \<Rightarrow> number_kind \<Rightarrow> bool \<Rightarrow> u64 \<Rightarrow> u8" where
  "number_sign f kind big v =
     (if kind = Signed then (if \<not> no_sign f \<and> number_value big v < 0 then 0x2D else 0)
      else if plus f then 0x2B else 0)"

definition number_bits :: "format_flags \<Rightarrow> number_kind \<Rightarrow> bool \<Rightarrow> u64 \<Rightarrow> nat" where
  "number_bits f kind big v =
     (if kind = Signed \<and> \<not> no_sign f \<and> number_value big v < 0 then nat (- number_value big v) else number_size big v)"

lemma number_text_parts:
  "number_text f kind big v = (if number_sign f kind big v \<noteq> 0 then [number_sign f kind big v] else []) @
     map ((!) (kind_table kind)) (numeral_digits (kind_base kind) (number_bits f kind big v))"
proof -
  have "map digit ds = map ((!) hex_lower) ds" if "\<forall>d\<in>set ds. d < 10" for ds
    using that by (auto simp: digit_tables)
  then show ?thesis
    using numeral_digits_below [of 10] by (auto simp: number_text_def number_sign_def number_bits_def)
qed

lemma unat_extend: "unat (ucast (x :: u32) :: u64) = unat x"
proof -
  have "unat x < 2 ^ 32" by (rule less_le_trans [OF unsigned_less]) simp
  then show ?thesis by (simp add: unat_resize)
qed

lemma negative_arg:
  assumes "number_value big v < 0"
  shows "unat (if big then - number_arg Signed big v else ucast (ucast (- number_arg Signed big v) :: u32)) =
    nat (- number_value big v)"
proof (cases big)
  case True
  then show ?thesis using assms unat_uminus_signed [of v] by (simp add: number_value_def number_arg_def)
next
  case False
  then have "unat (- (ucast v :: u32)) = nat (- number_value big v)"
    using assms unat_uminus_signed [of "ucast v :: u32"] by (simp add: number_value_def)
  then show ?thesis using False by (simp add: number_arg_def ucast_minus_scast unat_extend)
qed

lemma plain_arg:
  "unat (if big then number_arg kind big v else ucast (ucast (number_arg kind big v) :: u32)) = number_size big v"
proof -
  have "(ucast (scast x :: u64) :: u32) = x" for x :: u32
    by (rule bit_word_eqI) (simp add: bit_simps)
  moreover have "(ucast (ucast x :: u64) :: u32) = x" for x :: u32
    by (rule bit_word_eqI) (simp add: bit_simps)
  ultimately show ?thesis by (simp add: number_arg_def number_size_def unat_extend)
qed

lemma signed_negative: "number_arg Signed big v <s 0 \<longleftrightarrow> number_value big v < 0"
  by (simp add: number_arg_def number_value_def word_sless_alt sint_scast)

lemma write_number_text:
  assumes "number_flags fl f kind big" and "out_ok fin b" and "n < 2 ^ 31"
  shows "write_number (number_arg kind big v) (int n) fl fin b = Inr (emit (padded f n (number_text f kind big v)) fin b)"
proof -
  note fl = assms(1) [unfolded number_flags_def]
  have big: "flag fl FORMAT_FLAG_BIG_NUMBER = big" using fl by simp
  define sign where "sign = number_sign f kind big v"
  define base :: u64 where "base = (if flag fl FORMAT_FLAG_HEX then 16 else if flag fl FORMAT_FLAG_BINARY then 2 else 10)"
  have base: "1 < base" "unat base = kind_base kind"
    using fl by (cases kind; simp add: base_def)+
  have table: "(if flag fl FORMAT_FLAG_UPPERCASE then hex_upper else hex_lower) = kind_table kind"
    using fl by (cases kind) simp_all
  let ?sv = "if flag fl FORMAT_FLAG_SIGNED \<and> \<not> flag fl FORMAT_FLAG_NO_SIGN \<and> number_arg kind big v <s 0
    then (0x2D, - number_arg kind big v) else (0 :: u8, number_arg kind big v)"
  have s: "(if \<not> flag fl FORMAT_FLAG_SIGNED \<and> flag fl FORMAT_FLAG_ALWAYS_SIGN then 0x2B else fst ?sv) = sign"
    using fl signed_negative [of big v] by (auto simp: sign_def number_sign_def)
  have d: "unat (if flag fl FORMAT_FLAG_BIG_NUMBER then snd ?sv else ucast (ucast (snd ?sv) :: u32)) = number_bits f kind big v"
  proof (cases "kind = Signed \<and> \<not> no_sign f \<and> number_value big v < 0")
    case True
    then have c: "flag fl FORMAT_FLAG_SIGNED \<and> \<not> flag fl FORMAT_FLAG_NO_SIGN \<and> number_arg kind big v <s 0"
      using fl signed_negative [of big v] by simp
    show ?thesis unfolding if_P [OF c] big snd_conv using True negative_arg [of big v]
      by (cases big) (simp_all add: number_bits_def)
  next
    case False
    then have c: "\<not> (flag fl FORMAT_FLAG_SIGNED \<and> \<not> flag fl FORMAT_FLAG_NO_SIGN \<and> number_arg kind big v <s 0)"
      using fl signed_negative [of big v] by auto
    from False have "number_bits f kind big v = number_size big v" by (auto simp: number_bits_def)
    then show ?thesis unfolding if_not_P [OF c] big snd_conv using plain_arg [of big kind v] by simp
  qed
  define digits where "digits = map ((!) (kind_table kind)) (numeral_digits (kind_base kind) (number_bits f kind big v))"
  have t: "number_text f kind big v = (if sign \<noteq> 0 then [sign] else []) @ digits"
    by (simp add: number_text_parts sign_def digits_def)
  have n: "number_digits (kind_table kind) base
      (if flag fl FORMAT_FLAG_BIG_NUMBER then snd ?sv else ucast (ucast (snd ?sv) :: u32)) [] = Inr (rev digits)"
    unfolding number_digits_64 [OF base(1)] base(2) d digits_def ..
  have wn: "write_number (number_arg kind big v) (int n) fl fin b =
      bindR (number_digits (kind_table kind) base
        (if flag fl FORMAT_FLAG_BIG_NUMBER then snd ?sv else ucast (ucast (snd ?sv) :: u32)) []) (\<lambda>number_buffer.
      let size = int (length number_buffer) + (if sign \<noteq> 0 then 1 else 0);
          pad = countdown (if int n > size then int n - size else 0);
          c = (if zeros f then 0x30 else 0x20)
      in bindR (write_chars (if \<not> left f then replicate pad c else []) fin b) (\<lambda>b.
         bindR (if sign \<noteq> 0 then write_char sign fin b else Inr b) (\<lambda>b.
         bindR (write_chars (rev number_buffer) fin b) (\<lambda>b.
         write_chars (if left f then replicate pad c else []) fin b))))"
    unfolding write_number_def table s [symmetric] base_def using fl
    by (simp only: Let_def case_prod_beta)
  have p: "k < n \<Longrightarrow> countdown (int n - int k) = n - k" for k
    using assms(3) by (subst countdown_small) (simp_all add: nat_int_minus)
  have p0: "length digits < n \<Longrightarrow> countdown (int n - int (length digits)) = n - length digits"
    and p1: "Suc (length digits) < n \<Longrightarrow> countdown (int n - (1 + int (length digits))) = n - Suc (length digits)"
    using p [of "length digits"] p [of "Suc (length digits)"] by simp_all
  show ?thesis
  proof (cases "sign = 0")
    case True
    then show ?thesis
      using assms(2) unfolding wn n
      by (simp add: write_chars_emit write_char_emit emit_emit padded_def t Let_def p0)
  next
    case False
    then show ?thesis
      using assms(2) unfolding wn n
      by (simp add: write_chars_emit write_char_emit emit_emit padded_def t p1 Let_def add.commute)
  qed
qed

section \<open>Writing text\<close>

lemma text_length_all:
  assumes "ahead t i (as @ [0])" and "0 \<notin> set as"
  shows "text_length t None i = Inr (i + int (length as))"
  using assms
proof (induction as arbitrary: i)
  case Nil
  then show ?case by (subst text_length.simps) simp
next
  case (Cons a as)
  from Cons.prems have "ahead t (i + 1) (as @ [0])" using ahead_next by fastforce
  from Cons.IH [OF this] Cons.prems show ?case by (subst text_length.simps) simp
qed

lemma text_length_limit:
  assumes "ahead t i (as @ [0])" and "0 \<notin> set as" and "i \<le> m"
  shows "text_length t (Some m) i = Inr (min (i + int (length as)) m)"
  using assms
proof (induction as arbitrary: i)
  case Nil
  then show ?case by (subst text_length.simps) simp
next
  case (Cons a as)
  from Cons.prems have "ahead t (i + 1) (as @ [0])" using ahead_next by fastforce
  from Cons.IH [OF this] Cons.prems show ?case by (subst text_length.simps) (auto simp: min_def)
qed

lemma write_text_padded:
  assumes "flag fl FORMAT_FLAG_ZERO_PAD = zeros f" and "flag fl FORMAT_FLAG_LEFT_JUSTIFY = left f"
    and "flag fl FORMAT_FLAG_SIZE_GIVEN = (n \<noteq> 0)" and "0 \<notin> set t" and "out_ok fin b" and "n < 2 ^ 31"
  shows "write_text (Some (t @ [0])) (int n) fl fin b = Inr (emit (if n = 0 then t else padded f n (take n t)) fin b)"
proof -
  have a: "ahead (t @ [0]) 0 (t @ [0])" by (simp add: ahead_def)
  note l = text_length_all [OF a assms(4)] text_length_limit [OF a assms(4)]
  have p: "countdown (c_int (int n - min (int (length t)) (int n))) = n - length (take n t)"
    using assms(6) by (subst c_int_small; (subst countdown_small)?) (auto simp: min_def nat_int_minus)
  have q: "take (nat (min (int (length t)) (int n))) t = take n t"
    by (cases "length t \<le> n") simp_all
  show ?thesis
    using assms(1-3,5)
    by (simp add: write_text_def l Let_def write_chars_emit emit_emit padded_def p q)
qed

section \<open>Printing a format\<close>

definition directive_flags :: "format_flags \<Rightarrow> nat \<Rightarrow> u32" where
  "directive_flags f n = (if n = 0 then flag_word f else flag_word f OR FORMAT_FLAG_SIZE_GIVEN)"

text \<open>What \<open>format_loop\<close> does at a brace, up to the letter that decides.\<close>

lemma read_directive:
  assumes "ahead string off (0x7B # flag_bytes f @ width_bytes n @ k # cs)" and "0x60 < k \<or> k = 0x48" and "n < 2 ^ 31"
  shows "\<exists>off1 off2 c cs'. read_flags string off 0 0 args = Inr (off1, flag_word f, 0, args) \<and>
    ahead string off1 (c # cs') \<and> (0x30 \<le> c \<and> c \<le> 0x39 \<longleftrightarrow> n \<noteq> 0) \<and>
    read_width string off1 0 = Inr (off2, int n) \<and> ahead string off2 (k # cs)"
proof -
  have k: "k \<notin> {0x30, 0x3C, 0x2B, 0x20, 0x5F}" "\<not> (0x30 \<le> k \<and> k \<le> 0x39)"
    using assms(2) by (auto simp: word_less_nat_alt word_le_nat_alt)
  have a: "ahead string (off + 1) (flag_bytes f @ width_bytes n @ k # cs)"
    using assms(1) ahead_next by fastforce
  show ?thesis
  proof (cases "n = 0")
    case True
    from read_flags_bytes [OF _ k(1), of string off f cs args] a True obtain off1 where
      1: "read_flags string off 0 0 args = Inr (off1, flag_word f, 0, args)" "ahead string off1 (k # cs)"
      by (auto simp: width_bytes_def)
    moreover have "read_width string off1 0 = Inr (off1, 0)"
      using read_width_digits [of string off1 "[]" k cs 0] 1(2) k(2) by simp
    ultimately show ?thesis using True k(2) by (intro exI [of _ off1] exI [of _ k] exI [of _ cs]) auto
  next
    case False
    define ds where "ds = numeral_digits 10 n"
    have ds: "ds \<noteq> []" "hd ds \<noteq> 0" "\<forall>d\<in>set ds. d < 10" "foldl (\<lambda>v d. 10 * v + d) 0 ds = n"
      using False numeral_digits_hd [of n 10] numeral_digits_below [of 10 n] numeral_digits_value [of 10 n] by (simp_all add: ds_def)
    then obtain d rest where d: "ds = d # rest" "0 < d" "d < 10" by (cases ds) auto
    note c = decimal_char [OF d(3)]
    have "uint (digit d) \<noteq> 48" "uint (digit d) < 58" "48 \<le> uint (digit d)" using c d(2,3) by auto
    then have "digit d \<notin> {0x30, 0x3C, 0x2B, 0x20, 0x5F}" by auto
    moreover have "ahead string (off + 1) (flag_bytes f @ digit d # map digit rest @ k # cs)"
      using a False d(1) by (simp add: width_bytes_def flip: ds_def)
    ultimately obtain off1 where
      1: "read_flags string off 0 0 args = Inr (off1, flag_word f, 0, args)"
      "ahead string off1 (digit d # map digit rest @ k # cs)"
      using read_flags_bytes by blast
    then have a1: "ahead string off1 (map digit ds @ k # cs)" using d(1) by simp
    have "read_width string off1 0 = Inr (off1 + int (length ds), int n)"
      using read_width_digits [OF a1 ds(3) k(2), of 0] ds(4) assms(3) by simp
    moreover have "ahead string (off1 + int (length ds)) (k # cs)" using ahead_skip [OF a1] by simp
    ultimately show ?thesis using 1 c False by blast
  qed
qed

lemma format_directive:
  assumes "ahead string off (0x7B # flag_bytes f @ width_bytes n @ k # (if big then [0x6C] else []) @ 0x7D # cs)"
    and "0x60 < k \<or> k = 0x48" and "n < 2 ^ 31"
    and "write_directive k (if big then directive_flags f n OR FORMAT_FLAG_BIG_NUMBER else directive_flags f n)
      (int n) args fin b = Inr (args', b')"
  shows "\<exists>off'. format_loop string off args fin b = format_loop string off' args' fin b' \<and> ahead string off' cs"
proof -
  from read_directive [of string off f n k "(if big then [0x6C] else []) @ 0x7D # cs" args] assms(1-3)
  obtain off1 off2 c cs' where r: "read_flags string off 0 0 args = Inr (off1, flag_word f, 0, args)"
    "ahead string off1 (c # cs')" "0x30 \<le> c \<and> c \<le> 0x39 \<longleftrightarrow> n \<noteq> 0" "read_width string off1 0 = Inr (off2, int n)"
    "ahead string off2 (k # (if big then [0x6C] else []) @ 0x7D # cs)" by auto
  define off3 where "off3 = (if big then off2 + 2 else off2 + 1)"
  note n = ahead_next [OF r(5)]
  have l: "get_byte string (off2 + 1) = Inr (if big then 0x6C else 0x7D)"
    using n by (cases big) (auto dest: ahead_get)
  have a3: "ahead string off3 (0x7D # cs)"
    using n ahead_next [of string "off2 + 1" "0x6C" "0x7D # cs"] by (cases big) (simp_all add: off3_def add.commute)
  have fl: "(if 0x30 \<le> c \<and> c \<le> 0x39 then flag_word f OR FORMAT_FLAG_SIZE_GIVEN else flag_word f) = directive_flags f n"
    using r(3) by (simp add: directive_flags_def)
  have "format_loop string off args fin b = format_loop string (off3 + 1) args' fin b'"
    using assms(1,4) ahead_get [OF r(2)] ahead_get [OF r(5)] ahead_get [OF a3] r(1,4) l
    by (subst format_loop.simps) (cases big; simp add: fl off3_def)
  then show ?thesis using ahead_next [OF a3] by blast
qed

lemma flag_word_flags [simp]:
  "flag (flag_word f) 1 = zeros f" "flag (flag_word f) 8 = left f" "flag (flag_word f) 4 = plus f"
  "flag (flag_word f) 2 = no_sign f" "\<not> flag (flag_word f) 16" "\<not> flag (flag_word f) 32"
  "\<not> flag (flag_word f) 64" "\<not> flag (flag_word f) 128" "\<not> flag (flag_word f) 256" "\<not> flag (flag_word f) 512"
  by (simp_all add: flag_word_def)

definition kind_flags :: "number_kind \<Rightarrow> u32" where
  "kind_flags kind = (case kind of
     Unsigned \<Rightarrow> 0 | Signed \<Rightarrow> FORMAT_FLAG_SIGNED | Hex \<Rightarrow> FORMAT_FLAG_HEX
   | Hex_capital \<Rightarrow> FORMAT_FLAG_HEX OR FORMAT_FLAG_UPPERCASE | Binary \<Rightarrow> FORMAT_FLAG_BINARY)"

lemma number_flags_directive:
  "number_flags ((if big then directive_flags f n OR FORMAT_FLAG_BIG_NUMBER else directive_flags f n) OR kind_flags kind) f kind big"
  by (cases kind; cases big; simp add: number_flags_def directive_flags_def kind_flags_def del: One_nat_def)

lemma write_directive_number:
  assumes "out_ok fin b" and "n < 2 ^ 31"
  shows "write_directive (kind_byte kind) (if big then directive_flags f n OR FORMAT_FLAG_BIG_NUMBER else directive_flags f n)
      (int n) ((if big then Va_long v else Va_int (ucast v)) # args) fin b =
    Inr (args, emit (padded f n (number_text f kind big v)) fin b)"
proof -
  have d: "\<not> flag (directive_flags f n) 512" by (simp add: directive_flags_def)
  note w = write_number_text [OF number_flags_directive [of big f n kind] assms, of v]
  show ?thesis
  proof (cases big)
    case True
    then show ?thesis
      using w by (cases kind)
        (simp_all add: write_directive_def read_number_def kind_flags_def number_arg_def va_long_def or.assoc)
  next
    case False
    then show ?thesis
      using w d by (cases kind)
        (simp_all add: write_directive_def read_number_def kind_flags_def number_arg_def va_int_def or.assoc)
  qed
qed

lemma piece_step:
  assumes "piece_ok p" and "ahead string off (piece_bytes p @ cs)" and "out_ok fin b"
  shows "\<exists>off'. format_loop string off (piece_args p @ args) fin b = format_loop string off' args fin (emit (piece_text p) fin b) \<and>
    ahead string off' cs"
proof (cases p)
  case (Literal c)
  then have "ahead string off (c # cs)" "c \<noteq> 0" "c \<noteq> 0x7B" using assms(1,2) by simp_all
  then show ?thesis
    using Literal assms(3) ahead_next by (subst format_loop.simps) (fastforce simp: write_char_emit)
next
  case Brace
  show ?thesis
    using format_directive [of string off "\<lparr>zeros = False, left = False, plus = False, no_sign = False\<rparr>" 0 "0x7B" False cs
        args fin b args "emit [0x7B] fin b"] assms(2,3) Brace
    by (simp add: flag_bytes_def width_bytes_def write_directive_def write_char_emit)
next
  case (Character c)
  have "(ucast (ucast c :: u32) :: u8) = c" by (rule bit_word_eqI) (simp add: bit_simps)
  then show ?thesis
    using format_directive [of string off "\<lparr>zeros = False, left = False, plus = False, no_sign = False\<rparr>" 0 "0x63" False cs
        "Va_int (ucast c) # args" fin b args "emit [c] fin b"] assms(2,3) Character
    by (simp add: flag_bytes_def width_bytes_def write_directive_def write_char_emit va_int_def)
next
  case (Text f n t)
  have "write_text (Some (t @ [0])) (int n) (directive_flags f n) fin b = Inr (emit (piece_text p) fin b)"
    using write_text_padded [of "directive_flags f n" f n t fin b] assms(1,3) Text by (simp add: directive_flags_def)
  then show ?thesis
    using format_directive [of string off f n "0x74" False cs "Va_text (Some (t @ [0])) # args" fin b args] assms(1,2) Text
    by (simp add: write_directive_def va_text_def)
next
  case (Number f n kind big v)
  have k: "0x60 < kind_byte kind \<or> kind_byte kind = 0x48" by (cases kind) simp_all
  have n: "n < 2 ^ 31" using assms(1) Number by simp
  from format_directive [OF _ k n write_directive_number [OF assms(3) n], of string off f big cs v args] assms(2) Number
  show ?thesis by simp
qed

lemma format_loop_prefix:
  assumes "\<forall>p\<in>set ps. piece_ok p" and "ahead string off (concat (map piece_bytes ps) @ cs)" and "out_ok fin b"
  shows "\<exists>off'. format_loop string off (concat (map piece_args ps) @ args) fin b =
      format_loop string off' args fin (emit (concat (map piece_text ps)) fin b) \<and> ahead string off' cs"
  using assms
proof (induction ps arbitrary: off b)
  case (Cons p ps)
  from piece_step [of p string off "concat (map piece_bytes ps) @ cs" fin b "concat (map piece_args ps) @ args"] Cons.prems
  obtain off' where o: "format_loop string off (concat (map piece_args (p # ps)) @ args) fin b =
      format_loop string off' (concat (map piece_args ps) @ args) fin (emit (piece_text p) fin b)"
    "ahead string off' (concat (map piece_bytes ps) @ cs)" by auto
  have ps: "\<forall>p\<in>set ps. piece_ok p" using Cons.prems(1) by simp
  from Cons.IH [OF ps o(2) emit_ok [OF Cons.prems(3)]] Cons.prems(3) show ?case unfolding o(1) by (simp add: emit_emit)
qed auto

lemma emit_start:
  assumes "0 \<le> n" and "n \<le> int (length buffer)"
  shows "emit cs n (buffer, 0) = (take (nat n) cs @ drop (length (take (nat n) cs)) buffer, int (length (take (nat n) cs)))"
  by (simp add: emit_def upd_def)

text \<open>
  Property C17: \<open>format_string\<close> prints every format of literal characters, escaped braces, characters,
  texts with optional width, justification and zero padding, and decimal, hexadecimal and binary
  numbers of 32 or 64 bits with optional sign flags, with widths that fit in an \<open>int\<close>, exactly as the
  reference \<open>piece_text\<close> says: it writes the first \<open>buffer_size\<close> bytes of that text, nothing behind them, and returns their number.
\<close>

theorem format_string_prints:
  assumes "\<forall>p\<in>set ps. piece_ok p" and "0 \<le> n" and "n \<le> int (length buffer)"
  shows "format_string (concat (map piece_bytes ps) @ [0]) buffer n (concat (map piece_args ps)) =
    (let out = take (nat n) (concat (map piece_text ps)) in Inr (out @ drop (length out) buffer, int (length out)))"
proof -
  let ?string = "concat (map piece_bytes ps) @ [0]"
  have "ahead ?string 0 ?string" by (simp add: ahead_def)
  from format_loop_prefix [OF assms(1) this, of n "(buffer, 0)" "[]"] assms(2,3) obtain off where
    "format_loop ?string 0 (concat (map piece_args ps)) n (buffer, 0) =
      format_loop ?string off [] n (emit (concat (map piece_text ps)) n (buffer, 0))" "ahead ?string off [0]"
    by (auto simp: out_ok_def)
  then show ?thesis
    using assms(2,3) by (simp add: format_string_def emit_start Let_def format_loop.simps [of ?string off])
qed

theorem format_string_prints_witness:
  "format_string [0x7B, 0x34, 0x73, 0x7D, 0] [9, 9, 9, 9, 9, 9, 9, 9] 8 [Va_int 0xFFFFFFF4] = Inr ([0x20, 0x2D, 0x31, 0x32, 9, 9, 9, 9], 4)"
proof -
  let ?f = "\<lparr>zeros = False, left = False, plus = False, no_sign = False\<rparr>"
  have "numeral_digits 10 4 = [4]" "numeral_digits 10 12 = [1, 2]" "sint (0xFFFFFFF4 :: u32) = - 12"
    by (simp_all add: numeral_digits.simps)
  then show ?thesis
    using format_string_prints [of "[Number ?f 4 Signed False 0xFFFFFFF4]" 8 "[9, 9, 9, 9, 9, 9, 9, 9]"]
    by (simp add: flag_bytes_def width_bytes_def digit_def padded_def number_text_def number_value_def)
qed

section \<open>Any format\<close>

lemma write_chars_some: "out_ok fin b \<Longrightarrow> write_chars cs fin b = Inr b' \<Longrightarrow> \<exists>cs. b' = emit cs fin b"
  by (auto simp: write_chars_emit)

definition emits :: "int \<Rightarrow> out_ptr \<Rightarrow> out_ptr result \<Rightarrow> bool" where
  "emits fin b r \<longleftrightarrow> (case r of Inl _ \<Rightarrow> True | Inr b' \<Rightarrow> \<exists>cs. b' = emit cs fin b)"

lemma emits_Inl [simp]: "emits fin b (Inl e)"
  by (simp add: emits_def)

lemma emits_Inr: "emits fin b (Inr b') \<longleftrightarrow> (\<exists>cs. b' = emit cs fin b)"
  by (simp add: emits_def)

lemma emits_refl [simp]: "emits fin b (Inr b)"
  unfolding emits_Inr by (rule exI [of _ "[]"]) simp

lemma emits_chars [simp]: "out_ok fin b \<Longrightarrow> emits fin b (write_chars cs fin b)" "out_ok fin b \<Longrightarrow> emits fin b (write_char c fin b)"
  by (auto simp: write_chars_emit write_char_emit emits_Inr)

lemma emits_bindR:
  assumes "out_ok fin b" and "emits fin b r" and "\<And>b'. out_ok fin b' \<Longrightarrow> emits fin b' (k b')"
  shows "emits fin b (bindR r k)"
proof (cases r)
  case (Inr b1)
  then obtain cs where b1: "b1 = emit cs fin b" using assms(2) by (auto simp: emits_Inr)
  have "emits fin b1 (k b1)" using assms(1,3) b1 by simp
  then have "emits fin b (k b1)" using b1 assms(1) by (cases "k b1") (auto simp: emits_Inr emit_emit)
  then show ?thesis using Inr by simp
qed simp

lemma emits_value: "(\<And>x. r = Inr x \<Longrightarrow> emits fin b (k x)) \<Longrightarrow> emits fin b (bindR r k)"
  by (cases r) simp_all

lemma write_number_emits: "out_ok fin b \<Longrightarrow> emits fin b (write_number v width flags fin b)"
  unfolding write_number_def Let_def case_prod_beta
  by (intro emits_value emits_bindR) simp_all

lemma write_text_emits: "out_ok fin b \<Longrightarrow> emits fin b (write_text txt width flags fin b)"
  unfolding write_text_def Let_def by (intro emits_value emits_bindR) simp_all

lemma bindR_return [simp]: "bindR r Inr = r"
  by (cases r) simp_all

lemma write_directive_emits:
  assumes "out_ok fin b"
  shows "emits fin b (bindR (write_directive c flags width args fin b) (\<lambda>(_, b). Inr b))"
  using assms write_number_emits [OF assms] write_text_emits [OF assms]
  unfolding write_directive_def Let_def case_prod_beta
  by (simp add: bindR_if bindR_assoc) (intro conjI impI emits_value; simp)

lemma emits_pair:
  assumes "out_ok fin b" and "emits fin b (bindR r (\<lambda>(_, b). Inr b))"
    and "\<And>a b'. r = Inr (a, b') \<Longrightarrow> out_ok fin b' \<Longrightarrow> emits fin b' (k (a, b'))"
  shows "emits fin b (bindR r k)"
proof (cases r)
  case (Inr x)
  obtain a b1 where x: "x = (a, b1)" by (rule prod.exhaust)
  from assms(2) Inr x obtain cs where b1: "b1 = emit cs fin b" by (auto simp: emits_Inr)
  have "emits fin b1 (k (a, b1))" using assms(1,3) Inr x b1 by simp
  then have "emits fin b (k (a, b1))" using b1 assms(1) by (cases "k (a, b1)") (auto simp: emits_Inr emit_emit)
  then show ?thesis using Inr x by simp
qed simp

lemma format_loop_emits: "out_ok fin b \<Longrightarrow> emits fin b (format_loop string off args fin b)"
proof (induction "nat (int (length string) - off)" arbitrary: off args b rule: less_induct)
  case less
  have IH: "emits fin b' (format_loop string off' args' fin b')"
    if "off < off'" "get_byte string off = Inr c" "out_ok fin b'" for off' args' b' c
    using get_byte_within [OF that(2)] that(1) by (intro less.hyps that(3)) simp
  have rest: "emits fin b (bindR (get_byte string off2) (\<lambda>c. bindR (get_byte string (off2 + 1)) (\<lambda>l.
      bindR (write_directive c (if l = 0x6C then fl1 else fl2) width args fin b) (\<lambda>(args, b). bindR (get_byte string (if l = 0x6C then off2 + 2 else off2 + 1)) (\<lambda>e.
      format_loop string (if e = 0x7D then (if l = 0x6C then off2 + 2 else off2 + 1) + 1
        else (if l = 0x6C then off2 + 2 else off2 + 1)) args fin b)))))"
    if "off < off2" "get_byte string off = Inr c" for off2 fl1 fl2 width args c
    by (intro emits_value emits_pair [OF less.prems write_directive_emits [OF less.prems]])
      (use that less.prems in \<open>auto intro!: emits_value IH\<close>)
  show ?case
  proof (subst format_loop.simps, rule emits_value)
    fix c assume c: "get_byte string off = Inr c"
    consider "c = 0" | "c \<noteq> 0" "c \<noteq> 0x7B" | "c = 0x7B" by blast
    then show "emits fin b (if c = 0 then Inr b else if c \<noteq> 0x7B then bindR (write_char c fin b) (\<lambda>b. format_loop string (off + 1) args fin b)
      else bindR (read_flags string off 0 0 args) (\<lambda>(off1, flags, width, args).
       bindR (get_byte string off1) (\<lambda>c.
       let flags = (if 0x30 \<le> c \<and> c \<le> 0x39 then flags OR FORMAT_FLAG_SIZE_GIVEN else flags) in
       bindR (read_width string off1 width) (\<lambda>(off2, width).
       bindR (get_byte string off2) (\<lambda>c.
       bindR (get_byte string (off2 + 1)) (\<lambda>l.
       let (flags, off3) = (if l = 0x6C then (flags OR FORMAT_FLAG_BIG_NUMBER, off2 + 2) else (flags, off2 + 1)) in
       bindR (write_directive c flags width args fin b) (\<lambda>(args, b).
       bindR (get_byte string off3) (\<lambda>e.
       format_loop string (if e = 0x7D then off3 + 1 else off3) args fin b))))))))"
    proof cases
      case 2
      then show ?thesis
        using less.prems c by (auto intro!: emits_bindR IH)
    next
      case 3
      have eq: "(let (flags, off3) = (if l = 0x6C then (fl1, o1) else (fl2, o2)) in g flags off3) =
          g (if l = 0x6C then fl1 else fl2) (if l = 0x6C then o1 else o2)" for l :: u8 and fl1 fl2 :: u32 and o1 o2 :: int and g :: "u32 \<Rightarrow> int \<Rightarrow> out_ptr result"
        by simp
      show ?thesis
        unfolding eq using 3 c
        by (simp only: if_not_P if_P simp_thms Let_def) (auto intro!: emits_value rest [OF _ c] dest!: read_flags_advance read_width_advance)
    qed simp
  qed
qed

text \<open>
  Property C28: whatever the format and the arguments are, when \<open>format_string\<close> returns it has written
  at most \<open>buffer_size\<close> bytes, exactly as many as it returns, and left the rest of the buffer alone.
  A format that ends with an opening brace makes it read past the end of the format string.
\<close>

theorem format_string_bounded:
  assumes "0 \<le> n" and "n \<le> int (length buffer)"
  shows "(case format_string string buffer n args of
      Inl _ \<Rightarrow> True
    | Inr (d, m) \<Rightarrow> 0 \<le> m \<and> m \<le> n \<and> length d = length buffer \<and> drop (nat m) d = drop (nat m) buffer) \<and>
    format_string [0x7B, 0] buffer n args = Inl Fault"
proof -
  have ok: "out_ok n (buffer, 0)" using assms by (simp add: out_ok_def)
  have "format_string [0x7B, 0] buffer n args = Inl Fault"
    by (simp add: format_string_def format_loop.simps read_flags.simps read_width.simps get_byte_def in_range_def)
  then show ?thesis
    using format_loop_emits [OF ok, of string 0 args] assms
    by (auto simp: format_string_def emits_def emit_start split: sum.splits)
qed

theorem format_string_bounded_witness:
  "format_string [0x7B, 0] [1, 2, 3] 2 [] = Inl Fault"
  using format_string_bounded [of 2 "[1, 2, 3]"] by simp

end
