(* ===== verification/Listening.thy ===== *)
theory Listening
  imports Stack_Invariant
begin

text \<open>
  Which connections are open, on which port and with which bound on their queue, is decided by
  \<open>udp_listen\<close> alone: a round of the stack leaves it as it is.
\<close>

section \<open>The open connections\<close>

definition listening :: "('e, 'h) libs \<Rightarrow> ('e, 'h, 'z) udp_state_scheme \<Rightarrow> (nat \<times> u16 \<times> int) list" where
  "listening X w = map (\<lambda>c. (c, port (connections w c), max_packet_count (connections w c))) (used_connections X w)"

lemma find_connection_listening:
  "find_connection X prt w = map_option fst (find (\<lambda>(c, q, m). q = prt) (listening X w))"
proof -
  have "find P xs = map_option fst (find (\<lambda>(c, q, m). q = prt) (map (\<lambda>c. (c, f c, g c)) xs))"
    if "P = (\<lambda>c. f c = prt)" for P :: "nat \<Rightarrow> bool" and f :: "nat \<Rightarrow> u16" and g :: "nat \<Rightarrow> int" and xs
    using that by (induction xs) auto
  then show ?thesis by (simp add: find_connection_def listening_def used_connections_def)
qed

lemma same_listening:
  assumes "listening X w' = listening X w"
  shows "used_connections X w' = used_connections X w" and "find_connection X prt w' = find_connection X prt w"
    and "c \<in> set (used_connections X w) \<Longrightarrow> max_packet_count (connections w' c) = max_packet_count (connections w c)"
proof -
  show u: "used_connections X w' = used_connections X w"
    using arg_cong [OF assms, of "map fst"] by (simp add: listening_def comp_def)
  show "find_connection X prt w' = find_connection X prt w" using assms by (simp add: find_connection_listening)
  show "max_packet_count (connections w' c) = max_packet_count (connections w c)" if "c \<in> set (used_connections X w)"
    using assms that by (auto simp: listening_def u)
qed

lemma listening_cong:
  "used_connections X w' = used_connections X w \<Longrightarrow> (\<And>c. port (connections w' c) = port (connections w c)) \<Longrightarrow>
   (\<And>c. max_packet_count (connections w' c) = max_packet_count (connections w c)) \<Longrightarrow> listening X w' = listening X w"
  by (simp add: listening_def)

lemma listening_same:
  "connections w' = connections w \<Longrightarrow> connection_lists w' = connection_lists w \<Longrightarrow> listening X w' = listening X w"
  by (rule listening_cong) (simp_all add: used_connections_def)

lemma listening_frame [simp]:
  "listening X (set_packet p f w) = listening X w" "listening X (free_network_packet X p w) = listening X w"
  "listening X (w\<lparr>env := v\<rparr>) = listening X w" "listening X (w\<lparr>packet_lists := h\<rparr>) = listening X w"
  by (rule listening_same; simp add: set_packet_def)+

lemma listening_set_connection:
  "port (f (connections w c)) = port (connections w c) \<Longrightarrow>
   max_packet_count (f (connections w c)) = max_packet_count (connections w c) \<Longrightarrow>
   listening X (set_connection c f w) = listening X w"
  by (rule listening_cong) auto

lemma listening_arp_frame: "arp_frame X w w' \<Longrightarrow> listening X w' = listening X w"
  by (rule listening_same) (auto simp: arp_frame_def dest: udp_fields_of_more)


lemma listening_local [simp]:
  "listening X (set_dhcp f w) = listening X w" "listening X (w\<lparr>options := v\<rparr>) = listening X w"
  "listening X (enter s w) = listening X w" "listening X (reset_backoff w) = listening X w"
  "listening X (set_our_ip ip w) = listening X w" "listening X (set_our_netmask m w) = listening X w"
  by (rule listening_same;
      simp add: set_dhcp_def enter_def reset_backoff_def set_our_ip_def set_our_netmask_def)+

section \<open>Calls\<close>

lemma deliver_listening: "deliver X c p w = Inr w' \<Longrightarrow> listening X w' = listening X w"
  by (auto simp: deliver_def Let_def listening_set_connection split: prod.splits option.splits if_splits)

lemma handle_udp_listening: "handle_udp X p w = Inr w' \<Longrightarrow> listening X w' = listening X w"
  by (auto simp: handle_udp_def Let_def set_packet_set_packet bindR_eq_Inr_iff dest!: deliver_listening
      split: option.splits if_splits)

lemma gmac_receive_listening:
  assumes "gmac_receive X w = Inr (r, w')"
  shows "listening X w' = listening X w"
  by (rule listening_same; subst gmac_receive_shape [OF assms]) simp_all

context intrusive_list
begin

lemma handle_ip_listening:
  assumes "udp_inv X ok (add_mset p H) w" and "packet_ok (packets w p)" and "index (packets w p) = 14"
    and "14 + plength (packets w p) < NETWORK_PACKET_SIZE" and "answerable X 14 p w" and "handle_ip X p w = Inr w'"
  shows "listening X w' = listening X w"
proof (cases rule: handle_ip_cases [OF assms(2-4), of X, case_names freed udp icmp])
  case (freed f)
  then show ?thesis using assms(6) by auto
next
  case (udp f)
  then show ?thesis using assms(6) handle_udp_listening [of X p "set_packet p f w" w'] by simp
next
  case (icmp f b)
  note a = answerable_reply [OF assms(5) icmp(6,5,7)]
  have "udp_inv X ok (add_mset p H) (set_packet p f w)" using udp_inv_set_packet [of p H w f, OF assms(1)] icmp(2) by simp
  then have "safe (handle_icmp X p (set_packet p f w)) (\<lambda>w'. arp_inv X ok H w' \<and> arp_frame X (set_packet p f w) w')"
    by (intro handle_icmp_arp_safe) (use icmp a in \<open>simp_all add: udp_inv_def\<close>)
  from safeD [OF this] show ?thesis using assms(6) icmp(1) by (auto dest!: listening_arp_frame)
qed

lemma handle_mac_listening:
  assumes "udp_inv X ok (add_mset p H) w" and "packet_ok (packets w p)" and "index (packets w p) = 0"
    and "acceptable X p w" and "handle_mac X p w = Inr w'"
  shows "listening X w' = listening X w"
proof -
  have ac: "plength (packets w p) < NETWORK_PACKET_SIZE" "read_be16 (data (packets w p)) 12 = Inr ETHER_TYPE_IPV4 \<longrightarrow> answerable X 14 p w"
    using assms(4) by (simp_all add: acceptable_def)
  have d: "data (mac_payload (packets w p)) = data (packets w p)" by (simp add: mac_payload_def)
  let ?w = "set_packet p mac_payload w"
  note i = udp_inv_set_packet [of p H w mac_payload, OF assms(1), simplified d, OF refl]
  show ?thesis
  proof (cases rule: handle_mac_cases [OF assms(2,3) ac(1), of X, case_names freed arp ip])
    case (freed f)
    then show ?thesis using assms(5) by auto
  next
    case arp
    have "safe (handle_arp X p ?w) (\<lambda>w'. arp_inv X ok H w' \<and> arp_frame X ?w w')"
      by (rule handle_arp_safe) (use i arp in \<open>simp_all add: udp_inv_def\<close>)
    from safeD [OF this] show ?thesis using assms(5) arp(1) by (auto dest!: listening_arp_frame)
  next
    case ip
    have "listening X w' = listening X ?w"
      by (rule handle_ip_listening [OF i(1)]) (use ip ac d assms(5) in \<open>simp_all add: answerable_set_packet\<close>)
    then show ?thesis by simp
  qed
qed

lemma receive_packets_listening:
  assumes "udp_inv X ok H w" and "acceptable_frames X n w" and "receive_packets X n w = Inr w'"
  shows "listening X w' = listening X w"
  using assms
proof (induction n arbitrary: w)
  case (Suc n)
  obtain r w1 where g: "gmac_receive X w = Inr (r, w1)" using Suc.prems(3) by (auto simp: bindR_eq_Inr_iff)
  note l = gmac_receive_listening [OF g]
  show ?case
  proof (cases r)
    case (Some p)
    have post: "udp_inv X ok (add_mset p H) w1" "packet_ok (packets w1 p)" "index (packets w1 p) = 0"
      using safeD [OF receive_udp_safe [OF Suc.prems(1)] g] Some by auto
    obtain w2 where m: "handle_mac X p w1 = Inr w2" and t: "receive_packets X n w2 = Inr w'"
      using Suc.prems(3) g Some by (auto simp: bindR_eq_Inr_iff)
    have ac: "acceptable X p w1" and rest: "acceptable_frames X n w2" using Suc.prems(2) g Some m by auto
    have "udp_inv X ok H w2" using safeD [OF handle_mac_safe [OF post] m] ac by (simp add: acceptable_def)
    then show ?thesis using Suc.IH rest t handle_mac_listening [OF post ac m] l by simp
  qed (use Suc.prems(3) g l in simp)
qed simp


lemma now_listening: "now X w = (t, w') \<Longrightarrow> listening X w' = listening X w"
  by (subst now_env) simp_all

lemma udp_receive_listening:
  "udp_receive_zero_copy X prt w = Inr (r, w') \<Longrightarrow> listening X w' = listening X w"
  by (auto simp: udp_receive_zero_copy_def listening_set_connection split: option.splits prod.splits if_splits)

lemma dhcp_read_listening:
  assumes "dhcp_read X w = Inr (r, w')"
  shows "listening X w' = listening X w"
  using assms unfolding dhcp_read_def bindR_eq_Inr_iff Let_def
  by (auto simp: bindR_eq_Inr_iff dest!: udp_receive_listening split: option.splits if_splits)

lemma try_read_listening:
  "try_read_offer X w = Inr (offer, w') \<Longrightarrow> listening X w' = listening X w"
  "try_read_ack X w = Inr (r, w') \<Longrightarrow> listening X w' = listening X w"
  by (auto simp: try_read_offer_def try_read_ack_def bindR_eq_Inr_iff Let_def
      dest!: dhcp_read_listening now_listening split: prod.splits if_splits)

lemma resend_listening:
  assumes "arp_inv X ok H w" and "resend X t w = Inr w'"
  shows "listening X w' = listening X w"
proof -
  obtain expired w1 where b: "backoff_timeout X (dhcp_backoff (dhcp w)) w = (expired, w1)" by fastforce
  have e: "w1 = w\<lparr>env := env w1\<rparr>" by (rule backoff_timeout_env [OF b])
  have i: "arp_inv X ok H w1" and c: "listening X w1 = listening X w" using assms(1) by (subst e; simp)+
  have s: "listening X w2 = listening X w" if "dhcp_send_packet X t w1 = Inr w2" for w2
    using safeD [OF dhcp_send_packet_safe [OF i] that] c by (auto dest: listening_arp_frame)
  have n: "listening X w3 = listening X w2" if "next_backoff X k w2 = Inr (k', w3)" for w2 w3 k k'
    by (subst next_backoff_env [OF that]) simp
  show ?thesis using assms(2) b c by (auto simp: resend_def bindR_eq_Inr_iff dest!: s n split: if_splits)
qed

lemma dhcp_task_listening:
  assumes "arp_inv X ok H w" and "dhcp_task X w = Inr w'"
  shows "listening X w' = listening X w"
proof -
  have r: "listening X w2 = listening X w1" if "now X w = (t, w1)" "resend X k w1 = Inr w2" for t k w1 w2
    by (rule resend_listening [OF _ that(2), of H], subst now_env [OF that(1)]) (simp add: assms(1))
  have r2: "listening X w2 = listening X w1" if "now X w = (t, w1)" "resend X k (enter s w1) = Inr w2" for t k w1 w2 s
  proof -
    have "arp_inv X ok H w1" by (subst now_env [OF that(1)]) (simp add: assms(1))
    then have "arp_inv X ok H (enter s w1)" by (simp add: arp_inv_def enter_def)
    from resend_listening [OF this that(2)] show ?thesis by simp
  qed
  note [dest!] = try_read_listening now_listening
  show ?thesis
    using assms(2) resend_listening [OF assms(1)] r r2
    by (cases "dhcp_status (dhcp w)")
      (auto simp: dhcp_task_def bindR_eq_Inr_iff Let_def renewing_expired_def rebinding_expired_def
        split: prod.splits option.splits bool.splits if_splits)
qed

lemma network_task_listening:
  assumes "udp_inv X ok H w" and "acceptable_frames X RECEIVE_DESCRIPTOR_COUNT w" and "network_task X w = Inr w'"
  shows "listening X w' = listening X w"
proof -
  obtain w1 w2 where r: "receive_packets X RECEIVE_DESCRIPTOR_COUNT w = Inr w1" and a: "arp_task X w1 = Inr w2"
    and d: "dhcp_task X w2 = Inr w'"
    using assms(3) by (auto simp: network_task_def bindR_eq_Inr_iff)
  from safeD [OF receive_packets_safe [OF assms(1,2)] r] have "arp_inv X ok H w1" by (simp add: udp_inv_def)
  from safeD [OF arp_task_safe [OF this] a] have "arp_inv X ok H w2" "listening X w2 = listening X w1"
    by (auto dest!: listening_arp_frame)
  then show ?thesis
    using dhcp_task_listening [OF _ d] receive_packets_listening [OF assms(1,2) r] by simp
qed

end

end
