(* ===== verification/Tftp_Properties.thy ===== *)
theory Tftp_Properties
  imports Udp_Properties Listening
begin

text \<open>
  The TFTP client: the messages it sends are the ones of the protocol, it keeps the invariants of the
  stack whatever arrives, and it takes the blocks of a file in their order.
\<close>

section \<open>Messages\<close>

lemma add_string_ok:
  assumes "ahead string i (t @ 0 # junk)" and "0 \<notin> set t" and "0 \<le> off" and "off + int (length t) < int (length d)"
  shows "add_string_from string i (d, off) = Inr (upd (nat off) (t @ [0]) d, off + int (length t) + 1)"
  using assms
proof (induction t arbitrary: i d off)
  case Nil
  then show ?case by (subst add_string_from.simps) (simp add: put_byte_ok)
next
  case (Cons c t)
  have a: "ahead string (i + 1) (t @ 0 # junk)" using Cons.prems(1) ahead_next by fastforce
  let ?d = "upd (nat off) [c] d"
  have p: "put_byte c d off = Inr ?d" using Cons.prems(3,4) by (intro put_byte_ok) simp_all
  have l: "length ?d = length d" using Cons.prems(3,4) by simp
  have u: "upd (nat (off + 1)) (t @ [0]) ?d = upd (nat off) (c # t @ [0]) d"
    using upd_append [of "nat (off + 1)" "nat off" "[c]" "t @ [0]" d] Cons.prems(3,4) by (simp add: nat_add_distrib)
  have "add_string_from string (i + 1) (?d, off + 1) = Inr (upd (nat (off + 1)) (t @ [0]) ?d, off + 1 + int (length t) + 1)"
    using Cons.prems l by (intro Cons.IH [OF a]) simp_all
  then show ?case
    using Cons.prems(1,2) p u by (subst add_string_from.simps) (simp add: algebra_simps)
qed

lemma add_string_literal:
  assumes "string = t @ 0 # junk" and "0 \<notin> set t" and "0 \<le> off" and "off + int (length t) < int (length d)"
  shows "add_string_followed_by_zero string (d, off) = Inr (upd (nat off) (t @ [0]) d, off + int (length t) + 1)"
  unfolding add_string_followed_by_zero_def
  by (rule add_string_ok) (use assms in \<open>simp_all add: ahead_def\<close>)

text \<open>The messages of RFC 1350 and RFC 2348: read request with block size 512, acknowledgement, error.\<close>

definition request_bytes :: "u8 list \<Rightarrow> u8 list" where
  "request_bytes name = be16_bytes TFTP_OPCODE_READ_REQUEST @ name @ [0] @ str_octet @ str_blksize @ str_512"

definition ack_bytes :: "u16 \<Rightarrow> u8 list" where
  "ack_bytes block = be16_bytes TFTP_OPCODE_ACK @ be16_bytes block"

definition error_bytes :: "u16 \<Rightarrow> u8 list \<Rightarrow> u8 list" where
  "error_bytes code message = be16_bytes TFTP_OPCODE_ERROR @ be16_bytes code @ message @ [0]"

lemma length_messages [simp]:
  "length (request_bytes name) = length name + 21" "length (ack_bytes block) = 4" "length (error_bytes code t) = length t + 5"
  by (simp_all add: request_bytes_def ack_bytes_def error_bytes_def str_octet_def str_blksize_def str_512_def)

lemma write_tftp_request_ok:
  assumes "name = t @ 0 # junk" and "0 \<notin> set t" and "0 \<le> off" and "off + int (length t) + 21 \<le> int (length d)"
  shows "write_tftp_request name off d = Inr (upd (nat off) (request_bytes t) d, off + int (length (request_bytes t)))"
proof -
  define d1 where "d1 = upd (nat off) (be16_bytes TFTP_OPCODE_READ_REQUEST) d"
  define d2 where "d2 = upd (nat (off + 2)) (t @ [0]) d1"
  define d3 where "d3 = upd (nat (off + 2 + int (length t) + 1)) str_octet d2"
  define d4 where "d4 = upd (nat (off + 2 + int (length t) + 7)) str_blksize d3"
  define d5 where "d5 = upd (nat (off + 2 + int (length t) + 15)) str_512 d4"
  note ds = d1_def d2_def d3_def d4_def d5_def
  note strs = str_octet_def str_blksize_def str_512_def
  have l: "length d1 = length d" "length d2 = length d" "length d3 = length d" "length d4 = length d"
    using assms(3,4) by (simp_all add: ds strs)
  have 1: "write_be16 TFTP_OPCODE_READ_REQUEST d off = Inr d1"
    using assms(3,4) by (simp add: d1_def be16.wr_ok)
  have 2: "add_string_followed_by_zero name (d1, off + 2) = Inr (d2, off + 2 + int (length t) + 1)"
    unfolding d2_def by (rule add_string_literal [OF assms(1,2)]) (use assms(3,4) l in simp_all)
  have 3: "add_string_followed_by_zero str_octet (d2, off + 2 + int (length t) + 1) = Inr (d3, off + 2 + int (length t) + 7)"
    using add_string_literal [of str_octet "[0x6F, 0x63, 0x74, 0x65, 0x74]" "[]" "off + 2 + int (length t) + 1" d2] assms(3,4) l
    by (simp add: d3_def strs)
  have 4: "add_string_followed_by_zero str_blksize (d3, off + 2 + int (length t) + 7) = Inr (d4, off + 2 + int (length t) + 15)"
    using add_string_literal [of str_blksize "[0x62, 0x6C, 0x6B, 0x73, 0x69, 0x7A, 0x65]" "[]" "off + 2 + int (length t) + 7" d3] assms(3,4) l
    by (simp add: d4_def strs)
  have 5: "add_string_followed_by_zero str_512 (d4, off + 2 + int (length t) + 15) = Inr (d5, off + 2 + int (length t) + 19)"
    using add_string_literal [of str_512 "[0x35, 0x31, 0x32]" "[]" "off + 2 + int (length t) + 15" d4] assms(3,4) l
    by (simp add: d5_def strs)
  have "d5 = upd (nat off) (request_bytes t) d"
    unfolding ds request_bytes_def
    by (subst upd_append, use assms(3,4) in \<open>simp_all add: strs nat_add_distrib\<close>)+
  then show ?thesis using 1 2 3 4 5 by (simp add: write_tftp_request_def)
qed

lemma write_tftp_ack_ok:
  assumes "0 \<le> off" and "off + 4 \<le> int (length d)"
  shows "write_tftp_ack block off d = Inr (upd (nat off) (ack_bytes block) d)"
proof -
  have "upd (nat (off + 2)) (be16_bytes block) (upd (nat off) (be16_bytes TFTP_OPCODE_ACK) d) = upd (nat off) (ack_bytes block) d"
    unfolding ack_bytes_def by (rule upd_append) (use assms in \<open>simp_all add: nat_add_distrib\<close>)
  then show ?thesis using assms by (simp add: write_tftp_ack_def be16.wr_ok)
qed

lemma write_tftp_error_ok:
  assumes "message = t @ 0 # junk" and "0 \<notin> set t" and "0 \<le> off" and "off + int (length t) + 5 \<le> int (length d)"
  shows "write_tftp_error code message off d = Inr (upd (nat off) (error_bytes code t) d, off + int (length (error_bytes code t)))"
proof -
  define d1 where "d1 = upd (nat off) (be16_bytes TFTP_OPCODE_ERROR) d"
  define d2 where "d2 = upd (nat (off + 2)) (be16_bytes code) d1"
  define d3 where "d3 = upd (nat (off + 4)) (t @ [0]) d2"
  note ds = d1_def d2_def d3_def
  have l: "length d1 = length d" "length d2 = length d" using assms(3,4) by (simp_all add: ds)
  have "add_string_followed_by_zero message (d2, off + 4) = Inr (d3, off + 4 + int (length t) + 1)"
    unfolding d3_def by (rule add_string_literal [OF assms(1,2)]) (use assms(3,4) l in simp_all)
  moreover have "write_be16 TFTP_OPCODE_ERROR d off = Inr d1" "write_be16 code d1 (off + 2) = Inr d2"
    using assms(3,4) l by (simp_all add: d1_def d2_def be16.wr_ok)
  moreover have "d3 = upd (nat off) (error_bytes code t) d"
    unfolding ds error_bytes_def
    by (subst upd_append, use assms(3,4) in \<open>simp_all add: nat_add_distrib\<close>)+
  ultimately show ?thesis by (simp add: write_tftp_error_def)
qed

context intrusive_list
begin

text \<open>The three messages are sent as if \<open>udp_send\<close> had been called on them.\<close>

lemma send_tftp_request_eq:
  assumes "arp_inv X ok H w" and "filename c = t @ 0 # junk" and "0 \<notin> set t" and "length t < 64"
  shows "send_tftp_request X c w =
    udp_send X (request_bytes t) (int (length (request_bytes t))) (client_port c) (server_port c) (tftp_server_ip c) w"
proof -
  have n: "0 \<le> int (length (request_bytes t))" "int (length (request_bytes t)) \<le> int (length (request_bytes t))" by simp_all
  show ?thesis
    unfolding send_tftp_request_def udp_send_eq [OF assms(1) n]
  proof (rule bindR_cong [OF refl], clarify)
    fix p w1 assume "allocate_network_packet X w = Inr (p, w1)"
    from safeD [OF arp_allocate [OF assms(1)] this] have a: "length (data (packets w1 p)) = 1024" "index (packets w1 p) = 144"
      by simp_all
    have "set_packet p (\<lambda>k. k\<lparr>data := upd 144 (request_bytes t) (data (packets w1 p)), plength := 21 + int (length t)\<rparr>) w1 =
        set_packet p (put_message (request_bytes t)) w1"
      using a by (intro set_packet_cong) (simp add: put_message_def)
    then show "(let off = index (packets w1 p) in bindR (write_tftp_request (filename c) off (data (packets w1 p))) (\<lambda>(d, pos).
        udp_send_zero_copy X p (client_port c) (server_port c) (tftp_server_ip c)
          (set_packet p (\<lambda>k. k\<lparr>data := d, plength := pos - off\<rparr>) w1))) =
      udp_send_zero_copy X p (client_port c) (server_port c) (tftp_server_ip c)
        (set_packet p (put_message (take (min (nat (int (length (request_bytes t)))) 880) (request_bytes t))) w1)"
      using write_tftp_request_ok [OF assms(2,3), of 144 "data (packets w1 p)"] assms(4) a by simp
  qed
qed

lemma ack_current_block_eq:
  assumes "arp_inv X ok H w"
  shows "ack_current_block X c w = udp_send X (ack_bytes (block_number c)) 4 (client_port c) (server_port c) (tftp_server_ip c) w"
proof -
  have n: "0 \<le> (4 :: int)" "4 \<le> int (length (ack_bytes (block_number c)))" by simp_all
  show ?thesis
    unfolding ack_current_block_def udp_send_eq [OF assms n]
  proof (rule bindR_cong [OF refl], clarify)
    fix p w1 assume "allocate_network_packet X w = Inr (p, w1)"
    from safeD [OF arp_allocate [OF assms(1)] this] have a: "length (data (packets w1 p)) = 1024" "index (packets w1 p) = 144"
      by simp_all
    have "set_packet p (\<lambda>k. k\<lparr>plength := 4\<rparr>) (set_packet p (\<lambda>k. k\<lparr>data := upd 144 (ack_bytes (block_number c)) (data (packets w1 p))\<rparr>) w1) =
        set_packet p (put_message (ack_bytes (block_number c))) w1"
      unfolding set_packet_set_packet using a by (intro set_packet_cong) (simp add: put_message_def)
    then show "bindR (with_data p (write_tftp_ack (block_number c) (index (packets w1 p))) w1) (\<lambda>w.
        udp_send_zero_copy X p (client_port c) (server_port c) (tftp_server_ip c) (set_packet p (\<lambda>k. k\<lparr>plength := 4\<rparr>) w)) =
      udp_send_zero_copy X p (client_port c) (server_port c) (tftp_server_ip c)
        (set_packet p (put_message (take (min (nat 4) 880) (ack_bytes (block_number c)))) w1)"
      using write_tftp_ack_ok [of 144 "data (packets w1 p)" "block_number c"] a by (simp add: with_data_def)
  qed
qed

lemma send_error_to_eq:
  assumes "arp_inv X ok H w" and "message = t @ 0 # junk" and "0 \<notin> set t" and "length t \<le> 875"
  shows "send_error_to X c dest code message w =
    udp_send X (error_bytes code t) (int (length (error_bytes code t))) (client_port c) dest (tftp_server_ip c) w"
proof -
  have n: "0 \<le> int (length (error_bytes code t))" "int (length (error_bytes code t)) \<le> int (length (error_bytes code t))" by simp_all
  show ?thesis
    unfolding send_error_to_def udp_send_eq [OF assms(1) n]
  proof (rule bindR_cong [OF refl], clarify)
    fix p w1 assume "allocate_network_packet X w = Inr (p, w1)"
    from safeD [OF arp_allocate [OF assms(1)] this] have a: "length (data (packets w1 p)) = 1024" "index (packets w1 p) = 144"
      by simp_all
    have "set_packet p (\<lambda>k. k\<lparr>data := upd 144 (error_bytes code t) (data (packets w1 p)), plength := 5 + int (length t)\<rparr>) w1 =
        set_packet p (put_message (error_bytes code t)) w1"
      using a by (intro set_packet_cong) (simp add: put_message_def)
    then show "(let off = index (packets w1 p) in bindR (write_tftp_error code message off (data (packets w1 p))) (\<lambda>(d, pos).
        udp_send_zero_copy X p (client_port c) dest (tftp_server_ip c)
          (set_packet p (\<lambda>k. k\<lparr>data := d, plength := pos - off\<rparr>) w1))) =
      udp_send_zero_copy X p (client_port c) dest (tftp_server_ip c)
        (set_packet p (put_message (take (min (nat (int (length (error_bytes code t)))) 880) (error_bytes code t))) w1)"
      using write_tftp_error_ok [OF assms(2,3), of 144 "data (packets w1 p)" code] assms(4) a by simp
  qed
qed

text \<open>After sending, the receiver still has an entry or room for one.\<close>

lemma arp_send_room:
  assumes "arp_inv X ok (add_mset p H) w" and "ready (packets w p)" and "arp_room X ip w" and "arp_send X p ip w = Inr w'"
  shows "arp_room X ip w'"
proof (cases "find_arp_entry X ip w")
  case None
  then have "free_list X w \<noteq> []" using assms(3) by (simp add: arp_room_def)
  from arp_send_new [OF assms(1,2) None this] obtain w1 where
    s: "arp_send X p ip w = send_arp_packet X [] ip ARP_TYPE_REQUEST w1" and i: "arp_inv X ok H w1"
    and u: "used_list X w1 = used_list X w @ [hd (free_list X w)]" and e: "entry_ip (arp_entries w1 (hd (free_list X w))) = ip"
    by blast
  have "arp_room X ip w1"
    using u e by (auto simp: arp_room_def find_arp_entry_def find_None_iff simp flip: used_list_def)
  moreover have "gmac_state.more w' = gmac_state.more w1"
    using safeD [OF send_arp_packet_inv [OF i] assms(4) [unfolded s]] by simp
  ultimately show ?thesis using arp_room_cong [of w' w1] arp_fields_of_more [of w' w1] by simp
next
  case (Some e)
  have mac: "length (entry_mac (arp_entries w e)) = 6" using assms(1) by (simp add: arp_inv_def entries_inv_def)
  show ?thesis
  proof (cases "contain_valid_mapping (arp_entries w e)")
    case True
    have g: "gmac_inv X ok (add_mset p H) w" using assms(1) by (simp add: arp_inv_def)
    have "mac_send X p (entry_mac (arp_entries w e)) ETHER_TYPE_IPV4 w = Inr w'" using assms(4) Some True by (simp add: arp_send_def)
    from safeD [OF mac_send_safe [OF g mac] this] assms(2) have "gmac_state.more w' = gmac_state.more w" by (simp add: ready_def)
    then show ?thesis using assms(3) arp_room_cong [of w' w] arp_fields_of_more [of w' w] by simp
  next
    case False
    then have a: "add_to_arp_entry_queue X p e w = Inr w'" using assms(4) Some by (simp add: arp_send_def)
    note q = add_to_queue_shape [OF a]
    have "entry_ip (arp_entries w' i) = entry_ip (arp_entries w i)" for i using q(2,3) by (cases "i = e") simp_all
    moreover have "entry_lists w' = entry_lists w" by (subst q(1)) simp
    ultimately show ?thesis using assms(3) by (simp add: arp_room_def find_arp_entry_def free_list_def)
  qed
qed

lemma ip_send_room:
  assumes "arp_inv X ok (add_mset p H) w" and "packet_ok (packets w p)" and "34 \<le> index (packets w p)"
    and "ip_room X ip w" and "ip_send X p ip protocol w = Inr w'"
  shows "ip_room X ip w'"
proof -
  let ?f = "ip_framed (our_ip w) ip protocol"
  let ?w = "set_packet p ?f w"
  have k: "packet_ok (packets ?w p)" "index (packets ?w p) = index (packets w p) - 20"
    and l: "length (data (?f (packets w p))) = length (data (packets w p))"
    using ip_framed_frame [OF assms(2)] assms(3) by simp_all
  have i: "arp_inv X ok (add_mset p H) ?w" and f: "arp_frame X w ?w"
    using arp_inv_set_packet [of p H w ?f, OF assms(1) l] .
  have r: "ready (packets ?w p)" using k assms(3) by (simp add: ready_def)
  have idx: "20 \<le> index (packets w p)" using assms(3) by simp
  have netmask: "our_netmask w' = our_netmask w"
    using safeD [OF ip_send_safe [OF assms(1-4)] assms(5)] by (simp add: arp_frame_def same_config_def)
  show ?thesis
  proof (cases "should_broadcast ip w")
    case True
    then show ?thesis using should_broadcast_cong [OF netmask] by (simp add: ip_room_def)
  next
    case False
    then have "arp_send X p ip ?w = Inr w'" "arp_room X ip ?w"
      using assms(4,5) ip_send_eq [OF assms(2) idx] arp_room_cong [of ?w w] should_broadcast_cong [of ?w w]
      by (simp_all add: ip_room_def)
    from arp_send_room [OF i r this(2,1)] show ?thesis by (simp add: ip_room_def)
  qed
qed

lemma udp_send_room:
  assumes "arp_inv X ok H w" and "0 \<le> n" and "n \<le> int (length payload)" and "ip_room X ip w"
    and "udp_send X payload n source dest ip w = Inr w'"
  shows "ip_room X ip w'"
proof -
  let ?bs = "take (min (nat n) 880) payload"
  obtain p w1 where a: "allocate_network_packet X w = Inr (p, w1)"
    and s: "udp_send_zero_copy X p source dest ip (set_packet p (put_message ?bs) w1) = Inr w'"
    using assms(5) unfolding udp_send_eq [OF assms(1-3)] by (auto simp: bindR_eq_Inr_iff)
  let ?w = "set_packet p (put_message ?bs) w1"
  from safeD [OF arp_allocate [OF assms(1)] a] have w1: "arp_inv X ok (add_mset p H) w1" "arp_frame X w w1"
    "gmac_state.more w1 = gmac_state.more w" "length (data (packets w1 p)) = 1024" "index (packets w1 p) = 144"
    by simp_all
  have k: "packet_ok (packets ?w p)" "index (packets ?w p) = 144" "length (data (put_message ?bs (packets w1 p))) = length (data (packets w1 p))"
    using put_message_frame [of "packets w1 p" ?bs] w1 by (simp_all add: packet_ok_def)
  have i: "arp_inv X ok (add_mset p H) ?w" using arp_inv_set_packet [of p H w1 "put_message ?bs", OF w1(1) k(3)] by simp
  let ?f = "udp_framed source dest (our_ip ?w) ip"
  have i8: "8 \<le> index (packets ?w p)" using k by simp
  note fr = udp_framed_frame [OF k(1) i8, of source dest "our_ip ?w" ip]
  have z: "ip_send X p ip IP_PROTOCOL_UDP (set_packet p ?f ?w) = Inr w'"
    using s udp_send_zero_copy_eq [OF k(1) i8] by simp
  have "ip_room X ip (set_packet p ?f ?w) = ip_room X ip w1" by (rule ip_room_cong) simp_all
  then have room: "ip_room X ip (set_packet p ?f ?w)" using ip_room_more [OF w1(3,2)] assms(4) by simp
  have ok: "packet_ok (packets (set_packet p ?f ?w) p)" "34 \<le> index (packets (set_packet p ?f ?w) p)"
    using fr(2,3) k(2) by simp_all
  show ?thesis
    by (rule ip_send_room [OF arp_inv_set_packet(1) [where f = ?f, OF i fr(4)] ok room z])
qed

end

text \<open>What waits on a port, and everything a client relies on when it sends.\<close>

definition mail :: "('e, 'h) libs \<Rightarrow> ('e, 'h, 'z) udp_state_scheme \<Rightarrow> u16 \<Rightarrow> (u16 \<times> u8 list) list" where
  "mail X w prt = (case find_connection X prt w of None \<Rightarrow> [] | Some k \<Rightarrow> inbox X w k)"

definition ready_to :: "('e, 'h) libs \<Rightarrow> (list_head set \<Rightarrow> 'h \<Rightarrow> bool) \<Rightarrow> nat multiset \<Rightarrow> u32 \<Rightarrow> ('e, 'h, 'z) udp_state_scheme \<Rightarrow> bool" where
  "ready_to X ok H ip w \<longleftrightarrow> udp_inv X ok H w \<and> ip_room X ip w"

text \<open>
  The same in the middle of a call that began in \<open>w0\<close>: what belongs to other clients is as it was there,
  and so are the open connections.
\<close>

definition ready_from :: "('e, 'h) libs \<Rightarrow> (list_head set \<Rightarrow> 'h \<Rightarrow> bool) \<Rightarrow> ('e, 'h, 'z) udp_state_scheme \<Rightarrow> nat multiset \<Rightarrow> u32 \<Rightarrow>
    ('e, 'h, 'z) udp_state_scheme \<Rightarrow> bool" where
  "ready_from X ok w0 H ip w \<longleftrightarrow> ready_to X ok H ip w \<and> udp_frame w0 w \<and> listening X w = listening X w0"

lemma ready_from_start: "ready_to X ok H ip w \<Longrightarrow> ready_from X ok w H ip w"
  by (simp add: ready_from_def)

lemma ready_fromD: "ready_from X ok w0 H ip w \<Longrightarrow> ready_to X ok H ip w"
  by (simp add: ready_from_def)

context intrusive_list
begin

lemma mail_arp_frame:
  assumes "arp_frame X w w'" and "udp_inv X ok H w"
  shows "mail X w' = mail X w"
proof
  fix prt
  have "connections w' = connections w" "connection_lists w' = connection_lists w"
    using assms(1) udp_fields_of_more [of w' w] by (auto simp: arp_frame_def)
  then have "find_connection X prt w' = find_connection X prt w" by (simp add: find_connection_def)
  then show "mail X w' prt = mail X w prt"
    using arp_frame_inbox [OF assms] by (auto simp: mail_def split: option.split)
qed

lemma udp_send_step:
  assumes "ready_from X ok w0 H ip w" and "0 \<le> n" and "n \<le> int (length payload)"
  shows "safe (udp_send X payload n source dest ip w) (\<lambda>w'. ready_from X ok w0 H ip w' \<and>
    mail X w' = mail X w)"
proof -
  have u: "udp_inv X ok H w" and r: "ip_room X ip w" using assms(1) by (simp_all add: ready_from_def ready_to_def)
  then have a: "arp_inv X ok H w" by (simp add: udp_inv_def)
  note s = udp_send_safe [OF a assms(2,3) r]
  have "ready_from X ok w0 H ip w' \<and>
      mail X w' = mail X w"
    if "udp_send X payload n source dest ip w = Inr w'" for w'
  proof -
    have fr: "arp_frame X w w'" using safeD [OF s that] by blast
    have "udp_inv X ok H w'" using safeD [OF udp_inv_lift [OF u s] that] by blast
    then show ?thesis
      using udp_send_room [OF a assms(2,3) r that] mail_arp_frame [OF fr u] assms(1) udp_frame_trans [OF _ udp_frame_of_arp [OF fr]]
        listening_arp_frame [OF fr]
      by (simp add: ready_from_def ready_to_def)
  qed
  then show ?thesis by (rule safe_mono [OF s])
qed

lemma ack_step:
  assumes "ready_from X ok w0 H (tftp_server_ip c) w"
  shows "safe (ack_current_block X c w) (\<lambda>w'. ready_from X ok w0 H (tftp_server_ip c) w' \<and>
    mail X w' = mail X w)"
proof -
  have "arp_inv X ok H w" using assms by (simp add: ready_from_def ready_to_def udp_inv_def)
  from ack_current_block_eq [OF this] show ?thesis by (simp only:) (rule udp_send_step [OF assms]; simp)
qed

lemma free_step: "ready_from X ok w0 (add_mset p H) ip w \<Longrightarrow> ready_from X ok w0 H ip (free_network_packet X p w)"
  using udp_inv_free [of p H w] ip_room_cong [of "free_network_packet X p w" w X ip]
    udp_frame_trans [of w0 w "free_network_packet X p w"]
  by (simp add: ready_from_def ready_to_def) (simp add: free_network_packet_def)

lemma ready_from_env [simp]: "ready_from X ok w0 H ip (w\<lparr>env := v\<rparr>) = ready_from X ok w0 H ip w"
  using ip_room_cong [of "w\<lparr>env := v\<rparr>" w X ip] by (simp add: ready_from_def ready_to_def udp_frame_def same_config_def)

lemma mail_env [simp]: "mail X (w\<lparr>env := v\<rparr>) = mail X w"
  by (rule ext) (simp add: mail_def inbox_def datagrams_def split: option.split)

lemma free_mail: "ready_from X ok w0 (add_mset p H) ip w \<Longrightarrow> mail X (free_network_packet X p w) = mail X w"
  using gmac_free_arp(2) mail_arp_frame by (metis ready_from_def ready_to_def udp_inv_def)

text \<open>The timer of a connection.\<close>

lemma tftp_resend_step:
  assumes "ready_from X ok w0 H ip w" and "backoff_ok X (tftp_backoff c)"
    and "\<And>w. ready_from X ok w0 H ip w \<Longrightarrow> safe (send w) (\<lambda>w'. ready_from X ok w0 H ip w' \<and>
      mail X w' = mail X w)"
  shows "safe (tftp_resend X send c w) (\<lambda>(c', w'). ready_from X ok w0 H ip w' \<and> (\<exists>b. backoff_ok X b \<and> c' = c\<lparr>tftp_backoff := b\<rparr>) \<and>
    mail X w' = mail X w)"
proof -
  obtain expired w1 where b: "backoff_timeout X (tftp_backoff c) w = (expired, w1)" by fastforce
  have e: "w1 = w\<lparr>env := env w1\<rparr>" by (rule backoff_timeout_env [OF b])
  have w1: "ready_from X ok w0 H ip w1" "mail X w1 = mail X w"
    by (subst e, simp add: assms)+
  show ?thesis
  proof (cases expired)
    case False
    moreover have "\<exists>b. backoff_ok X b \<and> c = c\<lparr>tftp_backoff := b\<rparr>" using assms(2) by (intro exI [of _ "tftp_backoff c"]) simp
    ultimately show ?thesis using b w1 by (simp add: tftp_resend_def)
  next
    case True
    have "safe (bindR (next_backoff X (tftp_backoff c) w2) (\<lambda>(b, w). Inr (c\<lparr>tftp_backoff := b\<rparr>, w)))
        (\<lambda>(c', w'). ready_from X ok w0 H ip w' \<and> (\<exists>b. backoff_ok X b \<and> c' = c\<lparr>tftp_backoff := b\<rparr>) \<and>
          mail X w' = mail X w)"
      if w2: "ready_from X ok w0 H ip w2"
        "mail X w2 = mail X w1" for w2
    proof -
      from next_backoff_step [OF assms(2), of w2] obtain b' w3
        where n: "next_backoff X (tftp_backoff c) w2 = Inr (b', w3)" "backoff_ok X b'" by blast
      have e3: "w3 = w2\<lparr>env := env w3\<rparr>" by (rule next_backoff_env [OF n(1)])
      have "ready_from X ok w0 H ip w3" "mail X w3 = mail X w2"
        by (subst e3, simp add: w2)+
      then show ?thesis using n w1 w2(2) by auto
    qed
    then show ?thesis
      using b True by (simp add: tftp_resend_def safe_bindR [of "send w1"]) (rule safe_mono [OF assms(3) [OF w1(1)]], blast)
  qed
qed

text \<open>The oldest datagram that waits on a port leaves it, and nothing else moves.\<close>

lemma receive_mail:
  assumes "udp_receive_zero_copy X prt w = Inr (Some p, w')" and "find_connection X prt w = Some c"
    and "datagrams X w c = p # datagrams X w' c" and "untouched X {Connection_queue c} w w'" and "packets w' = packets w"
    and "connections_inv X ok w"
  shows "mail X w' = (mail X w)(prt := tl (mail X w prt))"
proof
  fix q
  have "port (connections w' k) = port (connections w k)" "connection_lists w' = connection_lists w" for k
    using assms(1) by (auto simp: udp_receive_zero_copy_def set_connection_def split: option.splits if_splits prod.splits)
  then have f: "find_connection X q w' = find_connection X q w" by (simp add: find_connection_def)
  have "datagrams X w' k = datagrams X w k" if "find_connection X q w = Some k" "q \<noteq> prt" for k
  proof -
    have "k \<noteq> c" using find_connection_Some assms(2) that by metis
    moreover have "k < UDP_CONNECTION_COUNT"
      using connections_inv_member(1) [OF assms(6)] find_connection_Some [OF that(1)] by blast
    ultimately show ?thesis using assms(4) in_packet_heads by (simp add: untouched_def datagrams_def)
  qed
  then show "mail X w' q = ((mail X w)(prt := tl (mail X w prt))) q"
    using assms(2,3,5) by (auto simp: mail_def inbox_def f split: option.split)
qed

lemma receive_step:
  assumes "ready_from X ok w0 H ip w"
  shows "returns (udp_receive_zero_copy X prt w) (\<lambda>(r, w'). case r of
      None \<Rightarrow> w' = w \<and> mail X w prt = []
    | Some p \<Rightarrow> ready_from X ok w0 (add_mset p H) ip w' \<and> deliverable (packets w' p) \<and>
        mail X w' = (mail X w)(prt := tl (mail X w prt)) \<and>
        (\<exists>rest. mail X w prt = (source_port (packets w' p), frame_of (packets w' p)) # rest))"
proof -
  have u: "udp_inv X ok H w" and r: "ip_room X ip w" using assms by (simp_all add: ready_from_def ready_to_def)
  show ?thesis
  proof (rule returns_mono [OF udp_receive_zero_copy_returns [OF u]], clarify)
    fix q w'
    assume rc: "udp_receive_zero_copy X prt w = Inr (q, w')"
      and post: "case q of None \<Rightarrow> w' = w
        | Some p \<Rightarrow> udp_inv X ok (add_mset p H) w' \<and> deliverable (packets w' p) \<and> packets w' = packets w \<and> udp_frame w w' \<and>
          (\<exists>c. find_connection X prt w = Some c \<and> datagrams X w c = p # datagrams X w' c \<and> untouched X {Connection_queue c} w w')"
    have fields: "arp_entries w' = arp_entries w" "entry_lists w' = entry_lists w" "our_netmask w' = our_netmask w"
      using rc by (auto simp: udp_receive_zero_copy_def set_connection_def split: option.splits if_splits prod.splits)
    have empty: "inbox X w k = []" if "find_connection X prt w = Some k" "q = None" for k
    proof -
      have "queue_count (connections w k) = int (length (datagrams X w k))"
        using u find_connection_Some [OF that(1)] by (auto simp: udp_inv_def connections_inv_def connection_ok_def)
      moreover have "queue_count (connections w k) = 0"
        using rc that by (auto simp: udp_receive_zero_copy_def split: if_splits option.splits prod.splits)
      ultimately show ?thesis by (simp add: inbox_def)
    qed
    have taken: "mail X w' = (mail X w)(prt := tl (mail X w prt))" if "q = Some p" for p
      using rc post u that receive_mail [of prt w p w']
      by (auto simp: udp_inv_def)
    show "case q of
        None \<Rightarrow> w' = w \<and> mail X w prt = []
      | Some p \<Rightarrow> ready_from X ok w0 (add_mset p H) ip w' \<and> deliverable (packets w' p) \<and>
          mail X w' = (mail X w)(prt := tl (mail X w prt)) \<and>
          (\<exists>rest. mail X w prt = (source_port (packets w' p), frame_of (packets w' p)) # rest)"
    proof (cases q)
      case None
      then show ?thesis using post empty by (auto simp: mail_def split: option.split)
    next
      case (Some p)
      have "\<exists>rest. mail X w prt = (source_port (packets w' p), frame_of (packets w' p)) # rest"
        using post Some by (auto simp: mail_def inbox_def)
      then show ?thesis
        using post Some taken r ip_room_cong [OF fields, of X ip] assms udp_frame_trans [of w0 w w'] udp_receive_listening [OF rc]
        by (auto simp: ready_from_def ready_to_def)
    qed
  qed
qed

end

text \<open>The number of bytes \<open>try_read_data\<close> copies never exceeds the size of the buffer.\<close>

lemma limit_block_cases:
  assumes "0 \<le> n" and "n < 2 ^ 31" and "0 \<le> m" and "m \<le> 1024"
  shows "limit_block n m = (if m < 4 then n else min n (m - 4))"
proof -
  have d: "size_t m - size_t TFTP_DATA_HEADER_SIZE = size_t (m - 4)" by (simp add: size_t_def)
  have s: "sint (size_t i) = i" if "0 \<le> i" "i < 2 ^ 31" for i
    using that by (simp add: size_t_def signed_of_int signed_take_bit_int_eq_self)
  have n: "uint (size_t n) = n" using assms(1,2) by (simp add: uint_size_t)
  show ?thesis
  proof (cases "m < 4")
    case True
    have "uint (size_t (m - 4)) = (m - 4) mod 2 ^ 32" unfolding size_t_def by (subst uint_word_of_int) simp
    also have "\<dots> = (m - 4 + 2 ^ 32) mod 2 ^ 32" by (simp only: mod_add_self2)
    also have "\<dots> = m - 4 + 2 ^ 32" using True assms(3) by (intro mod_pos_pos_trivial) simp_all
    finally show ?thesis using True assms n s [of n] by (simp add: limit_block_def d word_less_def)
  next
    case False
    then have "uint (size_t (m - 4)) = m - 4" using assms(4) by (simp add: uint_size_t)
    then show ?thesis using False assms n s [of n] s [of "m - 4"] by (simp add: limit_block_def d word_less_def min_def)
  qed
qed

text \<open>
  The abstract step on a datagram of the server: a block is taken if it comes from the port the
  download is bound to and is the next one; then as many bytes as fit are handed out.
\<close>

definition take_block :: "tftp_connection \<Rightarrow> u8 list \<Rightarrow> nat \<Rightarrow> u16 \<Rightarrow> u16 \<Rightarrow> u8 list \<Rightarrow> int \<times> tftp_connection \<times> u8 list" where
  "take_block c buffer n source block bytes =
     (if server_port c \<notin> {TFTP_INITIAL_SERVER_PORT, source} \<or> uint block \<noteq> uint (block_number c) + 1 then (0, c, buffer)
      else (int (length (take n bytes)), c\<lparr>block_number := block\<rparr>, take n bytes @ drop (length (take n bytes)) buffer))"

definition block_message :: "u16 \<Rightarrow> u16 \<Rightarrow> u8 list \<Rightarrow> u8 list" where
  "block_message opcode block bytes = be16_bytes opcode @ be16_bytes block @ bytes"

text \<open>
  What \<open>try_read_data\<close> may do with the datagrams waiting in state \<open>w\<close>.  It reads four bytes of every
  datagram: the block number of a shorter one is whatever the buffer holds behind it.
\<close>

definition data_read :: "('e, 'h) libs \<Rightarrow> ('e, 'h, 'z) udp_state_scheme \<Rightarrow> tftp_connection \<Rightarrow> u8 list \<Rightarrow> int \<Rightarrow>
    int \<times> tftp_connection \<times> u8 list \<Rightarrow> bool" where
  "data_read X w c buffer n r \<longleftrightarrow> (case r of (m, c', buffer') \<Rightarrow>
     0 \<le> m \<and> m \<le> n \<and> length buffer' = length buffer \<and> drop (nat m) buffer' = drop (nat m) buffer \<and>
     (\<exists>b. c' = c\<lparr>block_number := b\<rparr>) \<and>
     (case mail X w (client_port c) of
        [] \<Rightarrow> r = (0, c, buffer)
      | (source, payload) # rest \<Rightarrow>
          (server_port c \<notin> {TFTP_INITIAL_SERVER_PORT, source} \<longrightarrow> r = (0, c, buffer)) \<and>
          (length payload < 4 \<longrightarrow> r = (0, c, buffer) \<or>
             m = n \<and> (\<exists>b. uint b = uint (block_number c) + 1 \<and> c' = c\<lparr>block_number := b\<rparr>)) \<and>
          (\<forall>opcode block bytes. payload = block_message opcode block bytes \<longrightarrow>
             r = take_block c buffer (nat n) source block bytes)))"

context intrusive_list
begin

lemma block_copied:
  assumes "packet_ok k" and "index k \<le> 82" and "0 \<le> n" and "n \<le> 900" and "n \<le> int (length buffer)"
  defines "m \<equiv> limit_block n (plength k)"
  shows "\<exists>buffer'. memory_copy (data k) (index k + TFTP_DATA_HEADER_SIZE) buffer 0 m = Inr buffer' \<and> 0 \<le> m \<and> m \<le> n \<and>
    (plength k < 4 \<longrightarrow> m = n) \<and> length buffer' = length buffer \<and> drop (nat m) buffer' = drop (nat m) buffer \<and>
    (\<forall>opcode block bytes. frame_of k = block_message opcode block bytes \<longrightarrow> m = int (length (take (nat n) bytes)) \<and>
      buffer' = take (nat n) bytes @ drop (length (take (nat n) bytes)) buffer)"
proof -
  have k: "length (data k) = 1024" "0 \<le> index k" "0 \<le> plength k" "index k + plength k \<le> 1024"
    using assms(1) by (simp_all add: packet_ok_def)
  have lim: "m = (if plength k < 4 then n else min n (plength k - 4))"
    unfolding m_def by (rule limit_block_cases) (use assms(3,4) k in simp_all)
  then have m: "0 \<le> m" "m \<le> n" using assms(3) by auto
  let ?bs = "chunk (nat (index k + 4)) (nat m) (data k)"
  have l: "length ?bs = nat m" using m assms(2,4) k by simp
  have copy: "memory_copy (data k) (index k + TFTP_DATA_HEADER_SIZE) buffer 0 m = Inr (upd 0 ?bs buffer)"
    using m assms(2-5) k by (subst memory_copy_ok) simp_all
  have up: "upd 0 ?bs buffer = ?bs @ drop (nat m) buffer" using l by (simp add: upd_def)
  moreover have "m = int (length (take (nat n) bytes)) \<and> ?bs = take (nat n) bytes"
    if f: "frame_of k = block_message opcode block bytes" for opcode block bytes
  proof -
    have len: "plength k = 4 + int (length bytes)"
      using arg_cong [OF f, of length] k by (simp add: frame_of_def block_message_def)
    then have mm: "nat m = min (nat n) (length bytes)" "m = int (min (nat n) (length bytes))" using lim assms(3) by auto
    have "ahead (data k) (index k + 4) (bytes @ drop (nat (index k + plength k)) (data k))"
      using ahead_skip [of "data k" "index k" "be16_bytes opcode @ be16_bytes block"] frame_ahead [OF assms(1)]
      by (simp add: f block_message_def)
    then have "drop (nat (index k + 4)) (data k) = bytes @ drop (nat (index k + plength k)) (data k)"
      by (simp only: ahead_def)
    then have "?bs = take (min (nat n) (length bytes)) bytes" by (simp add: chunk_def mm(1))
    moreover have "take (min (nat n) (length bytes)) bytes = take (nat n) bytes" by (simp add: min_def)
    ultimately show ?thesis using mm(2) by simp
  qed
  moreover have "length (?bs @ drop (nat m) buffer) = length buffer" "drop (nat m) (?bs @ drop (nat m) buffer) = drop (nat m) buffer"
    using l m assms(5) by simp_all
  moreover have "nat m = length (take (nat n) bytes)" if "m = int (length (take (nat n) bytes))" for bytes :: "u8 list"
    using that by simp
  moreover have "plength k < 4 \<longrightarrow> m = n" using lim by simp
  ultimately show ?thesis using copy m unfolding up by (intro exI [of _ "?bs @ drop (nat m) buffer"]) metis
qed

text \<open>One datagram of the server.\<close>

lemma try_read_data_step:
  assumes "ready_from X ok w0 H (tftp_server_ip c) w" and "0 \<le> n" and "n \<le> 900" and "n \<le> int (length buffer)"
  shows "safe (try_read_data X c buffer n w) (\<lambda>(m, c', buffer', w'). ready_from X ok w0 H (tftp_server_ip c) w' \<and>
    mail X w' = (mail X w)(client_port c := tl (mail X w (client_port c))) \<and> data_read X w c buffer n (m, c', buffer'))"
  unfolding try_read_data_def safe_bindR [of "udp_receive_zero_copy _ _ _"]
proof (rule safe_mono [OF returns_safe [OF receive_step [OF assms(1), of "client_port c"]]], clarify)
  fix r w1
  assume post: "case r of
      None \<Rightarrow> w1 = w \<and> mail X w (client_port c) = []
    | Some p \<Rightarrow> ready_from X ok w0 (add_mset p H) (tftp_server_ip c) w1 \<and> deliverable (packets w1 p) \<and>
        mail X w1 = (mail X w)(client_port c := tl (mail X w (client_port c))) \<and>
        (\<exists>rest. mail X w (client_port c) = (source_port (packets w1 p), frame_of (packets w1 p)) # rest)"
  let ?taken = "(mail X w)(client_port c := tl (mail X w (client_port c)))"
  let ?Q = "\<lambda>(m, c', buffer', w'). ready_from X ok w0 H (tftp_server_ip c) w' \<and>
    mail X w' = ?taken \<and> data_read X w c buffer n (m, c', buffer')"
  have c: "\<exists>b. c = c\<lparr>block_number := b\<rparr>" by (rule exI [of _ "block_number c"]) simp
  show "safe (case r of
       None \<Rightarrow> Inr (0, c, buffer, w1)
     | Some p \<Rightarrow>
         let d = data (packets w1 p); off = index (packets w1 p) in
         bindR (read_be16 d off) (\<lambda>opcode.
         bindR (read_be16 d (off + 2)) (\<lambda>block.
         if server_port c \<noteq> TFTP_INITIAL_SERVER_PORT \<and> server_port c \<noteq> source_port (packets w1 p) then
           bindR (send_error_to X c (source_port (packets w1 p)) TFTP_ERROR_UNKNOWN_TID str_wrong_port w1) (\<lambda>w.
           Inr (0, c, buffer, free_network_packet X p w))
         else if block = block_number c then
           bindR (ack_current_block X c w1) (\<lambda>w. Inr (0, c, buffer, free_network_packet X p w))
         else if uint block = uint (block_number c) + 1 then
           let n = limit_block n (plength (packets w1 p)); c = c\<lparr>block_number := block\<rparr> in
           bindR (memory_copy d (off + TFTP_DATA_HEADER_SIZE) buffer 0 n) (\<lambda>buffer.
           Inr (n, c, buffer, free_network_packet X p w1))
         else Inr (0, c, buffer, free_network_packet X p w1)))) ?Q"
  proof (cases r)
    case None
    then show ?thesis using post assms(1,2) c by (auto simp: data_read_def fun_upd_idem)
  next
    case (Some p)
    then obtain rest where i: "ready_from X ok w0 (add_mset p H) (tftp_server_ip c) w1" "deliverable (packets w1 p)"
      "mail X w (client_port c) = (source_port (packets w1 p), frame_of (packets w1 p)) # rest"
      and taken: "mail X w1 = ?taken" using post by auto
    let ?k = "packets w1 p"
    have free: "ready_from X ok w0 H (tftp_server_ip c) (free_network_packet X p w') \<and> mail X (free_network_packet X p w') = ?taken"
      if "ready_from X ok w0 (add_mset p H) (tftp_server_ip c) w'" "mail X w' = ?taken" for w'
      using free_step [OF that(1)] free_mail [OF that(1)] that(2) by simp
    have ok: "packet_ok ?k" "index ?k \<le> 82" "0 \<le> index ?k" "length (data ?k) = 1024"
      using i(2) by (simp_all add: deliverable_def packet_ok_def)
    obtain opc blk where rd: "read_be16 (data ?k) (index ?k) = Inr opc" "read_be16 (data ?k) (index ?k + 2) = Inr blk"
      using be16.rd_in [of "index ?k" "data ?k"] be16.rd_in [of "index ?k + 2" "data ?k"] ok by auto
    have blk: "block = blk" if f: "frame_of ?k = block_message opcode block bytes" for opcode block bytes
    proof -
      have "ahead (data ?k) (index ?k + 2) (be16_bytes block @ bytes @ drop (nat (index ?k + plength ?k)) (data ?k))"
        using ahead_skip [of "data ?k" "index ?k" "be16_bytes opcode"] frame_ahead [OF ok(1)]
        by (simp add: f block_message_def)
      from be16.rd_ahead [OF this] rd(2) show ?thesis by simp
    qed
    have idle: "data_read X w c buffer n (0, c, buffer)"
      if "server_port c \<notin> {TFTP_INITIAL_SERVER_PORT, source_port ?k} \<or> uint blk \<noteq> uint (block_number c) + 1"
      using that assms(2) i(3) blk c by (auto simp: data_read_def take_block_def)
    have a: "arp_inv X ok (add_mset p H) w1" using i(1) by (simp add: ready_from_def ready_to_def udp_inv_def)
    have err: "send_error_to X c (source_port ?k) TFTP_ERROR_UNKNOWN_TID str_wrong_port w1 =
        udp_send X (error_bytes TFTP_ERROR_UNKNOWN_TID (butlast str_wrong_port)) 15 (client_port c) (source_port ?k) (tftp_server_ip c) w1"
      using send_error_to_eq [OF a, of str_wrong_port "butlast str_wrong_port" "[]"] by (simp add: str_wrong_port_def)
    have sent: "safe (send_error_to X c (source_port ?k) TFTP_ERROR_UNKNOWN_TID str_wrong_port w1)
        (\<lambda>w'. ready_from X ok w0 (add_mset p H) (tftp_server_ip c) w' \<and> mail X w' = mail X w1)"
      unfolding err by (rule safe_mono [OF udp_send_step [OF i(1)]]) (simp_all add: str_wrong_port_def)
    note acked = ack_step [OF i(1)]
    consider (port) "server_port c \<noteq> TFTP_INITIAL_SERVER_PORT \<and> server_port c \<noteq> source_port ?k"
      | (same) "\<not> (server_port c \<noteq> TFTP_INITIAL_SERVER_PORT \<and> server_port c \<noteq> source_port ?k)" "blk = block_number c"
      | (new) "\<not> (server_port c \<noteq> TFTP_INITIAL_SERVER_PORT \<and> server_port c \<noteq> source_port ?k)" "blk \<noteq> block_number c"
          "uint blk = uint (block_number c) + 1"
      | (other) "\<not> (server_port c \<noteq> TFTP_INITIAL_SERVER_PORT \<and> server_port c \<noteq> source_port ?k)" "blk \<noteq> block_number c"
          "uint blk \<noteq> uint (block_number c) + 1" by blast
    then show ?thesis
    proof cases
      case port
      have d: "data_read X w c buffer n (0, c, buffer)" by (rule idle) (use port in simp)
      show ?thesis
        unfolding Some option.case Let_def rd bindR_Inr if_P [OF port] safe_bindR
        by (rule safe_mono [OF sent]) (use free taken d in auto)
    next
      case same
      have d: "data_read X w c buffer n (0, c, buffer)" by (rule idle) (use same in simp)
      show ?thesis
        unfolding Some option.case Let_def rd bindR_Inr if_not_P [OF same(1)] if_P [OF same(2)] safe_bindR
        by (rule safe_mono [OF acked]) (use free taken d in auto)
    next
      case new
      obtain buffer' where b: "memory_copy (data ?k) (index ?k + TFTP_DATA_HEADER_SIZE) buffer 0 (limit_block n (plength ?k)) = Inr buffer'"
        "0 \<le> limit_block n (plength ?k)" "limit_block n (plength ?k) \<le> n" "length buffer' = length buffer"
        "drop (nat (limit_block n (plength ?k))) buffer' = drop (nat (limit_block n (plength ?k))) buffer"
        "frame_of ?k = block_message opcode block bytes \<Longrightarrow> limit_block n (plength ?k) = int (length (take (nat n) bytes)) \<and>
           buffer' = take (nat n) bytes @ drop (length (take (nat n) bytes)) buffer" for opcode block bytes
        using block_copied [OF ok(1,2) assms(2-4)] by blast
      have short: "limit_block n (plength ?k) = n" if "length (frame_of ?k) < 4"
        using block_copied [OF ok(1,2) assms(2-4)] that ok(1) by (auto simp: frame_of_def packet_ok_def)
      have "data_read X w c buffer n (limit_block n (plength ?k), c\<lparr>block_number := blk\<rparr>, buffer')"
        unfolding data_read_def prod.case
      proof (intro conjI)
        show "case mail X w (client_port c) of
            [] \<Rightarrow> (limit_block n (plength ?k), c\<lparr>block_number := blk\<rparr>, buffer') = (0, c, buffer)
          | (source, payload) # rest \<Rightarrow>
              (server_port c \<notin> {TFTP_INITIAL_SERVER_PORT, source} \<longrightarrow>
                (limit_block n (plength ?k), c\<lparr>block_number := blk\<rparr>, buffer') = (0, c, buffer)) \<and>
              (length payload < 4 \<longrightarrow> (limit_block n (plength ?k), c\<lparr>block_number := blk\<rparr>, buffer') = (0, c, buffer) \<or>
                limit_block n (plength ?k) = n \<and>
                (\<exists>b. uint b = uint (block_number c) + 1 \<and> c\<lparr>block_number := blk\<rparr> = c\<lparr>block_number := b\<rparr>)) \<and>
              (\<forall>opcode block bytes. payload = block_message opcode block bytes \<longrightarrow>
                (limit_block n (plength ?k), c\<lparr>block_number := blk\<rparr>, buffer') =
                  take_block c buffer (nat n) source block bytes)"
          unfolding i(3) list.case prod.case
        proof (intro conjI allI impI)
          assume "server_port c \<notin> {TFTP_INITIAL_SERVER_PORT, source_port ?k}"
          then show "(limit_block n (plength ?k), c\<lparr>block_number := blk\<rparr>, buffer') = (0, c, buffer)" using new(1) by simp
        next
          assume "length (frame_of ?k) < 4"
          then show "(limit_block n (plength ?k), c\<lparr>block_number := blk\<rparr>, buffer') = (0, c, buffer) \<or>
              limit_block n (plength ?k) = n \<and>
              (\<exists>b. uint b = uint (block_number c) + 1 \<and> c\<lparr>block_number := blk\<rparr> = c\<lparr>block_number := b\<rparr>)"
            using short new(3) by blast
        next
          fix opcode block bytes assume f: "frame_of ?k = block_message opcode block bytes"
          show "(limit_block n (plength ?k), c\<lparr>block_number := blk\<rparr>, buffer') =
              take_block c buffer (nat n) (source_port ?k) block bytes"
            using b(6) [OF f] blk [OF f] new(1,3) by (simp add: take_block_def)
        qed
      qed (use b in blast)+
      then show ?thesis
        unfolding Some option.case Let_def rd bindR_Inr if_not_P [OF new(1)] if_not_P [OF new(2)] if_P [OF new(3)] b(1)
        using free [OF i(1) taken] by simp
    next
      case other
      have d: "data_read X w c buffer n (0, c, buffer)" by (rule idle) (use other in simp)
      show ?thesis
        unfolding Some option.case Let_def rd bindR_Inr if_not_P [OF other(1)] if_not_P [OF other(2)] if_not_P [OF other(3)]
        using free [OF i(1) taken] d by simp
    qed
  qed
qed

end

end
