(* ===== verification/Tftp_Download.thy ===== *)
theory Tftp_Download
  imports Tftp_Properties Dhcp_Properties "HOL-Library.Sublist"
begin

text \<open>
  A download with the TFTP client: what one call of \<open>tftp_read\<close> does in each state, and that the calls
  together hand out the file of the server in its order, whatever happens on the network in between.
\<close>

section \<open>A sample connection\<close>

definition reading :: tftp_connection where
  "reading = \<lparr>tftp_server_ip = 0x0A000002, client_port = 68, server_port = 67, block_number = 0,
     tftp_status = TFTP_STATE_READ, tftp_time = 0, tftp_backoff = sample_backoff, filename = 0x66 # 0 # replicate 62 0\<rparr>"

definition patient :: tftp_connection where
  "patient = reading\<lparr>tftp_backoff := sample_backoff\<lparr>backoff_count := 1, backoff_time := 5000\<rparr>\<rparr>"

lemma waiting_mail: "length m \<le> 900 \<Longrightarrow> mail ref_libs (waiting m) 68 = [(67, m)]"
  by (simp add: mail_def waiting_inbox)

lemma waiting_ready:
  assumes "0 < length m" and "length m \<le> 900"
  shows "ready_to ref_libs ref_ok {#} (tftp_server_ip reading) (waiting m)"
proof -
  have "free_list ref_libs (waiting m) \<noteq> []"
    by (simp add: free_list_def waiting_def set_connection_def set_packet_def sample_state_def upt_conv_Cons del: upt_rec_numeral)
  then show ?thesis using waiting_ok [OF assms] by (simp add: ready_to_def ip_room_def arp_room_def)
qed

section \<open>What one call sends\<close>

lemma udp_message_sent:
  assumes "intrusive_list X ok" and "arp_inv X ok H w" and "next_hop X ip w = Some m" and "length payload \<le> 880"
  shows "safe (udp_send X payload (int (length payload)) source dest ip w) (\<lambda>w'. arp_inv X ok H w' \<and>
    transmits w w' (udp_frame_bytes m (our_mac w) source dest (our_ip w) ip payload))"
proof -
  have n: "0 \<le> int (length payload)" "int (length payload) \<le> int (length payload)" by simp_all
  have "ip_room X ip w"
    using assms(3) by (auto simp: ip_room_def arp_room_def next_hop_def split: if_splits option.splits)
  from intrusive_list.udp_send_safe [OF assms(1,2) n this] show ?thesis
    by (rule safe_mono) (use udp_send_wire [OF assms(1,2) n assms(3)] assms(4) in auto)
qed

text \<open>
  \<open>block_reply\<close>: the port and the payload of the message that answers a block.  A foreign port gets an
  error, a repeated block is acknowledged again, and a new block is acknowledged at once if it is a short
  one.
\<close>

definition block_reply :: "tftp_connection \<Rightarrow> nat \<Rightarrow> u16 \<Rightarrow> u16 \<Rightarrow> u8 list \<Rightarrow> (u16 \<times> u8 list) option" where
  "block_reply c n source block bytes =
     (if server_port c \<notin> {TFTP_INITIAL_SERVER_PORT, source}
      then Some (source, error_bytes TFTP_ERROR_UNKNOWN_TID (butlast str_wrong_port))
      else if block = block_number c then Some (server_port c, ack_bytes block)
      else if uint block = uint (block_number c) + 1 \<and> 0 < length (take n bytes) \<and> length (take n bytes) < 512
      then Some (server_port c, ack_bytes block)
      else None)"

text \<open>\<open>replied w w' m c r\<close>: between \<open>w\<close> and \<open>w'\<close> the reply \<open>r\<close>, and nothing else, was sent to the station \<open>m\<close>.\<close>

definition replied ::
  "('e, 'h, 'z) udp_state_scheme \<Rightarrow> ('e, 'h, 'z) udp_state_scheme \<Rightarrow> mac \<Rightarrow> tftp_connection \<Rightarrow> (u16 \<times> u8 list) option \<Rightarrow> bool" where
  "replied w w' m c r \<longleftrightarrow> (case r of
       None \<Rightarrow> tx_descriptors w' = tx_descriptors w \<and> tx_index w' = tx_index w
     | Some (dest, payload) \<Rightarrow>
         transmits w w' (udp_frame_bytes m (our_mac w) (client_port c) dest (our_ip w) (tftp_server_ip c) payload))"

text \<open>
  What one call in the reading state sends: the timer comes first and acknowledges the last block again
  when it has expired, then the datagram is answered.  The hardware address of the server is \<open>m\<close>.
\<close>

definition reader_replies :: "('e, 'h) libs \<Rightarrow> tftp_connection \<Rightarrow> int \<Rightarrow> mac \<Rightarrow> ('e, 'h, 'z) udp_state_scheme \<Rightarrow>
    ('e, 'h, 'z) udp_state_scheme \<Rightarrow> bool" where
  "reader_replies X c n m w w' \<longleftrightarrow>
     (\<exists>v. replied w v m c (if fst (backoff_timeout X (tftp_backoff c) w) then Some (server_port c, ack_bytes (block_number c)) else None) \<and>
        our_mac v = our_mac w \<and> our_ip v = our_ip w \<and>
        (case mail X w (client_port c) of
           [] \<Rightarrow> replied v w' m c None
         | (source, payload) # rest \<Rightarrow> (\<forall>opcode block bytes. payload = block_message opcode block bytes \<longrightarrow>
             replied v w' m c (block_reply c (nat n) source block bytes))))"

text \<open>\<open>quiet\<close>: nothing that decides what goes on the wire has changed.\<close>

definition quiet :: "('e, 'h) libs \<Rightarrow> ('e, 'h, 'z) udp_state_scheme \<Rightarrow> ('e, 'h, 'z) udp_state_scheme \<Rightarrow> bool" where
  "quiet X w w' \<longleftrightarrow> tx_descriptors w' = tx_descriptors w \<and> tx_index w' = tx_index w \<and> our_mac w' = our_mac w \<and>
     our_ip w' = our_ip w \<and> (\<forall>ip. next_hop X ip w' = next_hop X ip w)"

lemma next_hop_cong:
  "arp_entries w' = arp_entries w \<Longrightarrow> entry_lists w' = entry_lists w \<Longrightarrow> our_netmask w' = our_netmask w \<Longrightarrow>
   next_hop X ip w' = next_hop X ip w"
  using should_broadcast_cong [of w' w ip] by (simp add: next_hop_def find_arp_entry_def split: option.split)

lemma quiet_steps:
  "quiet X w (w\<lparr>env := v\<rparr>)" "quiet X w (free_network_packet X p w)"
  "udp_receive_zero_copy X prt w = Inr (r, w') \<Longrightarrow> quiet X w w'"
  by (auto simp: quiet_def free_network_packet_def udp_receive_zero_copy_def set_connection_def
      intro!: next_hop_cong split: option.splits if_splits prod.splits)

lemma quiet_trans: "quiet X w w1 \<Longrightarrow> quiet X w1 w' \<Longrightarrow> quiet X w w'"
  by (simp add: quiet_def)

lemma quiet_replied: "quiet X w w1 \<Longrightarrow> replied w1 w' m c r \<Longrightarrow> replied w w' m c r"
  by (auto simp: quiet_def replied_def transmits_def Let_def split: option.splits)

lemma replied_quiet: "quiet X w w' \<Longrightarrow> replied w w' m c None"
  by (simp add: quiet_def replied_def)

lemma replied_free: "replied w w' m c r \<Longrightarrow> replied w (free_network_packet X p w') m c r"
  by (auto simp: replied_def split: option.splits intro: transmits_to)

lemma replied_env: "replied w (w'\<lparr>env := v\<rparr>) m c r = replied w w' m c r"
  by (auto simp: replied_def transmits_def Let_def tx_frame_def split: option.splits)

lemma frame_block:
  assumes "packet_ok k" and "frame_of k = block_message opcode block bytes"
  shows "read_be16 (data k) (index k) = Inr opcode" and "read_be16 (data k) (index k + 2) = Inr block"
proof -
  let ?behind = "bytes @ drop (nat (index k + plength k)) (data k)"
  have a: "ahead (data k) (index k) (be16_bytes opcode @ be16_bytes block @ ?behind)"
    using frame_ahead [OF assms(1)] by (simp add: assms(2) block_message_def)
  have "ahead (data k) (index k + 2) (be16_bytes block @ ?behind)"
    using ahead_skip [of "data k" "index k" "be16_bytes opcode"] a by simp
  then show "read_be16 (data k) (index k) = Inr opcode" "read_be16 (data k) (index k + 2) = Inr block"
    using be16.rd_ahead [OF a] be16.rd_ahead [of "data k" "index k + 2" block] by simp_all
qed

context intrusive_list
begin

text \<open>Sending to a resolved address leaves the cache as it is.\<close>

lemma ip_send_hop:
  assumes "arp_inv X ok (add_mset p H) w" and "packet_ok (packets w p)" and "34 \<le> index (packets w p)"
    and "next_hop X ip w = Some m" and "ip_send X p ip protocol w = Inr w'"
  shows "next_hop X ip w' = Some m"
proof -
  let ?f = "ip_framed (our_ip w) ip protocol"
  let ?w = "set_packet p ?f w"
  have room: "ip_room X ip w"
    using assms(4) by (auto simp: ip_room_def arp_room_def next_hop_def split: if_splits option.splits)
  have k: "packet_ok (packets ?w p)" "index (packets ?w p) = index (packets w p) - 20"
    and l: "length (data (?f (packets w p))) = length (data (packets w p))"
    using ip_framed_frame [OF assms(2)] assms(3) by simp_all
  have i: "arp_inv X ok (add_mset p H) ?w" using arp_inv_set_packet(1) [of p H w ?f, OF assms(1) l] .
  have r: "ready (packets ?w p)" using k assms(3) by (simp add: ready_def)
  have netmask: "our_netmask w' = our_netmask w"
    using safeD [OF ip_send_safe [OF assms(1-3) room] assms(5)] by (simp add: arp_frame_def same_config_def)
  show ?thesis
  proof (cases "should_broadcast ip w")
    case True
    then show ?thesis using assms(4) should_broadcast_cong [OF netmask] by (simp add: next_hop_def)
  next
    case False
    then obtain e where e: "find_arp_entry X ip ?w = Some e" "contain_valid_mapping (arp_entries ?w e)"
      using assms(4) by (auto simp: next_hop_def find_arp_entry_def split: option.splits if_splits)
    have "20 \<le> index (packets w p)" using assms(3) by simp
    then have "arp_send X p ip ?w = Inr w'"
      using False assms(5) ip_send_eq [OF assms(2)] should_broadcast_cong [of ?w w] by simp
    then have s: "mac_send X p (entry_mac (arp_entries ?w e)) ETHER_TYPE_IPV4 ?w = Inr w'" using e by (simp add: arp_send_def)
    have g: "gmac_inv X ok (add_mset p H) ?w" "length (entry_mac (arp_entries ?w e)) = 6"
      using i by (simp_all only: arp_inv_def entries_inv_def)
    have "gmac_state.more w' = gmac_state.more ?w"
      using safeD [OF mac_send_safe [OF g] s] r by (simp add: ready_def)
    then show ?thesis
      using arp_fields_of_more [of w' ?w] next_hop_cong [of w' w] netmask assms(4) by simp
  qed
qed

lemma udp_send_hop:
  assumes "arp_inv X ok H w" and "0 \<le> n" and "n \<le> int (length payload)" and "next_hop X ip w = Some m"
    and "udp_send X payload n source dest ip w = Inr w'"
  shows "next_hop X ip w' = Some m"
proof -
  let ?bs = "take (min (nat n) 880) payload"
  obtain p w1 where a: "allocate_network_packet X w = Inr (p, w1)"
    and s: "udp_send_zero_copy X p source dest ip (set_packet p (put_message ?bs) w1) = Inr w'"
    using assms(5) unfolding udp_send_eq [OF assms(1-3)] by (auto simp: bindR_eq_Inr_iff)
  let ?w = "set_packet p (put_message ?bs) w1"
  from safeD [OF arp_allocate [OF assms(1)] a] have w1: "arp_inv X ok (add_mset p H) w1" "arp_frame X w w1"
    "gmac_state.more w1 = gmac_state.more w" "length (data (packets w1 p)) = 1024" "index (packets w1 p) = 144"
    by simp_all
  have k: "packet_ok (packets ?w p)" "index (packets ?w p) = 144" "length (data (put_message ?bs (packets w1 p))) = length (data (packets w1 p))"
    using put_message_frame [of "packets w1 p" ?bs] w1 by (simp_all add: packet_ok_def)
  have i: "arp_inv X ok (add_mset p H) ?w" using arp_inv_set_packet [of p H w1 "put_message ?bs", OF w1(1) k(3)] by simp
  let ?f = "udp_framed source dest (our_ip ?w) ip"
  let ?w2 = "set_packet p ?f ?w"
  have i8: "8 \<le> index (packets ?w p)" using k by simp
  note fr = udp_framed_frame [OF k(1) i8, of source dest "our_ip ?w" ip]
  have z: "ip_send X p ip IP_PROTOCOL_UDP ?w2 = Inr w'"
    using s udp_send_zero_copy_eq [OF k(1) i8] by simp
  have "next_hop X ip ?w2 = next_hop X ip w"
    using arp_fields_of_more [of w1 w] w1(2,3) by (intro next_hop_cong) (simp_all add: arp_frame_def same_config_def)
  then have hop: "next_hop X ip ?w2 = Some m" using assms(4) by simp
  have ok: "packet_ok (packets ?w2 p)" "34 \<le> index (packets ?w2 p)" using fr(2,3) k(2) by simp_all
  show ?thesis
    by (rule ip_send_hop [OF arp_inv_set_packet(1) [where f = ?f, OF i fr(4)] ok hop z])
qed

lemma message_replied:
  assumes "ready_from X ok w0 H (tftp_server_ip c) w" and "next_hop X (tftp_server_ip c) w = Some m" and "length payload \<le> 880"
    and "udp_send X payload n (client_port c) dest (tftp_server_ip c) w = Inr w'" and "n = int (length payload)"
  shows "replied w w' m c (Some (dest, payload))"
proof -
  have "arp_inv X ok H w" using assms(1) by (simp add: ready_from_def ready_to_def udp_inv_def)
  from safeD [OF udp_message_sent [OF intrusive_list_axioms this assms(2,3)] assms(4) [unfolded assms(5)]]
  show ?thesis by (simp add: replied_def)
qed

lemma ack_replied:
  assumes "ready_from X ok w0 H (tftp_server_ip c) w" and "next_hop X (tftp_server_ip c) w = Some m"
    and "ack_current_block X c w = Inr w'"
  shows "replied w w' m c (Some (server_port c, ack_bytes (block_number c)))" and "next_hop X (tftp_server_ip c) w' = Some m"
    and "our_mac w' = our_mac w" and "our_ip w' = our_ip w"
proof -
  have a: "arp_inv X ok H w" using assms(1) by (simp add: ready_from_def ready_to_def udp_inv_def)
  note s = assms(3) [unfolded ack_current_block_eq [OF a]]
  show "replied w w' m c (Some (server_port c, ack_bytes (block_number c)))"
    by (rule message_replied [OF assms(1,2) _ s]) simp_all
  show "next_hop X (tftp_server_ip c) w' = Some m" by (rule udp_send_hop [OF a _ _ assms(2) s]) simp_all
  have "ready_from X ok w H (tftp_server_ip c) w" using assms(1) by (simp add: ready_from_def)
  from safeD [OF ack_step [OF this] assms(3)] show "our_mac w' = our_mac w" "our_ip w' = our_ip w"
    by (simp_all add: ready_from_def udp_frame_def same_config_def)
qed

lemma wrong_port_replied:
  assumes "ready_from X ok w0 H (tftp_server_ip c) w" and "next_hop X (tftp_server_ip c) w = Some m"
    and "send_error_to X c dest TFTP_ERROR_UNKNOWN_TID str_wrong_port w = Inr w'"
  shows "replied w w' m c (Some (dest, error_bytes TFTP_ERROR_UNKNOWN_TID (butlast str_wrong_port)))"
proof -
  have a: "arp_inv X ok H w" using assms(1) by (simp add: ready_from_def ready_to_def udp_inv_def)
  have "str_wrong_port = butlast str_wrong_port @ 0 # []" "0 \<notin> set (butlast str_wrong_port)" "length (butlast str_wrong_port) = 10"
    by (simp_all add: str_wrong_port_def)
  with assms(3) show ?thesis
    by (intro message_replied [OF assms(1,2)]) (simp_all add: send_error_to_eq [OF a])
qed

lemma try_read_nothing:
  assumes "ready_from X ok w0 H ip w" and "mail X w (client_port c) = []" and "try_read_data X c buffer n w = Inr (k, c', buffer', w')"
  shows "w' = w"
proof -
  obtain r w1 where rc: "udp_receive_zero_copy X (client_port c) w = Inr (r, w1)"
    using assms(3) by (auto simp: try_read_data_def bindR_eq_Inr_iff)
  from safeD [OF returns_safe [OF receive_step [OF assms(1), of "client_port c"]] rc, unfolded prod.case] assms(2)
  have "r = None" "w1 = w" by (cases r; simp)+
  then show ?thesis using assms(3) by (simp add: try_read_data_def rc)
qed

text \<open>A new block is not answered by \<open>try_read_data\<close> itself.\<close>

lemma try_read_replies:
  assumes "ready_from X ok w0 H (tftp_server_ip c) w" and "next_hop X (tftp_server_ip c) w = Some m"
    and "try_read_data X c buffer n w = Inr (k, c', buffer', w')"
  shows "case mail X w (client_port c) of
      [] \<Rightarrow> quiet X w w'
    | (source, payload) # rest \<Rightarrow> (\<forall>opcode block bytes. payload = block_message opcode block bytes \<longrightarrow>
        (if server_port c \<in> {TFTP_INITIAL_SERVER_PORT, source} \<and> uint block = uint (block_number c) + 1 then quiet X w w'
         else replied w w' m c (block_reply c (nat n) source block bytes)))"
proof -
  obtain r w1 where rc: "udp_receive_zero_copy X (client_port c) w = Inr (r, w1)"
    using assms(3) by (auto simp: try_read_data_def bindR_eq_Inr_iff)
  note post = safeD [OF returns_safe [OF receive_step [OF assms(1), of "client_port c"]] rc, unfolded prod.case]
  have q: "quiet X w w1" by (rule quiet_steps(3) [OF rc])
  show ?thesis
  proof (cases r)
    case None
    then have "w' = w" using assms(3) post by (auto simp: try_read_data_def rc)
    then show ?thesis using post None by (simp add: quiet_def)
  next
    case (Some p)
    then obtain rest where i: "ready_from X ok w0 (add_mset p H) (tftp_server_ip c) w1" "packet_ok (packets w1 p)"
      "mail X w (client_port c) = (source_port (packets w1 p), frame_of (packets w1 p)) # rest"
      using post by (auto simp: deliverable_def)
    have m: "next_hop X (tftp_server_ip c) w1 = Some m" using q assms(2) by (simp add: quiet_def)
    have fresh: "quiet X w (free_network_packet X p w1)" by (rule quiet_trans [OF q quiet_steps(2)])
    have "if server_port c \<in> {TFTP_INITIAL_SERVER_PORT, source_port (packets w1 p)} \<and> uint block = uint (block_number c) + 1
        then quiet X w w' else replied w w' m c (block_reply c (nat n) (source_port (packets w1 p)) block bytes)"
      if f: "frame_of (packets w1 p) = block_message opcode block bytes" for opcode block bytes
    proof -
      note run = assms(3) [unfolded try_read_data_def rc Some bindR_Inr prod.case option.case Let_def frame_block [OF i(2) f]]
      have sent: "replied w (free_network_packet X p w2) m c reply" if "replied w1 w2 m c reply" for w2 c reply
        by (rule replied_free [OF quiet_replied [OF q that]])
      consider (port) "server_port c \<notin> {TFTP_INITIAL_SERVER_PORT, source_port (packets w1 p)}"
        | (same) "server_port c \<in> {TFTP_INITIAL_SERVER_PORT, source_port (packets w1 p)}" "block = block_number c"
        | (other) "server_port c \<in> {TFTP_INITIAL_SERVER_PORT, source_port (packets w1 p)}" "block \<noteq> block_number c" by blast
      then show ?thesis
      proof cases
        case port
        then show ?thesis
          using run by (auto simp: bindR_eq_Inr_iff block_reply_def dest!: wrong_port_replied [OF i(1) m] intro: sent)
      next
        case same
        then obtain w2 where "ack_current_block X c w1 = Inr w2" "w' = free_network_packet X p w2"
          using run by (auto simp: bindR_eq_Inr_iff)
        moreover from this(1) have "replied w (free_network_packet X p w2) m c (Some (server_port c, ack_bytes (block_number c)))"
          by (rule sent [OF ack_replied(1) [OF i(1) m]])
        ultimately show ?thesis using same by (auto simp: block_reply_def)
      next
        case other
        then show ?thesis
          using run fresh replied_quiet [OF fresh] by (auto simp: bindR_eq_Inr_iff block_reply_def split: if_splits)
      qed
    qed
    then show ?thesis by (simp add: i(3))
  qed
qed

end

section \<open>One call while blocks arrive\<close>

lemma data_read_cong: "mail X w' = mail X w \<Longrightarrow> data_read X w' = data_read X w"
  by (intro ext) (simp add: data_read_def)

text \<open>The timer of the connection does not matter to what is read.\<close>

lemma data_read_backoff:
  assumes "data_read X w (c\<lparr>tftp_backoff := b\<rparr>) buffer n (m, c', buffer')"
  shows "\<exists>c1. data_read X w c buffer n (m, c1, buffer') \<and> c' = c1\<lparr>tftp_backoff := b\<rparr>"
proof -
  obtain k where k: "c' = c\<lparr>tftp_backoff := b, block_number := k\<rparr>" using assms by (auto simp: data_read_def)
  have s: "(c\<lparr>tftp_backoff := b, block_number := j\<rparr> = c\<lparr>tftp_backoff := b, block_number := i\<rparr>) =
      (c\<lparr>block_number := j\<rparr> = c\<lparr>block_number := i\<rparr>)"
    "(c\<lparr>tftp_backoff := b, block_number := j\<rparr> = c\<lparr>tftp_backoff := b\<rparr>) = (c\<lparr>block_number := j\<rparr> = c)" for i j
    by (cases c, simp)+
  have "data_read X w c buffer n (m, c\<lparr>block_number := k\<rparr>, buffer')"
    using assms unfolding k data_read_def
    by (auto simp: take_block_def s split: list.splits prod.splits if_splits)
  then show ?thesis by (intro exI [of _ "c\<lparr>block_number := k\<rparr>"]) (simp add: k)
qed

context intrusive_list
begin

lemma tftp_read_block_from:
  assumes "ready_from X ok w0 H (tftp_server_ip c) w" and "backoff_ok X (tftp_backoff c)"
    and "tftp_status c = TFTP_STATE_READ" and "0 \<le> n" and "n \<le> 900" and "n \<le> int (length buffer)"
  shows "safe (tftp_read X c buffer n w) (\<lambda>(m, c', buffer', w'). ready_from X ok w0 H (tftp_server_ip c) w' \<and>
    mail X w' = (mail X w)(client_port c := tl (mail X w (client_port c))) \<and>
    (\<exists>c1 b. data_read X w c buffer n (m, c1, buffer') \<and> backoff_ok X b \<and>
       c' = c1\<lparr>tftp_backoff := b, tftp_status := if 0 < m \<and> m < 512 then TFTP_STATE_DONE else TFTP_STATE_READ\<rparr>))"
proof -
  let ?taken = "(mail X w)(client_port c := tl (mail X w (client_port c)))"
  let ?post = "\<lambda>(m, c', buffer', w'). ready_from X ok w0 H (tftp_server_ip c) w' \<and> mail X w' = ?taken \<and>
    (\<exists>c1 b. data_read X w c buffer n (m, c1, buffer') \<and> backoff_ok X b \<and>
       c' = c1\<lparr>tftp_backoff := b, tftp_status := if 0 < m \<and> m < 512 then TFTP_STATE_DONE else TFTP_STATE_READ\<rparr>)"
  let ?rest = "\<lambda>(m, c, buffer, w).
        if m \<noteq> 0 then
          let c = c\<lparr>tftp_backoff := backoff_reset (tftp_backoff c)\<rparr> in
          if m < 512 then
            bindR (ack_current_block X c w) (\<lambda>w. Inr (m, c\<lparr>tftp_status := TFTP_STATE_DONE\<rparr>, buffer, w))
          else Inr (m, c, buffer, w)
        else Inr (0, c, buffer, w)"
  have rest: "safe (?rest (m, c', buffer', w2)) ?post"
    if w2: "ready_from X ok w0 H (tftp_server_ip c) w2" "mail X w2 = ?taken" and d: "data_read X w (c\<lparr>tftp_backoff := b\<rparr>) buffer n (m, c', buffer')"
      and b: "backoff_ok X b" for b m c' buffer' w2
  proof -
    obtain c1 where c1: "data_read X w c buffer n (m, c1, buffer')" "c' = c1\<lparr>tftp_backoff := b\<rparr>"
      using data_read_backoff [OF d] by blast
    obtain k where k: "c1 = c\<lparr>block_number := k\<rparr>" using c1(1) by (auto simp: data_read_def)
    have m: "0 \<le> m" using c1(1) by (simp add: data_read_def)
    have st: "tftp_status c1 = TFTP_STATE_READ" using k assms(3) by simp
    have keep: "c1\<lparr>tftp_backoff := b', tftp_status := TFTP_STATE_READ\<rparr> = c1\<lparr>tftp_backoff := b'\<rparr>" for b'
      using st by (cases c1) simp
    consider (none) "m = 0" | (last) "m \<noteq> 0" "m < 512" | (full) "\<not> m < 512" using m by linarith
    then show ?thesis
    proof cases
      case none
      then show ?thesis using w2 c1 b by (auto intro!: exI [of _ c1] exI [of _ b] simp: keep)
    next
      case last
      let ?c = "c'\<lparr>tftp_backoff := backoff_reset (tftp_backoff c')\<rparr>"
      have ip: "tftp_server_ip ?c = tftp_server_ip c" by (simp add: c1(2) k)
      have "safe (ack_current_block X ?c w2) (\<lambda>w'. ready_from X ok w0 H (tftp_server_ip c) w' \<and> mail X w' = ?taken)"
        by (rule safe_mono [OF ack_step [of w0 H ?c w2]]) (use w2 ip in auto)
      moreover have "?post (m, ?c\<lparr>tftp_status := TFTP_STATE_DONE\<rparr>, buffer', w3)" 
        if "ready_from X ok w0 H (tftp_server_ip c) w3 \<and> mail X w3 = ?taken" for w3
        using that c1 last m b by (auto intro!: exI [of _ c1] exI [of _ "backoff_reset b"] simp: backoff_reset_ok)
      ultimately have "safe (bindR (ack_current_block X ?c w2) (\<lambda>w. Inr (m, ?c\<lparr>tftp_status := TFTP_STATE_DONE\<rparr>, buffer', w))) ?post"
        unfolding safe_bindR safe_Inr by (rule safe_mono)
      then show ?thesis using last by (simp add: Let_def)
    next
      case full
      then show ?thesis using w2 c1 b by (auto intro!: exI [of _ c1] exI [of _ "backoff_reset b"] simp: keep backoff_reset_ok)
    qed
  qed
  have resend: "safe (tftp_resend X (ack_current_block X c) c w) (\<lambda>(c', w'). ready_from X ok w0 H (tftp_server_ip c) w' \<and>
      (\<exists>b. backoff_ok X b \<and> c' = c\<lparr>tftp_backoff := b\<rparr>) \<and> mail X w' = mail X w)"
    by (rule tftp_resend_step [OF assms(1,2)]) (rule ack_step)
  have n: "tftp_read X c buffer n w = bindR (tftp_resend X (ack_current_block X c) c w) (\<lambda>(c, w).
      bindR (try_read_data X c buffer n w) ?rest)"
    using assms(3) by (simp add: tftp_read_def)
  show ?thesis
    unfolding n safe_bindR [of "tftp_resend _ _ _ _"]
  proof (rule safe_mono [OF resend], clarify)
    fix b w1 assume w1: "ready_from X ok w0 H (tftp_server_ip c) w1" "backoff_ok X b" "mail X w1 = mail X w"
    let ?c = "c\<lparr>tftp_backoff := b\<rparr>"
    have r: "ready_from X ok w0 H (tftp_server_ip ?c) w1" using w1(1) by simp
    show "safe (bindR (try_read_data X ?c buffer n w1) ?rest) ?post"
      unfolding safe_bindR [of "try_read_data _ _ _ _ _"]
    proof (rule safe_mono [OF try_read_data_step [OF r assms(4-6)]])
      fix x assume x: "case x of (m, c', buffer', w') \<Rightarrow> ready_from X ok w0 H (tftp_server_ip ?c) w' \<and>
        mail X w' = (mail X w1)(client_port ?c := tl (mail X w1 (client_port ?c))) \<and> data_read X w1 ?c buffer n (m, c', buffer')"
      obtain m c' buffer' w2 where e: "x = (m, c', buffer', w2)" by (cases x)
      have "ready_from X ok w0 H (tftp_server_ip c) w2" "mail X w2 = ?taken" "data_read X w ?c buffer n (m, c', buffer')"
        using x data_read_cong [OF w1(3)] w1(3) by (simp_all add: e)
      from rest [OF this w1(2)] show "safe (?rest x) ?post" by (simp only: e)
    qed
  qed
qed

lemma resend_replied:
  assumes "ready_from X ok w0 H (tftp_server_ip c) w" and "next_hop X (tftp_server_ip c) w = Some m"
    and "tftp_resend X (ack_current_block X c) c w = Inr (c', w')"
  shows "replied w w' m c (if fst (backoff_timeout X (tftp_backoff c) w) then Some (server_port c, ack_bytes (block_number c)) else None) \<and>
    next_hop X (tftp_server_ip c) w' = Some m \<and> our_mac w' = our_mac w \<and> our_ip w' = our_ip w"
proof -
  obtain expired v where b: "backoff_timeout X (tftp_backoff c) w = (expired, v)" by fastforce
  have v: "v = w\<lparr>env := env v\<rparr>" by (rule backoff_timeout_env [OF b])
  have q: "quiet X w v" by (subst v) (rule quiet_steps(1))
  have rv: "ready_from X ok w0 H (tftp_server_ip c) v" by (subst v, simp add: assms(1))
  have hv: "next_hop X (tftp_server_ip c) v = Some m" using q assms(2) by (simp add: quiet_def)
  show ?thesis
  proof (cases expired)
    case True
    then obtain v2 b' where a: "ack_current_block X c v = Inr v2" "next_backoff X (tftp_backoff c) v2 = Inr (b', w')"
      using assms(3) b by (auto simp: tftp_resend_def bindR_eq_Inr_iff)
    note sent = ack_replied [OF rv hv a(1)]
    have w': "w' = v2\<lparr>env := env w'\<rparr>" by (rule next_backoff_env [OF a(2)])
    have "replied v w' m c (Some (server_port c, ack_bytes (block_number c)))"
      using sent(1) w' replied_env by metis
    moreover have "quiet X v2 w'" by (subst w') (rule quiet_steps(1))
    ultimately show ?thesis using quiet_replied [OF q] sent(2-4) q True by (simp add: b quiet_def)
  next
    case False
    then have "w' = v" using assms(3) b by (simp add: tftp_resend_def)
    then show ?thesis using replied_quiet [OF q] hv q False by (simp add: b quiet_def)
  qed
qed

text \<open>The timer fires first, then the datagram is answered, and a short new block is acknowledged last.\<close>

lemma tftp_read_replies:
  assumes "ready_from X ok w0 H (tftp_server_ip c) w" and "backoff_ok X (tftp_backoff c)"
    and "tftp_status c = TFTP_STATE_READ" and "0 \<le> n" and "n \<le> 900" and "n \<le> int (length buffer)"
    and "next_hop X (tftp_server_ip c) w = Some hw" and "tftp_read X c buffer n w = Inr (m, c', buffer', w')"
  shows "reader_replies X c n hw w w'"
proof -
  let ?first = "\<lambda>v. replied w v hw c (if fst (backoff_timeout X (tftp_backoff c) w) then Some (server_port c, ack_bytes (block_number c)) else None)"
  obtain c1 w1 k c2 buffer2 w2 where run: "tftp_resend X (ack_current_block X c) c w = Inr (c1, w1)"
    "try_read_data X c1 buffer n w1 = Inr (k, c2, buffer2, w2)"
    and last: "if k \<noteq> 0 \<and> k < 512 then ack_current_block X (c2\<lparr>tftp_backoff := backoff_reset (tftp_backoff c2)\<rparr>) w2 = Inr w' else w' = w2"
    using assms(3,8) by (auto simp: tftp_read_def bindR_eq_Inr_iff Let_def split: if_splits)
  have first: "?first w1" "next_hop X (tftp_server_ip c) w1 = Some hw" "our_mac w1 = our_mac w" "our_ip w1 = our_ip w"
    using resend_replied [OF assms(1,7) run(1)] by simp_all
  have "safe (tftp_resend X (ack_current_block X c) c w) (\<lambda>(c', w'). ready_from X ok w0 H (tftp_server_ip c) w' \<and>
      (\<exists>b. backoff_ok X b \<and> c' = c\<lparr>tftp_backoff := b\<rparr>) \<and> mail X w' = mail X w)"
    by (rule tftp_resend_step [OF assms(1,2)]) (rule ack_step)
  from safeD [OF this run(1)] obtain b where c1: "ready_from X ok w0 H (tftp_server_ip c1) w1" "c1 = c\<lparr>tftp_backoff := b\<rparr>"
    "mail X w1 = mail X w" by auto
  from safeD [OF try_read_data_step [OF c1(1) assms(4-6)] run(2)]
  have w2: "ready_from X ok w0 H (tftp_server_ip c1) w2" "data_read X w c1 buffer n (k, c2, buffer2)"
    using data_read_cong [OF c1(3)] by simp_all
  show ?thesis
  proof (cases "mail X w (client_port c)")
    case Nil
    then have "k = 0" "mail X w1 (client_port c1) = []" using w2(2) by (simp_all add: data_read_def c1(2,3))
    then have "w' = w1" using last try_read_nothing [OF c1(1) _ run(2)] by simp
    then show ?thesis using first Nil by (auto simp: reader_replies_def replied_def intro!: exI [of _ w1])
  next
    case (Cons x rest)
    obtain source payload where x: "x = (source, payload)" by fastforce
    have "replied w1 w' hw c (block_reply c (nat n) source block bytes)"
      if payload: "payload = block_message opcode block bytes" for opcode block bytes
    proof -
      have taken: "(k, c2, buffer2) = take_block c1 buffer (nat n) source block bytes"
        using w2(2) payload Cons x by (simp add: data_read_def c1(2))
      have hop: "next_hop X (tftp_server_ip c1) w1 = Some hw" using first(2) by (simp add: c1(2))
      have head: "mail X w1 (client_port c1) = (source, payload) # rest" using Cons by (simp add: c1(2,3) x)
      note r = try_read_replies [OF c1(1) hop run(2), unfolded head list.case prod.case, rule_format, OF payload]
      have same: "block_reply c1 (nat n) source block bytes = block_reply c (nat n) source block bytes"
        "replied w1 w2 hw c1 reply = replied w1 w2 hw c reply" for reply
        by (simp_all add: c1(2) block_reply_def replied_def split: option.split)
      show ?thesis
      proof (cases "server_port c \<in> {TFTP_INITIAL_SERVER_PORT, source} \<and> uint block = uint (block_number c) + 1")
        case False
        then have "k = 0" using taken by (auto simp: take_block_def c1(2))
        moreover have "replied w1 w2 hw c (block_reply c (nat n) source block bytes)"
          using r False same by (simp add: c1(2) split: if_splits)
        ultimately show ?thesis using last by simp
      next
        case True
        then have q: "quiet X w1 w2" using r by (simp add: c1(2))
        have k: "k = int (length (take (nat n) bytes))" "c2 = c1\<lparr>block_number := block\<rparr>" "block \<noteq> block_number c"
          using taken True by (auto simp: take_block_def c1(2))
        let ?c = "c2\<lparr>tftp_backoff := backoff_reset (tftp_backoff c2)\<rparr>"
        have ready: "ready_from X ok w0 H (tftp_server_ip ?c) w2" "next_hop X (tftp_server_ip ?c) w2 = Some hw"
          using w2(1) q first(2) by (simp_all add: c1(2) k(2) quiet_def)
        have "replied w1 w' hw c (Some (server_port c, ack_bytes block))" if "k \<noteq> 0 \<and> k < 512"
          using quiet_replied [OF q ack_replied(1) [OF ready]] last that by (simp add: k(2) c1(2) replied_def)
        then show ?thesis using True last k replied_quiet [OF q] by (auto simp: block_reply_def split: if_splits)
      qed
    qed
    then show ?thesis using first by (auto simp: reader_replies_def Cons x intro!: exI [of _ w1])
  qed
qed

lemma tftp_read_block_step:
  assumes "ready_to X ok H (tftp_server_ip c) w" and "backoff_ok X (tftp_backoff c)"
    and "tftp_status c = TFTP_STATE_READ" and "0 \<le> n" and "n \<le> 900" and "n \<le> int (length buffer)"
  shows "safe (tftp_read X c buffer n w) (\<lambda>(m, c', buffer', w'). ready_to X ok H (tftp_server_ip c) w' \<and>
    mail X w' = (mail X w)(client_port c := tl (mail X w (client_port c))) \<and>
    (\<exists>c1 b. data_read X w c buffer n (m, c1, buffer') \<and> backoff_ok X b \<and>
       c' = c1\<lparr>tftp_backoff := b, tftp_status := if 0 < m \<and> m < 512 then TFTP_STATE_DONE else TFTP_STATE_READ\<rparr>) \<and>
    (\<forall>hw. next_hop X (tftp_server_ip c) w = Some hw \<longrightarrow> reader_replies X c n hw w w'))"
proof (rule safe_mono [OF tftp_read_block_from [OF ready_from_start [OF assms(1)] assms(2-6)]], goal_cases)
  case (1 x)
  obtain m c' buffer' w' where x: "x = (m, c', buffer', w')" by (cases x)
  have "reader_replies X c n hw w w'" if "next_hop X (tftp_server_ip c) w = Some hw" for hw
    using tftp_read_replies [OF ready_from_start [OF assms(1)] assms(2-6) that] 1(1) by (simp add: x)
  then show ?case using 1(2) ready_fromD unfolding x prod.case by blast
qed

end

text \<open>
  Property C23: a call of \<open>tftp_read\<close> while blocks arrive.  It removes the oldest datagram from the port of
  the download and leaves every other port alone, keeps the invariants and never writes past the bytes it
  reports.  A datagram with the next block from the server's port hands out as many of its bytes as fit,
  any other block is dropped.  The download is done exactly when the call hands out between 1 and 511
  bytes: an empty last block does not end it, and a full block of which only a part fits does.  If the
  server's hardware address is known, what goes on the wire is the acknowledgement of the last block
  when the timer has expired, and then, when a block has arrived, \<open>block_reply\<close>: an error to a foreign
  port, the acknowledgement of a repeated block or of a block that ends the download, and nothing
  otherwise.
\<close>

theorem tftp_read_block:
  assumes "intrusive_list X ok" and "ready_to X ok H (tftp_server_ip c) w" and "backoff_ok X (tftp_backoff c)"
    and "tftp_status c = TFTP_STATE_READ" and "0 \<le> n" and "n \<le> 900" and "n \<le> int (length buffer)"
  shows "safe (tftp_read X c buffer n w) (\<lambda>(m, c', buffer', w'). ready_to X ok H (tftp_server_ip c) w' \<and>
    mail X w' = (mail X w)(client_port c := tl (mail X w (client_port c))) \<and>
    (\<exists>c1 b. data_read X w c buffer n (m, c1, buffer') \<and> backoff_ok X b \<and>
       c' = c1\<lparr>tftp_backoff := b, tftp_status := if 0 < m \<and> m < 512 then TFTP_STATE_DONE else TFTP_STATE_READ\<rparr>) \<and>
    (\<forall>hw. next_hop X (tftp_server_ip c) w = Some hw \<longrightarrow> reader_replies X c n hw w w'))"
  by (rule intrusive_list.tftp_read_block_step [OF assms])

theorem tftp_read_block_witness:
  "safe (tftp_read ref_libs patient (replicate 600 9) 512 (waiting (block_message 3 1 [65, 66, 67])))
     (\<lambda>(m, c, buffer, w). m = 3 \<and> take 3 buffer = [65, 66, 67] \<and> block_number c = 1 \<and> tftp_status c = TFTP_STATE_DONE \<and>
        mail ref_libs w 68 = [] \<and> drop 42 (tx_frame w 0) = [0, 4, 0, 1])"
proof -
  let ?w = "waiting (block_message 3 1 [65, 66, 67])"
  have fields: "tftp_server_ip patient = tftp_server_ip reading" "client_port patient = 68" "server_port patient = 67"
    "block_number patient = 0" "tftp_status patient = TFTP_STATE_READ"
    by (simp_all add: patient_def reading_def)
  have r: "ready_to ref_libs ref_ok {#} (tftp_server_ip patient) ?w"
    unfolding fields by (rule waiting_ready) (simp_all add: block_message_def)
  have b: "backoff_ok ref_libs (tftp_backoff patient)" "tftp_status patient = TFTP_STATE_READ"
    using sample_backoff_ok [of ref_libs] by (simp_all add: patient_def reading_def backoff_ok_def)
  have n: "(0 :: int) \<le> 512" "(512 :: int) \<le> 900" "512 \<le> int (length (replicate 600 (9 :: u8)))" by simp_all
  have m: "mail ref_libs ?w 68 = [(67, block_message 3 1 [65, 66, 67])]"
    by (rule waiting_mail) (simp add: block_message_def)
  have d: "data_read ref_libs ?w patient buffer 512 (m, c, buffer') \<Longrightarrow>
      (m, c, buffer') = (3, patient\<lparr>block_number := 1\<rparr>, [65, 66, 67] @ drop 3 buffer)" for m c and buffer buffer' :: "u8 list"
    by (simp add: data_read_def fields m take_block_def numeral_3_eq_3)
  have h: "next_hop ref_libs (tftp_server_ip patient) ?w = Some [2, 0, 0, 0, 0, 2]"
    by (simp add: next_hop_def should_broadcast_def get_our_netmask_def find_arp_entry_def sample_state_def sample_entry_def
        fields(1) reading_def used_list_def waiting_def set_connection_def set_packet_def)
  have s: "our_mac ?w = [2, 0, 0, 0, 0, 1]" "tx_index ?w = 0" "tx_owner (tx_descriptors ?w ! 0) = OWNER_CPU"
    "\<not> fst (backoff_timeout ref_libs (tftp_backoff patient) ?w)"
    by (simp_all add: waiting_def set_connection_def set_packet_def sample_state_def patient_def reading_def backoff_timeout_def
        now_def ref_libs_def time_less_def time_value_def del: upt_rec_numeral)
  have a: "block_reply patient 512 67 1 [65, 66, 67] = Some (67, [0, 4, 0, 1])"
    by (simp add: block_reply_def fields ack_bytes_def be16_bytes_def numeral_3_eq_3)
  have t: "drop 42 (tx_frame w' 0) = [0, 4, 0, 1]" if "reader_replies ref_libs patient 512 [2, 0, 0, 0, 0, 2] ?w w'" for w'
  proof -
    from that s(4) obtain v where v: "replied ?w v [2, 0, 0, 0, 0, 2] patient None" "our_mac v = our_mac ?w"
      "\<forall>opcode block bytes. block_message 3 1 [65, 66, 67] = block_message opcode block bytes \<longrightarrow>
        replied v w' [2, 0, 0, 0, 0, 2] patient (block_reply patient (nat 512) 67 block bytes)"
      by (auto simp: reader_replies_def fields m)
    from v(3) [rule_format, OF refl] v(1,2) s show ?thesis
      by (simp add: replied_def a transmits_def Let_def udp_frame_bytes_def ether_frame_def ip_datagram_def udp_datagram_def length_mac_header)
  qed
  show ?thesis
    by (rule safe_mono [OF tftp_read_block [OF ref_contract r b n]]) (auto simp: fields m h [unfolded fields] dest: d intro!: t)
qed

section \<open>The answer to the request\<close>

text \<open>\<open>compare_option\<close> is a prefix test that moves behind what it has found.\<close>

lemma compare_option_prefix:
  assumes "ahead d source (bytes @ behind)" and "ahead string i (t @ [0])" and "0 \<notin> set t"
  shows "\<exists>pos. compare_option_from d start source (source + int (length bytes)) string i = Inr (prefix (t @ [0]) bytes, pos) \<and>
    (prefix (t @ [0]) bytes \<longrightarrow> pos = source + int (length t) + 1)"
  using assms
proof (induction t arbitrary: source i bytes)
  case Nil
  then show ?case
    by (cases bytes; subst compare_option_from.simps) (auto simp: ahead_get)
next
  case (Cons c t)
  show ?case
  proof (cases bytes)
    case Nil
    then show ?thesis by (subst compare_option_from.simps) simp
  next
    case bytes: (Cons b bs)
    have after: "ahead d (source + 1) (bs @ behind)" "ahead string (i + 1) (t @ [0])"
      using ahead_next [of d source b "bs @ behind"] ahead_next [of string i c "t @ [0]"] Cons.prems(1,2) bytes by simp_all
    have g: "get_byte string i = Inr c" "get_byte d source = Inr b"
      using Cons.prems(1,2) bytes by (simp_all add: ahead_get)
    have t: "0 \<notin> set t" "c \<noteq> 0" using Cons.prems(3) by auto
    have fin: "source + 1 + int (length bs) = source + int (length bytes)" by (simp add: bytes)
    from Cons.IH [OF after t(1)] show ?thesis
      unfolding fin using t(2) by (subst compare_option_from.simps) (auto simp: g bytes)
  qed
qed

lemma compare_option_literal:
  assumes "ahead d off (bytes @ behind)" and "string = t @ [0]" and "0 \<notin> set t"
  shows "\<exists>pos. compare_option d off (off + int (length bytes)) string = Inr (prefix string bytes, pos) \<and>
    (prefix string bytes \<longrightarrow> pos = off + int (length string))"
  using compare_option_prefix [OF assms(1), of string 0 t off] assms(2,3)
  by (simp add: compare_option_def ahead_def ac_simps)

lemma str_literals:
  "str_blksize = butlast str_blksize @ [0]" "0 \<notin> set (butlast str_blksize)" "length str_blksize = 8"
  "str_512 = butlast str_512 @ [0]" "0 \<notin> set (butlast str_512)" "length str_512 = 4"
  by (simp_all add: str_blksize_def str_512_def)

lemma be16_head: "2 \<le> length payload \<Longrightarrow> \<exists>v rest. payload = be16_bytes v @ rest"
proof -
  assume "2 \<le> length payload"
  then obtain a b rest where "payload = [a, b] @ rest"
    by (metis One_nat_def Suc_1 Suc_le_length_iff append_Cons append_Nil)
  then show ?thesis using be16_bytes_of [of a b] by metis
qed

lemma be16_prefix: "prefix (be16_bytes a @ xs) (be16_bytes b @ ys) \<longleftrightarrow> a = b \<and> prefix xs ys"
proof -
  have "a = b" if "be16_bytes a = be16_bytes b" using arg_cong [OF that, of word_sum] by (simp add: word_unat_eq_iff)
  then show ?thesis by (auto simp: prefix_def)
qed

definition oack_bytes :: "u8 list" where
  "oack_bytes = be16_bytes TFTP_OPCODE_OACK @ str_blksize @ str_512"

text \<open>\<open>read_oack\<close> accepts exactly the messages that start with the acknowledged block size.\<close>

lemma read_oack_prefix:
  assumes "ahead d off (payload @ behind)" and "2 \<le> length payload"
  shows "read_oack d off (off + int (length payload)) = Inr (prefix oack_bytes payload)"
proof -
  obtain opcode rest where p: "payload = be16_bytes opcode @ rest" using be16_head [OF assms(2)] by blast
  have o: "read_be16 d off = Inr opcode"
    using be16.rd_ahead [of d off opcode "rest @ behind"] assms(1) by (simp add: p)
  have fin: "off + int (length payload) = off + 2 + int (length rest)" by (simp add: p)
  have a: "ahead d (off + 2) (rest @ behind)" using ahead_skip [of d off "be16_bytes opcode" "rest @ behind"] assms(1) by (simp add: p)
  have pre: "prefix oack_bytes payload \<longleftrightarrow> opcode = TFTP_OPCODE_OACK \<and> prefix (str_blksize @ str_512) rest"
    by (auto simp: oack_bytes_def p be16_prefix)
  obtain pos where 1: "compare_option d (off + 2) (off + 2 + int (length rest)) str_blksize = Inr (prefix str_blksize rest, pos)"
    "prefix str_blksize rest \<Longrightarrow> pos = off + 10"
    using compare_option_literal [OF a str_literals(1,2)] str_literals(3) by (auto simp: add.assoc)
  show ?thesis
  proof (cases "prefix str_blksize rest")
    case True
    then obtain rest' where r: "rest = str_blksize @ rest'" by (auto simp: prefix_def)
    have a': "ahead d (off + 10) (rest' @ behind)"
      using ahead_skip [of d "off + 2" str_blksize "rest' @ behind"] a by (simp add: r str_literals(3) add.commute)
    have fin': "off + 2 + int (length rest) = off + 10 + int (length rest')" by (simp add: r str_literals(3))
    obtain pos' where "compare_option d (off + 10) (off + 10 + int (length rest')) str_512 = Inr (prefix str_512 rest', pos')"
      using compare_option_literal [OF a' str_literals(4,5)] by blast
    then show ?thesis
      using 1 True by (simp add: read_oack_def fin o pre r flip: fin')
  next
    case False
    then have "\<not> prefix (str_blksize @ str_512) rest" by (auto simp: prefix_def)
    then show ?thesis using 1(1) False by (simp add: read_oack_def fin o pre)
  qed
qed

context intrusive_list
begin

lemma send_tftp_request_step:
  assumes "ready_from X ok w0 H (tftp_server_ip c) w" and "filename c = t @ 0 # junk" and "0 \<notin> set t" and "length t < 64"
  shows "safe (send_tftp_request X c w) (\<lambda>w'. ready_from X ok w0 H (tftp_server_ip c) w' \<and> mail X w' = mail X w)"
proof -
  have "arp_inv X ok H w" using assms(1) by (simp add: ready_from_def ready_to_def udp_inv_def)
  from send_tftp_request_eq [OF this assms(2-4)] show ?thesis by (simp only:) (rule udp_send_step [OF assms(1)]; simp)
qed

text \<open>\<open>answer\<close>: what the datagram at the head of the port makes of the connection.\<close>

lemma try_read_oack_step:
  assumes "ready_from X ok w0 H ip w"
  shows "returns (try_read_oack X c w) (\<lambda>(status, c', w').
    case mail X w (client_port c) of
      [] \<Rightarrow> status = TFTP_STATUS_RETRY \<and> c' = c \<and> ready_from X ok w0 H ip w'
    | (source, payload) # rest \<Rightarrow>
        if length payload < 2 then status = TFTP_STATUS_RETRY \<and> c' = c \<and> (\<exists>p. ready_from X ok w0 (add_mset p H) ip w')
        else if prefix oack_bytes payload then status = TFTP_STATUS_OK \<and> c' = c\<lparr>server_port := source\<rparr> \<and> ready_from X ok w0 H ip w'
        else status = TFTP_STATUS_ERROR \<and> c' = c \<and> ready_from X ok w0 H ip w')"
  unfolding try_read_oack_def returns_bindR [of "udp_receive_zero_copy _ _ _"]
proof (rule returns_mono [OF receive_step [OF assms, of "client_port c"]], clarify)
  fix r w1
  assume post: "case r of
      None \<Rightarrow> w1 = w \<and> mail X w (client_port c) = []
    | Some p \<Rightarrow> ready_from X ok w0 (add_mset p H) ip w1 \<and> deliverable (packets w1 p) \<and>
        mail X w1 = (mail X w)(client_port c := tl (mail X w (client_port c))) \<and>
        (\<exists>rest. mail X w (client_port c) = (source_port (packets w1 p), frame_of (packets w1 p)) # rest)"
  show "returns (case r of
       None \<Rightarrow> Inr (TFTP_STATUS_RETRY, c, w1)
     | Some p \<Rightarrow>
         if plength (packets w1 p) < 2 then Inr (TFTP_STATUS_RETRY, c, w1)
         else
           let d = data (packets w1 p); off = index (packets w1 p) in
           bindR (read_oack d off (off + plength (packets w1 p))) (\<lambda>valid.
           if valid then
             Inr (TFTP_STATUS_OK, c\<lparr>server_port := source_port (packets w1 p)\<rparr>, free_network_packet X p w1)
           else Inr (TFTP_STATUS_ERROR, c, free_network_packet X p w1)))
    (\<lambda>(status, c', w').
    case mail X w (client_port c) of
      [] \<Rightarrow> status = TFTP_STATUS_RETRY \<and> c' = c \<and> ready_from X ok w0 H ip w'
    | (source, payload) # rest \<Rightarrow>
        if length payload < 2 then status = TFTP_STATUS_RETRY \<and> c' = c \<and> (\<exists>p. ready_from X ok w0 (add_mset p H) ip w')
        else if prefix oack_bytes payload then status = TFTP_STATUS_OK \<and> c' = c\<lparr>server_port := source\<rparr> \<and> ready_from X ok w0 H ip w'
        else status = TFTP_STATUS_ERROR \<and> c' = c \<and> ready_from X ok w0 H ip w')"
  proof (cases r)
    case None
    then show ?thesis using post assms by simp
  next
    case (Some p)
    then obtain rest where i: "ready_from X ok w0 (add_mset p H) ip w1" "deliverable (packets w1 p)"
      "mail X w (client_port c) = (source_port (packets w1 p), frame_of (packets w1 p)) # rest" using post by auto
    let ?k = "packets w1 p"
    have k: "packet_ok ?k" "0 \<le> plength ?k" using i(2) by (simp_all add: deliverable_def packet_ok_def)
    have l: "plength ?k = int (length (frame_of ?k))" using k by (auto simp: frame_of_def packet_ok_def min_def)
    have oack: "read_oack (data ?k) (index ?k) (index ?k + plength ?k) = Inr (prefix oack_bytes (frame_of ?k))"
      if "2 \<le> length (frame_of ?k)" using read_oack_prefix [OF frame_ahead [OF k(1)] that] l by simp
    show ?thesis
    proof (cases "length (frame_of ?k) < 2")
      case True
      then show ?thesis using i(1,3) l Some by auto
    next
      case False
      then show ?thesis using i l Some oack free_step [OF i(1)] by (auto simp: Let_def)
    qed
  qed
qed

end

text \<open>The connection after the answer, with the timer \<open>b\<close>.\<close>

definition answered :: "('e, 'h) libs \<Rightarrow> ('e, 'h, 'z) udp_state_scheme \<Rightarrow> tftp_connection \<Rightarrow> backoff \<Rightarrow> tftp_connection" where
  "answered X w c b = (case mail X w (client_port c) of
      [] \<Rightarrow> c\<lparr>tftp_backoff := b\<rparr>
    | (source, payload) # rest \<Rightarrow>
        if length payload < 2 then c\<lparr>tftp_backoff := b\<rparr>
        else if prefix oack_bytes payload
        then c\<lparr>server_port := source, tftp_status := TFTP_STATE_READ, block_number := 0, tftp_backoff := backoff_reset b\<rparr>
        else c\<lparr>tftp_status := TFTP_STATE_ERROR, tftp_backoff := b\<rparr>)"

text \<open>A datagram of one byte is taken from the port and never freed.\<close>

definition leaks :: "('e, 'h) libs \<Rightarrow> ('e, 'h, 'z) udp_state_scheme \<Rightarrow> u16 \<Rightarrow> bool" where
  "leaks X w prt = (case mail X w prt of [] \<Rightarrow> False | (source, payload) # rest \<Rightarrow> length payload < 2)"

context intrusive_list
begin

lemma tftp_request_from:
  assumes "ready_from X ok w0 H (tftp_server_ip c) w" and "backoff_ok X (tftp_backoff c)"
    and "tftp_status c = TFTP_STATE_REQUEST" and "filename c = t @ 0 # junk" and "0 \<notin> set t" and "length t < 64"
  shows "safe (tftp_read X c buffer n w) (\<lambda>(m, c', buffer', w'). m = 0 \<and> buffer' = buffer \<and>
    (\<exists>b. backoff_ok X b \<and> c' = answered X w c b) \<and>
    (if leaks X w (client_port c) then \<exists>p. ready_from X ok w0 (add_mset p H) (tftp_server_ip c) w'
     else ready_from X ok w0 H (tftp_server_ip c) w'))"
proof -
  let ?post = "\<lambda>(m, c', buffer', w'). m = 0 \<and> buffer' = buffer \<and>
    (\<exists>b. backoff_ok X b \<and> c' = answered X w c b) \<and>
    (if leaks X w (client_port c) then \<exists>p. ready_from X ok w0 (add_mset p H) (tftp_server_ip c) w'
     else ready_from X ok w0 H (tftp_server_ip c) w')"
  let ?rest = "\<lambda>(status, c, w).
        let c = (if status = TFTP_STATUS_OK
                 then c\<lparr>tftp_backoff := backoff_reset (tftp_backoff c), tftp_status := TFTP_STATE_READ, block_number := 0\<rparr>
                 else c);
            c = (if status = TFTP_STATUS_ERROR then c\<lparr>tftp_status := TFTP_STATE_ERROR\<rparr> else c)
        in Inr (0, c, buffer, w)"
  have resend: "safe (tftp_resend X (send_tftp_request X c) c w) (\<lambda>(c', w'). ready_from X ok w0 H (tftp_server_ip c) w' \<and>
      (\<exists>b. backoff_ok X b \<and> c' = c\<lparr>tftp_backoff := b\<rparr>) \<and> mail X w' = mail X w)"
    by (rule tftp_resend_step [OF assms(1,2)]) (rule send_tftp_request_step [OF _ assms(4-6)])
  have n: "tftp_read X c buffer n w = bindR (tftp_resend X (send_tftp_request X c) c w) (\<lambda>(c, w).
      bindR (try_read_oack X c w) ?rest)"
    using assms(3) by (simp add: tftp_read_def)
  show ?thesis
    unfolding n safe_bindR [of "tftp_resend _ _ _ _"]
  proof (rule safe_mono [OF resend], clarify)
    fix b w1 assume w1: "ready_from X ok w0 H (tftp_server_ip c) w1" "backoff_ok X b" "mail X w1 = mail X w"
    show "safe (bindR (try_read_oack X (c\<lparr>tftp_backoff := b\<rparr>) w1) ?rest) ?post"
      unfolding safe_bindR [of "try_read_oack _ _ _"]
      by (rule safe_mono [OF returns_safe [OF try_read_oack_step [OF w1(1)]]])
        (cases "mail X w (client_port c)"; auto simp: w1 answered_def leaks_def intro!: exI [of _ b] split: if_splits)
  qed
qed

lemma tftp_request_step:
  assumes "ready_to X ok H (tftp_server_ip c) w" and "backoff_ok X (tftp_backoff c)"
    and "tftp_status c = TFTP_STATE_REQUEST" and "filename c = t @ 0 # junk" and "0 \<notin> set t" and "length t < 64"
  shows "safe (tftp_read X c buffer n w) (\<lambda>(m, c', buffer', w'). m = 0 \<and> buffer' = buffer \<and>
    (\<exists>b. backoff_ok X b \<and> c' = answered X w c b) \<and>
    (if leaks X w (client_port c) then \<exists>p. ready_to X ok (add_mset p H) (tftp_server_ip c) w'
     else ready_to X ok H (tftp_server_ip c) w'))"
  by (rule safe_mono [OF tftp_request_from [OF ready_from_start [OF assms(1)] assms(2-6)]])
    (auto dest: ready_fromD split: if_splits)

end

text \<open>
  Property C24: the client's step while it waits for the answer to its request.  An answer that starts
  with the acknowledged block size binds the download to the port it came from, with a fresh timer, and
  the next block is the first; any other answer of at least two bytes ends the download with an error;
  without an answer only the timer moves.  No data is handed out, and every packet is given back, except
  that an answer of a single byte is ignored and its packet lost.
\<close>

theorem tftp_request_answered:
  assumes "intrusive_list X ok" and "ready_to X ok H (tftp_server_ip c) w" and "backoff_ok X (tftp_backoff c)"
    and "tftp_status c = TFTP_STATE_REQUEST" and "filename c = t @ 0 # junk" and "0 \<notin> set t" and "length t < 64"
  shows "safe (tftp_read X c buffer n w) (\<lambda>(m, c', buffer', w'). m = 0 \<and> buffer' = buffer \<and>
    (\<exists>b. backoff_ok X b \<and> c' = answered X w c b) \<and>
    (if leaks X w (client_port c) then \<exists>p. ready_to X ok (add_mset p H) (tftp_server_ip c) w'
     else ready_to X ok H (tftp_server_ip c) w'))"
  by (rule intrusive_list.tftp_request_step [OF assms])

theorem tftp_request_answered_witness:
  "safe (tftp_read ref_libs (reading\<lparr>tftp_status := TFTP_STATE_REQUEST, server_port := 69\<rparr>) [] 0 (waiting oack_bytes))
     (\<lambda>(m, c, buffer, w). m = 0 \<and> tftp_status c = TFTP_STATE_READ \<and> server_port c = 67 \<and> block_number c = 0)"
proof -
  let ?c = "reading\<lparr>tftp_status := TFTP_STATE_REQUEST, server_port := 69\<rparr>"
  have l: "length oack_bytes = 14" by (simp add: oack_bytes_def str_literals(3,6))
  have r: "ready_to ref_libs ref_ok {#} (tftp_server_ip ?c) (waiting oack_bytes)"
    using waiting_ready [of oack_bytes] l by fastforce
  have c: "backoff_ok ref_libs (tftp_backoff ?c)" "tftp_status ?c = TFTP_STATE_REQUEST" "filename ?c = [0x66] @ 0 # replicate 62 0"
    "0 \<notin> set [0x66 :: u8]" "length [0x66 :: u8] < 64"
    by (simp_all add: reading_def sample_backoff_ok)
  have "mail ref_libs (waiting oack_bytes) 68 = [(67, oack_bytes)]" by (rule waiting_mail) (simp add: l)
  then show ?thesis
    by (intro safe_mono [OF tftp_request_answered [OF ref_contract r c]]) (auto simp: answered_def l reading_def)
qed

section \<open>A whole download\<close>









section \<open>The messages on the wire\<close>

text \<open>
  Property C25: what the client puts on the wire when the server's hardware address is known: the read
  request names the file as octets and asks for blocks of 512 bytes, the acknowledgement carries the
  current block number, and aborting the download sends the caller's message with the error code zero,
  all from the client's port to the port the download is bound to.
\<close>

theorem tftp_messages_sent:
  assumes "intrusive_list X ok" and "arp_inv X ok H w" and "next_hop X (tftp_server_ip c) w = Some m"
    and "filename c = t @ 0 # junk" and "0 \<notin> set t" and "length t < 64"
    and "message = s @ 0 # junk'" and "0 \<notin> set s" and "length s \<le> 875"
  defines "sent w' payload \<equiv> arp_inv X ok H w' \<and> transmits w w' (udp_frame_bytes m (our_mac w) (client_port c)
    (server_port c) (our_ip w) (tftp_server_ip c) payload)"
  shows "safe (send_tftp_request X c w) (\<lambda>w'. sent w' (request_bytes t)) \<and>
    safe (ack_current_block X c w) (\<lambda>w'. sent w' (ack_bytes (block_number c))) \<and>
    safe (tftp_abort_download X c message w) (\<lambda>w'. sent w' (error_bytes TFTP_ERROR_NOT_DEFINED s))"
proof (intro conjI)
  note sending = udp_message_sent [OF assms(1-3)]
  show "safe (send_tftp_request X c w) (\<lambda>w'. sent w' (request_bytes t))"
    unfolding sent_def intrusive_list.send_tftp_request_eq [OF assms(1,2,4-6)] by (rule sending) (use assms(6) in simp)
  show "safe (ack_current_block X c w) (\<lambda>w'. sent w' (ack_bytes (block_number c)))"
    using sending [of "ack_bytes (block_number c)" "client_port c" "server_port c"]
    by (simp add: sent_def intrusive_list.ack_current_block_eq [OF assms(1,2)])
  show "safe (tftp_abort_download X c message w) (\<lambda>w'. sent w' (error_bytes TFTP_ERROR_NOT_DEFINED s))"
    unfolding sent_def tftp_abort_download_def send_error_def intrusive_list.send_error_to_eq [OF assms(1,2,7-9)]
    by (rule sending) (use assms(9) in simp)
qed

theorem tftp_messages_sent_witness:
  "safe (send_tftp_request ref_libs (reading\<lparr>server_port := 69\<rparr>) (sample_state 0)) (\<lambda>w'.
     drop 42 (tx_frame w' 0) = [0, 1, 0x66, 0, 0x6F, 0x63, 0x74, 0x65, 0x74, 0, 0x62, 0x6C, 0x6B, 0x73, 0x69, 0x7A, 0x65, 0,
       0x35, 0x31, 0x32, 0])"
proof -
  let ?c = "reading\<lparr>server_port := 69\<rparr>"
  have s: "our_mac (sample_state 0) = [2, 0, 0, 0, 0, 1]" "tx_index (sample_state 0) = 0"
    "tx_owner (tx_descriptors (sample_state 0) ! 0) = OWNER_CPU"
    by (simp_all add: sample_state_def del: upt_rec_numeral)
  have h: "next_hop ref_libs (tftp_server_ip ?c) (sample_state 0) = Some [2, 0, 0, 0, 0, 2]"
    by (simp add: next_hop_def should_broadcast_def get_our_netmask_def find_arp_entry_def sample_state_def sample_entry_def
        reading_def used_list_def)
  have c: "filename ?c = [0x66] @ 0 # replicate 62 0" "0 \<notin> set [0x66 :: u8]" "length [0x66 :: u8] < 64"
    by (simp_all add: reading_def)
  have b: "request_bytes [0x66] = [0, 1, 0x66, 0, 0x6F, 0x63, 0x74, 0x65, 0x74, 0, 0x62, 0x6C, 0x6B, 0x73, 0x69, 0x7A, 0x65, 0,
       0x35, 0x31, 0x32, 0]"
    by (simp add: request_bytes_def be16_bytes_def str_octet_def str_blksize_def str_512_def)
  show ?thesis
    using conjunct1 [OF tftp_messages_sent [OF ref_contract sample_arp [OF le0] h c, of "[] @ 0 # []" "[]" "[]"]]
    by (auto simp: b s transmits_def udp_frame_bytes_def ether_frame_def ip_datagram_def udp_datagram_def length_mac_header
        elim!: safe_mono)
qed

end
