(* ===== verification/Application.thy ===== *)
theory Application
  imports Stack_Properties Tftp_Download
begin

text \<open>
  A whole program on the stack: beside the calls of \<open>stack_step\<close> it downloads files, any number of them
  and in any order of calls.  Every packet is still accounted for, but an answer of one byte to a
  read request costs one.
\<close>

section \<open>The connections of the caller\<close>

text \<open>A C string that ends within the first \<open>n\<close> bytes.\<close>

definition holds_string :: "nat \<Rightarrow> u8 list \<Rightarrow> bool" where
  "holds_string n s \<longleftrightarrow> 0 \<in> set (take n s)"

lemma holds_stringE:
  assumes "holds_string n s"
  obtains t junk where "s = t @ 0 # junk" and "0 \<notin> set t" and "length t < n"
proof -
  obtain t rest where t: "take n s = t @ 0 # rest" "0 \<notin> set t"
    using assms split_list_first [of 0 "take n s"] by (auto simp: holds_string_def)
  have "s = t @ 0 # rest @ drop n s" using t(1) append_take_drop_id [of n s] by simp
  moreover have "length t < n" using arg_cong [OF t(1), of length] by simp
  ultimately show ?thesis using that t(2) by blast
qed

text \<open>
  \<open>copy_filename\<close> copies the name without its zero.  Memory that was cleared before holds a string
  afterwards; otherwise the old bytes follow the name.
\<close>

lemma copy_filename_from:
  assumes "source = t @ 0 # junk" and "0 \<notin> set t" and "length t < 64" and "length dest = 64"
    and "i \<le> length t" and "take i dest = take i t"
  shows "copy_filename (int i) source dest = Inr (t @ drop (length t) dest)"
  using assms(4-6)
proof (induction "length t - i" arbitrary: i dest)
  case 0
  then have i: "i = length t" by simp
  then have "t @ drop (length t) dest = dest" using 0(4) append_take_drop_id [of i dest] by simp
  then show ?case using assms(1,3) i by (subst copy_filename.simps) (simp add: get_byte_ok nth_append)
next
  case (Suc n)
  then have i: "i < length t" by simp
  let ?d = "upd i [t ! i] dest"
  have c: "get_byte source (int i) = Inr (t ! i)" using assms(1) i by (simp add: get_byte_ok nth_append)
  have nz: "t ! i \<noteq> 0" using assms(2) i nth_mem by metis
  have p: "put_byte (t ! i) dest (int i) = Inr ?d" using i assms(3) Suc.prems(1) by (simp add: put_byte_ok)
  have d: "length ?d = 64" "take (Suc i) ?d = take (Suc i) t" "drop (length t) ?d = drop (length t) dest"
    using i assms(3) Suc.prems less_imp_Suc_add [OF i] by (auto simp: upd_def take_Suc_conv_app_nth add.commute)
  have "copy_filename (int (Suc i)) source ?d = Inr (t @ drop (length t) ?d)"
    by (rule Suc.hyps(1)) (use Suc.hyps(2) i d in simp_all)
  then show ?case
    using c nz p i assms(3) d(3) by (subst copy_filename.simps) (simp add: add.commute)
qed

lemma copy_filename_eq:
  assumes "source = t @ 0 # junk" and "0 \<notin> set t" and "length t < 64" and "length dest = 64"
  shows "copy_filename 0 source dest = Inr (t @ drop (length t) dest)"
  using copy_filename_from [OF assms, of 0] by simp

text \<open>What every call keeps of a connection.\<close>

definition cleared :: "tftp_connection \<Rightarrow> bool" where
  "cleared c \<longleftrightarrow> length (filename c) = 64 \<and> filename c ! 63 = 0"

definition reader_ok :: "('e, 'h) libs \<Rightarrow> tftp_connection \<Rightarrow> bool" where
  "reader_ok X c \<longleftrightarrow> backoff_ok X (tftp_backoff c) \<and> cleared c"

lemma cleared_string: "cleared c \<Longrightarrow> holds_string 64 (filename c)"
  using nth_mem [of 63 "filename c"] by (simp add: cleared_def holds_string_def)

text \<open>
  \<open>app_reachable X w cs k\<close>: the program is in state \<open>w\<close>, \<open>cs\<close> are the connections of the downloads it
  has begun, and \<open>k\<close> times \<open>tftp_read\<close> found an answer shorter than two bytes while it waited for one.
  The memory of a connection is cleared before its first use, and a file name has at most 63 bytes.
\<close>

inductive app_reachable :: "('e, 'h) libs \<Rightarrow> ('e, 'h, 'z) dhcp_state_scheme \<Rightarrow> (nat \<Rightarrow> tftp_connection option) \<Rightarrow> nat \<Rightarrow> bool"
  for X where
  boot: "memory_ok w \<Longrightarrow> dhcp_status (dhcp w) = DHCP_DISABLED \<Longrightarrow> gmac_init X (network_init X w) = Inr w' \<Longrightarrow>
     app_reachable X w' Map.empty 0"
| stack: "app_reachable X w cs k \<Longrightarrow> stack_step X w w' \<Longrightarrow> app_reachable X w' cs k"
| download: "app_reachable X w cs k \<Longrightarrow> free_connections X w \<noteq> [] \<Longrightarrow> cleared c \<Longrightarrow> holds_string 64 name \<Longrightarrow>
     tftp_download_file X c name ip w = Inr (c', w') \<Longrightarrow> app_reachable X w' (cs(i \<mapsto> c')) k"
| read: "app_reachable X w cs k \<Longrightarrow> cs i = Some c \<Longrightarrow> ip_room X (tftp_server_ip c) w \<Longrightarrow> 0 \<le> n \<Longrightarrow> n \<le> 900 \<Longrightarrow>
     n \<le> int (length buffer) \<Longrightarrow> tftp_read X c buffer n w = Inr (m, c', buffer', w') \<Longrightarrow>
     app_reachable X w' (cs(i \<mapsto> c')) (if tftp_status c = TFTP_STATE_REQUEST \<and> leaks X w (client_port c) then Suc k else k)"
| abort: "app_reachable X w cs k \<Longrightarrow> cs i = Some c \<Longrightarrow> ip_room X (tftp_server_ip c) w \<Longrightarrow> holds_string 876 message \<Longrightarrow>
     tftp_abort_download X c message w = Inr w' \<Longrightarrow> app_reachable X w' cs k"

context intrusive_list
begin

lemma download_file_ok:
  assumes "udp_inv X ok H w" and "free_connections X w \<noteq> []" and "cleared c" and "holds_string 64 name"
  shows "returns (tftp_download_file X c name ip w) (\<lambda>(c', w'). udp_inv X ok H w' \<and> udp_frame w w' \<and> reader_ok X c' \<and>
    tftp_status c' = TFTP_STATE_REQUEST \<and> used_connections X w' = hd (free_connections X w) # used_connections X w \<and>
    connections w' (hd (free_connections X w)) = \<lparr>port = client_port c', queue_count = 0, max_packet_count = 1\<rparr> \<and>
    entry_lists w' = entry_lists w)"
proof -
  obtain t junk where t: "name = t @ 0 # junk" "0 \<notin> set t" "length t < 64" using assms(4) by (rule holds_stringE)
  have copy: "copy_filename 0 name (filename c) = Inr (t @ drop (length t) (filename c))"
    using assms(3) by (intro copy_filename_eq [OF t]) (simp add: cleared_def)
  have "(t @ drop (length t) (filename c)) ! 63 = 0" using assms(3) t(3) by (simp add: cleared_def nth_append)
  then have ok: "cleared (c'\<lparr>filename := t @ drop (length t) (filename c)\<rparr>)" for c'
    using assms(3) t(3) by (simp add: cleared_def)
  have b: "backoff_ok X (backoff_init (tftp_backoff c) TFTP_BACKOFF_START_TIMEOUT TFTP_BACKOFF_MAX_TIMEOUT TFTP_BACKOFF_JITTER_FRACTION)"
    by (rule backoff_init_ok) (simp_all add: word_le_def)
  have lists: "udp_listen X prt m w = Inr w' \<Longrightarrow> entry_lists w' = entry_lists w" for prt m w'
    by (auto simp: udp_listen_def Let_def set_connection_def split: prod.splits option.splits)
  show ?thesis
    unfolding tftp_download_file_def Let_def returns_bindR [of "udp_listen _ _ _ _"]
    by (rule returns_mono [OF udp_listen_cases(2) [OF assms(1,2)]]) (use copy ok b lists in \<open>simp add: reader_ok_def\<close>)
qed

lemma tftp_read_ok:
  assumes "udp_inv X ok H w" and "ip_room X (tftp_server_ip c) w" and "reader_ok X c"
    and "0 \<le> n" and "n \<le> 900" and "n \<le> int (length buffer)"
  shows "safe (tftp_read X c buffer n w) (\<lambda>(m, c', buffer', w'). udp_frame w w' \<and> reader_ok X c' \<and>
    (if tftp_status c = TFTP_STATE_REQUEST \<and> leaks X w (client_port c) then \<exists>p. udp_inv X ok (add_mset p H) w'
     else udp_inv X ok H w'))"
proof -
  have r: "ready_from X ok w H (tftp_server_ip c) w" using assms(1,2) by (simp add: ready_from_start ready_to_def)
  have b: "backoff_ok X (tftp_backoff c)" and c: "cleared c" using assms(3) by (simp_all add: reader_ok_def)
  obtain t junk where t: "filename c = t @ 0 # junk" "0 \<notin> set t" "length t < 64"
    using cleared_string [OF c] by (rule holds_stringE)
  show ?thesis
  proof (cases "tftp_status c")
    case TFTP_STATE_REQUEST
    have "reader_ok X (answered X w c b)" if "backoff_ok X b" for b
      using that c backoff_reset_ok by (auto simp: reader_ok_def answered_def cleared_def split: list.splits)
    moreover have "ready_from X ok w H' ip w' \<Longrightarrow> udp_inv X ok H' w' \<and> udp_frame w w'" for H' ip w'
      by (simp add: ready_from_def ready_to_def)
    ultimately show ?thesis
      by (intro safe_mono [OF tftp_request_from [OF r b TFTP_STATE_REQUEST t]])
        (use TFTP_STATE_REQUEST in \<open>clarsimp split: if_split_asm; blast\<close>)
  next
    case TFTP_STATE_READ
    show ?thesis
      by (rule safe_mono [OF tftp_read_block_from [OF r b TFTP_STATE_READ assms(4-6)]])
        (use TFTP_STATE_READ c in \<open>auto simp: ready_from_def ready_to_def reader_ok_def data_read_def cleared_def\<close>)
  qed (use assms(1,3) in \<open>simp_all add: tftp_read_def\<close>)
qed

lemma tftp_abort_ok:
  assumes "udp_inv X ok H w" and "ip_room X (tftp_server_ip c) w" and "holds_string 876 message"
  shows "safe (tftp_abort_download X c message w) (\<lambda>w'. udp_inv X ok H w' \<and> udp_frame w w')"
proof -
  obtain t junk where t: "message = t @ 0 # junk" "0 \<notin> set t" "length t < 876" using assms(3) by (rule holds_stringE)
  then have l: "length t \<le> 875" by simp
  have a: "arp_inv X ok H w" using assms(1) by (simp add: udp_inv_def)
  have r: "ready_from X ok w H (tftp_server_ip c) w" using assms(1,2) by (simp add: ready_from_start ready_to_def)
  show ?thesis
    unfolding tftp_abort_download_def send_error_def send_error_to_eq [OF a t(1,2) l]
    by (rule safe_mono [OF udp_send_step [OF r]]) (simp_all add: ready_from_def ready_to_def)
qed

text \<open>The invariant, with the lost packets \<open>L\<close>.\<close>

lemma app_reachable_inv:
  assumes "phy_ready X"
  shows "app_reachable X w cs k \<Longrightarrow> \<exists>L. size L = k \<and> dhcp_inv X ok L w \<and> lease_configured w \<and> (\<forall>i c. cs i = Some c \<longrightarrow> reader_ok X c)"
proof (induction rule: app_reachable.induct)
  case (boot w w')
  then have "stack_reachable X w'" by (rule stack_reachable.boot)
  then show ?case using stack_reachable_inv [OF assms] stack_reachable_lease [OF assms] by auto
next
  case (stack w cs k w')
  then show ?case using stack_step_inv client_step_lease by metis
next
  case (download w cs k c name ip c' w' i)
  then obtain L where L: "size L = k" "dhcp_inv X ok L w" "lease_configured w" "\<forall>i c. cs i = Some c \<longrightarrow> reader_ok X c" by blast
  then have u: "udp_inv X ok L w" by (simp add: dhcp_inv_def)
  from download_file_ok [OF u download.hyps(2-4), of ip] download.hyps(5)
  have s: "udp_inv X ok L w'" "udp_frame w w'" "reader_ok X c'" by simp_all
  note q = quiet_step [OF L(2) s(1,2)]
  show ?case using q client_step_lease [OF _ L(3), of w'] L(1,4) s(3) by auto
next
  case (read w cs k i c n buffer m c' buffer' w')
  then obtain L where L: "size L = k" "dhcp_inv X ok L w" "lease_configured w" "\<forall>i c. cs i = Some c \<longrightarrow> reader_ok X c" by blast
  then have u: "udp_inv X ok L w" and c: "reader_ok X c" using read.hyps(2) by (simp_all add: dhcp_inv_def)
  from safeD [OF tftp_read_ok [OF u read.hyps(3) c read.hyps(4-6)] read.hyps(7)]
  have s: "udp_frame w w'" "reader_ok X c'" and
    inv: "if tftp_status c = TFTP_STATE_REQUEST \<and> leaks X w (client_port c) then \<exists>p. udp_inv X ok (add_mset p L) w' else udp_inv X ok L w'"
    by simp_all
  have "\<exists>L'. size L' = (if tftp_status c = TFTP_STATE_REQUEST \<and> leaks X w (client_port c) then Suc k else k) \<and> udp_inv X ok L' w'"
    using inv L(1) by (auto split: if_splits intro: exI [of _ L] size_add_mset)
  then obtain L' where L': "size L' = (if tftp_status c = TFTP_STATE_REQUEST \<and> leaks X w (client_port c) then Suc k else k)"
    "udp_inv X ok L' w'" by blast
  note q = quiet_step [OF L(2) L'(2) s(1)]
  show ?case using q client_step_lease [OF _ L(3), of w'] L'(1) L(4) s(2) by (intro exI [of _ L']) auto
next
  case (abort w cs k i c message w')
  then obtain L where L: "size L = k" "dhcp_inv X ok L w" "lease_configured w" "\<forall>i c. cs i = Some c \<longrightarrow> reader_ok X c" by blast
  then have u: "udp_inv X ok L w" by (simp add: dhcp_inv_def)
  from safeD [OF tftp_abort_ok [OF u abort.hyps(3,4)] abort.hyps(5)] have s: "udp_inv X ok L w'" "udp_frame w w'" by simp_all
  show ?case using quiet_step [OF L(2) s] client_step_lease [OF _ L(3), of w'] L(1,4) by blast
qed

end

text \<open>
  Property C5: a program that also downloads files.  In every state it can reach each of the 96 packets is
  in one place, except one for each answer of less than two bytes to a read request, which is gone for
  good; so many packets at most are free again.  A lease in force is the one the stack is configured
  with.  A round of the stack does not fault on acceptable frames, and neither does a call of \<open>tftp_read\<close>
  for at most 900 bytes while the address cache has an entry or room for the server: the request never
  reads past its file name.  Beginning another download returns, given a free connection, cleared memory
  and a name of fewer than 64 bytes.
\<close>

theorem application_accounted:
  assumes "intrusive_list X ok" and "phy_ready X" and "app_reachable X w cs k"
  shows "(\<exists>lost. size lost = k \<and> listed X (packet_lists w) + rings w + lost = mset_set {..<96}) \<and> available X w + k \<le> 56 \<and>
    (dhcp_is_done w \<longrightarrow> our_ip w = leased_ip (dhcp w) \<and> our_netmask w = netmask (dhcp w)) \<and>
    (acceptable_frames X RECEIVE_DESCRIPTOR_COUNT w \<longrightarrow> network_task X w \<noteq> Inl Fault) \<and>
    (\<forall>i c buffer n. cs i = Some c \<and> ip_room X (tftp_server_ip c) w \<and> 0 \<le> n \<and> n \<le> 900 \<and> n \<le> int (length buffer) \<longrightarrow>
       tftp_read X c buffer n w \<noteq> Inl Fault) \<and>
    (\<forall>c name ip. free_connections X w \<noteq> [] \<and> cleared c \<and> holds_string 64 name \<longrightarrow>
       returns (tftp_download_file X c name ip w) (\<lambda>_. True))"
proof -
  obtain L where L: "size L = k" "dhcp_inv X ok L w" "lease_configured w" "\<forall>i c. cs i = Some c \<longrightarrow> reader_ok X c"
    using intrusive_list.app_reachable_inv [OF assms] by blast
  have u: "udp_inv X ok L w" using L(2) by (simp add: dhcp_inv_def)
  then have g: "gmac_inv X ok L w" by (simp add: udp_inv_def arp_inv_def)
  then have m: "listed X (packet_lists w) + rings w + L = mset_set {..<96}"
    by (simp add: gmac_inv_def pool_def all_packets_def ac_simps)
  have "size (rings w) = 40" using g by (simp add: gmac_inv_def rings_ok_def rings_def)
  moreover have "available X w \<le> size (listed X (packet_lists w))"
    by (simp add: available_def listed_split [of Free_packets])
  ultimately have "available X w + k \<le> 56" using arg_cong [OF m, of size] L(1) by simp
  then show ?thesis
  proof (intro conjI impI allI; (elim conjE)?)
    show "\<exists>lost. size lost = k \<and> listed X (packet_lists w) + rings w + lost = mset_set {..<96}" using L(1) m by blast
    show "network_task X w \<noteq> Inl Fault" if "acceptable_frames X RECEIVE_DESCRIPTOR_COUNT w"
      by (rule safe_no_fault [OF intrusive_list.network_task_safe [OF assms(1) L(2) that]])
    show "tftp_read X c buffer n w \<noteq> Inl Fault"
      if "cs i = Some c" "ip_room X (tftp_server_ip c) w" "0 \<le> n" "n \<le> 900" "n \<le> int (length buffer)" for i c buffer n
      by (rule safe_no_fault [OF intrusive_list.tftp_read_ok [OF assms(1) u that(2) _ that(3-5)]]) (use L(4) that(1) in blast)
    show "returns (tftp_download_file X c name ip w) (\<lambda>_. True)"
      if "free_connections X w \<noteq> []" "cleared c" "holds_string 64 name" for c name ip
      by (rule returns_mono [OF intrusive_list.download_file_ok [OF assms(1) u that]]) simp
  qed (use L(3) in \<open>simp_all add: lease_configured_def\<close>)
qed

theorem application_accounted_witness:
  "\<exists>w. gmac_init ref_libs (network_init ref_libs cold_state) = Inr w \<and>
     returns (tftp_download_file ref_libs (reading\<lparr>filename := replicate 64 0\<rparr>) [0x66, 0] 0x0A000002 w) (\<lambda>(c, w').
       available ref_libs w' \<le> 56 \<and> tftp_read ref_libs c [] 0 w' \<noteq> Inl Fault)"
proof -
  obtain w where w: "gmac_init ref_libs (network_init ref_libs cold_state) = Inr w" "stack_reachable ref_libs w" by (rule cold_start)
  have start: "app_reachable ref_libs w Map.empty 0" by (rule app_reachable.boot [OF cold_state_ok w(1)])
  let ?c = "reading\<lparr>filename := replicate 64 0\<rparr>"
  have c: "cleared ?c" "holds_string 64 [0x66, 0]" by (simp_all add: cleared_def holds_string_def)
  have boot: "udp_inv ref_libs ref_ok {#} w" "free_connections ref_libs w \<noteq> []" "free_list ref_libs w \<noteq> []"
    using ref.boot_inv [OF ref_phy_ready cold_state_ok(1)] w(1) by auto
  have "available ref_libs w' \<le> 56 \<and> tftp_read ref_libs c [] 0 w' \<noteq> Inl Fault"
    if d: "tftp_download_file ref_libs ?c [0x66, 0] 0x0A000002 w = Inr (c, w')" for c w'
  proof -
    have "app_reachable ref_libs w' (Map.empty(0 \<mapsto> c)) 0" by (rule app_reachable.download [OF start boot(2) c d])
    note a = application_accounted [OF ref.intrusive_list_axioms ref_phy_ready this]
    have "entry_lists w' = entry_lists w"
      using safeD [OF returns_safe [OF ref.download_file_ok [OF boot(1,2) c]] d] by simp
    then have "ip_room ref_libs ip w'" for ip using boot(3) by (simp add: ip_room_def arp_room_def free_list_def)
    then show ?thesis using a by auto
  qed
  then show ?thesis
    using w(1) ref.download_file_ok [OF boot(1,2) c, of "0x0A000002"]
    by (intro exI [of _ w]) (auto elim!: returns_mono)
qed

end
