(* ===== verification/Liveness.thy ===== *)
theory Liveness
  imports Listening Wire
begin

text \<open>
  The stack does not wait forever.  The only loops without an exit are the ones of
  \<open>allocate_network_packet\<close>, when no packet is free, and of \<open>gmac_send\<close>, when the controller reports a
  transmission error.  As long as the connections were opened with a bounded number of packets in all,
  the invariants leave a free packet wherever one is taken, so that the calls of the stack return.
\<close>

section \<open>Calls that end\<close>

definition ends :: "'a result \<Rightarrow> bool" where
  "ends m \<longleftrightarrow> m \<noteq> Inl Hang"

lemma ends_simps [simp]: "ends (Inr x)" "ends (Inl e) \<longleftrightarrow> e = Fault"
  by (simp_all add: ends_def) (metis stop.exhaust stop.distinct(1))

lemma ends_bindR: "ends m \<Longrightarrow> (\<And>x. m = Inr x \<Longrightarrow> ends (f x)) \<Longrightarrow> ends (bindR m f)"
  by (cases m) (auto simp: ends_def)

lemma returns_ends: "returns m Q \<Longrightarrow> ends m"
  by (auto simp: ends_def)

lemma safe_ends_returns: "safe m Q \<Longrightarrow> ends m \<Longrightarrow> returns m Q"
  by (cases m) (auto simp: ends_def)

lemma ends_reads [simp]:
  "ends (get_byte d off)" "ends (read_be16 d off)" "ends (read_be32 d off)" "ends (load_u32 d off)" "ends (load_mac d off)"
  by (auto simp: get_byte_def read_be16_def read_be32_def load_u32_def load_mac_def intro!: ends_bindR)

lemma ends_validate [simp]: "ends (validate_arp_header off d)"
  by (auto simp: validate_arp_header_def intro!: ends_bindR)

text \<open>The controller never reports a transmission error.\<close>

definition link_ok :: "('e, 'h) libs \<Rightarrow> bool" where
  "link_ok X \<longleftrightarrow> (\<forall>e. fst (read_TSR X e) AND (push_bit 8 1 OR push_bit 4 1 OR push_bit 2 1) = 0)"

lemma link_ok_send: "link_ok X \<Longrightarrow> \<not> tx_error X w"
  by (simp add: link_ok_def tx_error_def)

section \<open>Free packets\<close>

text \<open>The datagrams that wait for the user, and the bound on them by the sizes of the open queues.\<close>

definition waiting_datagrams :: "('e, 'h) libs \<Rightarrow> ('e, 'h, 'z) net_state_scheme \<Rightarrow> nat" where
  "waiting_datagrams X w = (\<Sum>c<UDP_CONNECTION_COUNT. length (datagrams X w c))"

definition queue_capacity :: "('e, 'h) libs \<Rightarrow> ('e, 'h, 'z) udp_state_scheme \<Rightarrow> nat" where
  "queue_capacity X w = (\<Sum>(c, q, m)\<leftarrow>listening X w. nat m)"

lemma queue_capacity_used: "queue_capacity X w = (\<Sum>c\<leftarrow>used_connections X w. nat (max_packet_count (connections w c)))"
  by (simp add: queue_capacity_def listening_def comp_def)

lemma waiting_le_capacity:
  assumes "connections_inv X ok w"
  shows "waiting_datagrams X w \<le> queue_capacity X w"
proof -
  note m = connections_inv_member [OF assms]
  have "waiting_datagrams X w = (\<Sum>c\<in>set (used_connections X w). length (datagrams X w c))"
    unfolding waiting_datagrams_def
  proof (rule sum.mono_neutral_right)
    show "set (used_connections X w) \<subseteq> {..<UDP_CONNECTION_COUNT}" using m(1) by auto
    show "\<forall>c\<in>{..<UDP_CONNECTION_COUNT} - set (used_connections X w). length (datagrams X w c) = 0"
      using m(1) assms by (auto simp: connections_inv_def)
  qed simp
  also have "\<dots> \<le> (\<Sum>c\<in>set (used_connections X w). nat (max_packet_count (connections w c)))"
    using assms by (intro sum_mono) (fastforce simp: connections_inv_def connection_ok_def)
  also have "\<dots> = queue_capacity X w"
    using m(4) by (simp add: queue_capacity_used sum_list_distinct_conv_sum_set)
  finally show ?thesis .
qed

lemma waiting_queues_bound:
  assumes "entries_inv X ok w"
  shows "(\<Sum>e<ARP_ENTRY_COUNT. length (queue_of X w e)) \<le> 16"
proof -
  have "length (queue_of X w e) \<le> 2" if "e < ARP_ENTRY_COUNT" for e
    using entries_inv_member(1) [OF assms, of e] that assms
    by (auto simp: entries_inv_def entry_ok_def split: if_splits)
  then have "(\<Sum>e<ARP_ENTRY_COUNT. length (queue_of X w e)) \<le> (\<Sum>e<ARP_ENTRY_COUNT. 2)"
    by (intro sum_mono) simp
  then show ?thesis by simp
qed

lemma available_count:
  assumes "gmac_inv X ok H w"
  shows "available X w + (\<Sum>e<ARP_ENTRY_COUNT. length (queue_of X w e)) + waiting_datagrams X w + size H = 56"
proof -
  let ?f = "\<lambda>l. length (list_elements X l (packet_lists w))"
  have inj: "inj_on Entry_queue A" "inj_on Connection_queue B" for A B by (simp_all add: inj_on_def)
  have "size (listed X (packet_lists w)) = (\<Sum>l\<in>packet_heads. ?f l)"
    by (simp add: listed_def)
  also have "\<dots> = ?f Free_packets + ((\<Sum>e<8. ?f (Entry_queue e)) + (\<Sum>c<16. ?f (Connection_queue c)))"
    unfolding packet_heads_def
    by (subst sum.insert, simp, force, subst sum.union_disjoint) (auto simp: sum.reindex [OF inj(1)] sum.reindex [OF inj(2)])
  finally have l: "size (listed X (packet_lists w)) =
      available X w + ((\<Sum>e<8. length (queue_of X w e)) + waiting_datagrams X w)"
    by (simp add: available_def queue_of_def waiting_datagrams_def datagrams_def)
  have "size (rings w) = 40" using gmac_invD(3) [OF assms] by (simp add: rings_def rings_ok_def)
  then show ?thesis using pool_size [OF gmac_invD(1) [OF assms]] l by simp
qed

lemma packet_available:
  assumes "arp_inv X ok H w" and "size H + waiting_datagrams X w \<le> 39"
  shows "0 < available X w"
  using assms available_count [of X ok H w] waiting_queues_bound [of X ok w] by (simp add: arp_inv_def)

lemma waiting_arp_frame:
  assumes "arp_frame X w w'"
  shows "waiting_datagrams X w' = waiting_datagrams X w"
proof -
  have "datagrams X w' c = datagrams X w c" if "c < UDP_CONNECTION_COUNT" for c
    using assms untouched_queue [of X arp_heads w w' "Connection_queue c"] that by (auto simp: arp_frame_def datagrams_def)
  then show ?thesis by (simp add: waiting_datagrams_def)
qed

section \<open>The cache and the layers below\<close>

lemma broadcast_length: "length BROADCAST_MAC = 6"
  by simp

context intrusive_list
begin

lemma allocate_ends:
  assumes "gmac_inv X ok H w" and "0 < available X w"
  shows "ends (allocate_network_packet X w)"
  using allocate_Hang [OF gmac_invD(1) [OF assms(1)]] assms(2) by (auto simp: ends_def available_def)

lemma mac_send_ends:
  assumes "link_ok X" and "gmac_inv X ok (add_mset p H) w" and "length mac = 6" and "ready (packets w p)"
  shows "ends (mac_send X p mac e w)"
proof -
  have "packet_ok (packets w p)" "14 \<le> index (packets w p)" using assms(4) by (simp_all add: ready_def)
  from mac_send_returns [OF assms(2,3) this link_ok_send [OF assms(1)], of e] show ?thesis by (auto simp: ends_def)
qed

lemma send_arp_ends:
  assumes "link_ok X" and "gmac_inv X ok H w" and "0 < available X w" and "t = ARP_TYPE_REPLY \<longrightarrow> length tm = 6"
  shows "ends (send_arp_packet X tm target t w)"
  unfolding send_arp_packet_eq [OF assms(2,4)]
proof (rule ends_bindR [OF allocate_ends [OF assms(2,3)]], clarify)
  fix p w1 assume a: "allocate_network_packet X w = Inr (p, w1)"
  let ?m = "arp_packet (our_mac w) (our_ip w) tm target t"
  have d: "length (arp_destination tm t) = 6" using assms(4) by (simp add: arp_destination_def)
  have m: "length ?m \<le> 880"
    using our_mac_length [OF assms(2)] assms(4) by (simp add: arp_packet_def arp_target_mac_def length_arp_message)
  note f = fresh_packet [OF intrusive_list_axioms assms(2) a m]
  show "ends (mac_send X p (arp_destination tm t) ETHER_TYPE_ARP (set_packet p (put_message ?m) w1))"
    by (rule mac_send_ends [OF assms(1) f(1) d]) (simp add: ready_def f(2,3) del: packets_set_packet)
qed

lemma update_mapping_ends:
  assumes "link_ok X" and "arp_inv X ok H w" and "0 \<le> off" and "off + 6 \<le> int (length d)"
  shows "ends (update_arp_mapping X ip d off b w)"
proof (cases "find_arp_entry X ip w")
  case None
  then show ?thesis by (simp add: update_arp_mapping_def)
next
  case (Some e)
  have inv: "entries_inv X ok w" and g: "gmac_inv X ok H w" using assms(2) by (simp_all add: arp_inv_def)
  have e: "e < ARP_ENTRY_COUNT" using entries_inv_member(1) [OF inv] find_arp_entry_Some [OF Some] by blast
  let ?m = "chunk (nat off) 6 d"
  have lm: "length ?m = 6" using assms(3,4) by (simp add: min_def) linarith
  show ?thesis
  proof (cases "b \<and> contain_valid_mapping (arp_entries w e)")
    case True
    then show ?thesis by (simp add: update_arp_mapping_def Some)
  next
    case False
    obtain t v where eq: "update_arp_mapping X ip d off b w = send_packets_on_entry X e (resolved_entry e ?m t v w)"
      using update_mapping_eq [OF inv Some assms(3,4) False] by blast
    let ?w3 = "resolved_entry e ?m t v w"
    have g3: "gmac_inv X ok H ?w3" using g by (simp add: gmac_inv_env resolved_entry_def)
    have q3: "packet_lists ?w3 = packet_lists w" "packets ?w3 = packets w" "entry_mac (arp_entries ?w3 e) = ?m"
      by (simp_all add: resolved_entry_def)
    have rd: "\<forall>p\<in>set (list_elements X (Entry_queue e) (packet_lists ?w3)). ready (packets ?w3 p)"
      using inv e unfolding q3 by (simp add: entries_inv_def queue_of_def)
    have "returns (loop (drain X (Entry_queue e) (\<lambda>p w. mac_send X p (entry_mac (arp_entries w e)) ETHER_TYPE_IPV4 w) ?w3))
      (\<lambda>w'. (gmac_inv X ok H w' \<and> gmac_state.more w' = gmac_state.more ?w3 \<and> same_config ?w3 w' \<and>
         length (entry_mac (arp_entries ?w3 e)) = 6) \<and>
        list_elements X (Entry_queue e) (packet_lists w') = [] \<and> untouched X {Entry_queue e} ?w3 w')"
    proof (rule sending.loop_drain_returns)
      fix p H' w'
      assume j: "gmac_inv X ok (add_mset p H') w' \<and> gmac_state.more w' = gmac_state.more ?w3 \<and> same_config ?w3 w' \<and>
          length (entry_mac (arp_entries ?w3 e)) = 6" and r: "ready (packets w' p)"
      then have "length (entry_mac (arp_entries w' e)) = 6" using arp_fields_of_more(1) [of w' ?w3] by simp
      from mac_send_ends [OF assms(1) conjunct1 [OF j] this r]
      show "mac_send X p (entry_mac (arp_entries w' e)) ETHER_TYPE_IPV4 w' \<noteq> Inl Hang" by (simp add: ends_def)
    qed (use g3 lm e rd q3(3) in \<open>simp_all del: arp_entries_set_entry length_chunk\<close>)
    then show ?thesis unfolding eq send_packets_on_entry_def by (rule returns_ends)
  qed
qed

lemma arp_send_ends:
  assumes "link_ok X" and "arp_inv X ok (add_mset p H) w" and "ready (packets w p)" and "arp_room X ip w"
    and "size H + waiting_datagrams X w \<le> 39"
  shows "ends (arp_send X p ip w)"
proof (cases "find_arp_entry X ip w")
  case None
  then have "free_list X w \<noteq> []" using assms(4) by (simp add: arp_room_def)
  from arp_send_new [OF assms(2,3) None this] obtain w' where
    s: "arp_send X p ip w = send_arp_packet X [] ip ARP_TYPE_REQUEST w'" and i: "arp_inv X ok H w'" and f: "arp_frame X w w'"
    by blast
  have "0 < available X w'" by (rule packet_available [OF i]) (simp add: waiting_arp_frame [OF f] assms(5))
  then show ?thesis unfolding s using i by (intro send_arp_ends [OF assms(1), of H]) (simp_all add: arp_inv_def)
next
  case (Some e)
  have u: "e \<in> set (used_list X w)" using find_arp_entry_Some [OF Some] by blast
  have g: "gmac_inv X ok (add_mset p H) w" and mac: "length (entry_mac (arp_entries w e)) = 6"
    using assms(2) by (simp_all add: arp_inv_def entries_inv_def)
  show ?thesis
    using mac_send_ends [OF assms(1) g mac assms(3)] returns_ends [OF add_to_queue_returns [OF assms(2) u _ assms(3)]]
    by (simp add: arp_send_def Some)
qed

lemma ip_send_ends:
  assumes "link_ok X" and "arp_inv X ok (add_mset p H) w" and "packet_ok (packets w p)" and "34 \<le> index (packets w p)"
    and "ip_room X ip w" and "size H + waiting_datagrams X w \<le> 39"
  shows "ends (ip_send X p ip protocol w)"
proof -
  let ?f = "ip_framed (our_ip w) ip protocol"
  let ?w = "set_packet p ?f w"
  have k: "packet_ok (packets ?w p)" "index (packets ?w p) = index (packets w p) - 20"
    and l: "length (data (?f (packets w p))) = length (data (packets w p))"
    using ip_framed_frame [OF assms(3)] assms(4) by simp_all
  have i: "arp_inv X ok (add_mset p H) ?w" and f: "arp_frame X w ?w"
    using arp_inv_set_packet [of p H w ?f, OF assms(2) l] .
  have r: "ready (packets ?w p)" using k assms(4) by (simp add: ready_def)
  have idx: "20 \<le> index (packets w p)" using assms(4) by simp
  have room: "ip_room X ip ?w = ip_room X ip w" by (rule ip_room_cong) simp_all
  have "ends (mac_broadcast X p ETHER_TYPE_IPV4 ?w)"
    unfolding mac_broadcast_def by (rule mac_send_ends [OF assms(1) _ broadcast_length r, of H]) (use i in \<open>simp add: arp_inv_def\<close>)
  moreover have "ends (arp_send X p ip ?w)" if "\<not> should_broadcast ip ?w"
    by (rule arp_send_ends [OF assms(1) i r]) (use that assms(5,6) room waiting_arp_frame [OF f] in \<open>auto simp: ip_room_def\<close>)
  ultimately show ?thesis unfolding ip_send_eq [OF assms(3) idx] Let_def by simp
qed

lemma handle_icmp_ends:
  assumes "link_ok X" and "arp_inv X ok (add_mset p H) w" and "packet_ok (packets w p)" and "34 \<le> index (packets w p)"
    and "ip_room X (senders_ip (packets w p)) w" and "size H + waiting_datagrams X w \<le> 39"
  shows "ends (handle_icmp X p w)"
proof (cases "plength (packets w p) < 8 \<or> data (packets w p) ! nat (index (packets w p)) \<noteq> ICMP_TYPE_PING_REQUEST")
  case True
  then show ?thesis by (simp add: handle_icmp_cases [OF assms(3)])
next
  case False
  then have n: "8 \<le> plength (packets w p)" by simp
  note a = ping_answered_frame [OF assms(3) n]
  note i = arp_inv_set_packet [where f = ping_answered, OF assms(2) a(4)]
  have "ends (ip_send X p (senders_ip (packets w p)) IP_PROTOCOL_ICMP (set_packet p ping_answered w))"
    by (rule ip_send_ends [OF assms(1) i(1)]) (use a assms(4-6) waiting_arp_frame [OF i(2)] in simp_all)
  then show ?thesis using False by (simp add: handle_icmp_cases [OF assms(3)])
qed

lemma handle_arp_ends:
  assumes "link_ok X" and "arp_inv X ok (add_mset p H) w" and "packet_ok (packets w p)"
    and "size (add_mset p H) + waiting_datagrams X w \<le> 39"
  shows "ends (handle_arp X p w)"
proof (cases "size_t (plength (packets w p)) < size_t ARP_HEADER_SIZE")
  case True
  then show ?thesis by (simp add: handle_arp_def)
next
  case False
  let ?d = "data (packets w p)" and ?off = "index (packets w p)"
  have "plength (packets w p) \<le> 1024" "0 \<le> plength (packets w p)" using assms(3) by (auto simp: packet_ok_def)
  then have len: "28 \<le> plength (packets w p)" using False by (simp add: size_t_less uint_size_t)
  then have r: "0 \<le> ?off" "?off + 28 \<le> int (length ?d)" using assms(3) by (auto simp: packet_ok_def)
  have update: "ends (update_arp_mapping X ip ?d (?off + 8) b w)" for ip b
    by (rule update_mapping_ends [OF assms(1,2)]) (use r in simp_all)
  have "0 < available X w" by (rule packet_available [OF assms(2,4)])
  then have reply: "ends (send_arp_packet X m ip ARP_TYPE_REPLY w)" if "load_mac ?d (?off + 8) = Inr m" for m ip
    by (intro send_arp_ends [OF assms(1)]) (use assms(2) that r in \<open>auto simp: arp_inv_def load_mac_def split: if_splits\<close>)
  show ?thesis
    using False update reply by (auto simp: handle_arp_def Let_def intro!: ends_bindR)
qed

end

section \<open>Room for the calls that take a packet\<close>

text \<open>The condition under which the calls that take a packet find one.\<close>

definition roomy :: "('e, 'h) libs \<Rightarrow> nat multiset \<Rightarrow> ('e, 'h, 'z) udp_state_scheme \<Rightarrow> bool" where
  "roomy X H w \<longleftrightarrow> size H + queue_capacity X w \<le> 39"

lemma roomy_waiting: "udp_inv X ok H' w \<Longrightarrow> roomy X H w \<Longrightarrow> size H + waiting_datagrams X w \<le> 39"
  using waiting_le_capacity [of X ok w] by (simp add: roomy_def udp_inv_def)

section \<open>The receive path\<close>

context intrusive_list
begin

lemma handle_ip_ends:
  assumes "link_ok X" and "udp_inv X ok (add_mset p H) w" and "roomy X H w" and "packet_ok (packets w p)"
    and "index (packets w p) = 14" and "14 + plength (packets w p) < NETWORK_PACKET_SIZE" and "answerable X 14 p w"
  shows "ends (handle_ip X p w)"
proof (cases rule: handle_ip_cases [OF assms(4-6), of X, case_names freed udp icmp])
  case (udp f)
  then have "udp_inv X ok (add_mset p H) (set_packet p f w)" using udp_inv_set_packet [of p H w f, OF assms(2)] by simp
  from returns_ends [OF handle_udp_returns [OF this]] udp show ?thesis by simp
next
  case (icmp f b)
  let ?w = "set_packet p f w"
  note a = answerable_reply [OF assms(7) icmp(6,5,7)]
  have u: "udp_inv X ok (add_mset p H) ?w" using udp_inv_set_packet [of p H w f, OF assms(2)] icmp(2) by simp
  then have "arp_inv X ok (add_mset p H) ?w" by (simp add: udp_inv_def)
  moreover have "size H + waiting_datagrams X ?w \<le> 39"
    by (rule roomy_waiting [OF u]) (use assms(3) in \<open>simp add: roomy_def queue_capacity_def\<close>)
  ultimately show ?thesis
    unfolding icmp(1) by (intro handle_icmp_ends [OF assms(1)]) (use icmp a in simp_all)
qed simp

lemma handle_mac_ends:
  assumes "link_ok X" and "udp_inv X ok (add_mset p H) w" and "roomy X (add_mset p H) w"
    and "packet_ok (packets w p)" and "index (packets w p) = 0" and "acceptable X p w"
  shows "ends (handle_mac X p w)"
proof -
  let ?w = "set_packet p mac_payload w"
  have ac: "plength (packets w p) < NETWORK_PACKET_SIZE" "read_be16 (data (packets w p)) 12 = Inr ETHER_TYPE_IPV4 \<longrightarrow> answerable X 14 p w"
    using assms(6) by (simp_all add: acceptable_def)
  have d: "data (mac_payload (packets w p)) = data (packets w p)" by (simp add: mac_payload_def)
  note i = udp_inv_set_packet [of p H w mac_payload, OF assms(2), simplified d, OF refl]
  have r: "roomy X (add_mset p H) ?w" "roomy X H ?w" using assms(3) by (simp_all add: roomy_def queue_capacity_def)
  show ?thesis
  proof (cases rule: handle_mac_cases [OF assms(4,5) ac(1), of X, case_names freed arp ip])
    case arp
    have inv: "arp_inv X ok (add_mset p H) ?w" using i(1) by (simp add: udp_inv_def)
    show ?thesis
      unfolding arp(1) by (rule handle_arp_ends [OF assms(1) inv]) (use arp roomy_waiting [OF i(1) r(1)] in simp_all)
  next
    case ip
    show ?thesis
      unfolding ip(1)
      by (rule handle_ip_ends [OF assms(1) i(1) r(2)]) (use ip ac d in \<open>simp_all add: answerable_set_packet\<close>)
  qed simp
qed

lemma gmac_receive_ends:
  assumes "udp_inv X ok H w" and "roomy X H w"
  shows "ends (gmac_receive X w)"
proof -
  let ?f = "\<lambda>k. k\<lparr>plength := uint (rx_length (rx_descriptors w ! rx_index w)), index := 0,
      broadcast := broadcast_detected (rx_descriptors w ! rx_index w)\<rparr>"
  let ?w = "set_packet (rx_packets w ! rx_index w) ?f w"
  have a: "arp_inv X ok H w" using assms(1) by (simp add: udp_inv_def)
  then have "gmac_inv X ok H ?w" by (simp add: arp_inv_def gmac_inv_set_packet)
  moreover have "0 < available X ?w"
    using packet_available [OF a roomy_waiting [OF assms]] by (simp add: available_def set_packet_def)
  ultimately have "ends (allocate_network_packet X ?w)" by (rule allocate_ends)
  then show ?thesis by (auto simp: gmac_receive_def Let_def intro!: ends_bindR)
qed

lemma receive_packets_ends:
  assumes "link_ok X" and "udp_inv X ok H w" and "size H + queue_capacity X w \<le> 38" and "acceptable_frames X n w"
  shows "ends (receive_packets X n w)"
  using assms(2-)
proof (induction n arbitrary: w)
  case (Suc n)
  have r: "roomy X H w" using Suc.prems(2) by (simp add: roomy_def)
  show ?case
    unfolding receive_packets.simps
  proof (rule ends_bindR [OF gmac_receive_ends [OF Suc.prems(1) r]], clarify)
    fix q w1 assume g: "gmac_receive X w = Inr (q, w1)"
    have c: "listening X w1 = listening X w" by (rule gmac_receive_listening [OF g])
    show "ends (case q of None \<Rightarrow> Inr w1 | Some p \<Rightarrow> bindR (handle_mac X p w1) (receive_packets X n))"
    proof (cases q)
      case (Some p)
      have post: "udp_inv X ok (add_mset p H) w1" "packet_ok (packets w1 p)" "index (packets w1 p) = 0"
        using safeD [OF receive_udp_safe [OF Suc.prems(1)] g] Some by auto
      have ac: "acceptable X p w1" and rest: "\<And>w2. handle_mac X p w1 = Inr w2 \<Longrightarrow> acceptable_frames X n w2"
        using Suc.prems(3) g Some by auto
      have room: "roomy X (add_mset p H) w1" using Suc.prems(2) c by (simp add: roomy_def queue_capacity_def)
      have "ends (bindR (handle_mac X p w1) (receive_packets X n))"
      proof (rule ends_bindR [OF handle_mac_ends [OF assms(1) post(1) room post(2,3) ac]])
        fix w2 assume m: "handle_mac X p w1 = Inr w2"
        have "udp_inv X ok H w2"
          using safeD [OF handle_mac_safe [OF post(1,2,3)] m] ac by (simp add: acceptable_def)
        moreover have "queue_capacity X w2 = queue_capacity X w"
          using handle_mac_listening [OF post ac m] c by (simp add: queue_capacity_def)
        ultimately show "ends (receive_packets X n w2)" using Suc.IH rest [OF m] Suc.prems(2) by simp
      qed
      then show ?thesis using Some by simp
    qed simp
  qed
qed simp

end

section \<open>The periodic tasks\<close>

context intrusive_list
begin

lemma arp_task_entry_ends:
  assumes "link_ok X" and "arp_inv X ok H w" and "e \<in> set (used_list X w)" and "size H + waiting_datagrams X w \<le> 39"
  shows "ends (arp_task_entry X e w)"
proof -
  obtain t w1 where n: "now X w = (t, w1)" by fastforce
  have w1: "w1 = w\<lparr>env := env w1\<rparr>" using n by (rule now_env)
  have i: "arp_inv X ok H w1" and u: "e \<in> set (used_list X w1)" and a: "0 < available X w1"
    using assms(2,3) packet_available [OF assms(2,4)] by (subst w1; simp add: available_def used_list_def)+
  have "ends (free_entry X e w1)" by (rule returns_ends [OF free_entry_returns [OF i u]])
  moreover have "ends (send_arp_packet X [] (entry_ip (arp_entries w1 e)) ARP_TYPE_REQUEST w1)"
    by (rule send_arp_ends [OF assms(1) _ a, of H]) (use i in \<open>simp_all add: arp_inv_def\<close>)
  ultimately show ?thesis
    by (auto simp: arp_task_entry_def n Let_def intro!: ends_bindR split: prod.splits)
qed

lemma arp_task_entries_ends:
  assumes "link_ok X" and "arp_inv X ok H w" and "set es \<subseteq> set (used_list X w)" and "distinct es"
    and "size H + waiting_datagrams X w \<le> 39"
  shows "ends (arp_task_entries X es w)"
  using assms(2-)
proof (induction es arbitrary: w)
  case (Cons e es)
  have e: "e \<in> set (used_list X w)" using Cons.prems(2) by simp
  show ?case
    unfolding arp_task_entries.simps
  proof (rule ends_bindR [OF arp_task_entry_ends [OF assms(1) Cons.prems(1) e Cons.prems(4)]])
    fix w' assume "arp_task_entry X e w = Inr w'"
    from safeD [OF arp_task_entry_safe [OF Cons.prems(1) e] this]
    show "ends (arp_task_entries X es w')"
      using Cons.prems(2-) by (intro Cons.IH) (auto simp: waiting_arp_frame)
  qed
qed simp

lemma arp_task_ends:
  assumes "link_ok X" and "arp_inv X ok H w" and "size H + waiting_datagrams X w \<le> 39"
  shows "ends (arp_task X w)"
  unfolding arp_task_def used_list_def [symmetric]
  by (rule arp_task_entries_ends [OF assms(1,2) _ _ assms(3)])
    (use assms(2) entries_inv_member(3) in \<open>auto simp: arp_inv_def\<close>)

end

section \<open>Sending datagrams\<close>

lemma waiting_local [simp]:
  "waiting_datagrams X (w\<lparr>env := v\<rparr>) = waiting_datagrams X w" "waiting_datagrams X (set_dhcp f w) = waiting_datagrams X w"
  by (simp_all add: waiting_datagrams_def datagrams_def set_dhcp_def)

context intrusive_list
begin

lemma send_filled_ends:
  assumes "link_ok X" and "arp_inv X ok (add_mset p H) w" and "packet_ok (g (packets w p))" and "index (g (packets w p)) = 144"
    and "ip_room X ip w" and "size H + waiting_datagrams X w \<le> 39"
  shows "ends (udp_send_zero_copy X p source dest ip (set_packet p g w))"
proof -
  have "gmac_inv X ok (add_mset p H) w" using assms(2) by (simp add: arp_inv_def)
  then have "length (data (g (packets w p))) = length (data (packets w p))"
    using buffer_length assms(3) by (simp add: packet_ok_def)
  note i = arp_inv_set_packet [of p H w g, OF assms(2) this]
  let ?w = "set_packet p g w"
  let ?f = "udp_framed source dest (our_ip ?w) ip"
  let ?w' = "set_packet p ?f ?w"
  have k: "packet_ok (packets ?w p)" "8 \<le> index (packets ?w p)" "index (packets ?w p) = 144" using assms(3,4) by simp_all
  note fr = udp_framed_frame [OF k(1,2), of source dest "our_ip ?w" ip]
  note i' = arp_inv_set_packet [of p H ?w ?f, OF i(1) fr(4)]
  have room: "ip_room X ip ?w' = ip_room X ip w" by (rule ip_room_cong) simp_all
  have wait: "waiting_datagrams X ?w' = waiting_datagrams X w"
    by (rule waiting_arp_frame [OF arp_frame_trans [OF i(2) i'(2)]])
  have "ends (ip_send X p ip IP_PROTOCOL_UDP ?w')"
    by (rule ip_send_ends [OF assms(1) i'(1)]) (use fr k(3) room wait assms(5,6) in simp_all)
  then show ?thesis unfolding udp_send_zero_copy_eq [OF k(1,2)] .
qed

lemma udp_send_ends:
  assumes "link_ok X" and "arp_inv X ok H w" and "0 \<le> n" and "n \<le> int (length payload)" and "ip_room X ip w"
    and "size H + waiting_datagrams X w \<le> 39"
  shows "ends (udp_send X payload n source dest ip w)"
  unfolding udp_send_eq [OF assms(2-4)]
proof (rule ends_bindR, goal_cases)
  case 1
  show ?case
    by (rule allocate_ends [OF _ packet_available [OF assms(2,6)], of H]) (use assms(2) in \<open>simp add: arp_inv_def\<close>)
next
  case (2 r)
  obtain p w1 where r: "r = (p, w1)" by (cases r)
  let ?bs = "take (min (nat n) 880) payload"
  from safeD [OF arp_allocate [OF assms(2)] 2] have a: "arp_inv X ok (add_mset p H) w1" "arp_frame X w w1"
    "gmac_state.more w1 = gmac_state.more w" "length (data (packets w1 p)) = 1024" "index (packets w1 p) = 144"
    by (simp_all add: r)
  have "ends (udp_send_zero_copy X p source dest ip (set_packet p (put_message ?bs) w1))"
    using a put_message_frame [of "packets w1 p" ?bs] assms(5,6) ip_room_more [OF a(3,2)] waiting_arp_frame [OF a(2)]
    by (intro send_filled_ends [OF assms(1) a(1)]) simp_all
  then show ?case by (simp add: r)
qed

lemma dhcp_send_packet_ends:
  assumes "link_ok X" and "arp_inv X ok H w" and "size H + waiting_datagrams X w \<le> 39"
  shows "ends (dhcp_send_packet X t w)"
  unfolding dhcp_send_packet_eq [OF assms(2)]
proof (rule ends_bindR, goal_cases)
  case 1
  show ?case
    by (rule allocate_ends [OF _ packet_available [OF assms(2,3)], of H]) (use assms(2) in \<open>simp add: arp_inv_def\<close>)
next
  case (2 r)
  obtain p w1 where r: "r = (p, w1)" by (cases r)
  from safeD [OF arp_allocate [OF assms(2)] 2] have inv: "arp_inv X ok (add_mset p H) w1" and fr: "arp_frame X w w1"
    and len: "length (data (packets w p)) = 1024" and pk: "packets w1 p = (packets w p)\<lparr>plength := 0, index := 144\<rparr>"
    by (simp_all add: r)
  obtain time w2 where n: "now X w1 = (time, w2)" by fastforce
  have e: "w2 = w1\<lparr>env := env w2\<rparr>" by (rule now_env [OF n])
  have inv2: "arp_inv X ok (add_mset p H) w2" by (subst e) (simp add: inv)
  have wait: "waiting_datagrams X w2 = waiting_datagrams X w"
    by (subst e) (simp add: waiting_arp_frame [OF fr])
  have pk2: "packets w2 = packets w1" by (subst e) simp
  let ?m = "dhcp_message t (transaction_id (dhcp w2)) (ucast (time_div X (get_elapsed X (dhcp_time (dhcp w2)) time) 1000)) (our_mac w2)
      (leased_ip (dhcp w2)) (server_ip (dhcp w2)) (chunk 178 202 (data (packets w2 p)))"
  have "length (our_mac w2) = 6" using inv2 by (auto simp: arp_inv_def intro: our_mac_length)
  then have m: "length ?m \<le> 256" using len pk pk2 by (intro length_dhcp_message) simp_all
  have "ends (udp_send_zero_copy X p DHCP_CLIENT_PORT DHCP_SERVER_PORT 0xFFFFFFFF (set_packet p (put_message ?m) w2))"
    using len pk pk2 m put_message_frame [of "packets w2 p" ?m] wait assms(3)
    by (intro send_filled_ends [OF assms(1) inv2]) (auto simp: ip_room_def)
  then show ?case by (simp add: r n)
qed

section \<open>The DHCP client\<close>

lemma resend_ends:
  assumes "link_ok X" and "arp_inv X ok H w" and "backoff_ok X (dhcp_backoff (dhcp w))" and "size H + waiting_datagrams X w \<le> 39"
  shows "ends (resend X t w)"
proof -
  obtain expired w1 where b: "backoff_timeout X (dhcp_backoff (dhcp w)) w = (expired, w1)" by fastforce
  have e: "w1 = w\<lparr>env := env w1\<rparr>" by (rule backoff_timeout_env [OF b])
  have w1: "arp_inv X ok H w1" "dhcp w1 = dhcp w" "waiting_datagrams X w1 = waiting_datagrams X w"
    using assms(2) by (subst e; simp)+
  have "ends (next_backoff X (dhcp_backoff (dhcp w2)) w2)" if s: "dhcp_send_packet X t w1 = Inr w2" for w2
  proof -
    from safeD [OF dhcp_send_packet_safe [OF w1(1)] s] have "arp_state.more w2 = arp_state.more w1" by (simp add: arp_frame_def)
    then have "dhcp w2 = dhcp w" using dhcp_of_more(1) [OF udp_fields_of_more(3)] w1(2) by metis
    then show ?thesis using next_backoff_step [of X "dhcp_backoff (dhcp w2)" w2] assms(3) by (auto simp: ends_def)
  qed
  then show ?thesis
    using dhcp_send_packet_ends [OF assms(1) w1(1), of t] w1(3) assms(4) b by (auto simp: resend_def intro!: ends_bindR)
qed

lemma round_ends:
  assumes "link_ok X" and "dhcp_inv X ok H w" and "dhcp_status (dhcp w) \<noteq> DHCP_DISABLED" and "size H + waiting_datagrams X w \<le> 39"
    and "\<And>w'. udp_inv X ok H w' \<Longrightarrow> replies_fit X w' \<Longrightarrow> ends (k w')"
  shows "ends (bindR (resend X t w) k)"
proof -
  have i: "udp_inv X ok H w" "backoff_ok X (dhcp_backoff (dhcp w))" using assms(2,3) by (simp_all add: dhcp_inv_def)
  have "ends (resend X t w)"
    by (rule resend_ends [OF assms(1) _ i(2) assms(4)]) (use i in \<open>simp add: udp_inv_def\<close>)
  then show ?thesis
    using safeD [OF resend_safe [OF i udp_inv_replies_fit [OF i(1)]]] assms(5) by (auto intro: ends_bindR)
qed

lemma offer_ends:
  assumes "udp_inv X ok H w" and "replies_fit X w" and "\<And>x. ends (f x)"
  shows "ends (bindR (try_read_offer X w) f)"
  using returns_ends [OF try_read_offer_returns [OF assms(1,2)]] assms(3) by (rule ends_bindR)

lemma ack_ends:
  assumes "udp_inv X ok H w" and "replies_fit X w" and "\<And>x. ends (f x)"
  shows "ends (bindR (try_read_ack X w) f)"
  using returns_ends [OF try_read_ack_returns [OF assms(1,2)]] assms(3) by (rule ends_bindR)

lemma renewing_ends:
  assumes "link_ok X" and "dhcp_inv X ok H w" and "size H + waiting_datagrams X w \<le> 39" and "dhcp_status (dhcp w) = DHCP_RENEWING"
  shows "ends (dhcp_task X w)"
proof -
  have u: "udp_inv X ok H w" using assms(2) by (simp add: dhcp_inv_def)
  obtain expired w1 where x: "rebinding_expired X w = (expired, w1)" by fastforce
  then obtain t where "now X w = (t, w1)" by (auto simp: rebinding_expired_def split: prod.splits)
  then have e: "w1 = w\<lparr>env := env w1\<rparr>" by (rule now_env)
  let ?w = "if expired then enter DHCP_REBINDING w1 else w1"
  have "udp_inv X ok H w1" "dhcp w1 = dhcp w" "waiting_datagrams X w1 = waiting_datagrams X w"
    by (subst e, simp add: u)+
  then have "dhcp_inv X ok H ?w" "dhcp_status (dhcp ?w) \<noteq> DHCP_DISABLED" "size H + waiting_datagrams X ?w \<le> 39"
    using assms(2-4) by (simp_all add: dhcp_inv_def enter_def)
  note r = round_ends [OF assms(1) this]
  show ?thesis
    unfolding dhcp_task_def assms(4) dhcp_status.case x prod.case Let_def
    by (rule r, erule (1) ack_ends) (auto split: option.splits bool.splits)
qed

lemma dhcp_task_ends:
  assumes "link_ok X" and "dhcp_inv X ok H w" and "size H + waiting_datagrams X w \<le> 39"
  shows "ends (dhcp_task X w)"
proof -
  have u: "udp_inv X ok H w" using assms(2) by (simp add: dhcp_inv_def)
  note r = round_ends [OF assms(1,2) _ assms(3)]
  have "ends (dhcp_task X w)" if "dhcp_status (dhcp w) = DHCP_DISCOVER"
    unfolding dhcp_task_def that dhcp_status.case
    by (rule r, simp add: that, erule (1) offer_ends) auto
  moreover have "ends (dhcp_task X w)" if "dhcp_status (dhcp w) = DHCP_REQUESTING"
    unfolding dhcp_task_def that dhcp_status.case
    by (rule r, simp add: that, erule (1) ack_ends) (auto simp: Let_def split: option.splits bool.splits)
  moreover have "ends (dhcp_task X w)" if "dhcp_status (dhcp w) \<in> {DHCP_BOUND, DHCP_REBINDING}"
    by (rule returns_ends [OF dhcp_timed_safe [OF assms(2) udp_inv_replies_fit [OF u] that]])
  moreover note renewing_ends [OF assms]
  ultimately show ?thesis by (cases "dhcp_status (dhcp w)") (simp_all add: dhcp_task_def [of X w])
qed

end

section \<open>The whole round\<close>

context intrusive_list
begin

lemma network_task_ends:
  assumes "link_ok X" and "dhcp_inv X ok H w" and "acceptable_frames X RECEIVE_DESCRIPTOR_COUNT w"
    and "size H + queue_capacity X w \<le> 38"
  shows "ends (network_task X w)"
proof -
  have u: "udp_inv X ok H w" using assms(2) by (simp add: dhcp_inv_def)
  show ?thesis
    unfolding network_task_def
  proof (rule ends_bindR [OF receive_packets_ends [OF assms(1) u assms(4,3)]])
    fix w1 assume r: "receive_packets X RECEIVE_DESCRIPTOR_COUNT w = Inr w1"
    from safeD [OF receive_packets_safe [OF u assms(3)] r] have u1: "udp_inv X ok H w1" and f1: "udp_frame w w1" by simp_all
    then have a1: "arp_inv X ok H w1" by (simp add: udp_inv_def)
    have "roomy X H w1"
      using receive_packets_listening [OF u assms(3) r] assms(4) by (simp add: roomy_def queue_capacity_def)
    note wait = roomy_waiting [OF u1 this]
    show "ends (bindR (arp_task X w1) (dhcp_task X))"
    proof (rule ends_bindR [OF arp_task_ends [OF assms(1) a1 wait]])
      fix w2 assume s: "arp_task X w1 = Inr w2"
      from safeD [OF arp_task_safe [OF a1] s] have f2: "arp_frame X w1 w2" by simp
      have "udp_inv X ok H w2" "udp_frame w1 w2" using safeD [OF arp_task_udp_safe [OF u1] s] by simp_all
      then have "dhcp_inv X ok H w2" using dhcp_inv_frame(1) [OF assms(2)] f1 by (blast intro: udp_frame_trans)
      then show "ends (dhcp_task X w2)"
        by (rule dhcp_task_ends [OF assms(1)]) (use wait waiting_arp_frame [OF f2] in simp)
    qed
  qed
qed

end

end
