(* ===== verification/Liveness_Properties.thy ===== *)
theory Liveness_Properties
  imports Liveness Stack_Properties
begin

text \<open>
  The properties of termination: a round of the stack and the transmission of a datagram come back.
\<close>

section \<open>A controller without transmission errors\<close>

definition quiet_libs :: "(ref_env, list_head \<Rightarrow> nat list) libs" where
  "quiet_libs = ref_libs\<lparr>read_TSR := (\<lambda>e. (0, e))\<rparr>"

interpretation quiet: intrusive_list quiet_libs ref_ok
  by unfold_locales (auto simp: quiet_libs_def ref_libs_def ref_ok_def split: list.splits)

lemma quiet_elements [simp]: "list_elements quiet_libs = list_elements ref_libs"
  by (simp add: quiet_libs_def)

lemma quiet_time: "time_signed quiet_libs = time_signed ref_libs"
  by (simp add: quiet_libs_def)

lemma quiet_link: "link_ok quiet_libs"
  by (simp add: link_ok_def quiet_libs_def)

text \<open>The invariants read the lists of the library and whether \<open>Time\<close> has a sign, and nothing else of it.\<close>

lemma invariants_of_lists:
  assumes "list_elements X = list_elements Y" and "time_signed X = time_signed Y"
  shows "udp_inv X ok H w = udp_inv Y ok H w" and "dhcp_inv X ok H w = dhcp_inv Y ok H w"
    and "queue_capacity X w = queue_capacity Y w"
  using assms
  by (simp_all add: dhcp_inv_def udp_inv_def arp_inv_def gmac_inv_def pool_def listed_def entries_inv_def entry_ok_def
      queue_of_def free_list_def used_list_def connections_inv_def connection_ok_def datagrams_def free_connections_def
      used_connections_def queue_capacity_used backoff_ok_def cong: sum.cong)

section \<open>The task returns\<close>

text \<open>
  Property C6.  While the controller reports no transmission error and the open connections were
  promised at most 38 packets in all, a round of the stack, \<open>network_task\<close>, returns: neither the loop of
  \<open>allocate_network_packet\<close> nor that of \<open>gmac_send\<close> spins forever, whatever acceptable frames have
  arrived and whatever the timers say.  The state it returns meets the same conditions.
\<close>

theorem network_task_returns:
  assumes "intrusive_list X ok" and "link_ok X" and "dhcp_inv X ok {#} w" and "queue_capacity X w \<le> 38"
    and "acceptable_frames X RECEIVE_DESCRIPTOR_COUNT w"
  shows "returns (network_task X w) (\<lambda>w'. dhcp_inv X ok {#} w' \<and> queue_capacity X w' = queue_capacity X w)"
proof -
  have u: "udp_inv X ok {#} w" using assms(3) by (simp add: dhcp_inv_def)
  have "ends (network_task X w)"
    by (rule intrusive_list.network_task_ends [OF assms(1,2,3,5)]) (simp add: assms(4))
  then show ?thesis
    using intrusive_list.network_task_safe [OF assms(1,3,5)] intrusive_list.network_task_listening [OF assms(1) u assms(5)]
    by (cases "network_task X w") (auto simp: queue_capacity_def)
qed

lemma one_frame_quiet: "dhcp_inv quiet_libs ref_ok {#} one_frame" "queue_capacity quiet_libs one_frame = 3"
proof -
  show "dhcp_inv quiet_libs ref_ok {#} one_frame"
    using one_frame_inv invariants_of_lists(2) [OF quiet_elements quiet_time] by blast
  show "queue_capacity quiet_libs one_frame = 3"
    by (simp add: queue_capacity_used used_connections_def one_frame_def sample_state_def sample_connection_def)
qed

theorem network_task_returns_witness:
  "returns (network_task quiet_libs one_frame) (\<lambda>w'. dhcp_inv quiet_libs ref_ok {#} w' \<and> queue_capacity quiet_libs w' = 3)"
  using network_task_returns [OF quiet.intrusive_list_axioms quiet_link one_frame_quiet(1)]
    one_frame_acceptable_any [of "\<lambda>e. (0, e)"] one_frame_quiet(2)
  by (simp add: quiet_libs_def)

text \<open>
  Under the same conditions \<open>udp_send\<close> returns, for a receiver the address cache has an
  entry or room for.  The packets that wait in the address cache are at most two for each of the eight
  entries, so that they cannot use up the pool.
\<close>

theorem udp_send_returns:
  assumes "intrusive_list X ok" and "link_ok X" and "udp_inv X ok {#} w" and "queue_capacity X w \<le> 39"
    and "0 \<le> n" and "n \<le> int (length payload)" and "ip_room X ip w"
  shows "returns (udp_send X payload n source dest ip w) (\<lambda>w'. udp_inv X ok {#} w' \<and> queue_capacity X w' = queue_capacity X w)"
proof -
  have a: "arp_inv X ok {#} w" using assms(3) by (simp add: udp_inv_def)
  have "size ({#} :: nat multiset) + waiting_datagrams X w \<le> 39"
    by (rule roomy_waiting [OF assms(3)]) (simp add: roomy_def assms(4))
  note e = intrusive_list.udp_send_ends [OF assms(1,2) a assms(5-7) this, of source dest]
  note s = intrusive_list.udp_send_safe [OF assms(1) a assms(5-7), of source dest]
  show ?thesis
    using e udp_inv_lift [OF assms(3) s] s
    by (cases "udp_send X payload n source dest ip w") (auto simp: queue_capacity_def dest: listening_arp_frame)
qed

theorem udp_send_returns_witness:
  "returns (udp_send quiet_libs (replicate 100 7) 100 5000 69 0x0A000003 (sample_state 0)) (\<lambda>w'. udp_inv quiet_libs ref_ok {#} w')"
proof -
  have "udp_inv quiet_libs ref_ok {#} (sample_state 0)"
    using sample_udp [of 0] invariants_of_lists(1) [OF quiet_elements quiet_time] by fastforce
  moreover have "queue_capacity quiet_libs (sample_state 0) \<le> 39"
    by (simp add: queue_capacity_used used_connections_def sample_state_def sample_connection_def)
  moreover have "ip_room quiet_libs 0x0A000003 (sample_state 0)"
    by (simp add: ip_room_def arp_room_def free_list_def sample_state_def)
  ultimately show ?thesis
    using udp_send_returns [OF quiet.intrusive_list_axioms quiet_link, of "sample_state 0" 100 "replicate 100 7" "0x0A000003" 5000 69]
    by (auto elim: returns_mono)
qed

end
