(* ===== verification/Application_Liveness.thy ===== *)
theory Application_Liveness
  imports Application Liveness_Properties
begin

text \<open>
  The calls of a program that downloads files return, as long as the packets lost to short answers and
  those promised to connections leave enough in the pool.
\<close>

section \<open>The calls of a download\<close>

lemma ready_from_room:
  assumes "ready_from X ok w0 H ip w" and "size H + queue_capacity X w0 \<le> 39"
  shows "arp_inv X ok H w" and "ip_room X ip w" and "size H + waiting_datagrams X w \<le> 39"
proof -
  have u: "udp_inv X ok H w" and l: "listening X w = listening X w0" using assms(1) by (simp_all add: ready_from_def ready_to_def)
  show "arp_inv X ok H w" "ip_room X ip w" using assms(1) by (simp_all add: ready_from_def ready_to_def udp_inv_def)
  show "size H + waiting_datagrams X w \<le> 39"
    by (rule roomy_waiting [OF u]) (use assms(2) l in \<open>simp add: roomy_def queue_capacity_def\<close>)
qed

context intrusive_list
begin

lemma reader_send_ends:
  assumes "link_ok X" and "ready_from X ok w0 H (tftp_server_ip c) w" and "size H + queue_capacity X w0 \<le> 39"
    and "0 \<le> n" and "n \<le> int (length payload)"
  shows "ends (udp_send X payload n source dest (tftp_server_ip c) w)"
  using ready_from_room [OF assms(2,3)] assms(4,5) by (intro udp_send_ends [OF assms(1)])

lemma ack_ends_reading:
  assumes "link_ok X" and "ready_from X ok w0 H (tftp_server_ip c) w" and "size H + queue_capacity X w0 \<le> 39"
  shows "ends (ack_current_block X c w)"
  unfolding ack_current_block_eq [OF ready_from_room(1) [OF assms(2,3)]]
  by (rule reader_send_ends [OF assms]) simp_all

lemma request_ends:
  assumes "link_ok X" and "ready_from X ok w0 H (tftp_server_ip c) w" and "size H + queue_capacity X w0 \<le> 39"
    and "holds_string 64 (filename c)"
  shows "ends (send_tftp_request X c w)"
proof -
  obtain t junk where "filename c = t @ 0 # junk" "0 \<notin> set t" "length t < 64" using assms(4) by (rule holds_stringE)
  then show ?thesis
    using reader_send_ends [OF assms(1-3), of "int (length (request_bytes t))" "request_bytes t"]
    by (simp add: send_tftp_request_eq [OF ready_from_room(1) [OF assms(2,3)]])
qed

lemma error_ends:
  assumes "link_ok X" and "ready_from X ok w0 H (tftp_server_ip c) w" and "size H + queue_capacity X w0 \<le> 39"
    and "holds_string 876 message"
  shows "ends (send_error_to X c dest code message w)"
proof -
  obtain t junk where t: "message = t @ 0 # junk" "0 \<notin> set t" "length t < 876" using assms(4) by (rule holds_stringE)
  then have "length t \<le> 875" by simp
  note e = send_error_to_eq [OF ready_from_room(1) [OF assms(2,3)] t(1,2) this]
  show ?thesis unfolding e by (rule reader_send_ends [OF assms(1-3)]) simp_all
qed

lemma tftp_resend_ends:
  assumes "ready_from X ok w0 H ip w" and "backoff_ok X (tftp_backoff c)"
    and "\<And>w. ready_from X ok w0 H ip w \<Longrightarrow> ends (send w)"
  shows "ends (tftp_resend X send c w)"
proof -
  obtain expired w1 where b: "backoff_timeout X (tftp_backoff c) w = (expired, w1)" by fastforce
  have "w1 = w\<lparr>env := env w1\<rparr>" by (rule backoff_timeout_env [OF b])
  then have w1: "ready_from X ok w0 H ip w1" using assms(1) ready_from_env by metis
  have "ends (next_backoff X (tftp_backoff c) w2)" for w2 :: "('e, 'h, 'z) udp_state_scheme"
    using next_backoff_step [OF assms(2), of w2] by (auto simp: ends_def)
  then show ?thesis using b assms(3) [OF w1] by (auto simp: tftp_resend_def intro!: ends_bindR)
qed

lemma try_read_data_ends:
  assumes "link_ok X" and "ready_from X ok w0 H (tftp_server_ip c) w" and "size H + queue_capacity X w0 \<le> 38"
    and "0 \<le> n" and "n \<le> 900" and "n \<le> int (length buffer)"
  shows "ends (try_read_data X c buffer n w)"
  unfolding try_read_data_def
proof (rule ends_bindR, goal_cases)
  case 1
  show ?case by (rule returns_ends [OF receive_step [OF assms(2)]])
next
  case (2 x)
  obtain r w1 where x: "x = (r, w1)" by (cases x)
  show ?case
  proof (cases r)
    case None
    then show ?thesis by (simp add: x)
  next
    case (Some p)
    have i: "ready_from X ok w0 (add_mset p H) (tftp_server_ip c) w1" "deliverable (packets w1 p)"
      using safeD [OF returns_safe [OF receive_step [OF assms(2)]] 2] by (simp_all add: x Some)
    have n: "size (add_mset p H) + queue_capacity X w0 \<le> 39" using assms(3) by simp
    have k: "packet_ok (packets w1 p)" "index (packets w1 p) \<le> 82" using i(2) by (simp_all add: deliverable_def)
    obtain buffer' where copy: "memory_copy (data (packets w1 p)) (index (packets w1 p) + TFTP_DATA_HEADER_SIZE) buffer 0
        (limit_block n (plength (packets w1 p))) = Inr buffer'"
      using block_copied [OF k assms(4-6)] by blast
    have "holds_string 876 str_wrong_port" by (simp add: holds_string_def str_wrong_port_def)
    then show ?thesis
      using ack_ends_reading [OF assms(1) i(1) n] error_ends [OF assms(1) i(1) n] copy
      by (auto simp: x Some Let_def intro!: ends_bindR)
  qed
qed

lemma tftp_read_ends:
  assumes "link_ok X" and "udp_inv X ok H w" and "ip_room X (tftp_server_ip c) w" and "reader_ok X c"
    and "size H + queue_capacity X w \<le> 38" and "0 \<le> n" and "n \<le> 900" and "n \<le> int (length buffer)"
  shows "ends (tftp_read X c buffer n w)"
proof -
  have r: "ready_from X ok w H (tftp_server_ip c) w" using assms(2,3) by (simp add: ready_from_start ready_to_def)
  have b: "backoff_ok X (tftp_backoff c)" and s: "holds_string 64 (filename c)"
    using assms(4) cleared_string by (simp_all add: reader_ok_def)
  obtain t junk where t: "filename c = t @ 0 # junk" "0 \<notin> set t" "length t < 64" using s by (rule holds_stringE)
  have n: "size H + queue_capacity X w \<le> 39" using assms(5) by simp
  show ?thesis
  proof (cases "tftp_status c")
    case TFTP_STATE_REQUEST
    have send: "ends (tftp_resend X (send_tftp_request X c) c w)"
      by (rule tftp_resend_ends [OF r b]) (rule request_ends [OF assms(1) _ n s])
    have resent: "safe (tftp_resend X (send_tftp_request X c) c w) (\<lambda>(c', w'). ready_from X ok w H (tftp_server_ip c) w')"
      by (rule safe_mono [OF tftp_resend_step [OF r b]], rule send_tftp_request_step [OF _ t]) auto
    show ?thesis
      unfolding tftp_read_def if_P [OF TFTP_STATE_REQUEST]
    proof (rule ends_bindR [OF send], goal_cases)
      case (1 x)
      obtain c1 w1 where x: "x = (c1, w1)" by (cases x)
      have "ready_from X ok w H (tftp_server_ip c) w1" using safeD [OF resent 1] by (simp add: x)
      from returns_ends [OF try_read_oack_step [OF this]] show ?case by (auto simp: x intro!: ends_bindR)
    qed
  next
    case TFTP_STATE_READ
    have send: "ends (tftp_resend X (ack_current_block X c) c w)"
      by (rule tftp_resend_ends [OF r b]) (rule ack_ends_reading [OF assms(1) _ n])
    have resent: "safe (tftp_resend X (ack_current_block X c) c w) (\<lambda>(c', w'). ready_from X ok w H (tftp_server_ip c') w' \<and>
        tftp_server_ip c' = tftp_server_ip c)"
      by (rule safe_mono [OF tftp_resend_step [OF r b]], rule ack_step) auto
    have q: "tftp_status c \<noteq> TFTP_STATE_REQUEST" using TFTP_STATE_READ by simp
    show ?thesis
      unfolding tftp_read_def if_not_P [OF q] if_P [OF TFTP_STATE_READ]
    proof (rule ends_bindR [OF send], goal_cases)
      case (1 x)
      obtain c1 w1 where x: "x = (c1, w1)" by (cases x)
      have w1: "ready_from X ok w H (tftp_server_ip c1) w1" "tftp_server_ip c1 = tftp_server_ip c"
        using safeD [OF resent 1] by (auto simp: x)
      show ?case
        unfolding x prod.case
      proof (rule ends_bindR [OF try_read_data_ends [OF assms(1) w1(1) assms(5-8)]], goal_cases)
        case (1 y)
        obtain m c2 buffer2 w2 where y: "y = (m, c2, buffer2, w2)" by (cases y)
        have w2: "ready_from X ok w H (tftp_server_ip c1) w2" "data_read X w1 c1 buffer n (m, c2, buffer2)"
          using safeD [OF try_read_data_step [OF w1(1) assms(6-8)] 1] by (simp_all add: y)
        then have "tftp_server_ip c2 = tftp_server_ip c1" by (auto simp: data_read_def)
        then have "ends (ack_current_block X (c2\<lparr>tftp_backoff := b\<rparr>) w2)" for b
          using w2(1) by (intro ack_ends_reading [OF assms(1) _ n]) simp
        then show ?case by (auto simp: y Let_def intro!: ends_bindR)
      qed
    qed
  qed (simp_all add: tftp_read_def)
qed

lemma tftp_abort_ends:
  assumes "link_ok X" and "udp_inv X ok H w" and "ip_room X (tftp_server_ip c) w" and "size H + queue_capacity X w \<le> 39"
    and "holds_string 876 message"
  shows "ends (tftp_abort_download X c message w)"
  unfolding tftp_abort_download_def send_error_def
  by (rule error_ends [OF assms(1) ready_from_start assms(4,5)]) (simp add: ready_to_def assms(2,3))

end

section \<open>A program that goes on\<close>

text \<open>
  Property C18: in every state a program with downloads can reach, if the answers of less than two bytes so
  far and the packets promised to its connections are at most 38, and the controller reports no
  transmission error, then a round of the stack on acceptable frames returns, and so do \<open>udp_send\<close>, a
  step of a download, whatever waits on its port, and aborting it.  A round promises no further packets.
\<close>

theorem application_returns:
  assumes "intrusive_list X ok" and "phy_ready X" and "link_ok X" and "app_reachable X w cs k" and "k + queue_capacity X w \<le> 38"
  shows "(acceptable_frames X RECEIVE_DESCRIPTOR_COUNT w \<longrightarrow>
       returns (network_task X w) (\<lambda>w'. queue_capacity X w' = queue_capacity X w)) \<and>
    (\<forall>payload n source dest ip. 0 \<le> n \<and> n \<le> int (length payload) \<and> ip_room X ip w \<longrightarrow>
       returns (udp_send X payload n source dest ip w) (\<lambda>w'. queue_capacity X w' = queue_capacity X w)) \<and>
    (\<forall>i c. cs i = Some c \<and> ip_room X (tftp_server_ip c) w \<longrightarrow>
       (\<forall>buffer n. 0 \<le> n \<and> n \<le> 900 \<and> n \<le> int (length buffer) \<longrightarrow> returns (tftp_read X c buffer n w) (\<lambda>_. True)) \<and>
       (\<forall>message. holds_string 876 message \<longrightarrow> returns (tftp_abort_download X c message w) (\<lambda>_. True)))"
proof -
  obtain L where L: "size L = k" "dhcp_inv X ok L w" "\<forall>i c. cs i = Some c \<longrightarrow> reader_ok X c"
    using intrusive_list.app_reachable_inv [OF assms(1,2,4)] by blast
  have u: "udp_inv X ok L w" using L(2) by (simp add: dhcp_inv_def)
  then have a: "arp_inv X ok L w" by (simp add: udp_inv_def)
  have n: "size L + queue_capacity X w \<le> 38" "size L + queue_capacity X w \<le> 39" using assms(5) L(1) by simp_all
  show ?thesis
  proof (intro conjI impI allI; (elim conjE)?)
    assume f: "acceptable_frames X RECEIVE_DESCRIPTOR_COUNT w"
    note e = intrusive_list.network_task_ends [OF assms(1,3) L(2) f n(1)]
    show "returns (network_task X w) (\<lambda>w'. queue_capacity X w' = queue_capacity X w)"
      using e intrusive_list.network_task_safe [OF assms(1) L(2) f] intrusive_list.network_task_listening [OF assms(1) u f]
      by (cases "network_task X w") (auto simp: queue_capacity_def)
  next
    fix payload :: "u8 list" and n source dest ip assume p: "0 \<le> n" "n \<le> int (length payload)" "ip_room X ip w"
    have "size L + waiting_datagrams X w \<le> 39" by (rule roomy_waiting [OF u]) (use assms(5) L(1) in \<open>simp add: roomy_def\<close>)
    note e = intrusive_list.udp_send_ends [OF assms(1,3) a p this, of source dest]
    show "returns (udp_send X payload n source dest ip w) (\<lambda>w'. queue_capacity X w' = queue_capacity X w)"
      using e intrusive_list.udp_send_safe [OF assms(1) a p, of source dest]
      by (cases "udp_send X payload n source dest ip w") (auto simp: queue_capacity_def dest: listening_arp_frame)
  next
    fix i c and buffer :: "u8 list" and m assume c: "cs i = Some c" "ip_room X (tftp_server_ip c) w"
      and p: "0 \<le> m" "m \<le> 900" "m \<le> int (length buffer)"
    have r: "reader_ok X c" using L(3) c(1) by blast
    note s = intrusive_list.tftp_read_ok [OF assms(1) u c(2) r p]
    note e = intrusive_list.tftp_read_ends [OF assms(1,3) u c(2) r n(1) p]
    show "returns (tftp_read X c buffer m w) (\<lambda>_. True)" by (rule returns_mono [OF safe_ends_returns [OF s e]]) simp
  next
    fix i c message assume c: "cs i = Some c" "ip_room X (tftp_server_ip c) w" and p: "holds_string 876 message"
    note s = intrusive_list.tftp_abort_ok [OF assms(1) u c(2) p]
    note e = intrusive_list.tftp_abort_ends [OF assms(1,3) u c(2) n(2) p]
    show "returns (tftp_abort_download X c message w) (\<lambda>_. True)" by (rule returns_mono [OF safe_ends_returns [OF s e]]) simp
  qed
qed

theorem application_returns_witness:
  "\<exists>w. gmac_init quiet_libs (network_init quiet_libs cold_state) = Inr w \<and>
     returns (tftp_download_file quiet_libs (reading\<lparr>filename := replicate 64 0\<rparr>) [0x66, 0] 0x0A000002 w) (\<lambda>(c, w').
       returns (tftp_read quiet_libs c [] 0 w') (\<lambda>_. True))"
proof -
  have phy: "phy_ready quiet_libs" unfolding phy_ready_def by (subst wait_mdio.simps) (simp add: quiet_libs_def ref_libs_def)
  obtain w where w: "gmac_init quiet_libs (network_init quiet_libs cold_state) = Inr w" "udp_inv quiet_libs ref_ok {#} w"
    "free_connections quiet_libs w = rev [0..<16]" "used_connections quiet_libs w = []" "free_list quiet_libs w = rev [0..<8]"
    using quiet.boot_inv [OF phy cold_state_ok(1)] by blast
  have start: "app_reachable quiet_libs w Map.empty 0" by (rule app_reachable.boot [OF cold_state_ok w(1)])
  have free: "free_connections quiet_libs w \<noteq> []" using w(3) by simp
  let ?c = "reading\<lparr>filename := replicate 64 0\<rparr>"
  have c: "cleared ?c" "holds_string 64 [0x66, 0]" by (simp_all add: cleared_def holds_string_def)
  have "returns (tftp_read quiet_libs c [] 0 w') (\<lambda>_. True)"
    if d: "tftp_download_file quiet_libs ?c [0x66, 0] 0x0A000002 w = Inr (c, w')"
      and u: "used_connections quiet_libs w' = hd (free_connections quiet_libs w) # used_connections quiet_libs w"
      and m: "connections w' (hd (free_connections quiet_libs w)) = \<lparr>port = client_port c, queue_count = 0, max_packet_count = 1\<rparr>"
      and e: "entry_lists w' = entry_lists w" for c w'
  proof -
    have a: "app_reachable quiet_libs w' (Map.empty(0 \<mapsto> c)) 0" by (rule app_reachable.download [OF start free c d])
    have "queue_capacity quiet_libs w' = 1" using u m w(4) by (simp add: queue_capacity_used)
    then have "0 + queue_capacity quiet_libs w' \<le> 38" by simp
    note r = application_returns [OF quiet.intrusive_list_axioms phy quiet_link a this]
    have "free_list quiet_libs w' \<noteq> []" using w(5) e by (simp add: free_list_def)
    then have "ip_room quiet_libs ip w'" for ip by (simp add: ip_room_def arp_room_def)
    then show ?thesis using r by auto
  qed
  then show ?thesis
    using w(1) intrusive_list.download_file_ok [OF quiet.intrusive_list_axioms w(2) free c, of "0x0A000002"]
    by (intro exI [of _ w]) (auto elim!: returns_mono)
qed

end
