(* ===== verification/Delivery.thy ===== *)
theory Delivery
  imports Udp_Properties Internet_Properties
begin

text \<open>
  From the wire to the socket: a UDP frame as the stack writes it, received by a stack, ends up in the
  queue of the connection that listens on its port.
\<close>

lemma frame_of_ahead:
  "ahead (data k) (index k) (xs @ ys) \<Longrightarrow> plength k = int (length xs) \<Longrightarrow> frame_of k = xs"
  by (simp add: ahead_def frame_of_def chunk_def)

lemma ahead_frame_of:
  "packet_ok k \<Longrightarrow> frame_of k = xs \<Longrightarrow> ahead (data k) (index k) (xs @ drop (nat (index k + plength k)) (data k))"
  using frame_ahead by blast

text \<open>
  A frame that carries \<open>payload\<close> over UDP: its header has five words, it is not marked as a fragment,
  and its lengths are right; the other fields, the checksums among them, are the sender's.
\<close>

definition carries_udp :: "mac \<Rightarrow> mac \<Rightarrow> u16 \<Rightarrow> u16 \<Rightarrow> u32 \<Rightarrow> u32 \<Rightarrow> u8 list \<Rightarrow> u8 list \<Rightarrow> bool" where
  "carries_udp tm sm source dest sender target payload f \<longleftrightarrow>
     length tm = 6 \<and> length sm = 6 \<and> (\<exists>tos id frag ttl ic uc. frag AND IP_FLAG_MORE_FRAGMENTS = 0 \<and>
     f = (tm @ sm) @ be16_bytes ETHER_TYPE_IPV4 @ [0x45, tos] @ be16_bytes (word_of_int (int (length payload) + 28)) @
       be16_bytes id @ be16_bytes frag @ [ttl] @ [17] @ be16_bytes ic @ be32_bytes sender @ be32_bytes target @
       be16_bytes source @ be16_bytes dest @ be16_bytes (word_of_int (int (length payload) + 8)) @ be16_bytes uc @ payload)"

lemma carries_udp_length: "carries_udp tm sm source dest sender target payload f \<Longrightarrow> length f = length payload + 42"
  by (auto simp: carries_udp_def)

lemma udp_frame_carries:
  assumes "length tm = 6" and "length sm = 6"
  shows "carries_udp tm sm source dest sender target payload (udp_frame_bytes tm sm source dest sender target payload)"
proof -
  obtain ic where ip: "ip_header sender target IP_PROTOCOL_UDP (int (length payload) + 28) = [0x45, 0] @
      be16_bytes (word_of_int (int (length payload) + 28)) @ be16_bytes 0 @ be16_bytes IP_FLAG_DONT_FRAGMENT @ [0xFF] @ [17] @
      be16_bytes ic @ be32_bytes sender @ be32_bytes target"
    by (simp add: ip_header_def ip_header_with_def)
  obtain uc where udp: "udp_header source dest sender target payload = be16_bytes source @ be16_bytes dest @
      be16_bytes (word_of_int (int (length payload) + 8)) @ be16_bytes uc"
    by (simp add: udp_header_def udp_header_with_def algebra_simps)
  have n: "int (length (udp_datagram source dest sender target payload)) + 20 = int (length payload) + 28"
    by (simp add: udp_datagram_def)
  have f: "(IP_FLAG_DONT_FRAGMENT :: u16) AND IP_FLAG_MORE_FRAGMENTS = 0" by simp
  show ?thesis
    unfolding carries_udp_def udp_frame_bytes_def ether_frame_def mac_header_def ip_datagram_def n ip
    by (intro conjI assms exI [of _ 0] exI [of _ IP_FLAG_DONT_FRAGMENT] exI [of _ "0xFF"] exI [of _ ic] exI [of _ uc] f)
      (simp only: udp_datagram_def udp append_assoc)
qed

text \<open>What the headers of a frame read as, from its start.\<close>

lemma udp_frame_reads:
  assumes "ahead d off (f @ behind)" and "carries_udp tm sm source dest sender target payload f"
  obtains frag uc where "frag AND IP_FLAG_MORE_FRAGMENTS = 0" and "read_be16 d (off + 12) = Inr ETHER_TYPE_IPV4"
    and "get_byte d (off + 14) = Inr 0x45" and "read_be16 d (off + 16) = Inr (word_of_int (int (length payload) + 28))"
    and "read_be16 d (off + 20) = Inr frag" and "get_byte d (off + 23) = Inr 17" and "read_be32 d (off + 26) = Inr sender"
    and "read_be32 d (off + 30) = Inr target"
    and "ahead d (off + 34) (be16_bytes source @ be16_bytes dest @ be16_bytes (word_of_int (int (length payload) + 8)) @
      be16_bytes uc @ payload @ behind)"
proof -
  let ?n = "word_of_int (int (length payload) + 28) :: u16"
  obtain tos id frag ttl ic uc where frag: "frag AND IP_FLAG_MORE_FRAGMENTS = 0" and l: "length (tm @ sm) = 12"
    and f: "f = (tm @ sm) @ be16_bytes ETHER_TYPE_IPV4 @ [0x45, tos] @ be16_bytes ?n @
       be16_bytes id @ be16_bytes frag @ [ttl] @ [17] @ be16_bytes ic @ be32_bytes sender @ be32_bytes target @
       be16_bytes source @ be16_bytes dest @ be16_bytes (word_of_int (int (length payload) + 8)) @ be16_bytes uc @ payload"
    using assms(2) unfolding carries_udp_def by auto
  let ?udp = "be16_bytes source @ be16_bytes dest @ be16_bytes (word_of_int (int (length payload) + 8)) @ be16_bytes uc @ payload @ behind"
  have 0: "ahead d off ((tm @ sm) @ be16_bytes ETHER_TYPE_IPV4 @ [0x45, tos] @ be16_bytes ?n @ be16_bytes id @ be16_bytes frag @
      [ttl] @ [17] @ be16_bytes ic @ be32_bytes sender @ be32_bytes target @ ?udp)"
    using assms(1) unfolding f by (simp only: append_assoc)
  note skip = ahead_skip
  have 12: "ahead d (off + 12) (be16_bytes ETHER_TYPE_IPV4 @ [0x45, tos] @ be16_bytes ?n @ be16_bytes id @ be16_bytes frag @
      [ttl] @ [17] @ be16_bytes ic @ be32_bytes sender @ be32_bytes target @ ?udp)"
    using skip [OF 0, unfolded l] by simp
  have 14: "ahead d (off + 14) ([0x45, tos] @ be16_bytes ?n @ be16_bytes id @ be16_bytes frag @
      [ttl] @ [17] @ be16_bytes ic @ be32_bytes sender @ be32_bytes target @ ?udp)"
    using skip [OF 12] by (simp add: add.commute)
  have 16: "ahead d (off + 16) (be16_bytes ?n @ be16_bytes id @ be16_bytes frag @
      [ttl] @ [17] @ be16_bytes ic @ be32_bytes sender @ be32_bytes target @ ?udp)"
    using skip [OF 14] by (simp add: add.commute)
  have 20: "ahead d (off + 20) (be16_bytes frag @ [ttl] @ [17] @ be16_bytes ic @ be32_bytes sender @ be32_bytes target @ ?udp)"
    using skip [OF skip [OF 16]] by (simp add: add.commute)
  have 22: "ahead d (off + 22) ([ttl] @ [17] @ be16_bytes ic @ be32_bytes sender @ be32_bytes target @ ?udp)"
    using skip [OF 20] by (simp add: add.commute)
  have 23: "ahead d (off + 23) ([17] @ be16_bytes ic @ be32_bytes sender @ be32_bytes target @ ?udp)"
    using skip [OF 22] by (simp add: add.commute)
  have 24: "ahead d (off + 24) (be16_bytes ic @ be32_bytes sender @ be32_bytes target @ ?udp)"
    using skip [OF 23] by (simp add: add.commute)
  have 26: "ahead d (off + 26) (be32_bytes sender @ be32_bytes target @ ?udp)"
    using skip [OF 24] by (simp add: add.commute)
  have 30: "ahead d (off + 30) (be32_bytes target @ ?udp)"
    using skip [OF 26] by (simp add: add.commute)
  have 34: "ahead d (off + 34) ?udp"
    using skip [OF 30] by (simp add: add.commute)
  have b: "get_byte d (off + 14) = Inr 0x45" "get_byte d (off + 23) = Inr 17" using 14 23 by simp_all
  have "read_be16 d (off + 12) = Inr ETHER_TYPE_IPV4" "read_be16 d (off + 16) = Inr ?n" "read_be16 d (off + 20) = Inr frag"
    "read_be32 d (off + 26) = Inr sender" "read_be32 d (off + 30) = Inr target"
    by (rule be16.rd_ahead [OF 12], simp, rule be16.rd_ahead [OF 16], simp, rule be16.rd_ahead [OF 20], simp,
        rule be32.rd_ahead [OF 26], simp, rule be32.rd_ahead [OF 30], simp)
  then show thesis using that [OF frag _ b(1) _ _ b(2) _ _ 34] by blast
qed

text \<open>
  Such a frame, in the packet \<open>p\<close> the driver handed out, goes to \<open>handle_udp\<close> with its headers taken
  off.
\<close>

lemma udp_frame_dispatched:
  fixes w :: "('e, 'h, 'z) udp_state_scheme"
  assumes "packet_ok (packets w p)" and "index (packets w p) = 0" and "plength (packets w p) < NETWORK_PACKET_SIZE"
    and "frame_of (packets w p) = f @ padding" and "carries_udp tm sm source dest sender target payload f"
    and "payload \<noteq> []" and "our_ip w \<in> {0, target} \<or> target = 0xFFFFFFFF"
  obtains g uc where "handle_mac X p w = handle_udp X p (set_packet p g w)"
    and "g (packets w p) = (packets w p)\<lparr>senders_ip := sender, target_ip := target, plength := int (length payload) + 8, index := 34\<rparr>"
    and "frame_of (g (packets w p)) = be16_bytes source @ be16_bytes dest @ be16_bytes (word_of_int (int (length payload) + 8)) @
      be16_bytes uc @ payload"
    and "int (length payload) + 42 \<le> plength (packets w p)"
    and "read_be16 (data (packets w p)) 12 = Inr ETHER_TYPE_IPV4" and "get_byte (data (packets w p)) 23 = Inr 17"
proof -
  let ?k = "packets w p"
  let ?f = "\<lambda>k. k\<lparr>plength := plength k - MAC_HEADER_SIZE, index := index k + MAC_HEADER_SIZE\<rparr> :: packet"
  let ?n = "word_of_int (int (length payload) + 28) :: u16"
  let ?g = "\<lambda>k. ip_payload sender target ?n 0x45 (?f k)"
  let ?w1 = "set_packet p ?f w" and ?w2 = "set_packet p ?g w"
  have len: "plength ?k = int (length payload) + 42 + int (length padding)"
    using arg_cong [OF assms(4), of length] assms(1,2) carries_udp_length [OF assms(5)]
    by (auto simp: frame_of_def packet_ok_def split: if_splits)
  have pay: "0 < length payload" "int (length payload) < 1024" using assms(3,6) len by simp_all
  have u: "uint ?n = int (length payload) + 28" using pay
    by (subst uint_word_of_int) (simp add: take_bit_int_eq_self)
  let ?behind = "padding @ drop (nat (plength ?k)) (data ?k)"
  have d: "ahead (data ?k) 0 (f @ ?behind)" using frame_ahead [OF assms(1)] assms(2,4) by simp
  obtain frag uc where rd: "frag AND IP_FLAG_MORE_FRAGMENTS = 0" "read_be16 (data ?k) 12 = Inr ETHER_TYPE_IPV4"
    "get_byte (data ?k) 14 = Inr 0x45" "read_be16 (data ?k) 16 = Inr ?n" "read_be16 (data ?k) 20 = Inr frag"
    "get_byte (data ?k) 23 = Inr 17" "read_be32 (data ?k) 26 = Inr sender" "read_be32 (data ?k) 30 = Inr target"
    and a: "ahead (data ?k) 34 (be16_bytes source @ be16_bytes dest @ be16_bytes (word_of_int (int (length payload) + 8)) @
      be16_bytes uc @ payload @ ?behind)"
    by (rule udp_frame_reads [OF d assms(5)]) simp
  have mac: "handle_mac X p w = handle_ip X p ?w1"
    using assms(2,3) len pay rd(2) by (simp add: handle_mac_def size_t_le uint_size_t)
  have k1: "packet_ok (packets ?w1 p)" "20 < plength (packets ?w1 p)" using assms(1,2) len pay by (simp_all add: packet_ok_def)
  have "handle_ip X p ?w1 = handle_udp X p (set_packet p (ip_payload sender target ?n 0x45) ?w1)"
    using handle_ip_eq [where w = ?w1 and p = p and b = "0x45" and n = ?n and fragment = frag and sender = sender
        and target = target and protocol = "17" and X = X, OF k1] rd assms(2,7) len pay u
    by (auto simp: Let_def)
  then have e: "handle_mac X p w = handle_udp X p ?w2" using mac by (simp add: set_packet_set_packet)
  have k2: "?g ?k = ?k\<lparr>senders_ip := sender, target_ip := target, plength := int (length payload) + 8, index := 34\<rparr>"
    using assms(2) len u by (simp add: ip_payload_def ip_parsed_def)
  have f2: "frame_of (?g ?k) = be16_bytes source @ be16_bytes dest @ be16_bytes (word_of_int (int (length payload) + 8)) @
      be16_bytes uc @ payload"
    unfolding k2 by (rule frame_of_ahead [where ys = ?behind]) (use a in simp_all)
  show thesis by (rule that [OF e k2 f2]) (use len rd in simp_all)
qed

lemma udp_frame_received:
  assumes "intrusive_list X ok" and "udp_inv X ok (add_mset p H) w" and "packet_ok (packets w p)" and "index (packets w p) = 0"
    and "plength (packets w p) < NETWORK_PACKET_SIZE" and "frame_of (packets w p) = f @ padding"
    and "carries_udp tm sm source dest sender target payload f" and "payload \<noteq> []"
    and "our_ip w \<in> {0, target} \<or> target = 0xFFFFFFFF"
  shows "returns (handle_mac X p w) (\<lambda>w'. udp_inv X ok H w' \<and>
    (\<forall>c<UDP_CONNECTION_COUNT. inbox X w' c =
      (if find_connection X dest w = Some c
       then fifo_put (max_packet_count (connections w c)) (inbox X w c) (source, payload)
       else inbox X w c)))"
proof -
  let ?k = "packets w p"
  obtain g uc where e: "handle_mac X p w = handle_udp X p (set_packet p g w)"
    and k2: "g ?k = ?k\<lparr>senders_ip := sender, target_ip := target, plength := int (length payload) + 8, index := 34\<rparr>"
    and f2: "frame_of (g ?k) = be16_bytes source @ be16_bytes dest @ be16_bytes (word_of_int (int (length payload) + 8)) @
      be16_bytes uc @ payload" and len: "int (length payload) + 42 \<le> plength ?k"
    by (rule udp_frame_dispatched [OF assms(3-9)])
  let ?w2 = "set_packet p g w"
  have i2: "udp_inv X ok (add_mset p H) ?w2"
    by (intro intrusive_list.udp_inv_set_packet(1) [OF assms(1)] assms(2)) (simp add: k2)
  have p2: "packets ?w2 p = g ?k" by simp
  have ok2: "packet_ok (packets ?w2 p)" "index (packets ?w2 p) \<le> 74" "index (packets ?w2 p) + plength (packets ?w2 p) < 1024"
    "8 < plength (packets ?w2 p)"
    unfolding p2 k2 using assms(3,5,8) len by (simp_all add: packet_ok_def)
  have ports: "chunk 0 4 (frame_of (packets ?w2 p)) = be16_bytes source @ be16_bytes dest"
    unfolding p2 f2 by (simp add: chunk_def be16_bytes_def)
  have same: "find_connection X dest ?w2 = find_connection X dest w" "connections ?w2 = connections w"
    by (simp_all add: find_connection_def set_packet_def)
  have pool: "pool X ok (add_mset p (H + rings w)) (packet_lists w)"
    using assms(2) by (simp add: udp_inv_def arp_inv_def gmac_inv_def)
  have boxes: "inbox X ?w2 c = inbox X w c" if "c < UDP_CONNECTION_COUNT" for c
    using pool_fresh [OF pool] that by (intro inbox_frame) (auto simp: datagrams_def set_packet_def)
  have "drop 8 (frame_of (packets ?w2 p)) = payload" unfolding p2 f2 by simp
  note put = handle_udp_put [OF assms(1) i2 ok2 ports, unfolded this same]
  show ?thesis
    unfolding e by (rule returns_mono [OF put]) (use boxes in auto)
qed

text \<open>
  \<open>holds_frame\<close>: the driver has handed the packet \<open>p\<close> with the bytes \<open>f\<close> of the wire, padded to the
  minimal length of a frame or not, to the running code of a stack whose address is \<open>ip\<close>.
\<close>

definition holds_frame :: "('e, 'h) libs \<Rightarrow> (list_head set \<Rightarrow> 'h \<Rightarrow> bool) \<Rightarrow> nat multiset \<Rightarrow> nat \<Rightarrow> u8 list \<Rightarrow> u32 \<Rightarrow>
    ('e, 'h, 'z) udp_state_scheme \<Rightarrow> bool" where
  "holds_frame X ok H p f ip v \<longleftrightarrow> udp_inv X ok (add_mset p H) v \<and> packet_ok (packets v p) \<and> index (packets v p) = 0 \<and>
     plength (packets v p) < NETWORK_PACKET_SIZE \<and> (\<exists>padding. frame_of (packets v p) = f @ padding) \<and>
     (our_ip v \<in> {0, ip} \<or> ip = 0xFFFFFFFF)"

text \<open>
  Property C12: a datagram crosses the wire.  What \<open>udp_send\<close> of one stack hands to its transmitter is,
  when another stack (with its own libraries) receives it, padded or not, put into the queue of the
  connection that listens on the destination port, with the sender's port and exactly the bytes sent, up
  to 880; no other queue changes and no packet is lost.
\<close>

theorem udp_crosses_wire:
  assumes "intrusive_list X ok" and "arp_inv X ok H w" and "0 < n" and "n \<le> int (length payload)"
    and "next_hop X ip w = Some m" and "tx_owner (tx_descriptors w ! tx_index w) \<noteq> OWNER_GMAC"
    and "intrusive_list Y ok'"
  shows "safe (udp_send X payload n source dest ip w) (\<lambda>w'. \<forall>H' p v.
    holds_frame Y ok' H' p (tx_frame w' (tx_index w)) ip v \<longrightarrow>
    returns (handle_mac Y p v) (\<lambda>v'. udp_inv Y ok' H' v' \<and> (\<forall>c<UDP_CONNECTION_COUNT. inbox Y v' c =
      (if find_connection Y dest v = Some c
       then fifo_put (max_packet_count (connections v c)) (inbox Y v c) (source, take (min (nat n) 880) payload)
       else inbox Y v c))))"
proof -
  have n: "0 \<le> n" using assms(3) by simp
  have "ip_room X ip w"
    using assms(5) by (auto simp: ip_room_def arp_room_def next_hop_def split: if_splits option.splits)
  note sent = intrusive_list.udp_send_safe [OF assms(1,2) n assms(4) this]
  have m: "length m = 6" using next_hop_mac [of X ok w ip m] assms(2,5) by (simp add: arp_inv_def)
  have our: "length (our_mac w) = 6" using assms(2) by (auto simp: arp_inv_def intro: our_mac_length)
  have some: "take (min (nat n) 880) payload \<noteq> []" using assms(3,4) by auto
  show ?thesis
  proof (rule safe_mono [OF sent], intro allI impI)
    fix w' H' p v
    assume "udp_send X payload n source dest ip w = Inr w'" and h: "holds_frame Y ok' H' p (tx_frame w' (tx_index w)) ip v"
    from udp_send_wire [OF assms(1,2) n assms(4,5) this(1)]
    have f: "tx_frame w' (tx_index w) = udp_frame_bytes m (our_mac w) source dest (our_ip w) ip (take (min (nat n) 880) payload)"
      using assms(6) by (simp add: transmits_def Let_def)
    obtain padding where "frame_of (packets v p) =
        udp_frame_bytes m (our_mac w) source dest (our_ip w) ip (take (min (nat n) 880) payload) @ padding"
      using h f by (auto simp: holds_frame_def)
    from udp_frame_received [OF assms(7) _ _ _ _ this udp_frame_carries [OF m our] some]
    show "returns (handle_mac Y p v) (\<lambda>v'. udp_inv Y ok' H' v' \<and> (\<forall>c<UDP_CONNECTION_COUNT. inbox Y v' c =
      (if find_connection Y dest v = Some c
       then fifo_put (max_packet_count (connections v c)) (inbox Y v c) (source, take (min (nat n) 880) payload)
       else inbox Y v c)))"
      using h by (simp add: holds_frame_def)
  qed
qed

text \<open>A frame of 46 bytes in packet 42 of a stack that listens on port 1000.\<close>

definition arriving :: "u8 list \<Rightarrow> (ref_env, list_head \<Rightarrow> nat list) dhcp_state" where
  "arriving f = set_packet 42 (\<lambda>k. put_message f (k\<lparr>index := 0\<rparr>)) (sample_state 1)"

lemma arriving_ok:
  assumes "length f \<le> 900"
  shows "holds_frame ref_libs ref_ok {#} 42 f 0xFFFFFFFF (arriving f)" and "find_connection ref_libs 1000 (arriving f) = Some 1"
    and "max_packet_count (connections (arriving f) 1) = 2" and "inbox ref_libs (arriving f) 1 = [(1000, replicate 100 0)]"
proof -
  let ?k = "sample_packet\<lparr>index := 0\<rparr>"
  have k: "length (data ?k) = 1024" "0 \<le> index ?k" "index ?k + int (length f) \<le> 1024"
    using assms by (simp_all add: sample_packet_def)
  note fr = put_message_frame [OF k]
  have p: "packets (arriving f) 42 = put_message f ?k" by (simp add: arriving_def)
  have i: "udp_inv ref_libs ref_ok (add_mset 42 {#}) (sample_state 1)" using sample_udp [of 1] by simp
  have "udp_inv ref_libs ref_ok (add_mset 42 {#}) (arriving f)"
    unfolding arriving_def by (rule ref.udp_inv_set_packet(1) [OF i]) (use fr(2) k in \<open>simp add: packet_ok_def\<close>)
  moreover have "plength (packets (arriving f) 42) = int (length f)" by (simp add: p put_message_def)
  ultimately show "holds_frame ref_libs ref_ok {#} 42 f 0xFFFFFFFF (arriving f)"
    using fr assms by (simp add: holds_frame_def p)
  have d: "connections (arriving f) = sample_connection" "datagrams ref_libs (arriving f) 1 = [41]"
    "packets (arriving f) 41 = sample_packet" "connection_lists (arriving f) Used_connections = [0, 1]"
    by (simp_all add: arriving_def datagrams_def) (simp_all add: sample_state_def sample_lists_def set_packet_def del: upt_rec_numeral)
  show "find_connection ref_libs 1000 (arriving f) = Some 1" "max_packet_count (connections (arriving f) 1) = 2"
    by (simp_all add: find_connection_def d [unfolded One_nat_def] sample_connection_def)
  show "inbox ref_libs (arriving f) 1 = [(1000, replicate 100 0)]"
    by (simp add: inbox_def d [unfolded One_nat_def] sample_packet_def frame_of_def chunk_def)
qed

theorem udp_crosses_wire_witness:
  "safe (udp_send ref_libs [1, 2, 3, 4] 4 53 1000 0xFFFFFFFF (sample_state 0)) (\<lambda>w'.
     returns (handle_mac ref_libs 42 (arriving (tx_frame w' 0))) (\<lambda>v'. inbox ref_libs v' 1 =
       [(1000, replicate 100 0), (53, [1, 2, 3, 4])]))"
proof -
  have s: "tx_index (sample_state 0) = 0" "tx_owner (tx_descriptors (sample_state 0) ! tx_index (sample_state 0)) \<noteq> OWNER_GMAC"
    "our_mac (sample_state 0) = [2, 0, 0, 0, 0, 1]"
    by (simp_all add: sample_state_def del: upt_rec_numeral)
  have n: "(0 :: int) < 4" "(0 :: int) \<le> 4" "4 \<le> int (length [1, 2, 3, 4 :: u8])" by simp_all
  show ?thesis
  proof (rule safe_mono [OF udp_crosses_wire [OF ref_contract sample_arp [OF le0] n(1,3) broadcast_hop s(2) ref_contract]])
    fix w'
    assume e: "udp_send ref_libs [1, 2, 3, 4] 4 53 1000 0xFFFFFFFF (sample_state 0) = Inr w'"
      and a: "\<forall>H p (v :: (ref_env, list_head \<Rightarrow> nat list) dhcp_state). holds_frame ref_libs ref_ok H p (tx_frame w' (tx_index (sample_state 0))) 0xFFFFFFFF v \<longrightarrow>
        returns (handle_mac ref_libs p v) (\<lambda>v'. udp_inv ref_libs ref_ok H v' \<and> (\<forall>c<UDP_CONNECTION_COUNT. inbox ref_libs v' c =
          (if find_connection ref_libs 1000 v = Some c
           then fifo_put (max_packet_count (connections v c)) (inbox ref_libs v c) (53, take (min (nat 4) 880) [1, 2, 3, 4])
           else inbox ref_libs v c)))"
    let ?v = "arriving (tx_frame w' 0)"
    from udp_send_wire [OF ref_contract sample_arp [OF le0] n(2,3) broadcast_hop e]
    have l: "length (tx_frame w' 0) \<le> 900"
      using s(2) by (simp add: s transmits_def Let_def udp_frame_bytes_def ether_frame_def ip_datagram_def udp_datagram_def length_mac_header)
    note v = arriving_ok [OF l]
    have box: "fifo_put 2 [(1000, replicate 100 0)] (53, take (min (nat 4) 880) [1, 2, 3, 4]) =
        [(1000, replicate 100 0), (53, [1, 2, 3, 4 :: u8])]" by (simp add: fifo_put_def)
    have "returns (handle_mac ref_libs 42 ?v) (\<lambda>v'. \<forall>c<UDP_CONNECTION_COUNT. inbox ref_libs v' c =
        (if find_connection ref_libs 1000 ?v = Some c
         then fifo_put (max_packet_count (connections ?v c)) (inbox ref_libs ?v c) (53, take (min (nat 4) 880) [1, 2, 3, 4])
         else inbox ref_libs ?v c))"
      by (rule returns_mono [OF a [rule_format, unfolded s(1), OF v(1)]]) blast
    then show "returns (handle_mac ref_libs 42 ?v) (\<lambda>v'. inbox ref_libs v' 1 = [(1000, replicate 100 0), (53, [1, 2, 3, 4])])"
      by (rule returns_mono) (use v(2-4) box in auto)
  qed
qed

end
