(* ===== verification/Header_Layouts.thy ===== *)
theory Header_Layouts
  imports Dhcp_Messages Receive Tftp
begin

text \<open>
  The packed header structures of the protocols, field by field with their widths in bits, in the order
  of the C declarations.  The operations of the model address a header by byte offsets and produce it
  as a list of bytes; here both are related to the declarations: the sizes the code takes by \<open>sizeof\<close>,
  the offsets the operations read and write at, and the fields of the headers they produce.
\<close>

section \<open>Structures\<close>

type_synonym layout = "(string \<times> nat) list"

definition layout_bits :: "layout \<Rightarrow> nat" where
  "layout_bits s = sum_list (map snd s)"

fun bit_offset :: "layout \<Rightarrow> string \<Rightarrow> nat" where
  "bit_offset [] field = 0"
| "bit_offset ((f, n) # s) field = (if f = field then 0 else n + bit_offset s field)"

text \<open>\<open>sizeof\<close> and \<open>offsetof\<close>; a bit-field lies in the byte its lowest bit is in.\<close>

definition size_of :: "layout \<Rightarrow> int" where
  "size_of s = int (layout_bits s div 8)"

definition offset_of :: "layout \<Rightarrow> string \<Rightarrow> int" where
  "offset_of s field = int (bit_offset s field div 8)"

definition MacHeader :: layout where
  "MacHeader = [(''target_mac'', 48), (''senders_mac'', 48), (''ether_type'', 16)]"

definition ArpHeader :: layout where
  "ArpHeader = [(''hardware_type'', 16), (''protocol_type'', 16), (''hardware_length'', 8), (''protocol_length'', 8),
     (''operation'', 16), (''senders_mac'', 48), (''senders_ip'', 32), (''target_mac'', 48), (''target_ip'', 32)]"

definition IpHeader :: layout where
  "IpHeader = [(''header_length'', 4), (''version'', 4), (''explicit_congestion_notification'', 2),
     (''differentiated_services_code_point'', 6), (''length'', 16), (''id'', 16), (''fragment_offset'', 16),
     (''time_to_live'', 8), (''protocol'', 8), (''checksum'', 16), (''senders_ip'', 32), (''target_ip'', 32)]"

definition IcmpHeader :: layout where
  "IcmpHeader = [(''type'', 8), (''code'', 8), (''checksum'', 16), (''id'', 16), (''sequence_number'', 16)]"

definition UdpHeader :: layout where
  "UdpHeader = [(''source_port'', 16), (''dest_port'', 16), (''length'', 16), (''checksum'', 16)]"

definition DhcpHeader :: layout where
  "DhcpHeader = [(''opcode'', 8), (''hardware_type'', 8), (''hardware_length'', 8), (''hardware_options'', 8),
     (''transaction_id'', 32), (''seconds_elapsed'', 16), (''flags'', 16), (''client_ip'', 32), (''your_ip'', 32),
     (''next_server_ip'', 32), (''relay_agent_ip'', 32), (''client_mac'', 48), (''padding'', 8 * 10),
     (''host_name'', 8 * 64), (''boot_filename'', 8 * 128), (''magic_cookie'', 32)]"

definition TftpDataHeader :: layout where
  "TftpDataHeader = [(''opcode'', 16), (''block_number'', 16)]"

lemmas layouts = MacHeader_def ArpHeader_def IpHeader_def IcmpHeader_def UdpHeader_def DhcpHeader_def TftpDataHeader_def

section \<open>Sizes and offsets\<close>

lemma header_sizes:
  "size_of MacHeader = MAC_HEADER_SIZE" "size_of ArpHeader = ARP_HEADER_SIZE" "size_of IpHeader = IP_HEADER_SIZE"
  "size_of IcmpHeader = ICMP_HEADER_SIZE" "size_of UdpHeader = UDP_HEADER_SIZE" "size_of DhcpHeader = DHCP_HEADER_SIZE"
  "size_of TftpDataHeader = TFTP_DATA_HEADER_SIZE"
  by (simp_all add: size_of_def layout_bits_def layouts)

text \<open>The members that come after a whole number of bytes, cut out of the bytes of a structure.\<close>

definition member :: "layout \<Rightarrow> string \<Rightarrow> nat \<Rightarrow> u8 list \<Rightarrow> u8 list" where
  "member s field n bytes = chunk (nat (offset_of s field)) n bytes"

section \<open>The bytes of the headers\<close>

lemma mac_header_members:
  assumes "length target = 6" and "length senders = 6"
  shows "member MacHeader ''target_mac'' 6 (mac_header target senders e) = target"
    and "member MacHeader ''senders_mac'' 6 (mac_header target senders e) = senders"
    and "member MacHeader ''ether_type'' 2 (mac_header target senders e) = be16_bytes e"
  using assms by (simp_all add: member_def chunk_def offset_of_def MacHeader_def mac_header_def)

lemma arp_message_members:
  assumes "length sm = 6" and "length tm = 6"
  shows "member ArpHeader ''operation'' 2 (arp_message sm tm op a b) = be16_bytes op"
    and "member ArpHeader ''senders_mac'' 6 (arp_message sm tm op a b) = sm"
    and "member ArpHeader ''senders_ip'' 4 (arp_message sm tm op a b) = be32_bytes a"
    and "member ArpHeader ''target_mac'' 6 (arp_message sm tm op a b) = tm"
    and "member ArpHeader ''target_ip'' 4 (arp_message sm tm op a b) = be32_bytes b"
  using assms by (simp_all add: member_def chunk_def offset_of_def ArpHeader_def arp_message_def)

lemma ip_header_members:
  "member IpHeader ''length'' 2 (ip_header_with c sender ip protocol n) = be16_bytes (word_of_int n)"
  "member IpHeader ''fragment_offset'' 2 (ip_header_with c sender ip protocol n) = be16_bytes IP_FLAG_DONT_FRAGMENT"
  "member IpHeader ''protocol'' 1 (ip_header_with c sender ip protocol n) = [word_of_int protocol]"
  "member IpHeader ''checksum'' 2 (ip_header_with c sender ip protocol n) = be16_bytes c"
  "member IpHeader ''senders_ip'' 4 (ip_header_with c sender ip protocol n) = be32_bytes sender"
  "member IpHeader ''target_ip'' 4 (ip_header_with c sender ip protocol n) = be32_bytes ip"
  by (simp_all add: member_def chunk_def offset_of_def IpHeader_def ip_header_with_def)

lemma udp_header_members:
  "member UdpHeader ''source_port'' 2 (udp_header_with c source dest n) = be16_bytes source"
  "member UdpHeader ''dest_port'' 2 (udp_header_with c source dest n) = be16_bytes dest"
  "member UdpHeader ''length'' 2 (udp_header_with c source dest n) = be16_bytes (word_of_int n)"
  "member UdpHeader ''checksum'' 2 (udp_header_with c source dest n) = be16_bytes c"
  by (simp_all add: member_def chunk_def offset_of_def UdpHeader_def udp_header_with_def)

lemma dhcp_header_members:
  assumes "length client_mac = 6" and "length old = 202"
  shows "member DhcpHeader ''transaction_id'' 4 (dhcp_header xid seconds client client_mac old) = be32_bytes xid"
    and "member DhcpHeader ''client_ip'' 4 (dhcp_header xid seconds client client_mac old) = be32_bytes client"
    and "member DhcpHeader ''client_mac'' 6 (dhcp_header xid seconds client client_mac old) = client_mac"
    and "member DhcpHeader ''padding'' 202 (dhcp_header xid seconds client client_mac old) = old"
    and "member DhcpHeader ''magic_cookie'' 4 (dhcp_header xid seconds client client_mac old) = be32_bytes MAGIC_COOKIE"
  using assms by (simp_all add: member_def chunk_def offset_of_def DhcpHeader_def dhcp_header_def)

end
