(* ===== verification/Exchange.thy ===== *)
theory Exchange
  imports Cache_Properties Delivery Dhcp_Machine
begin

text \<open>
  Two hosts that both run the stack, on the way of an ARP request and its reply between them: what one
  transmits is what the other receives.
\<close>

section \<open>An ARP frame\<close>

lemma arp_frame_dispatched:
  fixes w :: "('e, 'h, 'z) udp_state_scheme"
  assumes "packet_ok (packets w p)" and "index (packets w p) = 0" and "length tm = 6" and "length sm = 6" and "length m = 28"
    and "frame_of (packets w p) = ether_frame tm sm ETHER_TYPE_ARP m @ padding"
  defines "w1 \<equiv> set_packet p mac_payload w"
  shows "handle_mac X p w = handle_arp X p w1" and "packet_ok (packets w1 p)" and "28 \<le> plength (packets w1 p)"
    and "take 28 (frame_of (packets w1 p)) = m"
proof -
  let ?k = "packets w p"
  have len: "plength ?k = 42 + int (length padding)" and k: "0 \<le> plength ?k" "plength ?k \<le> 1024" "length (data ?k) = 1024"
    using arg_cong [OF assms(6), of length] assms(1-5)
    by (auto simp: frame_of_def packet_ok_def ether_frame_def length_mac_header split: if_splits)
  have d: "take (nat (plength ?k)) (data ?k) = tm @ sm @ be16_bytes ETHER_TYPE_ARP @ m @ padding"
    using assms(2,6) by (simp add: frame_of_def chunk_def ether_frame_def mac_header_def)
  then have a: "ahead (data ?k) 0 ((tm @ sm) @ be16_bytes ETHER_TYPE_ARP @ m @ padding @ drop (nat (plength ?k)) (data ?k))"
    using append_take_drop_id [of "nat (plength ?k)" "data ?k"] by (simp add: ahead_def)
  have e: "read_be16 (data ?k) 12 = Inr ETHER_TYPE_ARP"
    using be16.rd_ahead [OF ahead_skip [OF a]] assms(3,4) by simp
  show "packet_ok (packets w1 p)" "28 \<le> plength (packets w1 p)"
    using k len assms(1,2) by (auto simp: w1_def mac_payload_def packet_ok_def)
  show "handle_mac X p w = handle_arp X p w1"
    using len k e assms(2)
    by (simp add: handle_mac_def Let_def w1_def mac_payload_def [abs_def] size_t_le uint_size_t)
  have "drop 14 (take (nat (plength ?k)) (data ?k)) = m @ padding" using assms(3,4) by (simp add: d)
  then show "take 28 (frame_of (packets w1 p)) = m"
    using len assms(2,5)
    by (simp add: w1_def mac_payload_def frame_of_def chunk_def drop_take nat_diff_distrib nat_add_distrib)
qed

section \<open>Request and reply\<close>

text \<open>The frame a host transmits for a request it received.\<close>

lemma request_received:
  fixes b :: "('e, 'h, 'z) udp_state_scheme"
  assumes "intrusive_list X ok" and "arp_inv X ok (add_mset p H) b" and "packet_ok (packets b p)" and "index (packets b p) = 0"
    and "frame_of (packets b p) = ether_frame BROADCAST_MAC mac_a ETHER_TYPE_ARP
      (arp_message mac_a [0, 0, 0, 0, 0, 0] ARP_OPERATION_REQUEST ip_a (our_ip b)) @ padding"
    and "length mac_a = 6" and "ip_a \<noteq> 0" and "ip_a \<noteq> our_ip b" and "tx_owner (tx_descriptors b ! tx_index b) \<noteq> OWNER_GMAC"
  shows "safe (handle_mac X p b) (\<lambda>b'. tx_frame b' (tx_index b) = ether_frame mac_a (our_mac b) ETHER_TYPE_ARP
    (arp_message (our_mac b) mac_a ARP_OPERATION_REPLY (our_ip b) (byte_swap ip_a)))"
proof -
  let ?m = "arp_message mac_a [0, 0, 0, 0, 0, 0] ARP_OPERATION_REQUEST ip_a (our_ip b)"
  let ?b1 = "set_packet p mac_payload b"
  have mac: "length (BROADCAST_MAC) = 6" and z: "length [0, 0, 0, 0, 0, 0 :: u8] = 6" by simp_all
  have l: "length ?m = 28" using assms(6) by (simp add: length_arp_message)
  note d = arp_frame_dispatched [OF assms(3,4) mac assms(6) l assms(5)]
  have i: "arp_inv X ok (add_mset p H) ?b1"
    by (rule intrusive_list.arp_inv_set_packet(1) [OF assms(1,2)]) (simp add: mac_payload_def)
  have c: "our_ip ?b1 = our_ip b" "our_mac ?b1 = our_mac b" by simp_all
  have t: "take 28 (frame_of (packets ?b1 p)) = arp_message mac_a [0, 0, 0, 0, 0, 0] ARP_OPERATION_REQUEST ip_a (our_ip ?b1)"
    using d(4) c by simp
  have n: "ip_a \<noteq> our_ip ?b1" using assms(8) c by simp
  show ?thesis
    unfolding d(1)
    by (rule safe_mono [OF arp_request [OF assms(1) i d(2,3) assms(6) z n assms(7) t]])
      (use assms(9) in \<open>simp add: transmits_def Let_def set_packet_def split: if_splits\<close>)
qed

text \<open>What the reply does where it arrives.\<close>

lemma reply_received:
  fixes a :: "('e, 'h, 'z) udp_state_scheme"
  assumes "intrusive_list Y ok" and "arp_inv Y ok (add_mset q K) a" and "packet_ok (packets a q)" and "index (packets a q) = 0"
    and "frame_of (packets a q) = ether_frame mac_a mac_b ETHER_TYPE_ARP
      (arp_message mac_b mac_a ARP_OPERATION_REPLY ip_b ip) @ rest"
    and "length mac_a = 6" and "length mac_b = 6" and "ip_b \<noteq> our_ip a"
    and "find_arp_entry Y ip_b a = Some e" and "\<not> contain_valid_mapping (arp_entries a e)"
  shows "if ip = our_ip a
     then safe (handle_mac Y q a) (\<lambda>a'. contain_valid_mapping (arp_entries a' e) \<and>
       entry_mac (arp_entries a' e) = mac_b \<and> queue_of Y a' e = [])
     else handle_mac Y q a = Inr (free_network_packet Y q (set_packet q mac_payload a))"
proof -
  have l: "length (arp_message mac_b mac_a ARP_OPERATION_REPLY ip_b ip) = 28" using assms(6,7) by (simp add: length_arp_message)
  note g = arp_frame_dispatched [OF assms(3,4,6,7) l assms(5)]
  let ?a1 = "set_packet q mac_payload a"
  have j: "arp_inv Y ok (add_mset q K) ?a1"
    by (rule intrusive_list.arp_inv_set_packet(1) [OF assms(1,2)]) (simp add: mac_payload_def)
  have s: "our_ip ?a1 = our_ip a" "find_arp_entry Y ip_b ?a1 = Some e" "arp_entries ?a1 = arp_entries a"
    using assms(9) by simp_all
  show ?thesis
  proof (cases "ip = our_ip a")
    case True
    have ne: "ip_b \<noteq> our_ip ?a1"
      and u: "take 28 (frame_of (packets ?a1 q)) = arp_message mac_b mac_a ARP_OPERATION_REPLY ip_b (our_ip ?a1)"
      using g(4) True assms(8) s(1) by auto
    show ?thesis
      using safe_mono [OF arp_reply [OF assms(1) j g(2,3) assms(7,6) ne u]] True assms(10) s by (simp add: g(1))
  next
    case False
    then show ?thesis
      using handle_arp_message(1) [OF g(2,3) assms(7,6) g(4), of Y] s(1) by (simp add: g(1))
  qed
qed

text \<open>
  Property C33: the address resolution between two hosts that both run the stack.  The host \<open>b\<close> has
  received the broadcast request of the host \<open>a\<close> for its address: it transmits a reply that gives its
  hardware address and is addressed to the address of \<open>a\<close> with the bytes reversed.  This frame reaches
  \<open>a\<close>, padded or not, where the entry \<open>e\<close> waits for the answer.  If the address of \<open>a\<close> reads the same in
  both byte orders the entry is completed with the hardware address of \<open>b\<close>, and every packet that
  waited on it leaves.  For every other address \<open>a\<close> only releases the packet, so that the entry stays
  pending until \<open>arp_task\<close> gives it up: the reply is not addressed to \<open>a\<close>.
\<close>

theorem arp_exchange:
  fixes b :: "('e, 'h, 'z) udp_state_scheme"
  assumes "intrusive_list X ok" and "arp_inv X ok (add_mset p H) b" and "packet_ok (packets b p)" and "index (packets b p) = 0"
    and "frame_of (packets b p) = ether_frame BROADCAST_MAC mac_a ETHER_TYPE_ARP
      (arp_message mac_a [0, 0, 0, 0, 0, 0] ARP_OPERATION_REQUEST ip_a (our_ip b)) @ padding"
    and "length mac_a = 6" and "ip_a \<noteq> 0" and "ip_a \<noteq> our_ip b" and "tx_owner (tx_descriptors b ! tx_index b) \<noteq> OWNER_GMAC"
    and "intrusive_list Y ok'"
  shows "safe (handle_mac X p b) (\<lambda>b'. tx_frame b' (tx_index b) = ether_frame mac_a (our_mac b) ETHER_TYPE_ARP
      (arp_message (our_mac b) mac_a ARP_OPERATION_REPLY (our_ip b) (byte_swap ip_a)) \<and>
    (\<forall>K q (a :: ('f, 'g, 'y) udp_state_scheme) rest e.
    arp_inv Y ok' (add_mset q K) a \<and> packet_ok (packets a q) \<and> index (packets a q) = 0 \<and> our_ip a = ip_a \<and>
    frame_of (packets a q) = tx_frame b' (tx_index b) @ rest \<and>
    find_arp_entry Y (our_ip b) a = Some e \<and> \<not> contain_valid_mapping (arp_entries a e) \<longrightarrow>
    (if byte_swap ip_a = ip_a
     then safe (handle_mac Y q a) (\<lambda>a'. contain_valid_mapping (arp_entries a' e) \<and>
       entry_mac (arp_entries a' e) = our_mac b \<and> queue_of Y a' e = [])
     else handle_mac Y q a = Inr (free_network_packet Y q (set_packet q mac_payload a)))))"
proof -
  have our: "length (our_mac b) = 6" using assms(2) by (auto simp: arp_inv_def intro: our_mac_length)
  show ?thesis
  proof (rule safe_mono [OF request_received [OF assms(1-9)]], intro conjI allI impI, assumption, elim conjE)
    fix b' K q rest e and a :: "('f, 'g, 'y) udp_state_scheme"
    assume sent: "tx_frame b' (tx_index b) = ether_frame mac_a (our_mac b) ETHER_TYPE_ARP
        (arp_message (our_mac b) mac_a ARP_OPERATION_REPLY (our_ip b) (byte_swap ip_a))"
      and a: "arp_inv Y ok' (add_mset q K) a" "packet_ok (packets a q)" "index (packets a q) = 0" "our_ip a = ip_a"
      and f: "frame_of (packets a q) = tx_frame b' (tx_index b) @ rest"
      and e: "find_arp_entry Y (our_ip b) a = Some e" "\<not> contain_valid_mapping (arp_entries a e)"
    have "our_ip b \<noteq> our_ip a" using a(4) assms(8) by simp
    from reply_received [OF assms(10) a(1-3) f [unfolded sent] assms(6) our this e]
    show "if byte_swap ip_a = ip_a
     then safe (handle_mac Y q a) (\<lambda>a'. contain_valid_mapping (arp_entries a' e) \<and>
       entry_mac (arp_entries a' e) = our_mac b \<and> queue_of Y a' e = [])
     else handle_mac Y q a = Inr (free_network_packet Y q (set_packet q mac_payload a))"
      unfolding a(4) .
  qed
qed

text \<open>The host \<open>10.0.0.3\<close> answers the host \<open>10.0.0.1\<close>, which drops the answer.\<close>

lemma udp_inv_arp: "udp_inv X ok H w \<Longrightarrow> arp_inv X ok H w"
  by (simp add: udp_inv_def)

lemma arriving_arp:
  assumes "length f \<le> 900"
  obtains padding where "udp_inv ref_libs ref_ok (add_mset 42 {#}) (arriving f)" and "packet_ok (packets (arriving f) 42)"
    and "index (packets (arriving f) 42) = 0" and "frame_of (packets (arriving f) 42) = f @ padding"
  using arriving_ok(1) [OF assms] by (auto simp: holds_frame_def)

lemma arriving_fields:
  "our_ip (arriving f) = 0x0A000001" "our_mac (arriving f) = [2, 0, 0, 0, 0, 1]" "tx_index (arriving f) = 0"
  "tx_owner (tx_descriptors (arriving f) ! 0) = OWNER_CPU" "find_arp_entry ref_libs 0x0A000003 (arriving f) = Some 1"
  "\<not> contain_valid_mapping (arp_entries (arriving f) 1)"
  using sample_find(2) [of 1]
  by (simp_all add: arriving_def) (simp_all add: sample_state_def sample_entry_def del: upt_rec_numeral)

definition question :: "u8 list" where
  "question = ether_frame BROADCAST_MAC [2, 0, 0, 0, 0, 1] ETHER_TYPE_ARP
     (arp_message [2, 0, 0, 0, 0, 1] [0, 0, 0, 0, 0, 0] ARP_OPERATION_REQUEST 0x0A000001 0x0A000003)"

definition asked :: "(ref_env, list_head \<Rightarrow> nat list) dhcp_state" where
  "asked = (arriving question)\<lparr>our_ip := 0x0A000003\<rparr>"

theorem arp_exchange_witness:
  "safe (handle_mac ref_libs 42 asked) (\<lambda>b'. let a = arriving (tx_frame b' 0) in
     handle_mac ref_libs 42 a = Inr (free_network_packet ref_libs 42 (set_packet 42 mac_payload a)))"
proof -
  have l: "length question \<le> 900" by (simp add: question_def ether_frame_def length_mac_header length_arp_message)
  obtain padding where u: "udp_inv ref_libs ref_ok (add_mset 42 {#}) asked" and b: "packet_ok (packets asked 42)"
      "index (packets asked 42) = 0" and fr: "frame_of (packets asked 42) = question @ padding"
    by (rule arriving_arp [OF l]) (auto simp: asked_def)
  have s: "our_ip asked = 0x0A000003" "our_mac asked = [2, 0, 0, 0, 0, 1]" "tx_index asked = 0"
    "tx_owner (tx_descriptors asked ! tx_index asked) \<noteq> OWNER_GMAC"
    by (simp_all add: asked_def arriving_fields)
  have m: "length [2, 0, 0, 0, 0, 1 :: u8] = 6" "(0x0A000001 :: u32) \<noteq> 0" "0x0A000001 \<noteq> our_ip asked" by (simp_all add: s)
  have swap: "byte_swap 0x0A000001 \<noteq> 0x0A000001" by (simp add: byte_swap_def)
  note h = udp_inv_arp [OF u] b fr [unfolded question_def, folded s(1)] m s(4)
  show ?thesis
  proof (rule safe_mono [OF arp_exchange [OF ref_contract h ref_contract]], elim conjE)
    fix b'
    assume f: "tx_frame b' (tx_index asked) = ether_frame [2, 0, 0, 0, 0, 1] (our_mac asked) ETHER_TYPE_ARP
        (arp_message (our_mac asked) [2, 0, 0, 0, 0, 1] ARP_OPERATION_REPLY (our_ip asked) (byte_swap 0x0A000001))"
      and all: "\<forall>K q (a :: (ref_env, list_head \<Rightarrow> nat list) dhcp_state) rest e.
        arp_inv ref_libs ref_ok (add_mset q K) a \<and> packet_ok (packets a q) \<and> index (packets a q) = 0 \<and> our_ip a = 0x0A000001 \<and>
        frame_of (packets a q) = tx_frame b' (tx_index asked) @ rest \<and>
        find_arp_entry ref_libs (our_ip asked) a = Some e \<and> \<not> contain_valid_mapping (arp_entries a e) \<longrightarrow>
        (if byte_swap 0x0A000001 = (0x0A000001 :: u32)
         then safe (handle_mac ref_libs q a) (\<lambda>a'. contain_valid_mapping (arp_entries a' e) \<and>
           entry_mac (arp_entries a' e) = our_mac asked \<and> queue_of ref_libs a' e = [])
         else handle_mac ref_libs q a = Inr (free_network_packet ref_libs q (set_packet q mac_payload a)))"
    have "length (tx_frame b' (tx_index asked)) \<le> 900"
      using f by (simp add: s(2) ether_frame_def length_mac_header length_arp_message)
    then obtain rest where a: "udp_inv ref_libs ref_ok (add_mset 42 {#}) (arriving (tx_frame b' (tx_index asked)))"
      "packet_ok (packets (arriving (tx_frame b' (tx_index asked))) 42)"
      "index (packets (arriving (tx_frame b' (tx_index asked))) 42) = 0"
      "frame_of (packets (arriving (tx_frame b' (tx_index asked))) 42) = tx_frame b' (tx_index asked) @ rest"
      by (rule arriving_arp)
    show "let a = arriving (tx_frame b' 0) in
        handle_mac ref_libs 42 a = Inr (free_network_packet ref_libs 42 (set_packet 42 mac_payload a))"
      using all [rule_format, OF conjI [OF udp_inv_arp [OF a(1)] conjI [OF a(2) conjI [OF a(3) conjI [OF arriving_fields(1) conjI [OF a(4)
        conjI [OF arriving_fields(5) [folded s(1)] arriving_fields(6)]]]]]]] swap
      by (simp add: s(3) Let_def)
  qed
qed

end
