(* ===== verification/Lease.thy ===== *)
theory Lease
  imports Delivery Dhcp_Properties Liveness_Properties
begin

text \<open>
  The way of a lease from the wire to the configuration of the stack: the frames of a DHCP server that
  wait in the receive ring, a round of \<open>network_task\<close> for each, and our address at the end.
\<close>

section \<open>A frame in the receive ring\<close>

text \<open>
  The controller has filled the buffer at \<open>rx_index\<close> with the frame \<open>f\<close>, padded or not, and not yet
  the one after it.
\<close>

definition frame_waiting :: "('e, 'h, 'z) gmac_state_scheme \<Rightarrow> u8 list \<Rightarrow> bool" where
  "frame_waiting w f \<longleftrightarrow> (let d = rx_descriptors w ! rx_index w in
     rx_owner d = OWNER_CPU \<and> start_of_frame d \<and> end_of_frame d \<and> uint (rx_length d) < NETWORK_PACKET_SIZE \<and>
     (\<exists>padding. take (unat (rx_length d)) (data (packets w (rx_packets w ! rx_index w))) = f @ padding) \<and>
     rx_owner (rx_descriptors w ! (Suc (rx_index w) mod RECEIVE_DESCRIPTOR_COUNT)) = OWNER_GMAC)"

lemma inbox_untouched:
  assumes "untouched X {} w w'" and "c < UDP_CONNECTION_COUNT"
  shows "inbox X w' c = inbox X w c"
  by (rule inbox_others [OF untouched_mono [OF assms(1), of "{Connection_queue 16}"] assms(2)]) (use assms(2) in simp_all)

lemma rx_ring_simps [simp]:
  "rx_descriptors (set_packet p f w) = rx_descriptors w" "rx_index (set_packet p f w) = rx_index w"
  "rx_descriptors (free_network_packet X p w) = rx_descriptors w" "rx_index (free_network_packet X p w) = rx_index w"
  "rx_descriptors (set_connection c g v) = rx_descriptors v" "rx_index (set_connection c g v) = rx_index v"
  by (simp_all add: set_packet_def free_network_packet_def set_connection_def)

lemma deliver_ring: "deliver X c p w = Inr w' \<Longrightarrow> rx_descriptors w' = rx_descriptors w \<and> rx_index w' = rx_index w"
  by (auto simp: deliver_def Let_def split: option.splits prod.splits if_splits)

lemma handle_udp_ring:
  "handle_udp X p w = Inr w' \<Longrightarrow> rx_descriptors w' = rx_descriptors w \<and> rx_index w' = rx_index w"
  by (auto simp: handle_udp_def Let_def bindR_eq_Inr_iff set_packet_set_packet dest!: deliver_ring split: option.splits if_splits)

context intrusive_list
begin

lemma waiting_frame_received:
  assumes "udp_inv X ok H w" and "frame_waiting w f" and "gmac_receive X w = Inr (r, w1)"
  obtains p padding where "r = Some p" and "udp_inv X ok (add_mset p H) w1" and "udp_frame w w1" and "packet_ok (packets w1 p)"
    and "index (packets w1 p) = 0" and "plength (packets w1 p) < NETWORK_PACKET_SIZE" and "frame_of (packets w1 p) = f @ padding"
    and "rx_index w1 < RECEIVE_DESCRIPTOR_COUNT" and "rx_owner (rx_descriptors w1 ! rx_index w1) = OWNER_GMAC"
    and "\<And>c. c < UDP_CONNECTION_COUNT \<Longrightarrow> inbox X w1 c = inbox X w c"
proof -
  let ?i = "rx_index w"
  let ?d = "rx_descriptors w ! ?i"
  have g: "gmac_inv X ok H w" using assms(1) by (simp add: udp_inv_def arp_inv_def)
  then have i: "?i < RECEIVE_DESCRIPTOR_COUNT" "length (rx_descriptors w) = 32" by (simp_all add: gmac_inv_def rings_ok_def)
  obtain padding where d: "rx_owner ?d = OWNER_CPU" "start_of_frame ?d" "end_of_frame ?d" "uint (rx_length ?d) < 1024"
    "take (unat (rx_length ?d)) (data (packets w (rx_packets w ! ?i))) = f @ padding"
    "rx_owner (rx_descriptors w ! (Suc ?i mod 32)) = OWNER_GMAC"
    using assms(2) by (auto simp: frame_waiting_def Let_def)
  obtain p where r: "r = Some p" using assms(3) i(1) d(1-3) by (auto simp: gmac_receive_def Let_def bindR_eq_Inr_iff)
  note s = gmac_receive_Some [OF g assms(3) [unfolded r]]
  have ring: "rx_descriptors w1 ! (Suc ?i mod 32) = rx_descriptors w ! (Suc ?i mod 32)"
  proof -
    have "Suc ?i mod 32 \<noteq> ?i" using i(1) by (cases "Suc ?i = 32") auto
    moreover obtain q where "rx_descriptors w1 = (rx_descriptors w)[?i := q]"
      using assms(3) i(1) d(1-3)
      by (auto simp: gmac_receive_def Let_def bindR_eq_Inr_iff set_packet_def allocate_network_packet_def split: prod.splits option.splits)
    ultimately show ?thesis by simp
  qed
  from safeD [OF receive_udp_safe [OF assms(1)] assms(3)] r
  have post: "udp_frame w w1" "udp_inv X ok (add_mset p H) w1" "packet_ok (packets w1 p)" "index (packets w1 p) = 0" by simp_all
  have u: "untouched X {} w w1" using safeD [OF gmac_receive_safe [OF g] assms(3)] by simp
  have "frame_of (packets w1 p) = f @ padding"
    using s(2,4-6) d(5) by (simp add: frame_of_def chunk_def nat_uint_eq)
  then show thesis
    using that [OF r post(2,1,3,4)] s(3,5) d(4,6) ring inbox_untouched [OF u] by (simp add: s(2))
qed

text \<open>The receive loop with one frame that carries UDP.\<close>

lemma receive_one_datagram:
  assumes "udp_inv X ok H w" and "frame_waiting w f" and "carries_udp tm sm source dest sender target payload f"
    and "payload \<noteq> []" and "our_ip w \<in> {0, target} \<or> target = 0xFFFFFFFF"
  shows "acceptable_frames X (Suc n) w" and "safe (receive_packets X (Suc (Suc n)) w) (\<lambda>w'. udp_inv X ok H w' \<and> udp_frame w w' \<and>
    listening X w' = listening X w \<and> (\<forall>c<UDP_CONNECTION_COUNT. inbox X w' c =
      (if find_connection X dest w = Some c
       then fifo_put (max_packet_count (connections w c)) (inbox X w c) (source, payload)
       else inbox X w c)))"
proof -
  have "acceptable_frames X (Suc n) w \<and> safe (receive_packets X (Suc (Suc n)) w) (\<lambda>w'. udp_inv X ok H w' \<and> udp_frame w w' \<and>
    listening X w' = listening X w \<and> (\<forall>c<UDP_CONNECTION_COUNT. inbox X w' c =
      (if find_connection X dest w = Some c
       then fifo_put (max_packet_count (connections w c)) (inbox X w c) (source, payload)
       else inbox X w c)))" (is "_ \<and> safe _ ?Q")
  proof (cases "gmac_receive X w")
    case (Inl e)
    then show ?thesis using receive_udp_safe [OF assms(1)] by simp
  next
    case (Inr a)
    obtain r w1 where a: "a = (r, w1)" by (cases a)
    obtain p padding where r: "r = Some p" and i: "udp_inv X ok (add_mset p H) w1" and fr: "udp_frame w w1"
      and k: "packet_ok (packets w1 p)" "index (packets w1 p) = 0" "plength (packets w1 p) < NETWORK_PACKET_SIZE"
        "frame_of (packets w1 p) = f @ padding"
      and ring: "rx_index w1 < RECEIVE_DESCRIPTOR_COUNT" "rx_owner (rx_descriptors w1 ! rx_index w1) = OWNER_GMAC"
      and boxes: "\<And>c. c < UDP_CONNECTION_COUNT \<Longrightarrow> inbox X w1 c = inbox X w c"
      by (rule waiting_frame_received [OF assms(1,2) Inr [unfolded a]], rule that)
    have our: "our_ip w1 \<in> {0, target} \<or> target = 0xFFFFFFFF" using fr assms(5) by (simp add: udp_frame_def same_config_def)
    obtain g uc where e: "handle_mac X p w1 = handle_udp X p (set_packet p g w1)"
      and h: "read_be16 (data (packets w1 p)) 12 = Inr ETHER_TYPE_IPV4" "get_byte (data (packets w1 p)) 23 = Inr 17"
      by (rule udp_frame_dispatched [OF k assms(3,4) our])
    have ac: "acceptable X p w1" using k(3) h by (simp add: acceptable_def answerable_def)
    have l1: "listening X w1 = listening X w" by (rule gmac_receive_listening [OF Inr [unfolded a]])
    note l1' = same_listening [OF l1]
    have idle: "acceptable_frames X m w2 \<and> receive_packets X (Suc m) w2 = Inr w2" if "handle_mac X p w1 = Inr w2" for m w2
    proof -
      have "rx_index w2 < RECEIVE_DESCRIPTOR_COUNT" "rx_owner (rx_descriptors w2 ! rx_index w2) = OWNER_GMAC"
        using handle_udp_ring [OF that [unfolded e]] ring by simp_all
      then show ?thesis using idle_ring [of w2 X m] by (simp add: gmac_receive_def)
    qed
    have rc: "returns (handle_mac X p w1) (\<lambda>w'. udp_inv X ok H w' \<and>
        (\<forall>c<UDP_CONNECTION_COUNT. inbox X w' c =
          (if find_connection X dest w1 = Some c
           then fifo_put (max_packet_count (connections w1 c)) (inbox X w1 c) (source, payload)
           else inbox X w1 c)))"
      by (rule udp_frame_received [OF intrusive_list_axioms i k assms(3,4) our])
    have cap: "max_packet_count (connections w1 c) = max_packet_count (connections w c)" if "find_connection X dest w = Some c" for c
      using find_connection_Some [OF that] by (intro l1'(3)) simp
    from rc obtain w2 where m: "handle_mac X p w1 = Inr w2" and i2: "udp_inv X ok H w2"
      and b: "\<forall>c<UDP_CONNECTION_COUNT. inbox X w2 c =
          (if find_connection X dest w1 = Some c
           then fifo_put (max_packet_count (connections w1 c)) (inbox X w1 c) (source, payload)
           else inbox X w1 c)"
      unfolding returns_iff by blast
    have box2: "inbox X w2 c = (if find_connection X dest w = Some c
           then fifo_put (max_packet_count (connections w c)) (inbox X w c) (source, payload)
           else inbox X w c)" if "c < UDP_CONNECTION_COUNT" for c
      using b [rule_format, OF that] boxes [OF that] l1'(2) cap by simp
    have "udp_frame w1 w2" using safeD [OF handle_mac_safe [OF i k(1,2)] m] ac by (simp add: acceptable_def)
    then have "udp_frame w w2" using fr by (rule udp_frame_trans [rotated])
    moreover have "listening X w2 = listening X w" using handle_mac_listening [OF i k(1,2) ac m] l1 by simp
    ultimately have "?Q w2" using i2 box2 by simp
    then show ?thesis using Inr a r m ac idle [OF m] by simp
  qed
  then show "acceptable_frames X (Suc n) w" "safe (receive_packets X (Suc (Suc n)) w) ?Q" by simp_all
qed

text \<open>A round of the stack with a datagram for the DHCP client, whose queue holds one.\<close>

lemma dhcp_round:
  assumes "dhcp_inv X ok H w" and "frame_waiting w f" and "carries_udp tm sm source DHCP_CLIENT_PORT sender target m f"
    and "m \<noteq> []" and "our_ip w \<in> {0, target} \<or> target = 0xFFFFFFFF"
    and "find_connection X DHCP_CLIENT_PORT w = Some c" and "max_packet_count (connections w c) = 1"
    and step: "\<And>w'. dhcp_inv X ok H w' \<Longrightarrow> dhcp w' = dhcp w \<Longrightarrow> same_config w w' \<Longrightarrow>
      find_connection X DHCP_CLIENT_PORT w' = Some c \<Longrightarrow> inbox X w' c = [(source, m)] \<Longrightarrow> safe (dhcp_task X w') Q"
  shows "acceptable_frames X RECEIVE_DESCRIPTOR_COUNT w" and "safe (network_task X w) Q"
proof -
  have u: "udp_inv X ok H w" using assms(1) by (simp add: dhcp_inv_def)
  note one = receive_one_datagram [OF u assms(2-5)]
  show "acceptable_frames X RECEIVE_DESCRIPTOR_COUNT w" using one(1) [of 31] by simp
  have c: "c < UDP_CONNECTION_COUNT" "c \<in> set (used_connections X w)"
    using find_connection_Some [OF assms(6)] u connections_inv_member(1) by (auto simp: udp_inv_def)
  have "length (datagrams X w c) \<le> 1"
    using u c(2) assms(7) by (auto simp: udp_inv_def connections_inv_def connection_ok_def)
  then have put: "fifo_put 1 (inbox X w c) x = [x]" for x
    by (cases "inbox X w c") (auto simp: fifo_put_def inbox_def)
  have "safe (bindR (arp_task X w1) (dhcp_task X)) Q"
    if i: "udp_inv X ok H w1" "udp_frame w w1" "listening X w1 = listening X w" and b: "inbox X w1 c = [(source, m)]" for w1
  proof -
    have a: "arp_inv X ok H w1" using i(1) by (simp add: udp_inv_def)
    have f: "find_connection X DHCP_CLIENT_PORT w1 = Some c" using same_listening(2) [OF i(3)] assms(6) by simp
    have "safe (dhcp_task X w2) Q" if t: "arp_task X w1 = Inr w2" for w2
    proof -
      have i2: "udp_inv X ok H w2" "udp_frame w w2"
        using safeD [OF arp_task_udp_safe [OF i(1)] t] i(2) by (auto intro: udp_frame_trans)
      note d = dhcp_inv_frame [OF assms(1) i2]
      have "arp_frame X w1 w2" using safeD [OF arp_task_safe [OF a] t] by simp
      from arp_frame_inbox [OF this i(1) f] b show ?thesis by (intro step d) simp_all
    qed
    then show ?thesis
      unfolding safe_bindR by (intro safe_mono [OF arp_task_udp_safe [OF i(1)]])
  qed
  note rest = this
  have "(RECEIVE_DESCRIPTOR_COUNT :: nat) = Suc (Suc 30)" by simp
  then show "safe (network_task X w) Q"
    unfolding network_task_def safe_bindR [of "receive_packets _ _ _"]
    by (simp only:) (rule safe_mono [OF one(2)], rule rest, use c(1) assms(6,7) put in auto)
qed

end

section \<open>The lease\<close>

text \<open>What may happen to the stack between two rounds: whatever leaves the client and its port alone,
  the timer of its retransmissions excepted.\<close>

definition later :: "('e, 'h) libs \<Rightarrow> (list_head set \<Rightarrow> 'h \<Rightarrow> bool) \<Rightarrow> ('e, 'h, 'z) dhcp_state_scheme \<Rightarrow>
    ('e, 'h, 'z) dhcp_state_scheme \<Rightarrow> bool" where
  "later X ok w w' \<longleftrightarrow> dhcp_inv X ok {#} w' \<and> (\<exists>b. dhcp w' = (dhcp w)\<lparr>dhcp_backoff := b\<rparr>) \<and> our_mac w' = our_mac w \<and> listening X w' = listening X w"

text \<open>A server's frame for the client with hardware address \<open>mac\<close> and transaction \<open>xid\<close>.\<close>

definition server_frame :: "u32 \<Rightarrow> mac \<Rightarrow> u32 \<Rightarrow> (dhcp_option \<times> nat) list \<Rightarrow> u8 list \<Rightarrow> bool" where
  "server_frame xid mac your_ip xs f \<longleftrightarrow> (\<exists>tm sm sender m.
     carries_udp tm sm DHCP_SERVER_PORT DHCP_CLIENT_PORT sender 0xFFFFFFFF m f \<and> dhcp_reply xid your_ip mac xs m)"

text \<open>A frame of less than a buffer arrives: what the controller does leaves the client alone.\<close>

definition arriving_descriptor :: "u8 list \<Rightarrow> rx_descriptor" where
  "arriving_descriptor f = blank_rx\<lparr>rx_length := word_of_nat (length f), start_of_frame := True, end_of_frame := True\<rparr>"

lemma arriving_descriptor_length: "length f < 1024 \<Longrightarrow> unat (rx_length (arriving_descriptor f)) = length f"
  by (simp add: arriving_descriptor_def unat_of_nat take_bit_nat_eq_self)

definition arrives :: "u8 list \<Rightarrow> ('e, 'h, 'z) dhcp_state_scheme \<Rightarrow> ('e, 'h, 'z) dhcp_state_scheme" where
  "arrives f w = hardware_receives (rx_index w) (f @ replicate (1024 - length f) 0) (arriving_descriptor f) w"

lemma frame_arrives:
  assumes "dhcp_inv X ok {#} w" and "length f < 1024"
    and "rx_owner (rx_descriptors w ! (Suc (rx_index w) mod RECEIVE_DESCRIPTOR_COUNT)) = OWNER_GMAC"
  shows "later X ok w (arrives f w)" and "frame_waiting (arrives f w) f"
proof -
  have g: "gmac_inv X ok {#} w" using assms(1) by (simp add: dhcp_inv_def udp_inv_def arp_inv_def)
  then have i: "rx_index w < RECEIVE_DESCRIPTOR_COUNT" "length (rx_descriptors w) = 32" by (simp_all add: gmac_inv_def rings_ok_def)
  have n: "uint (rx_length (arriving_descriptor f)) = int (length f)" using arriving_descriptor_length [OF assms(2)] by (simp add: uint_nat)
  have "gmac_inv X ok {#} (arrives f w)"
    unfolding arrives_def by (rule hardware_receives_inv [OF g i(1)]) (use assms(2) n in simp_all)
  then have "dhcp_inv X ok {#} (arrives f w)"
    by (rule dhcp_inv_hardware [OF assms(1)])
      (simp_all add: arrives_def hardware_receives_untouched [OF g i(1)], simp add: hardware_receives_def)
  then show "later X ok w (arrives f w)"
    by (auto simp: later_def arrives_def hardware_receives_def set_packet_def listening_def used_connections_def
        intro: exI [of _ "dhcp_backoff (dhcp w)"])
  have "Suc (rx_index w) mod 32 \<noteq> rx_index w" using i(1) by (cases "Suc (rx_index w) = 32") auto
  then show "frame_waiting (arrives f w) f"
    using i assms(2,3) n arriving_descriptor_length [OF assms(2)]
    by (simp add: frame_waiting_def arrives_def hardware_receives_def set_packet_def arriving_descriptor_def)
qed

text \<open>
  Property C13: a lease is acquired.  The client is discovering and a server's offer waits in the
  receive ring: the round returns and the client requests the offered address.  When, however much
  later, the server's acknowledgement waits in the ring, that round returns too, and the stack is
  configured with the offered address and netmask for the time of the acknowledgement.
\<close>

theorem dhcp_lease_acquired:
  assumes "intrusive_list X ok" and "link_ok X" and "dhcp_inv X ok {#} w" and "queue_capacity X w \<le> 38"
    and "dhcp_status (dhcp w) = DHCP_DISCOVER" and "find_connection X DHCP_CLIENT_PORT w = Some c"
    and "max_packet_count (connections w c) = 1" and "frame_waiting w f"
    and "server_frame (transaction_id (dhcp w)) (our_mac w) your_ip xs f" and "carries xs 2 server lease subnet"
  shows "returns (network_task X w) (\<lambda>w1. dhcp_status (dhcp w1) = DHCP_REQUESTING \<and> same_config w w1 \<and>
    (\<forall>w2 g ys lease'. later X ok w1 w2 \<and> frame_waiting w2 g \<and>
       server_frame (transaction_id (dhcp w)) (our_mac w) your_ip ys g \<and> carries ys 5 server lease' subnet \<longrightarrow>
       returns (network_task X w2) (\<lambda>w3. dhcp_status (dhcp w3) = DHCP_BOUND \<and> our_ip w3 = your_ip \<and> our_netmask w3 = subnet \<and>
         lease_time (dhcp w3) = lease' * 1000)))"
proof -
  note il = assms(1)
  have nonempty: "m \<noteq> []" if "dhcp_reply xid ip mac ys m" for xid ip mac ys m
    using that by (auto simp: dhcp_reply_def dhcp_reply_head_def)
  obtain tm sm sender m where m: "carries_udp tm sm DHCP_SERVER_PORT DHCP_CLIENT_PORT sender 0xFFFFFFFF m f"
    "dhcp_reply (transaction_id (dhcp w)) your_ip (our_mac w) xs m"
    using assms(9) by (auto simp: server_frame_def)
  have u: "udp_inv X ok {#} w" using assms(3) by (simp add: dhcp_inv_def)
  let ?Q = "\<lambda>w'. same_config w w' \<and> (\<exists>b. dhcp w' = (dhcp w)\<lparr>dhcp_status := DHCP_REQUESTING, leased_ip := your_ip,
      server_ip := server, netmask := subnet, dhcp_backoff := b\<rparr>)"
  have step: "safe (dhcp_task X w') ?Q"
    if w': "dhcp_inv X ok {#} w'" "dhcp w' = dhcp w" "same_config w w'" "find_connection X DHCP_CLIENT_PORT w' = Some c"
      "inbox X w' c = [(DHCP_SERVER_PORT, m)]" for w'
  proof -
    have r: "dhcp_reply (transaction_id (dhcp w')) your_ip (our_mac w') xs m" using m(2) w'(2,3) by (simp add: same_config_def)
    have d: "dhcp_status (dhcp w') = DHCP_DISCOVER" using w'(2) assms(5) by simp
    show ?thesis
      by (rule safe_mono [OF dhcp_offer [OF il w'(1) d w'(4,5) r assms(10)]]) (use w'(2,3) in \<open>auto intro: same_config_trans\<close>)
  qed
  note round = intrusive_list.dhcp_round [OF il assms(3,8) m(1) nonempty [OF m(2)] disjI2 [OF refl] assms(6,7), where Q = ?Q]
  have ac: "acceptable_frames X RECEIVE_DESCRIPTOR_COUNT w" by (rule round(1)) (rule step)
  have run: "safe (network_task X w) ?Q" by (rule round(2)) (rule step)
  have ack: "returns (network_task X w2) (\<lambda>w3. dhcp_status (dhcp w3) = DHCP_BOUND \<and> our_ip w3 = your_ip \<and>
      our_netmask w3 = subnet \<and> lease_time (dhcp w3) = lease' * 1000)"
    if q: "?Q w1" and l1: "listening X w1 = listening X w" and l: "later X ok w1 w2" and g: "frame_waiting w2 g"
      and sf: "server_frame (transaction_id (dhcp w)) (our_mac w) your_ip ys g" and ca: "carries ys 5 server lease' subnet"
    for w1 w2 g ys lease'
  proof -
    obtain tm sm sender k where k: "carries_udp tm sm DHCP_SERVER_PORT DHCP_CLIENT_PORT sender 0xFFFFFFFF k g"
      "dhcp_reply (transaction_id (dhcp w)) your_ip (our_mac w) ys k"
      using sf by (auto simp: server_frame_def)
    obtain b where d: "dhcp w1 = (dhcp w)\<lparr>dhcp_status := DHCP_REQUESTING, leased_ip := your_ip, server_ip := server,
        netmask := subnet, dhcp_backoff := b\<rparr>" and mac: "our_mac w1 = our_mac w"
      using q by (auto simp: same_config_def)
    have l2: "listening X w2 = listening X w" "dhcp_inv X ok {#} w2" "\<exists>b. dhcp w2 = (dhcp w1)\<lparr>dhcp_backoff := b\<rparr>"
      "our_mac w2 = our_mac w" using l l1 mac by (simp_all add: later_def)
    then obtain b' where d2: "dhcp w2 = (dhcp w1)\<lparr>dhcp_backoff := b'\<rparr>" by blast
    have f: "find_connection X DHCP_CLIENT_PORT w2 = Some c" using same_listening(2) [OF l2(1)] assms(6) by simp
    have "c \<in> set (used_connections X w)" using find_connection_Some [OF assms(6)] by simp
    then have x: "max_packet_count (connections w2 c) = 1" using same_listening(3) [OF l2(1)] assms(7) by simp
    let ?R = "\<lambda>w3. dhcp_status (dhcp w3) = DHCP_BOUND \<and> our_ip w3 = your_ip \<and>
      our_netmask w3 = subnet \<and> lease_time (dhcp w3) = lease' * 1000"
    have step2: "safe (dhcp_task X w') ?R"
      if w': "dhcp_inv X ok {#} w'" "dhcp w' = dhcp w2" "same_config w2 w'" "find_connection X DHCP_CLIENT_PORT w' = Some c"
        "inbox X w' c = [(DHCP_SERVER_PORT, k)]" for w'
    proof -
      have r: "dhcp_reply (transaction_id (dhcp w')) your_ip (our_mac w') ys k"
        using k(2) w'(2,3) l2(4) d2 d by (simp add: same_config_def)
      have s: "dhcp_status (dhcp w') = DHCP_REQUESTING" "leased_ip (dhcp w') = your_ip" "server_ip (dhcp w') = server"
        "netmask (dhcp w') = subnet" using w'(2) d2 d by simp_all
      show ?thesis
        by (rule safe_mono [OF dhcp_answer [OF il w'(1) s(1) w'(4,5) r ca]]) (use s in auto)
    qed
    note round = intrusive_list.dhcp_round [OF il l2(2) g k(1) nonempty [OF k(2)] disjI2 [OF refl] f x, where Q = ?R]
    have ac: "acceptable_frames X RECEIVE_DESCRIPTOR_COUNT w2" by (rule round(1)) (rule step2)
    have run: "safe (network_task X w2) ?R" by (rule round(2)) (rule step2)
    have "queue_capacity X w2 = queue_capacity X w" by (simp add: queue_capacity_def l2(1))
    then have "ends (network_task X w2)"
      by (intro intrusive_list.network_task_ends [OF il assms(2) l2(2) ac]) (simp add: assms(4))
    from safe_ends_returns [OF run this] show ?thesis .
  qed
  have e: "ends (network_task X w)"
    by (rule intrusive_list.network_task_ends [OF il assms(2,3) ac]) (simp add: assms(4))
  then obtain w1 where t: "network_task X w = Inr w1" using run by (cases "network_task X w") auto
  have q: "?Q w1" using safeD [OF run t] .
  have l1: "listening X w1 = listening X w" by (rule intrusive_list.network_task_listening [OF il u ac t])
  have "dhcp_status (dhcp w1) = DHCP_REQUESTING" "same_config w w1" using q by auto
  then show ?thesis using t ack [OF q l1] by auto
qed

text \<open>The server of the sample offers \<open>10.0.0.50\<close>.\<close>

definition reply_frame :: "u8 \<Rightarrow> u8 list" where
  "reply_frame t = udp_frame_bytes [0xFF, 0xFF, 0xFF, 0xFF, 0xFF, 0xFF] [2, 0, 0, 0, 0, 9] 67 68 0x0A0000FE 0xFFFFFFFF (reply_message t)"

lemma reply_frame_ok:
  "server_frame 0 [2, 0, 0, 0, 0, 1] 0x0A000032 (reply_options t) (reply_frame t)" "length (reply_frame t) = 305"
proof -
  have c: "carries_udp [0xFF, 0xFF, 0xFF, 0xFF, 0xFF, 0xFF] [2, 0, 0, 0, 0, 9] 67 68 0x0A0000FE 0xFFFFFFFF (reply_message t) (reply_frame t)"
    unfolding reply_frame_def by (rule udp_frame_carries) simp_all
  show "length (reply_frame t) = 305" using carries_udp_length [OF c] reply_message_ok(3) [of t] by simp
  show "server_frame 0 [2, 0, 0, 0, 0, 1] 0x0A000032 (reply_options t) (reply_frame t)"
    unfolding server_frame_def using c reply_message_ok(1) [of t] by auto
qed

theorem dhcp_lease_acquired_witness:
  "returns (network_task quiet_libs (arrives (reply_frame 2) one_frame)) (\<lambda>w1. dhcp_status (dhcp w1) = DHCP_REQUESTING \<and>
    (rx_owner (rx_descriptors w1 ! (Suc (rx_index w1) mod 32)) = OWNER_GMAC \<and> dhcp_inv quiet_libs ref_ok {#} w1 \<longrightarrow>
     returns (network_task quiet_libs (arrives (reply_frame 5) w1)) (\<lambda>w3. dhcp_status (dhcp w3) = DHCP_BOUND \<and>
       our_ip w3 = 0x0A000032 \<and> our_netmask w3 = 0xFFFFFF00 \<and> lease_time (dhcp w3) = 60000)))"
proof -
  let ?w = "arrives (reply_frame 2) one_frame"
  have o: "rx_index one_frame = 0" "rx_owner (rx_descriptors one_frame ! Suc 0) = OWNER_GMAC" "dhcp one_frame = dhcp (sample_state 0)"
    "our_mac one_frame = [2, 0, 0, 0, 0, 1]"
    by (simp_all add: one_frame_def sample_state_def)
  have a: "later quiet_libs ref_ok one_frame ?w" "frame_waiting ?w (reply_frame 2)"
    by (rule frame_arrives [OF one_frame_quiet(1)], simp add: reply_frame_ok, simp add: o)+
  have l: "listening quiet_libs ?w = listening quiet_libs one_frame" using a(1) by (simp add: later_def)
  have f: "find_connection quiet_libs DHCP_CLIENT_PORT ?w = Some 0"
    using same_listening(2) [OF l] by (simp add: find_connection_def used_connections_def one_frame_def sample_state_def sample_connection_def)
  have m: "max_packet_count (connections ?w 0) = 1"
    by (simp add: arrives_def hardware_receives_def set_packet_def one_frame_def sample_state_def sample_connection_def)
  have q: "queue_capacity quiet_libs ?w \<le> 38" using one_frame_quiet(2) by (simp add: queue_capacity_def l)
  have d: "dhcp_status (dhcp ?w) = DHCP_DISCOVER" "transaction_id (dhcp ?w) = 0" "our_mac ?w = [2, 0, 0, 0, 0, 1]" "dhcp_inv quiet_libs ref_ok {#} ?w"
    using a(1) o by (auto simp: later_def sample_state_def)
  have second: "later quiet_libs ref_ok w1 (arrives (reply_frame 5) w1)" "frame_waiting (arrives (reply_frame 5) w1) (reply_frame 5)"
    if "dhcp_inv quiet_libs ref_ok {#} w1" "rx_owner (rx_descriptors w1 ! (Suc (rx_index w1) mod 32)) = OWNER_GMAC" for w1
    by (rule frame_arrives [OF that(1)], simp add: reply_frame_ok, simp add: that(2))+
  note ack = reply_frame_ok(1) [of 5, folded d(2,3)] reply_message_ok(2) [of 5]
  note all = dhcp_lease_acquired [OF quiet.intrusive_list_axioms quiet_link d(4) q d(1) f m a(2)
      reply_frame_ok(1) [of 2, folded d(2,3)] reply_message_ok(2)]
  show ?thesis
  proof (rule returns_mono [OF all], elim conjE, intro conjI impI, assumption, elim conjE)
    fix w1
    assume next_round: "\<forall>w2 g ys lease'. later quiet_libs ref_ok w1 w2 \<and> frame_waiting w2 g \<and>
        server_frame (transaction_id (dhcp ?w)) (our_mac ?w) 0x0A000032 ys g \<and> carries ys 5 0x0A0000FE lease' 0xFFFFFF00 \<longrightarrow>
        returns (network_task quiet_libs w2) (\<lambda>w3. dhcp_status (dhcp w3) = DHCP_BOUND \<and> our_ip w3 = 0x0A000032 \<and>
          our_netmask w3 = 0xFFFFFF00 \<and> lease_time (dhcp w3) = lease' * 1000)"
      and ring: "rx_owner (rx_descriptors w1 ! (Suc (rx_index w1) mod 32)) = OWNER_GMAC" and inv: "dhcp_inv quiet_libs ref_ok {#} w1"
    from next_round [rule_format, OF conjI [OF second(1) [OF inv ring] conjI [OF second(2) [OF inv ring] conjI [OF ack]]]]
    show "returns (network_task quiet_libs (arrives (reply_frame 5) w1)) (\<lambda>w3. dhcp_status (dhcp w3) = DHCP_BOUND \<and>
       our_ip w3 = 0x0A000032 \<and> our_netmask w3 = 0xFFFFFF00 \<and> lease_time (dhcp w3) = 60000)" by simp
  qed
qed

end
