(* ===== verification/Spec2Isabelle.thy ===== *)
theory Spec2Isabelle
  imports Stack_Properties Link_Properties Cache_Map Internet_Properties Dhcp_Properties Format_Properties
    Application_Liveness Delivery Header_Layouts Exchange Lease
begin

text \<open>
  A verification library of mini-ip, a small IPv4 stack in C for a microcontroller with an Ethernet
  controller (GMAC) that transfers frames by DMA.

  \<^bold>\<open>The program.\<close>  All buffers come from one pool of 96 packets of 1024 bytes (\<open>network.c\<close>).  The driver
  (\<open>driver/gmac.c\<close>) keeps 8 of them in the transmit ring and 32 in the receive ring and exchanges
  buffers with the controller.  A frame to be sent goes down \<open>udp_send\<close> (\<open>udp.c\<close>), \<open>ip_send\<close> (\<open>ip.c\<close>),
  \<open>arp_send\<close> (\<open>arp.c\<close>) or \<open>mac_broadcast\<close>, \<open>mac_send\<close> (\<open>mac.c\<close>) and \<open>gmac_send\<close>; each layer moves \<open>index\<close>
  back and writes its header in front.  A received frame goes up \<open>gmac_receive\<close>, \<open>handle_mac\<close>, and
  \<open>handle_arp\<close> or \<open>handle_ip\<close>, \<open>handle_icmp\<close> (\<open>icmp.c\<close>) or \<open>handle_udp\<close>, which queues it on a connection.
  Packets for an address that is not resolved wait in an entry of the address cache.  \<open>network_task\<close> is
  the main loop's call: it drains the receive ring and runs \<open>arp_task\<close> and \<open>dhcp_task\<close>.  The DHCP client
  (\<open>dhcp.c\<close>) is a state machine over one connection with exponential back-off (\<open>backoff.c\<close>) and sets
  our address; the TFTP client (\<open>tftp.c\<close>) downloads a file block by block over a connection of its own.
  Everything runs on one thread, next to the controller.

  \<^bold>\<open>The model.\<close>  The static variables of the files form one record, extended layer by layer in the order
  of the files: \<open>machine\<close> (the outside world \<open>env\<close>), \<open>net_state\<close>, \<open>gmac_state\<close>, \<open>arp_state\<close>, \<open>udp_state\<close>,
  \<open>dhcp_state\<close>.  Every function is a definition of the same name that returns the updated state; a
  pointer to a packet, an entry or a connection is its index in its array, and a pointer into a buffer
  is the buffer and an integer offset.  The result type \<open>'a result\<close> is \<open>stop + 'a\<close>: \<open>Inl Fault\<close> is an access
  outside a buffer or through a null pointer, \<open>Inl Hang\<close> an endless loop.  Integers of fixed width are
  words; C ints are \<open>int\<close>, with the conversions to \<open>size_t\<close> and \<open>u16\<close> written out where they are made.  The
  widths of \<open>format_string\<close>, which an argument or a long format can drive out of range, are reduced to
  32 bits after each step.  \<open>Time\<close> is a word of 32 bits; whether the unseen \<open>time.h\<close> gives it a sign is the
  parameter \<open>time_signed\<close>, which decides how times are compared and divided.
\<close>

text \<open>
  \<^bold>\<open>The theories and what they model.\<close>
    \<^item> \<open>Prelude\<close>: words, results, \<open>bindR\<close>, checked buffer access, the collections \<open>seq\<close>, \<open>mem\<close> and \<open>sizes\<close>, and
      the judgements \<open>safe\<close> (no fault, and the postcondition if it returns) and \<open>returns\<close> (it does return).
    \<^item> \<open>Utilities\<close>: \<open>utilities.h\<close>; the locale \<open>be_field\<close> is the contract of reading and writing a number in
      network order, interpreted for two and four bytes.  \<open>Format\<close>: \<open>format_string\<close> of \<open>utilities.c\<close>.
    \<^item> \<open>Libraries\<close>: what the code calls but does not contain (\<open>list.h\<close>, \<open>time.h\<close>, \<open>random.h\<close>, registers), as
      the record \<open>libs\<close>; the locale \<open>intrusive_list\<close> is the contract of the lists.  Everything after it is
      proved within this locale or from an instance of it; \<open>ref_libs\<close> is a concrete one.
    \<^item> \<open>Network\<close>: the pool, with the locales \<open>packet_pool\<close> (allocation and release) and \<open>packet_sink\<close> (what a
      consumer of queued packets promises), both given by \<open>sublocale\<close> from the model's own operations.
      \<open>Gmac\<close>: the driver and its rings.  \<open>Mac\<close>, \<open>Arp\<close>, \<open>Checksum\<close>, \<open>Ip\<close>, \<open>Udp\<close>: the layers downwards, and the
      queues of the connections.  \<open>Receive\<close>: \<open>handle_icmp\<close>, \<open>handle_ip\<close>, \<open>handle_mac\<close>, the way up.
    \<^item> \<open>Backoff\<close>, \<open>Dhcp\<close>, \<open>Tftp\<close>: the clients.  \<open>Dhcp_Messages\<close>: the bytes the DHCP client sends;
      \<open>Dhcp_Machine\<close>: its invariant and transitions.  \<open>Header_Layouts\<close>: the packed header structures, field
      by field, and that their sizes and offsets are those the model uses.
    \<^item> \<open>Stack\<close>: \<open>network_init\<close> and \<open>network_task\<close>.  \<open>Stack_Invariant\<close>, \<open>Boot\<close>: a round and the start-up keep and
      establish the invariants.  \<open>Reachable\<close>: the step relation \<open>stack_step\<close> of calls, DMA transfers and the
      outside world, and the states it reaches.
    \<^item> \<open>Wire\<close>: the frames each sending operation hands to the controller.  \<open>Address_Text\<close>: IP addresses as
      text.  \<open>Listening\<close>: which connections are open does not change in a round.  \<open>Liveness\<close>: which calls end.
      \<open>Application\<close>: programs that also download files, whose calls are not steps of \<open>stack_step\<close> because
      \<open>try_read_oack\<close> loses a packet on a datagram of one byte.  \<open>Cache_Map\<close>: the address cache as a map.
      \<open>Samples\<close>: a concrete state for the witnesses.

  \<^bold>\<open>What is shown.\<close>
    \<^item> The whole stack (\<open>Stack_Properties\<close>, \<open>Liveness_Properties\<close>): in every reachable state each packet is in
      exactly one place and every value is well formed; no call faults; \<open>network_task\<close> and \<open>udp_send\<close>
      return; a lease in force is the one the stack is configured with.
    \<^item> The layers (\<open>Link_Properties\<close>, \<open>Cache_Properties\<close>, \<open>Cache_Map\<close>, \<open>Internet_Properties\<close>, \<open>Udp_Properties\<close>): the frames
      handed to the controller, the address cache as a map from addresses to what they resolve to or what
      waits for them, the life of a cache entry, headers that read back, checksums against the
      sum of RFC 1071, and the queue of a connection as a bounded first-in first-out queue.
    \<^item> Two hosts (\<open>Delivery\<close>, \<open>Exchange\<close>): what one stack sends arrives in the queue of the other; the address
      resolution between two of them fails, because the reply carries a reversed address.
    \<^item> The clients (\<open>Dhcp_Properties\<close>, \<open>Lease\<close>, \<open>Tftp_Properties\<close>, \<open>Tftp_Download\<close>): the messages sent, the option
      parser, a lease from the wire to the configuration, and the download of a file in order, whatever
      the network does between the calls.  A program that downloads files keeps the invariants of the
      stack, less one packet for each answer of one byte to a request (\<open>Application\<close>), and its calls return
      as long as 38 packets cover those and the queues of its connections (\<open>Application_Liveness\<close>).
    \<^item> \<open>Format_Properties\<close>: \<open>format_string\<close> against a reference printer, and its bounds.
\<close>

text \<open>
  \<^bold>\<open>Loops and bounds.\<close>  There is no fuel.  The loops of the source are recursive functions with a measure;
  \<open>wait_mdio\<close> (polling the PHY) and \<open>drain\<close> (emptying a queue through the list library) are
  \<open>partial_function (option)\<close>, whose \<open>None\<close> becomes \<open>Hang\<close>, and are shown to return under \<open>phy_ready\<close> and the
  list contract.  The receive loop of \<open>network_task\<close> is bounded by the 32 descriptors, as in the source.
  The bound of 38 packets promised to connections in the termination theorems is what the pool has left
  after the rings (40), the address cache (two for each of eight entries) and the packets in hand.

  \<^bold>\<open>Assumptions.\<close>  Each appears as a named hypothesis.
    \<^item> \<open>intrusive_list\<close>: the operations of \<open>list.h\<close> act on the list of a head as their names say.
    \<^item> \<open>phy_ready\<close>: the PHY finishes a transfer; \<open>link_ok\<close>: the controller reports no transmission error, after
      which \<open>gmac_send\<close> loops forever by design.
    \<^item> \<open>acceptable\<close> frames: shorter than a buffer, and an IPv4 packet among them that carries ICMP has a full
      header and a sender the cache has an entry or room for.  Both conditions are needed: the properties of
      \<open>short_header_ping_faults\<close> and \<open>exhausted_cache_relinks_entry\<close> show what happens otherwise.
    \<^item> \<open>ip_room\<close>, a free connection, and buffers as long as their callers say, for the calls of the
      application; for a download also cleared memory and a file name of at most 63 bytes, since
      \<open>tftp_download_file\<close> does not copy the zero that ends it.  The application sets the IP address and the
      netmask itself only while no lease is in force.
    \<^item> The controller writes only descriptors it owns and the buffers they point at.

  \<^bold>\<open>Not modelled.\<close>  The delay loop of \<open>nop\<close> instructions at the end of \<open>gmac_init\<close>, which changes no state.
  \<open>list.h\<close>, \<open>time.h\<close>, \<open>random.h\<close>, \<open>registers.h\<close>, \<open>gpio.h\<close> and \<open>clock.h\<close>, which are not part of the repository.  The
  variable arguments of \<open>format_string\<close> are a list of typed values.  Prototypes and the type names of
  \<open>utilities.h\<close> have no definition of their own.
\<close>

end
